(* ===== verification/Exchange_Prelude.thy ===== *)
theory Exchange_Prelude
  imports Main "HOL-Library.Word" "HOL-Library.Multiset" "HOL-Library.Monad_Syntax"
begin

text \<open>
  Shared vocabulary of the development: the machine integers of the C++ sources, the
  convention for undefined behaviour, the \<open>named_theorems\<close> collections of the components and
  the generic facts on words, options and lists that several components use.

  Undefined behaviour. A C++ expression such as \<open>*opt\<close> on an empty \<open>std::optional\<close>, or
  \<open>it->field\<close> through an iterator whose node has been erased, has no defined result. The model
  computes such expressions in the option monad: \<open>None\<close> stands for "the program has undefined
  behaviour here", and a theorem that an operation returns \<open>Some\<close> is a theorem that the operation
  never reaches such an expression. Under this reading dereferencing an optional is binding it.
\<close>

unbundle bit_operations_syntax

type_synonym u8 = "8 word"
type_synonym u16 = "16 word"
type_synonym u32 = "32 word"
type_synonym u64 = "64 word"
type_synonym i64 = "64 word"
type_synonym size_t = "64 word"

type_synonym 'a ub = "'a option"

named_theorems book_simps "unfolding rules of the order book's operations"
named_theorems codec_simps "unfolding rules of the wire codec"

section \<open>Options as the undefined-behaviour monad\<close>

lemma bind_ub_SomeI [intro]: "m = Some x \<Longrightarrow> f x = Some y \<Longrightarrow> Option.bind m f = Some y"
  by simp

lemma bind_ub_eq_Some:
  "(Option.bind m f = Some y) = (\<exists>x. m = Some x \<and> f x = Some y)"
  by (cases m) auto

section \<open>Words\<close>

lemma unat_diff_le: "(b :: 'a::len word) \<le> a \<Longrightarrow> unat (a - b) = unat a - unat b"
  by (simp add: unat_sub)

lemma unat_diff_less: "(b :: 'a::len word) \<le> a \<Longrightarrow> b \<noteq> 0 \<Longrightarrow> unat (a - b) < unat a"
  by (metis diff_less unat_diff_le unat_gt_0 word_gt_0 order_less_le_trans word_less_nat_alt)

lemma word_neq_zero_min: "(a :: 'a::len word) \<noteq> 0 \<Longrightarrow> b \<noteq> 0 \<Longrightarrow> min a b \<noteq> 0"
  by (simp add: min_def)

lemma unat_of_nat_less [simp]:
  "k < 2 ^ LENGTH('a) \<Longrightarrow> unat (of_nat k :: 'a::len word) = k"
  by (simp add: unat_of_nat take_bit_nat_eq_self)

lemma of_nat_eq_word_iff:
  assumes "k \<le> unat (w :: 'a::len word)"
  shows "of_nat k = w \<longleftrightarrow> k = unat w"
proof -
  have "k < 2 ^ LENGTH('a)" using assms unsigned_less [of w] by (rule order_le_less_trans)
  then have "unat (of_nat k :: 'a word) = k" by simp
  then show ?thesis by (auto simp flip: word_unat_eq_iff)
qed

lemma of_nat_eq_0_word_iff:
  assumes "k < 2 ^ LENGTH('a)"
  shows "(of_nat k :: 'a::len word) = 0 \<longleftrightarrow> k = 0"
  using assms by (simp add: word_unat_eq_iff)

section \<open>Lists\<close>

lemma of_nat_sum_list_word:
  "(of_nat (sum_list ns) :: 'a::len word) = (\<Sum>n\<leftarrow>ns. of_nat n)"
  by (induction ns) simp_all

lemma filter_neq_remove1:
  "distinct xs \<Longrightarrow> remove1 x xs = filter (\<lambda>y. y \<noteq> x) xs"
  by (induction xs) (auto intro: filter_True [symmetric])

lemma unat_succ_less: "w < v \<Longrightarrow> unat (w + 1) = Suc (unat w)" for w v :: "'a::len word"
  by (metis add.commute unatSuc word_not_simps(3) add_eq_0_iff)

end
