(* ===== verification/Wire_Bytes.thy ===== *)
theory Wire_Bytes
  imports Exchange_Prelude
begin

text \<open>
  Byte spans and little-endian integers as \<open>src/protocol.cpp\<close> and \<open>src/event_log.cpp\<close> read and
  write them. A \<open>std::span<std::byte>\<close> is a list of bytes; \<open>span[i]\<close> outside the span is undefined
  behaviour, so every access is in the undefined-behaviour monad. The write loops are shown to replace
  a segment of the span and the read loops to depend on the segment alone.
\<close>

type_synonym bytes = "u8 list"

section \<open>Accesses\<close>

definition span_get :: "bytes \<Rightarrow> nat \<Rightarrow> u8 ub" where
  "span_get s i = (if i < length s then Some (s ! i) else None)"

definition span_put :: "nat \<Rightarrow> u8 \<Rightarrow> bytes \<Rightarrow> bytes ub" where
  "span_put i b s = (if i < length s then Some (s[i := b]) else None)"

primrec write_loop :: "nat list \<Rightarrow> (nat \<Rightarrow> u8) \<Rightarrow> nat \<Rightarrow> bytes \<Rightarrow> bytes ub" where
  "write_loop [] f off out = Some out"
| "write_loop (i # is) f off out = do { out' \<leftarrow> span_put (off + i) (f i) out; write_loop is f off out' }"

primrec read_loop :: "nat list \<Rightarrow> bytes \<Rightarrow> nat \<Rightarrow> 'a::len word \<Rightarrow> 'a word ub" where
  "read_loop [] inp off val = Some val"
| "read_loop (i # is) inp off val = do {
     b \<leftarrow> span_get inp (off + i);
     read_loop is inp off (val OR push_bit (i * 8) (ucast b))
   }"

definition byte_of :: "'a::len word \<Rightarrow> nat \<Rightarrow> u8" where
  "byte_of v i = ucast (drop_bit (i * 8) v AND 0xFF)"

section \<open>The codecs' integer accesses\<close>

definition read_u16_le :: "bytes \<Rightarrow> nat \<Rightarrow> u16 ub" where
  "read_u16_le inp off = do {
     low \<leftarrow> span_get inp off;
     high \<leftarrow> span_get inp (off + 1);
     Some ((ucast low :: u16) OR push_bit 8 (ucast high))
   }"

definition write_u16_le :: "nat \<Rightarrow> u16 \<Rightarrow> bytes \<Rightarrow> bytes ub" where
  "write_u16_le off v out = do {
     out1 \<leftarrow> span_put off (ucast (v AND 0xFF)) out;
     span_put (off + 1) (ucast (drop_bit 8 v AND 0xFF)) out1
   }"

definition read_u64_le :: "bytes \<Rightarrow> nat \<Rightarrow> u64 ub" where
  "read_u64_le inp off = read_loop [0..<8] inp off 0"

definition read_i64_le :: "bytes \<Rightarrow> nat \<Rightarrow> i64 ub" where
  "read_i64_le inp off = read_u64_le inp off"

definition write_u64_le :: "nat \<Rightarrow> u64 \<Rightarrow> bytes \<Rightarrow> bytes ub" where
  "write_u64_le off v out = write_loop [0..<8] (byte_of v) off out"

definition write_i64_le :: "nat \<Rightarrow> i64 \<Rightarrow> bytes \<Rightarrow> bytes ub" where
  "write_i64_le off v out = write_u64_le off v out"

text \<open>The loops over reserved bytes: filling with zeros, and testing for a non-zero byte.\<close>

definition write_zeros :: "nat \<Rightarrow> nat \<Rightarrow> bytes \<Rightarrow> bytes ub" where
  "write_zeros off n out = write_loop [0..<n] (\<lambda>_. 0) off out"

primrec zero_loop :: "nat list \<Rightarrow> bytes \<Rightarrow> nat \<Rightarrow> bool ub" where
  "zero_loop [] inp off = Some True"
| "zero_loop (i # is) inp off = do {
     b \<leftarrow> span_get inp (off + i);
     if b \<noteq> 0 then Some False else zero_loop is inp off
   }"

definition reserved_zero :: "bytes \<Rightarrow> nat \<Rightarrow> nat \<Rightarrow> bool ub" where
  "reserved_zero inp off n = zero_loop [0..<n] inp off"

section \<open>Segments\<close>

definition overwrite :: "nat \<Rightarrow> bytes \<Rightarrow> bytes \<Rightarrow> bytes" where
  "overwrite off bs out = take off out @ bs @ drop (off + length bs) out"

definition segment :: "bytes \<Rightarrow> nat \<Rightarrow> nat \<Rightarrow> bytes" where
  "segment inp off n = take n (drop off inp)"

lemma length_overwrite [simp]: "off + length bs \<le> length out \<Longrightarrow> length (overwrite off bs out) = length out"
  by (simp add: overwrite_def)

lemma length_segment [simp]: "off + n \<le> length inp \<Longrightarrow> length (segment inp off n) = n"
  by (simp add: segment_def)

lemma write_loop_from:
  "k \<le> n \<Longrightarrow> off + n \<le> length out \<Longrightarrow>
   write_loop [k..<n] f off out = Some (overwrite (off + k) (map f [k..<n]) out)"
proof (induction "n - k" arbitrary: k out)
  case (Suc d)
  then have lt: "k < n" by simp
  then have up: "[k..<n] = k # [Suc k..<n]" by (simp add: upt_conv_Cons)
  have "write_loop [Suc k..<n] f off (out[off + k := f k]) =
      Some (overwrite (off + Suc k) (map f [Suc k..<n]) (out[off + k := f k]))"
    using Suc by (intro Suc.hyps(1)) auto
  moreover have "overwrite (off + Suc k) (map f [Suc k..<n]) (out[off + k := f k]) = overwrite (off + k) (map f [k..<n]) out"
    using lt Suc.prems(2) by (simp add: overwrite_def up take_Suc_conv_app_nth drop_update_cancel)
  ultimately show ?case using lt Suc.prems(2) by (simp add: up span_put_def)
qed (simp add: overwrite_def)

lemma write_loop_overwrite:
  "off + n \<le> length out \<Longrightarrow> write_loop [0..<n] f off out = Some (overwrite off (map f [0..<n]) out)"
  using write_loop_from [of 0 n off out f] by simp

definition bytes_of :: "nat \<Rightarrow> 'a::len word \<Rightarrow> bytes" where
  "bytes_of n v = map (byte_of v) [0..<n]"

lemma length_bytes_of [simp]: "length (bytes_of n v) = n"
  by (simp add: bytes_of_def)

lemma write_u64_overwrite [codec_simps]:
  "off + 8 \<le> length out \<Longrightarrow> write_u64_le off v out = Some (overwrite off (bytes_of 8 v) out)"
  unfolding write_u64_le_def bytes_of_def by (rule write_loop_overwrite)

lemma write_i64_overwrite [codec_simps]:
  "off + 8 \<le> length out \<Longrightarrow> write_i64_le off v out = Some (overwrite off (bytes_of 8 v) out)"
  unfolding write_i64_le_def by (rule write_u64_overwrite)

lemma write_zeros_overwrite [codec_simps]:
  "off + n \<le> length out \<Longrightarrow> write_zeros off n out = Some (overwrite off (replicate n 0) out)"
  unfolding write_zeros_def by (simp add: write_loop_overwrite map_replicate_const)

lemma write_u16_overwrite [codec_simps]:
  "off + 2 \<le> length out \<Longrightarrow> write_u16_le off v out = Some (overwrite off (bytes_of 2 v) out)"
proof -
  assume len: "off + 2 \<le> length out"
  have "write_u16_le off v out = write_loop [0..<2] (byte_of v) off out"
    using len by (simp add: write_u16_le_def byte_of_def numeral_2_eq_2 span_put_def)
  then show ?thesis using write_loop_overwrite [OF len] by (simp add: bytes_of_def)
qed

lemma span_put_overwrite [codec_simps]:
  "i < length out \<Longrightarrow> span_put i b out = Some (overwrite i [b] out)"
  by (simp add: span_put_def overwrite_def upd_conv_take_nth_drop)

section \<open>Integers from segments\<close>

primrec word_of_bytes :: "bytes \<Rightarrow> 'a::len word" where
  "word_of_bytes [] = 0"
| "word_of_bytes (b # bs) = ucast b OR push_bit 8 (word_of_bytes bs)"

lemma segment_Suc:
  "off < length inp \<Longrightarrow> segment inp off (Suc n) = inp ! off # segment inp (Suc off) n"
  by (simp add: segment_def Cons_nth_drop_Suc [symmetric])

lemma read_loop_from:
  "k \<le> n \<Longrightarrow> off + n \<le> length inp \<Longrightarrow>
   read_loop [k..<n] inp off val = Some (val OR push_bit (k * 8) (word_of_bytes (segment inp (off + k) (n - k))))"
proof (induction "n - k" arbitrary: k val)
  case (Suc d)
  then have lt: "k < n" by simp
  then have up: "[k..<n] = k # [Suc k..<n]" by (simp add: upt_conv_Cons)
  have seg: "segment inp (off + k) (n - k) = inp ! (off + k) # segment inp (off + Suc k) (n - Suc k)"
    using segment_Suc [of "off + k" inp "n - Suc k"] lt Suc.prems(2) by (simp add: Suc_diff_Suc)
  have "read_loop [Suc k..<n] inp off w =
      Some (w OR push_bit (Suc k * 8) (word_of_bytes (segment inp (off + Suc k) (n - Suc k))))" for w :: "'a word"
    using Suc by (intro Suc.hyps(1)) auto
  moreover have "off + k < length inp" using lt Suc.prems(2) by simp
  ultimately show ?case
    unfolding up seg by (simp add: span_get_def push_bit_or or.assoc add.commute)
qed (simp add: segment_def)

lemma read_u64_segment [codec_simps]:
  "off + 8 \<le> length inp \<Longrightarrow> read_u64_le inp off = Some (word_of_bytes (segment inp off 8))"
  using read_loop_from [of 0 8 off inp 0] by (simp add: read_u64_le_def)

lemma read_i64_segment [codec_simps]:
  "off + 8 \<le> length inp \<Longrightarrow> read_i64_le inp off = Some (word_of_bytes (segment inp off 8))"
  by (simp add: read_i64_le_def read_u64_segment)

lemma read_u16_segment [codec_simps]:
  "off + 2 \<le> length inp \<Longrightarrow> read_u16_le inp off = Some (word_of_bytes (segment inp off 2))"
proof -
  assume len: "off + 2 \<le> length inp"
  have "segment inp off 2 = [inp ! off, inp ! Suc off]"
    using segment_Suc [of off inp 1] segment_Suc [of "Suc off" inp 0] len
    by (simp add: numeral_2_eq_2 segment_def)
  then show ?thesis using len by (simp add: read_u16_le_def span_get_def)
qed

lemma zero_loop_from:
  "k \<le> n \<Longrightarrow> off + n \<le> length inp \<Longrightarrow>
   zero_loop [k..<n] inp off = Some (segment inp (off + k) (n - k) = replicate (n - k) 0)"
proof (induction "n - k" arbitrary: k)
  case (Suc d)
  then have lt: "k < n" by simp
  then have up: "[k..<n] = k # [Suc k..<n]" by (simp add: upt_conv_Cons)
  have "n - k = Suc (n - Suc k)" using lt by simp
  then have seg: "segment inp (off + k) (n - k) = inp ! (off + k) # segment inp (off + Suc k) (n - Suc k)"
      "replicate (n - k) (0 :: u8) = 0 # replicate (n - Suc k) 0"
    using segment_Suc [of "off + k" inp "n - Suc k"] lt Suc.prems(2) by simp_all
  have "zero_loop [Suc k..<n] inp off = Some (segment inp (off + Suc k) (n - Suc k) = replicate (n - Suc k) 0)"
    using Suc by (intro Suc.hyps(1)) auto
  moreover have "off + k < length inp" using lt Suc.prems(2) by simp
  ultimately show ?case unfolding up seg by (simp add: span_get_def)
qed (simp add: segment_def)

lemma reserved_zero_segment [codec_simps]:
  "off + n \<le> length inp \<Longrightarrow> reserved_zero inp off n = Some (segment inp off n = replicate n 0)"
  using zero_loop_from [of 0 n off inp] by (simp add: reserved_zero_def)

lemma span_get_nth [codec_simps]: "i < length inp \<Longrightarrow> span_get inp i = Some (inp ! i)"
  by (simp add: span_get_def)

section \<open>Bytes and words are inverse\<close>

lemma bit_byte_of: "bit (byte_of v i) j \<longleftrightarrow> j < 8 \<and> bit v (8 * i + j)" for v :: "'a::len word"
proof -
  have "byte_of v i = ucast (drop_bit (i * 8) v AND mask 8)" by (simp add: byte_of_def mask_eq_exp_minus_1)
  then show ?thesis by (auto simp: bit_simps ac_simps dest: bit_imp_le_length)
qed

lemma bit_word_of_bytes:
  "bit (word_of_bytes bs :: 'a::len word) k \<longleftrightarrow>
     k < LENGTH('a) \<and> k div 8 < length bs \<and> bit (bs ! (k div 8)) (k mod 8)"
proof (induction bs arbitrary: k)
  case (Cons b bs)
  show ?case
  proof (cases "k < 8")
    case True
    then show ?thesis by (auto simp: bit_simps)
  next
    case False
    then have "k div 8 = Suc ((k - 8) div 8)" "k mod 8 = (k - 8) mod 8"
      by (simp_all add: div_if mod_if)
    moreover have "\<not> bit b k" using False bit_imp_le_length [of b k] by auto
    ultimately show ?thesis using False Cons.IH [of "k - 8"] by (auto simp: bit_simps)
  qed
qed simp

lemma word_of_bytes_of:
  "LENGTH('a::len) = 8 * n \<Longrightarrow> word_of_bytes (bytes_of n (v :: 'a word)) = v"
  by (rule bit_word_eqI) (auto simp: bit_word_of_bytes bit_byte_of bytes_of_def less_mult_imp_div_less ac_simps)

lemma bytes_of_word:
  assumes "length bs = n" and "LENGTH('a::len) = 8 * n"
  shows "bytes_of n (word_of_bytes bs :: 'a word) = bs"
proof (rule nth_equalityI)
  fix i
  assume "i < length (bytes_of n (word_of_bytes bs :: 'a word))"
  then have i: "i < n" by simp
  have "byte_of (word_of_bytes bs :: 'a word) i = bs ! i"
  proof (rule bit_word_eqI)
    fix j
    assume "j < LENGTH(8)"
    then have "j < 8" by simp
    then show "bit (byte_of (word_of_bytes bs :: 'a word) i) j = bit (bs ! i) j"
      using i assms by (simp add: bit_byte_of bit_word_of_bytes)
  qed
  then show "bytes_of n (word_of_bytes bs :: 'a word) ! i = bs ! i" using i by (simp add: bytes_of_def)
qed (use assms in simp)

lemma u64_bytes [simp]: "word_of_bytes (bytes_of 8 v) = (v :: u64)"
  by (rule word_of_bytes_of) simp

lemma u16_bytes [simp]: "word_of_bytes (bytes_of 2 v) = (v :: u16)"
  by (rule word_of_bytes_of) simp

lemma bytes_u64: "length bs = 8 \<Longrightarrow> bytes_of 8 (word_of_bytes bs :: u64) = bs"
  by (rule bytes_of_word) simp_all

lemma bytes_u16: "length bs = 2 \<Longrightarrow> bytes_of 2 (word_of_bytes bs :: u16) = bs"
  by (rule bytes_of_word) simp_all

end
