(* ===== verification/Exchange_Types.thy ===== *)
theory Exchange_Types
  imports Exchange_Prelude
begin

text \<open>
  The domain primitives of \<open>include/low_latency_exchange/types.hpp\<close> and the commands of
  \<open>include/low_latency_exchange/order_command.hpp\<close>.

  Each C++ value class wraps one integer behind a private constructor and a checked factory.
  It becomes a datatype with one constructor; the factory is an option-valued function; the class
  invariant, which the private constructor enforces in C++, is a predicate (\<open>*_ok\<close>) that the
  components carry in their own invariants. The defaulted \<open>operator<=>\<close> compares the wrapped
  integer, signed for \<open>Price\<close> and unsigned for the others, and becomes a \<open>linorder\<close> instance.
\<close>

section \<open>Value classes\<close>

datatype price = Price (ticks: i64)

datatype quantity = Quantity (units: u64)

datatype order_id = OrderId (oid_value: u64)

datatype sequence_number = SequenceNumber (seq_value: u64)

datatype feed_sequence = FeedSequence (fs_value: u64)

definition from_ticks :: "i64 \<Rightarrow> price option" where
  "from_ticks t = (if sint t \<le> 0 then None else Some (Price t))"

definition from_units :: "u64 \<Rightarrow> quantity option" where
  "from_units u = (if u = 0 then None else Some (Quantity u))"

definition order_id_from_value :: "u64 \<Rightarrow> order_id option" where
  "order_id_from_value v = (if v = 0 then None else Some (OrderId v))"

definition sequence_from_value :: "u64 \<Rightarrow> sequence_number option" where
  "sequence_from_value v = (if v = 0 then None else Some (SequenceNumber v))"

definition feed_sequence_from_value :: "u64 \<Rightarrow> feed_sequence option" where
  "feed_sequence_from_value v = (if v = 0 then None else Some (FeedSequence v))"

datatype side = Buy | Sell

datatype order_type = Limit | Market

section \<open>Order commands\<close>

record new_order =
  no_sequence :: sequence_number
  no_order_id :: order_id
  no_side :: side
  no_type :: order_type
  no_quantity :: quantity
  no_limit_price :: "price option"

datatype new_order_validation_error = Limit_order_missing_price | Market_order_has_price

definition validate :: "new_order \<Rightarrow> new_order_validation_error option" where
  "validate order =
    (if no_type order = Limit \<and> no_limit_price order = None then Some Limit_order_missing_price
     else if no_type order = Market \<and> no_limit_price order \<noteq> None then Some Market_order_has_price
     else None)"

record cancel_order =
  co_sequence :: sequence_number
  co_order_id :: order_id

record replace_order =
  rpo_sequence :: sequence_number
  rpo_order_id :: order_id
  rpo_new_quantity :: quantity
  rpo_new_price :: price

section \<open>Orders on the value classes\<close>

lemma sint_eqD: "sint (v :: 'a::len word) = sint w \<Longrightarrow> v = w"
  by (metis of_int_sint scast_id)

text \<open>The defaulted \<open>operator<=>\<close> of \<open>Price\<close> compares the signed ticks; the class \<open>linorder\<close> is instantiated with it.\<close>

definition price_at_most :: "price \<Rightarrow> price \<Rightarrow> bool" where
  "price_at_most p q \<longleftrightarrow> sint (ticks p) \<le> sint (ticks q)"

definition price_below :: "price \<Rightarrow> price \<Rightarrow> bool" where
  "price_below p q \<longleftrightarrow> sint (ticks p) < sint (ticks q)"

instantiation price :: linorder
begin

definition less_eq_price :: "price \<Rightarrow> price \<Rightarrow> bool" where
  "p \<le> q \<longleftrightarrow> price_at_most p q"

definition less_price :: "price \<Rightarrow> price \<Rightarrow> bool" where
  "p < q \<longleftrightarrow> price_below p q"

instance
  by standard (auto simp: less_eq_price_def less_price_def price_at_most_def price_below_def intro!: price.expand dest: sint_eqD)

end

instantiation quantity :: linorder
begin

definition less_eq_quantity :: "quantity \<Rightarrow> quantity \<Rightarrow> bool" where
  "p \<le> q \<longleftrightarrow> units p \<le> units q"

definition less_quantity :: "quantity \<Rightarrow> quantity \<Rightarrow> bool" where
  "p < q \<longleftrightarrow> units p < units q"

instance
  by standard (auto simp: less_eq_quantity_def less_quantity_def intro: quantity.expand)

end

instantiation order_id :: linorder
begin

definition less_eq_order_id :: "order_id \<Rightarrow> order_id \<Rightarrow> bool" where
  "p \<le> q \<longleftrightarrow> oid_value p \<le> oid_value q"

definition less_order_id :: "order_id \<Rightarrow> order_id \<Rightarrow> bool" where
  "p < q \<longleftrightarrow> oid_value p < oid_value q"

instance
  by standard (auto simp: less_eq_order_id_def less_order_id_def intro: order_id.expand)

end

instantiation sequence_number :: linorder
begin

definition less_eq_sequence_number :: "sequence_number \<Rightarrow> sequence_number \<Rightarrow> bool" where
  "p \<le> q \<longleftrightarrow> seq_value p \<le> seq_value q"

definition less_sequence_number :: "sequence_number \<Rightarrow> sequence_number \<Rightarrow> bool" where
  "p < q \<longleftrightarrow> seq_value p < seq_value q"

instance
  by standard
    (auto simp: less_eq_sequence_number_def less_sequence_number_def intro: sequence_number.expand)

end

instantiation feed_sequence :: linorder
begin

definition less_eq_feed_sequence :: "feed_sequence \<Rightarrow> feed_sequence \<Rightarrow> bool" where
  "p \<le> q \<longleftrightarrow> fs_value p \<le> fs_value q"

definition less_feed_sequence :: "feed_sequence \<Rightarrow> feed_sequence \<Rightarrow> bool" where
  "p < q \<longleftrightarrow> fs_value p < fs_value q"

instance
  by standard
    (auto simp: less_eq_feed_sequence_def less_feed_sequence_def intro: feed_sequence.expand)

end

section \<open>Class invariants\<close>

definition price_ok :: "price \<Rightarrow> bool" where
  "price_ok p \<longleftrightarrow> 0 < sint (ticks p)"

definition quantity_ok :: "quantity \<Rightarrow> bool" where
  "quantity_ok q \<longleftrightarrow> units q \<noteq> 0"

definition order_id_ok :: "order_id \<Rightarrow> bool" where
  "order_id_ok i \<longleftrightarrow> oid_value i \<noteq> 0"

definition sequence_ok :: "sequence_number \<Rightarrow> bool" where
  "sequence_ok s \<longleftrightarrow> seq_value s \<noteq> 0"

definition feed_sequence_ok :: "feed_sequence \<Rightarrow> bool" where
  "feed_sequence_ok s \<longleftrightarrow> fs_value s \<noteq> 0"

definition new_order_ok :: "new_order \<Rightarrow> bool" where
  "new_order_ok order \<longleftrightarrow> sequence_ok (no_sequence order) \<and> order_id_ok (no_order_id order) \<and>
     quantity_ok (no_quantity order) \<and> (\<forall>p \<in> set_option (no_limit_price order). price_ok p)"

definition cancel_order_ok :: "cancel_order \<Rightarrow> bool" where
  "cancel_order_ok c \<longleftrightarrow> sequence_ok (co_sequence c) \<and> order_id_ok (co_order_id c)"

definition replace_order_ok :: "replace_order \<Rightarrow> bool" where
  "replace_order_ok c \<longleftrightarrow> sequence_ok (rpo_sequence c) \<and> order_id_ok (rpo_order_id c) \<and>
     quantity_ok (rpo_new_quantity c) \<and> price_ok (rpo_new_price c)"

section \<open>The contract of a value class\<close>

text \<open>
  What every client of a value class relies on: the factory accepts exactly the values the class
  admits, and the accessor is its left inverse. The codec and the order book use the laws below
  through the five interpretations.
\<close>

locale value_class =
  fixes make :: "'w \<Rightarrow> 'v option"
    and con :: "'w \<Rightarrow> 'v"
    and val :: "'v \<Rightarrow> 'w"
    and admits :: "'w \<Rightarrow> bool"
    and ok :: "'v \<Rightarrow> bool"
  assumes make_if: "make w = (if admits w then Some (con w) else None)"
    and val_con: "val (con w) = w"
    and con_val: "con (val v) = v"
    and ok_iff: "ok v \<longleftrightarrow> admits (val v)"
begin

lemma make_eq_Some: "make w = Some v \<longleftrightarrow> admits w \<and> w = val v"
  by (auto simp: make_if val_con con_val)

lemma make_eq_None: "make w = None \<longleftrightarrow> \<not> admits w"
  by (simp add: make_if)

lemma make_val: "ok v \<Longrightarrow> make (val v) = Some v"
  by (simp add: make_if ok_iff con_val)

lemma make_ok: "make w = Some v \<Longrightarrow> ok v"
  by (auto simp: make_eq_Some ok_iff)

lemma val_eq_iff: "val v = val v' \<longleftrightarrow> v = v'"
  by (metis con_val)

lemmas value_laws = make_eq_Some make_eq_None make_val make_ok val_eq_iff

end

interpretation price_class: value_class from_ticks Price ticks "\<lambda>t. 0 < sint t" price_ok
  by unfold_locales (auto simp: from_ticks_def price_ok_def)

interpretation quantity_class: value_class from_units Quantity units "\<lambda>u. u \<noteq> 0" quantity_ok
  by unfold_locales (auto simp: from_units_def quantity_ok_def)

interpretation order_id_class:
  value_class order_id_from_value OrderId oid_value "\<lambda>u. u \<noteq> 0" order_id_ok
  by unfold_locales (auto simp: order_id_from_value_def order_id_ok_def)

interpretation sequence_class:
  value_class sequence_from_value SequenceNumber seq_value "\<lambda>u. u \<noteq> 0" sequence_ok
  by unfold_locales (auto simp: sequence_from_value_def sequence_ok_def)

interpretation feed_sequence_class:
  value_class feed_sequence_from_value FeedSequence fs_value "\<lambda>u. u \<noteq> 0" feed_sequence_ok
  by unfold_locales (auto simp: feed_sequence_from_value_def feed_sequence_ok_def)

lemma validate_None_iff:
  "validate order = None \<longleftrightarrow> (no_type order = Market \<longleftrightarrow> no_limit_price order = None)"
  by (cases "no_type order") (auto simp: validate_def)

end
