(* ===== verification/Std_Containers.thy ===== *)
theory Std_Containers
  imports Exchange_Prelude
begin

text \<open>
  The associative containers of the C++ standard library, as far as the sources use them.

  A \<open>std::map<K, V, Cmp>\<close> is its sequence of entries in the order of \<open>Cmp\<close>, the order in which
  iteration visits them and whose first entry is \<open>begin()\<close>; the comparator is an argument \<open>lt\<close>.
  A \<open>std::unordered_map<K, V>\<close> is an association list with distinct keys: the sources look keys
  up, insert, erase and ask for the size, and never depend on its iteration order.
\<close>

section \<open>std::map\<close>

definition om_find :: "'k \<Rightarrow> ('k \<times> 'v) list \<Rightarrow> 'v option" where
  "om_find k m = map_of m k"

fun om_put :: "('k \<Rightarrow> 'k \<Rightarrow> bool) \<Rightarrow> 'k \<Rightarrow> 'v \<Rightarrow> ('k \<times> 'v) list \<Rightarrow> ('k \<times> 'v) list" where
  "om_put lt k v [] = [(k, v)]"
| "om_put lt k v ((a, w) # m) =
     (if k = a then (k, v) # m
      else if lt k a then (k, v) # (a, w) # m
      else (a, w) # om_put lt k v m)"

text \<open>
  \<open>m[k]\<close> inserts a value-initialised element when the key is absent and yields a reference;
  every use in the sources writes through it, so the model updates the element with \<open>f\<close>.
\<close>

definition om_subscript_update ::
    "('k \<Rightarrow> 'k \<Rightarrow> bool) \<Rightarrow> 'v \<Rightarrow> 'k \<Rightarrow> ('v \<Rightarrow> 'v) \<Rightarrow> ('k \<times> 'v) list \<Rightarrow> ('k \<times> 'v) list" where
  "om_subscript_update lt dflt k f m =
     om_put lt k (f (case om_find k m of None \<Rightarrow> dflt | Some v \<Rightarrow> v)) m"

definition om_erase :: "'k \<Rightarrow> ('k \<times> 'v) list \<Rightarrow> ('k \<times> 'v) list" where
  "om_erase k m = filter (\<lambda>e. fst e \<noteq> k) m"

section \<open>std::unordered_map\<close>

definition um_find :: "'k \<Rightarrow> ('k \<times> 'v) list \<Rightarrow> 'v option" where
  "um_find k m = map_of m k"

definition um_contains :: "'k \<Rightarrow> ('k \<times> 'v) list \<Rightarrow> bool" where
  "um_contains k m \<longleftrightarrow> um_find k m \<noteq> None"

text \<open>\<open>emplace\<close> leaves an existing element as it is.\<close>

definition um_emplace :: "'k \<Rightarrow> 'v \<Rightarrow> ('k \<times> 'v) list \<Rightarrow> ('k \<times> 'v) list" where
  "um_emplace k v m = (if um_contains k m then m else (k, v) # m)"

definition um_assign :: "'k \<Rightarrow> 'v \<Rightarrow> ('k \<times> 'v) list \<Rightarrow> ('k \<times> 'v) list" where
  "um_assign k v m = (k, v) # filter (\<lambda>e. fst e \<noteq> k) m"

definition um_erase :: "'k \<Rightarrow> ('k \<times> 'v) list \<Rightarrow> ('k \<times> 'v) list" where
  "um_erase k m = filter (\<lambda>e. fst e \<noteq> k) m"

section \<open>The contract of an associative container\<close>

locale assoc_container =
  fixes find :: "'k \<Rightarrow> 'm \<Rightarrow> 'v option"
    and put :: "'k \<Rightarrow> 'v \<Rightarrow> 'm \<Rightarrow> 'm"
    and erase :: "'k \<Rightarrow> 'm \<Rightarrow> 'm"
    and inv :: "'m \<Rightarrow> bool"
  assumes find_put: "inv m \<Longrightarrow> find k (put k' v m) = (if k = k' then Some v else find k m)"
    and find_erase: "inv m \<Longrightarrow> find k (erase k' m) = (if k = k' then None else find k m)"
    and inv_put: "inv m \<Longrightarrow> inv (put k v m)"
    and inv_erase: "inv m \<Longrightarrow> inv (erase k m)"
begin

lemma erase_put: "inv m \<Longrightarrow> find k (erase k' (put k' v m)) = find k (erase k' m)"
  by (simp add: find_put find_erase inv_put)

lemma put_put: "inv m \<Longrightarrow> find k (put k' v (put k' w m)) = find k (put k' v m)"
  by (simp add: find_put inv_put)

lemma put_commute:
  "inv m \<Longrightarrow> a \<noteq> b \<Longrightarrow> find k (put a v (put b w m)) = find k (put b w (put a v m))"
  by (simp add: find_put inv_put)

end

lemma map_of_filter_neq: "map_of (filter (\<lambda>e. fst e \<noteq> k') m) k = (if k = k' then None else map_of m k)"
  by (induction m) auto

lemma distinct_keys_filter: "distinct (map fst m) \<Longrightarrow> distinct (map fst (filter P m))"
  by (induction m) auto

interpretation unordered_map:
  assoc_container um_find um_assign um_erase "\<lambda>m. distinct (map fst m)"
  by unfold_locales
    (auto simp: um_find_def um_assign_def um_erase_def map_of_filter_neq distinct_keys_filter)

section \<open>Comparators and sorted entries\<close>

text \<open>
  A comparator is a strict total order; the entries of the map are strictly increasing in it.
  The laws of the container follow once for every comparator.
\<close>

locale comparator =
  fixes lt :: "'k \<Rightarrow> 'k \<Rightarrow> bool"
  assumes irrefl: "\<not> lt a a"
    and trans: "lt a b \<Longrightarrow> lt b c \<Longrightarrow> lt a c"
    and total: "a \<noteq> b \<Longrightarrow> lt a b \<or> lt b a"
begin

abbreviation ordered :: "('k \<times> 'v) list \<Rightarrow> bool" where
  "ordered m \<equiv> sorted_wrt lt (map fst m)"

lemma asym: "lt a b \<Longrightarrow> \<not> lt b a"
  using irrefl trans by blast

lemma ordered_distinct: "ordered m \<Longrightarrow> distinct (map fst m)"
proof (induction m)
  case (Cons e m)
  then have "\<forall>x \<in> fst ` set m. lt (fst e) x" and "distinct (map fst m)" by auto
  then show ?case using irrefl by auto
qed simp

lemma fst_set_om_put: "fst ` set (om_put lt k v m) = insert k (fst ` set m)"
  by (induction lt k v m rule: om_put.induct) auto

lemma ordered_om_put: "ordered m \<Longrightarrow> ordered (om_put lt k v m)"
proof (induction m)
  case (Cons e m)
  obtain a w where e: "e = (a, w)" by (cases e)
  have less: "\<forall>x \<in> fst ` set m. lt a x" and ord: "ordered m"
    using Cons.prems e by auto
  have "\<forall>x \<in> fst ` set (om_put lt k v m). lt a x" if "k \<noteq> a" "\<not> lt k a"
    using less that total [of k a] by (auto simp: fst_set_om_put)
  with Cons.IH [OF ord] less ord e show ?case
    by (auto intro: trans simp: image_iff)
qed simp

lemma map_of_om_put: "ordered m \<Longrightarrow> map_of (om_put lt k' v m) k = (if k = k' then Some v else map_of m k)"
proof (induction m)
  case (Cons e m)
  obtain a w where e: "e = (a, w)" by (cases e)
  show ?case using Cons by (auto simp: e)
qed auto

lemma ordered_filter: "ordered m \<Longrightarrow> ordered (filter P m)"
  by (induction m) auto

lemma ordered_om_erase: "ordered m \<Longrightarrow> ordered (om_erase k m)"
  by (simp add: om_erase_def ordered_filter)

sublocale ordered_map: assoc_container om_find "om_put lt" om_erase ordered
  by unfold_locales
    (auto simp: om_find_def om_erase_def map_of_om_put map_of_filter_neq ordered_om_put ordered_om_erase [unfolded om_erase_def])

text \<open>Where an entry sits: the entries before it are smaller, the entries after it larger.\<close>

lemma ordered_split:
  assumes "ordered m" and "map_of m k = Some v"
  obtains m1 m2 where "m = m1 @ (k, v) # m2"
    and "\<forall>e \<in> set m1. lt (fst e) k" and "\<forall>e \<in> set m2. lt k (fst e)"
proof -
  from assms(2) have "(k, v) \<in> set m" by (rule map_of_SomeD)
  then obtain m1 m2 where "m = m1 @ (k, v) # m2" by (auto dest: split_list)
  with assms(1) that show thesis by (auto simp: sorted_wrt_append)
qed

lemma om_put_middle:
  "\<forall>e \<in> set m1. lt (fst e) k \<Longrightarrow> om_put lt k v (m1 @ (k, w) # m2) = m1 @ (k, v) # m2"
  by (induction m1) (auto dest: asym irrefl [THEN notE])

lemma om_erase_middle:
  "\<forall>e \<in> set m1. lt (fst e) k \<Longrightarrow> \<forall>e \<in> set m2. lt k (fst e) \<Longrightarrow>
   om_erase k (m1 @ (k, w) # m2) = m1 @ m2"
proof -
  assume "\<forall>e \<in> set m1. lt (fst e) k" and "\<forall>e \<in> set m2. lt k (fst e)"
  then have "\<forall>e \<in> set (m1 @ m2). fst e \<noteq> k" using irrefl by auto
  then show ?thesis by (auto simp: om_erase_def filter_id_conv intro!: arg_cong2 [of _ _ _ _ append])
qed

text \<open>\<open>m[k]\<close>: the entry is updated where it stands, or inserted at its place.\<close>

lemma filters_beyond:
  assumes "lt k a" and "\<forall>e \<in> set m. lt a (fst e)"
  shows "filter (\<lambda>e. lt (fst e) k) m = []" and "filter (\<lambda>e. lt k (fst e)) m = m"
proof -
  have "\<forall>e \<in> set m. lt k (fst e) \<and> \<not> lt (fst e) k"
    using assms by (metis trans asym)
  then show "filter (\<lambda>e. lt (fst e) k) m = []" and "filter (\<lambda>e. lt k (fst e)) m = m"
    by (simp_all add: filter_empty_conv filter_id_conv)
qed

lemma om_put_new:
  "ordered m \<Longrightarrow> map_of m k = None \<Longrightarrow>
   om_put lt k v m = filter (\<lambda>e. lt (fst e) k) m @ (k, v) # filter (\<lambda>e. lt k (fst e)) m \<and>
   filter (\<lambda>e. lt (fst e) k) m @ filter (\<lambda>e. lt k (fst e)) m = m"
proof (induction m)
  case (Cons e m)
  obtain a w where e: "e = (a, w)" by (cases e)
  have less: "\<forall>e' \<in> set m. lt a (fst e')" and ne: "k \<noteq> a" using Cons.prems e by auto
  show ?case
  proof (cases "lt k a")
    case True
    with filters_beyond [OF True less] e ne asym show ?thesis by simp
  next
    case False
    with ne total have "lt a k" by blast
    with False Cons e ne show ?thesis by simp
  qed
qed simp

lemma subscript_cases:
  assumes "ordered m"
  obtains (found) m1 v m2 where "om_find k m = Some v" and "m = m1 @ (k, v) # m2"
      and "\<forall>e \<in> set m1. lt (fst e) k" and "\<forall>e \<in> set m2. lt k (fst e)"
      and "om_subscript_update lt d k f m = m1 @ (k, f v) # m2"
  | (absent) m1 m2 where "om_find k m = None" and "m = m1 @ m2"
      and "\<forall>e \<in> set m1. lt (fst e) k" and "\<forall>e \<in> set m2. lt k (fst e)"
      and "om_subscript_update lt d k f m = m1 @ (k, f d) # m2"
proof (cases "map_of m k")
  case (Some v)
  with assms obtain m1 m2 where "m = m1 @ (k, v) # m2"
    "\<forall>e \<in> set m1. lt (fst e) k" "\<forall>e \<in> set m2. lt k (fst e)" by (rule ordered_split)
  with Some found show thesis by (simp add: om_subscript_update_def om_find_def om_put_middle)
next
  case None
  note new = om_put_new [OF assms None]
  show thesis
  proof (rule absent)
    show "om_find k m = None" using None by (simp add: om_find_def)
    then show "om_subscript_update lt d k f m =
        filter (\<lambda>e. lt (fst e) k) m @ (k, f d) # filter (\<lambda>e. lt k (fst e)) m"
      using new by (simp add: om_subscript_update_def)
  qed (use new in auto)
qed

end

end
