(* ===== verification/Order_Book.thy ===== *)
theory Order_Book
  imports Exchange_Types Std_Containers
begin

text \<open>
  The matching core: \<open>include/low_latency_exchange/order_book.hpp\<close> and \<open>src/order_book.cpp\<close>.

  The two \<open>std::map\<close>s of price levels are lists of entries in comparator order (best price first),
  the index \<open>resting_orders_\<close> is an association list, \<open>seen_order_ids_\<close> a set. The nodes of the
  \<open>std::list<RestingOrder>\<close>s live in an explicit store, because the index holds iterators into those
  lists and the code reads, writes and erases through them: an iterator is a node address, a list is
  its sequence of node addresses, \<open>it->field\<close> looks the address up in the store and is undefined
  behaviour when the node has been erased, \<open>push_back\<close> allocates a fresh address.

  Every operation is a function from the state to a result and the new state in the
  undefined-behaviour monad of the prelude. The loops keep their shape and are proved terminating.
\<close>

section \<open>Result and state types\<close>

type_synonym node = nat

datatype order_reject_reason = Invalid_order | Market_orders_not_supported | Duplicate_order_id

record execution =
  ex_resting_order_id :: order_id
  ex_incoming_order_id :: order_id
  ex_price :: price
  ex_quantity :: quantity

record submit_result =
  sr_executions :: "execution list"
  sr_rejection :: "order_reject_reason option"
  sr_remaining_quantity :: "quantity option"

definition submit_accepted :: "submit_result \<Rightarrow> bool" where
  "submit_accepted r \<longleftrightarrow> sr_rejection r = None"

datatype cancel_reject_reason = Cancel_order_not_found

record cancel_result =
  cr_order_id :: order_id
  cr_cancelled_quantity :: "quantity option"
  cr_rejection :: "cancel_reject_reason option"

definition cancel_accepted :: "cancel_result \<Rightarrow> bool" where
  "cancel_accepted r \<longleftrightarrow> cr_rejection r = None"

datatype replace_reject_reason = Replace_order_not_found

record replace_result =
  rr_order_id :: order_id
  rr_executions :: "execution list"
  rr_remaining_quantity :: "quantity option"
  rr_rejection :: "replace_reject_reason option"

definition replace_accepted :: "replace_result \<Rightarrow> bool" where
  "replace_accepted r \<longleftrightarrow> rr_rejection r = None"

record level_quote =
  lq_price :: price
  lq_quantity :: quantity
  lq_order_count :: size_t

record book_depth =
  bd_bids :: "level_quote list"
  bd_asks :: "level_quote list"

record resting_order =
  ro_order_id :: order_id
  ro_sequence :: sequence_number
  ro_remaining_quantity :: quantity

record price_level =
  pl_total_units :: u64
  pl_orders :: "node list"

record order_location =
  ol_side :: side
  ol_price :: price
  ol_it :: node

type_synonym levels = "(price \<times> price_level) list"

record order_book =
  ob_bids :: levels
  ob_asks :: levels
  ob_resting_orders :: "(order_id \<times> order_location) list"
  ob_seen_order_ids :: "order_id set"
  ob_resting_order_count :: size_t
  ob_nodes :: "node \<rightharpoonup> resting_order"
  ob_next_node :: node

definition empty_level :: price_level where
  "empty_level = \<lparr>pl_total_units = 0, pl_orders = []\<rparr>"

definition empty_book :: order_book where
  "empty_book = \<lparr>ob_bids = [], ob_asks = [], ob_resting_orders = [], ob_seen_order_ids = {},
     ob_resting_order_count = 0, ob_nodes = Map.empty, ob_next_node = 0\<rparr>"

section \<open>Matching\<close>

text \<open>
  The inner loop of \<open>match_against_book\<close>, at one price level: it consumes the queue from the
  front. \<open>tot\<close> is the level's \<open>total_units\<close>, \<open>rem\<close> the incoming order's remaining units.
\<close>

definition drop_filled :: "node \<Rightarrow> resting_order \<Rightarrow> order_book \<Rightarrow> order_book" where
  "drop_filled n resting b =
     b\<lparr>ob_resting_orders := um_erase (ro_order_id resting) (ob_resting_orders b),
       ob_nodes := (ob_nodes b)(n := None),
       ob_resting_order_count := ob_resting_order_count b - 1\<rparr>"

definition reduce_front :: "node \<Rightarrow> resting_order \<Rightarrow> quantity \<Rightarrow> order_book \<Rightarrow> order_book" where
  "reduce_front n resting q b =
     b\<lparr>ob_nodes := (ob_nodes b)(n \<mapsto> resting\<lparr>ro_remaining_quantity := q\<rparr>)\<rparr>"

lemma min_diff_less:
  "from_units (min rem u) = Some q \<Longrightarrow> unat ((rem :: u64) - min rem u) < unat rem"
  by (rule unat_diff_less) (auto simp: quantity_class.make_eq_Some min_def split: if_splits)

function (sequential) match_orders ::
    "order_id \<Rightarrow> price \<Rightarrow> node list \<Rightarrow> u64 \<Rightarrow> u64 \<Rightarrow> execution list \<Rightarrow> order_book \<Rightarrow>
     (node list \<times> u64 \<times> u64 \<times> execution list \<times> order_book) ub" where
  "match_orders inc px [] tot rem exs b = Some ([], tot, rem, exs, b)"
| "match_orders inc px (n # ns) tot rem exs b =
     (if rem = 0 then Some (n # ns, tot, rem, exs, b)
      else do {
        resting \<leftarrow> ob_nodes b n;
        let executed = min rem (units (ro_remaining_quantity resting));
        executed_quantity \<leftarrow> from_units executed;
        let exs' = exs @ [\<lparr>ex_resting_order_id = ro_order_id resting, ex_incoming_order_id = inc,
                           ex_price = px, ex_quantity = executed_quantity\<rparr>];
        let rem' = rem - executed;
        let tot' = tot - executed;
        let resting_remaining = units (ro_remaining_quantity resting) - executed;
        if resting_remaining = 0
        then match_orders inc px ns tot' rem' exs' (drop_filled n resting b)
        else do {
          q \<leftarrow> from_units resting_remaining;
          match_orders inc px (n # ns) tot' rem' exs' (reduce_front n resting q b)
        }
      })"
  by pat_completeness auto
termination
  by (relation "measures [\<lambda>(_, _, ns, _, _, _, _). length ns, \<lambda>(_, _, _, _, rem, _, _). unat rem]")
    (auto simp: min_diff_less)

declare match_orders.simps(2) [simp del]

text \<open>
  One iteration of the loop, by cases: the front order is filled and the loop goes on with the
  rest of the queue, or it is reduced and the incoming order is exhausted.
\<close>

lemma match_orders_Cons:
  "match_orders inc px (n # ns) tot rem exs b =
     (if rem = 0 then Some (n # ns, tot, rem, exs, b)
      else case ob_nodes b n of None \<Rightarrow> None
      | Some r \<Rightarrow> let u = units (ro_remaining_quantity r) in
          if u = 0 then None
          else if u \<le> rem then
            match_orders inc px ns (tot - u) (rem - u)
              (exs @ [\<lparr>ex_resting_order_id = ro_order_id r, ex_incoming_order_id = inc,
                       ex_price = px, ex_quantity = Quantity u\<rparr>]) (drop_filled n r b)
          else Some (n # ns, tot - rem, 0,
              exs @ [\<lparr>ex_resting_order_id = ro_order_id r, ex_incoming_order_id = inc,
                      ex_price = px, ex_quantity = Quantity rem\<rparr>],
              reduce_front n r (Quantity (u - rem)) b))"
  by (cases "ob_nodes b n")
    (auto simp: match_orders.simps(2) [of inc px n ns _ rem] match_orders.simps(2) [of inc px n ns _ 0]
      Let_def from_units_def min_def)

lemma match_orders_stops:
  "match_orders inc px ns tot rem exs b = Some (ns', tot', rem', exs', b') \<Longrightarrow> ns' \<noteq> [] \<Longrightarrow> rem' = 0"
  by (induction ns arbitrary: tot rem exs b)
    (auto simp: match_orders_Cons Let_def split: if_splits option.splits)

text \<open>
  The outer loop over the price levels of the contra side, best price first. The loop condition is
  evaluated left to right: an exhausted order or an empty side ends the loop before the limit price
  is read.
\<close>

function (sequential) match_levels ::
    "(price \<Rightarrow> bool ub) \<Rightarrow> order_id \<Rightarrow> levels \<Rightarrow> u64 \<Rightarrow> execution list \<Rightarrow> order_book \<Rightarrow>
     (levels \<times> u64 \<times> execution list \<times> order_book) ub" where
  "match_levels crosses inc [] rem exs b = Some ([], rem, exs, b)"
| "match_levels crosses inc ((px, level) # rest) rem exs b =
     (if rem = 0 then Some ((px, level) # rest, rem, exs, b)
      else do {
        c \<leftarrow> crosses px;
        if \<not> c then Some ((px, level) # rest, rem, exs, b)
        else do {
          (orders, tot, rem', exs', b') \<leftarrow>
            match_orders inc px (pl_orders level) (pl_total_units level) rem exs b;
          if orders = [] then match_levels crosses inc rest rem' exs' b'
          else match_levels crosses inc
                 ((px, level\<lparr>pl_total_units := tot, pl_orders := orders\<rparr>) # rest) rem' exs' b'
        }
      })"
  by pat_completeness auto
termination
  by (relation "measures [\<lambda>(_, _, ls, _, _, _). length ls, \<lambda>(_, _, _, rem, _, _). unat rem]")
    (auto dest: match_orders_stops simp: unat_gt_0)

declare match_levels.simps(2) [simp del]

definition buy_crosses :: "order_type \<Rightarrow> price option \<Rightarrow> price \<Rightarrow> bool ub" where
  "buy_crosses type limit_price px =
     (if type = Market then Some True else do { lp \<leftarrow> limit_price; Some (px \<le> lp) })"

definition sell_crosses :: "order_type \<Rightarrow> price option \<Rightarrow> price \<Rightarrow> bool ub" where
  "sell_crosses type limit_price px =
     (if type = Market then Some True else do { lp \<leftarrow> limit_price; Some (px \<ge> lp) })"

definition match_against_book ::
    "order_id \<Rightarrow> side \<Rightarrow> order_type \<Rightarrow> price option \<Rightarrow> u64 \<Rightarrow> execution list \<Rightarrow> order_book \<Rightarrow>
     (u64 \<times> execution list \<times> order_book) ub" where
  "match_against_book inc side type limit_price rem exs b =
     (case side of
        Buy \<Rightarrow> do {
          (ls, rem', exs', b') \<leftarrow>
            match_levels (buy_crosses type limit_price) inc (ob_asks b) rem exs b;
          Some (rem', exs', b'\<lparr>ob_asks := ls\<rparr>) }
      | Sell \<Rightarrow> do {
          (ls, rem', exs', b') \<leftarrow>
            match_levels (sell_crosses type limit_price) inc (ob_bids b) rem exs b;
          Some (rem', exs', b'\<lparr>ob_bids := ls\<rparr>) })"

section \<open>Insertion and removal of resting orders\<close>

definition insert_resting_order ::
    "order_id \<Rightarrow> sequence_number \<Rightarrow> side \<Rightarrow> price \<Rightarrow> quantity \<Rightarrow> order_book \<Rightarrow> order_book" where
  "insert_resting_order oid seq side px q b =
     (let n = ob_next_node b;
          resting = \<lparr>ro_order_id = oid, ro_sequence = seq, ro_remaining_quantity = q\<rparr>;
          push = (\<lambda>level. level\<lparr>pl_total_units := pl_total_units level + units q,
                                pl_orders := pl_orders level @ [n]\<rparr>);
          b1 = b\<lparr>ob_nodes := (ob_nodes b)(n \<mapsto> resting), ob_next_node := n + 1,
                 ob_resting_orders :=
                   um_emplace oid \<lparr>ol_side = side, ol_price = px, ol_it = n\<rparr> (ob_resting_orders b),
                 ob_resting_order_count := ob_resting_order_count b + 1\<rparr>
      in case side of
           Buy \<Rightarrow> b1\<lparr>ob_bids := om_subscript_update (>) empty_level px push (ob_bids b)\<rparr>
         | Sell \<Rightarrow> b1\<lparr>ob_asks := om_subscript_update (<) empty_level px push (ob_asks b)\<rparr>)"

text \<open>
  Erasing a node from the list of the level found at the location's price; a location whose level
  is missing is skipped, as in the code. \<open>orders.erase(it)\<close> through an iterator of another list is
  undefined behaviour.
\<close>

definition erase_from_level ::
    "(price \<Rightarrow> price \<Rightarrow> bool) \<Rightarrow> price \<Rightarrow> node \<Rightarrow> u64 \<Rightarrow> levels \<Rightarrow> levels ub" where
  "erase_from_level lt px it u ls =
     (case om_find px ls of
        None \<Rightarrow> Some ls
      | Some level \<Rightarrow>
          if it \<notin> set (pl_orders level) then None
          else let level' = level\<lparr>pl_total_units := pl_total_units level - u,
                                  pl_orders := remove1 it (pl_orders level)\<rparr>
               in Some (if pl_orders level' = [] then om_erase px ls else om_put lt px level' ls))"

definition remove_resting_order ::
    "order_location \<Rightarrow> order_id \<Rightarrow> order_book \<Rightarrow> (quantity \<times> order_book) ub" where
  "remove_resting_order loc oid b = do {
     resting \<leftarrow> ob_nodes b (ol_it loc);
     let cancelled_quantity = ro_remaining_quantity resting;
     b1 \<leftarrow> (case ol_side loc of
        Buy \<Rightarrow> do {
          ls \<leftarrow> erase_from_level (>) (ol_price loc) (ol_it loc) (units cancelled_quantity) (ob_bids b);
          Some (b\<lparr>ob_bids := ls, ob_nodes := (if om_find (ol_price loc) (ob_bids b) = None
             then ob_nodes b else (ob_nodes b)(ol_it loc := None))\<rparr>) }
      | Sell \<Rightarrow> do {
          ls \<leftarrow> erase_from_level (<) (ol_price loc) (ol_it loc) (units cancelled_quantity) (ob_asks b);
          Some (b\<lparr>ob_asks := ls, ob_nodes := (if om_find (ol_price loc) (ob_asks b) = None
             then ob_nodes b else (ob_nodes b)(ol_it loc := None))\<rparr>) });
     Some (cancelled_quantity,
           b1\<lparr>ob_resting_orders := um_erase oid (ob_resting_orders b1),
              ob_resting_order_count := ob_resting_order_count b1 - 1\<rparr>)
   }"

section \<open>Commands\<close>

definition submit :: "new_order \<Rightarrow> order_book \<Rightarrow> (submit_result \<times> order_book) ub" where
  "submit order b =
     (if validate order \<noteq> None then
        Some (\<lparr>sr_executions = [], sr_rejection = Some Invalid_order,
               sr_remaining_quantity = None\<rparr>, b)
      else if no_order_id order \<in> ob_seen_order_ids b then
        Some (\<lparr>sr_executions = [], sr_rejection = Some Duplicate_order_id,
               sr_remaining_quantity = None\<rparr>, b)
      else do {
        let b0 = b\<lparr>ob_seen_order_ids := insert (no_order_id order) (ob_seen_order_ids b)\<rparr>;
        (rem, exs, b1) \<leftarrow> match_against_book (no_order_id order) (no_side order) (no_type order)
                            (no_limit_price order) (units (no_quantity order)) [] b0;
        if no_type order = Limit \<and> rem > 0 then do {
          remaining_quantity \<leftarrow> from_units rem;
          lp \<leftarrow> no_limit_price order;
          Some (\<lparr>sr_executions = exs, sr_rejection = None,
                 sr_remaining_quantity = Some remaining_quantity\<rparr>,
                insert_resting_order (no_order_id order) (no_sequence order) (no_side order) lp
                  remaining_quantity b1)
        }
        else Some (\<lparr>sr_executions = exs, sr_rejection = None, sr_remaining_quantity = None\<rparr>, b1)
      })"

definition cancel :: "cancel_order \<Rightarrow> order_book \<Rightarrow> (cancel_result \<times> order_book) ub" where
  "cancel command b =
     (case um_find (co_order_id command) (ob_resting_orders b) of
        None \<Rightarrow> Some (\<lparr>cr_order_id = co_order_id command, cr_cancelled_quantity = None,
                       cr_rejection = Some Cancel_order_not_found\<rparr>, b)
      | Some loc \<Rightarrow> do {
          (q, b') \<leftarrow> remove_resting_order loc (co_order_id command) b;
          Some (\<lparr>cr_order_id = co_order_id command, cr_cancelled_quantity = Some q,
                 cr_rejection = None\<rparr>, b')
        })"

definition reduce_in_place ::
    "order_location \<Rightarrow> quantity \<Rightarrow> u64 \<Rightarrow> order_book \<Rightarrow> order_book ub" where
  "reduce_in_place loc new_quantity unit_diff b = do {
     let shrink = (\<lambda>level. level\<lparr>pl_total_units := pl_total_units level - unit_diff\<rparr>);
     let b1 = (case ol_side loc of
          Buy \<Rightarrow> b\<lparr>ob_bids := om_subscript_update (>) empty_level (ol_price loc) shrink (ob_bids b)\<rparr>
        | Sell \<Rightarrow> b\<lparr>ob_asks := om_subscript_update (<) empty_level (ol_price loc) shrink (ob_asks b)\<rparr>);
     resting \<leftarrow> ob_nodes b1 (ol_it loc);
     Some (b1\<lparr>ob_nodes := (ob_nodes b1)
                 (ol_it loc \<mapsto> resting\<lparr>ro_remaining_quantity := new_quantity\<rparr>)\<rparr>)
   }"

definition replace :: "replace_order \<Rightarrow> order_book \<Rightarrow> (replace_result \<times> order_book) ub" where
  "replace command b =
     (case um_find (rpo_order_id command) (ob_resting_orders b) of
        None \<Rightarrow> Some (\<lparr>rr_order_id = rpo_order_id command, rr_executions = [],
                       rr_remaining_quantity = None, rr_rejection = Some Replace_order_not_found\<rparr>, b)
      | Some loc \<Rightarrow> do {
          resting \<leftarrow> ob_nodes b (ol_it loc);
          let current_units = units (ro_remaining_quantity resting);
          let new_units = units (rpo_new_quantity command);
          if rpo_new_price command = ol_price loc \<and> new_units \<le> current_units then do {
            b' \<leftarrow> reduce_in_place loc (rpo_new_quantity command) (current_units - new_units) b;
            Some (\<lparr>rr_order_id = rpo_order_id command, rr_executions = [],
                   rr_remaining_quantity = Some (rpo_new_quantity command), rr_rejection = None\<rparr>, b')
          }
          else do {
            (_, b1) \<leftarrow> remove_resting_order loc (rpo_order_id command) b;
            (rem, exs, b2) \<leftarrow> match_against_book (rpo_order_id command) (ol_side loc) Limit
                                (Some (rpo_new_price command)) new_units [] b1;
            if rem > 0 then do {
              remaining_quantity \<leftarrow> from_units rem;
              Some (\<lparr>rr_order_id = rpo_order_id command, rr_executions = exs,
                     rr_remaining_quantity = Some remaining_quantity, rr_rejection = None\<rparr>,
                    insert_resting_order (rpo_order_id command) (rpo_sequence command) (ol_side loc)
                      (rpo_new_price command) remaining_quantity b2)
            }
            else Some (\<lparr>rr_order_id = rpo_order_id command, rr_executions = exs,
                        rr_remaining_quantity = None, rr_rejection = None\<rparr>, b2)
          }
        })"

section \<open>Queries\<close>

definition best_bid :: "order_book \<Rightarrow> price option" where
  "best_bid b = (case ob_bids b of [] \<Rightarrow> None | (px, _) # _ \<Rightarrow> Some px)"

definition best_ask :: "order_book \<Rightarrow> price option" where
  "best_ask b = (case ob_asks b of [] \<Rightarrow> None | (px, _) # _ \<Rightarrow> Some px)"

text \<open>\<open>LevelQuote{price, *Quantity::from_units(level.total_units), level.orders.size()}\<close>: the
  quantity is read through an optional that is empty when \<open>total_units\<close> is zero.\<close>

definition quote_level :: "price \<times> price_level \<Rightarrow> level_quote ub" where
  "quote_level e = do {
     q \<leftarrow> from_units (pl_total_units (snd e));
     Some \<lparr>lq_price = fst e, lq_quantity = q, lq_order_count = of_nat (length (pl_orders (snd e)))\<rparr>
   }"

definition top_bid :: "order_book \<Rightarrow> level_quote option ub" where
  "top_bid b = (case ob_bids b of [] \<Rightarrow> Some None | e # _ \<Rightarrow> do { lq \<leftarrow> quote_level e; Some (Some lq) })"

definition top_ask :: "order_book \<Rightarrow> level_quote option ub" where
  "top_ask b = (case ob_asks b of [] \<Rightarrow> Some None | e # _ \<Rightarrow> do { lq \<leftarrow> quote_level e; Some (Some lq) })"

fun depth_loop :: "size_t \<Rightarrow> levels \<Rightarrow> level_quote list \<Rightarrow> level_quote list ub" where
  "depth_loop max_depth [] acc = Some acc"
| "depth_loop max_depth (e # ls) acc =
     (if of_nat (length acc) = max_depth then Some acc
      else do { lq \<leftarrow> quote_level e; depth_loop max_depth ls (acc @ [lq]) })"

definition bid_depth :: "size_t \<Rightarrow> order_book \<Rightarrow> level_quote list ub" where
  "bid_depth max_depth b = depth_loop max_depth (ob_bids b) []"

definition ask_depth :: "size_t \<Rightarrow> order_book \<Rightarrow> level_quote list ub" where
  "ask_depth max_depth b = depth_loop max_depth (ob_asks b) []"

definition depth :: "size_t \<Rightarrow> order_book \<Rightarrow> book_depth ub" where
  "depth max_depth b = do {
     bids \<leftarrow> bid_depth max_depth b;
     asks \<leftarrow> ask_depth max_depth b;
     Some \<lparr>bd_bids = bids, bd_asks = asks\<rparr>
   }"

fun copy_levels :: "levels \<Rightarrow> nat \<Rightarrow> level_quote option list \<Rightarrow> level_quote option list ub" where
  "copy_levels [] index out = Some out"
| "copy_levels (e # ls) index out =
     (if index = length out then Some out
      else do { lq \<leftarrow> quote_level e; copy_levels ls (index + 1) (out[index := Some lq]) })"

definition copy_depth ::
    "level_quote option list \<Rightarrow> level_quote option list \<Rightarrow> order_book \<Rightarrow>
     (level_quote option list \<times> level_quote option list) ub" where
  "copy_depth bid_out ask_out b = do {
     let bid_reset = map (\<lambda>_. None) bid_out;
     let ask_reset = map (\<lambda>_. None) ask_out;
     bids \<leftarrow> copy_levels (ob_bids b) 0 bid_reset;
     asks \<leftarrow> copy_levels (ob_asks b) 0 ask_reset;
     Some (bids, asks)
   }"

definition resting_order_count :: "order_book \<Rightarrow> size_t" where
  "resting_order_count b = ob_resting_order_count b"

definition contains :: "order_id \<Rightarrow> order_book \<Rightarrow> bool" where
  "contains oid b \<longleftrightarrow> um_contains oid (ob_resting_orders b)"

text \<open>
  The self-check. The loop over one level's queue accumulates \<open>counted_units\<close> and returns \<open>None\<close>
  inside \<open>Some\<close> where the code returns \<open>false\<close>.
\<close>

fun validate_orders ::
    "side \<Rightarrow> price \<Rightarrow> node list \<Rightarrow> u64 \<Rightarrow> order_book \<Rightarrow> u64 option ub" where
  "validate_orders side px [] counted b = Some (Some counted)"
| "validate_orders side px (n # ns) counted b = do {
     order \<leftarrow> ob_nodes b n;
     let counted' = counted + units (ro_remaining_quantity order);
     case um_find (ro_order_id order) (ob_resting_orders b) of
       None \<Rightarrow> Some None
     | Some loc \<Rightarrow>
         if ol_side loc \<noteq> side \<or> ol_price loc \<noteq> px then Some None
         else do {
           pointed \<leftarrow> ob_nodes b (ol_it loc);
           if ro_order_id pointed \<noteq> ro_order_id order then Some None
           else validate_orders side px ns counted' b
         }
   }"

fun validate_levels :: "side \<Rightarrow> levels \<Rightarrow> size_t \<Rightarrow> order_book \<Rightarrow> size_t option ub" where
  "validate_levels side [] total_orders b = Some (Some total_orders)"
| "validate_levels side ((px, level) # ls) total_orders b =
     (if pl_orders level = [] \<or> pl_total_units level = 0 then Some None
      else do {
        counted \<leftarrow> validate_orders side px (pl_orders level) 0 b;
        (case counted of
           None \<Rightarrow> Some None
         | Some counted_units \<Rightarrow>
             if counted_units \<noteq> pl_total_units level then Some None
             else validate_levels side ls (total_orders + of_nat (length (pl_orders level))) b)
      })"

definition validate_invariants :: "order_book \<Rightarrow> bool ub" where
  "validate_invariants b =
     (if ob_bids b \<noteq> [] \<and> ob_asks b \<noteq> [] \<and> fst (hd (ob_bids b)) \<ge> fst (hd (ob_asks b))
      then Some False
      else do {
        bid_total \<leftarrow> validate_levels Buy (ob_bids b) 0 b;
        (case bid_total of
           None \<Rightarrow> Some False
         | Some t \<Rightarrow> do {
             ask_total \<leftarrow> validate_levels Sell (ob_asks b) t b;
             (case ask_total of
                None \<Rightarrow> Some False
              | Some total_orders \<Rightarrow>
                  Some (\<not> (total_orders \<noteq> ob_resting_order_count b \<or>
                           total_orders \<noteq> of_nat (length (ob_resting_orders b)))))
           })
      })"

section \<open>State digest\<close>

definition kFnvOffsetBasis :: u64 where
  "kFnvOffsetBasis = 14695981039346656037"

definition kFnvPrime :: u64 where
  "kFnvPrime = 1099511628211"

definition hash_u64 :: "u64 \<Rightarrow> u64 \<Rightarrow> u64" where
  "hash_u64 v hash =
     fold (\<lambda>byte h. (h XOR (drop_bit (byte * 8) v AND 0xFF)) * kFnvPrime) [0..<8] hash"

fun hash_orders :: "(node \<rightharpoonup> resting_order) \<Rightarrow> node list \<Rightarrow> u64 \<Rightarrow> u64 ub" where
  "hash_orders nodes [] hash = Some hash"
| "hash_orders nodes (n # ns) hash = do {
     order \<leftarrow> nodes n;
     hash_orders nodes ns
       (hash_u64 (units (ro_remaining_quantity order))
         (hash_u64 (seq_value (ro_sequence order))
           (hash_u64 (oid_value (ro_order_id order)) hash)))
   }"

fun hash_levels :: "(node \<rightharpoonup> resting_order) \<Rightarrow> levels \<Rightarrow> u64 \<Rightarrow> u64 ub" where
  "hash_levels nodes [] hash = Some hash"
| "hash_levels nodes ((px, level) # ls) hash = do {
     hash' \<leftarrow> hash_orders nodes (pl_orders level)
       (hash_u64 (of_nat (length (pl_orders level)))
         (hash_u64 (pl_total_units level) (hash_u64 (ticks px) hash)));
     hash_levels nodes ls hash'
   }"

definition side_value :: "side \<Rightarrow> u64" where
  "side_value s = (case s of Buy \<Rightarrow> 0 | Sell \<Rightarrow> 1)"

definition hash_side :: "(node \<rightharpoonup> resting_order) \<Rightarrow> levels \<Rightarrow> side \<Rightarrow> u64 \<Rightarrow> u64 ub" where
  "hash_side nodes ls side hash =
     hash_levels nodes ls (hash_u64 (of_nat (length ls)) (hash_u64 (side_value side) hash))"

definition state_digest :: "order_book \<Rightarrow> u64 ub" where
  "state_digest b = do {
     h1 \<leftarrow> hash_side (ob_nodes b) (ob_bids b) Buy kFnvOffsetBasis;
     h2 \<leftarrow> hash_side (ob_nodes b) (ob_asks b) Sell h1;
     Some (hash_u64 (ob_resting_order_count b) h2)
   }"

section \<open>Commands as values\<close>

text \<open>
  \<open>InboundCommand\<close> (\<open>tcp_gateway.hpp\<close>) and \<open>CapturedCommand\<close> (\<open>event_log.hpp\<close>) are the same
  variant; \<open>apply_command\<close> is the dispatcher of \<open>src/event_log.cpp\<close>.
\<close>

datatype command = Monostate | New_order new_order | Cancel_order cancel_order | Replace_order replace_order

definition apply_command :: "order_book \<Rightarrow> command \<Rightarrow> (bool \<times> order_book) ub" where
  "apply_command b c =
     (case c of
        New_order order \<Rightarrow> do { (r, b') \<leftarrow> submit order b; Some (submit_accepted r, b') }
      | Cancel_order order \<Rightarrow> do { (r, b') \<leftarrow> cancel order b; Some (cancel_accepted r, b') }
      | Replace_order order \<Rightarrow> do { (r, b') \<leftarrow> replace order b; Some (replace_accepted r, b') }
      | Monostate \<Rightarrow> Some (False, b))"

fun command_sequence :: "command \<Rightarrow> u64" where
  "command_sequence (New_order order) = seq_value (no_sequence order)"
| "command_sequence (Cancel_order order) = seq_value (co_sequence order)"
| "command_sequence (Replace_order order) = seq_value (rpo_sequence order)"
| "command_sequence Monostate = 0"

definition command_ok :: "command \<Rightarrow> bool" where
  "command_ok c =
     (case c of
        New_order order \<Rightarrow> new_order_ok order
      | Cancel_order order \<Rightarrow> cancel_order_ok order
      | Replace_order order \<Rightarrow> replace_order_ok order
      | Monostate \<Rightarrow> True)"

end
