(* ===== verification/Protocol.thy ===== *)
theory Protocol
  imports Wire_Bytes Order_Book
begin

text \<open>
  The binary wire protocol: \<open>include/low_latency_exchange/protocol.hpp\<close> and
  \<open>src/protocol.cpp\<close>. \<open>MessageType\<close> and \<open>ErrorCode\<close> are enumerations with a fixed underlying
  type into which the code casts arbitrary bytes, so their values are all bytes and all 16-bit words,
  with names for the enumerators. A decoder returns the error code it returns, or the value it stores
  through its output reference; an encoder returns its flag and the contents of the output span.
\<close>

section \<open>Constants, message types and error codes\<close>

definition kMagic :: u16 where "kMagic = 0x584C"
definition kVersion :: u8 where "kVersion = 1"
definition kHeaderSize :: nat where "kHeaderSize = 8"
definition kMaxPayloadLength :: u16 where "kMaxPayloadLength = 1024"
definition kFlagMore :: u16 where "kFlagMore = 0x0001"
definition kFlagReservedMask :: u16 where "kFlagReservedMask = 0xFFFE"

datatype message_type = MessageType (mt_value: u8)

definition mt_new_order :: message_type where "mt_new_order = MessageType 1"
definition mt_cancel_order :: message_type where "mt_cancel_order = MessageType 2"
definition mt_replace_order :: message_type where "mt_replace_order = MessageType 3"
definition mt_order_accepted :: message_type where "mt_order_accepted = MessageType 16"
definition mt_order_rejected :: message_type where "mt_order_rejected = MessageType 17"
definition mt_execution :: message_type where "mt_execution = MessageType 18"
definition mt_cancel_accepted :: message_type where "mt_cancel_accepted = MessageType 19"
definition mt_cancel_rejected :: message_type where "mt_cancel_rejected = MessageType 20"
definition mt_replace_accepted :: message_type where "mt_replace_accepted = MessageType 21"
definition mt_replace_rejected :: message_type where "mt_replace_rejected = MessageType 22"
definition mt_protocol_error :: message_type where "mt_protocol_error = MessageType 23"

lemmas mt_defs = mt_new_order_def mt_cancel_order_def mt_replace_order_def mt_order_accepted_def
  mt_order_rejected_def mt_execution_def mt_cancel_accepted_def mt_cancel_rejected_def
  mt_replace_accepted_def mt_replace_rejected_def mt_protocol_error_def

datatype error_code = ErrorCode (ec_value: u16)

definition malformed_frame :: error_code where "malformed_frame = ErrorCode 1"
definition unsupported_version :: error_code where "unsupported_version = ErrorCode 2"
definition unknown_message_type :: error_code where "unknown_message_type = ErrorCode 3"
definition payload_length_invalid :: error_code where "payload_length_invalid = ErrorCode 4"
definition payload_too_large :: error_code where "payload_too_large = ErrorCode 5"
definition invalid_field :: error_code where "invalid_field = ErrorCode 6"
definition limit_order_missing_price :: error_code where "limit_order_missing_price = ErrorCode 7"
definition market_order_has_price :: error_code where "market_order_has_price = ErrorCode 8"
definition invalid_order :: error_code where "invalid_order = ErrorCode 100"
definition duplicate_order_id :: error_code where "duplicate_order_id = ErrorCode 101"
definition order_not_found :: error_code where "order_not_found = ErrorCode 102"
definition session_overloaded :: error_code where "session_overloaded = ErrorCode 200"
definition sequence_out_of_order :: error_code where "sequence_out_of_order = ErrorCode 201"

lemmas ec_defs = malformed_frame_def unsupported_version_def unknown_message_type_def
  payload_length_invalid_def payload_too_large_def invalid_field_def limit_order_missing_price_def
  market_order_has_price_def invalid_order_def duplicate_order_id_def order_not_found_def
  session_overloaded_def sequence_out_of_order_def

definition kNewOrderSize :: nat where "kNewOrderSize = 40"
definition kCancelOrderSize :: nat where "kCancelOrderSize = 16"
definition kReplaceOrderSize :: nat where "kReplaceOrderSize = 32"
definition kOrderAcceptedSize :: nat where "kOrderAcceptedSize = 24"
definition kOrderRejectedSize :: nat where "kOrderRejectedSize = 24"
definition kExecutionSize :: nat where "kExecutionSize = 40"
definition kCancelAcceptedSize :: nat where "kCancelAcceptedSize = 24"
definition kCancelRejectedSize :: nat where "kCancelRejectedSize = 24"
definition kReplaceAcceptedSize :: nat where "kReplaceAcceptedSize = 24"
definition kReplaceRejectedSize :: nat where "kReplaceRejectedSize = 24"
definition kProtocolErrorSize :: nat where "kProtocolErrorSize = 8"

lemmas size_defs [codec_simps] = kNewOrderSize_def kCancelOrderSize_def kReplaceOrderSize_def
  kOrderAcceptedSize_def kOrderRejectedSize_def kExecutionSize_def kCancelAcceptedSize_def
  kCancelRejectedSize_def kReplaceAcceptedSize_def kReplaceRejectedSize_def kProtocolErrorSize_def

section \<open>Headers\<close>

record wire_header =
  wh_magic :: u16
  wh_version :: u8
  wh_type :: message_type
  wh_flags :: u16
  wh_payload_length :: u16

definition is_inbound :: "message_type \<Rightarrow> bool" where
  "is_inbound t \<longleftrightarrow> mt_value t \<ge> 1 \<and> mt_value t \<le> 15"

definition is_outbound :: "message_type \<Rightarrow> bool" where
  "is_outbound t \<longleftrightarrow> mt_value t \<ge> 16 \<and> mt_value t \<le> 31"

definition flags_reserved_bits_clear :: "u16 \<Rightarrow> bool" where
  "flags_reserved_bits_clear flags \<longleftrightarrow> flags AND kFlagReservedMask = 0"

definition expected_payload_length :: "message_type \<Rightarrow> u16 option" where
  "expected_payload_length t =
     (if t = mt_new_order then Some (of_nat kNewOrderSize)
      else if t = mt_cancel_order then Some (of_nat kCancelOrderSize)
      else if t = mt_replace_order then Some (of_nat kReplaceOrderSize)
      else if t = mt_order_accepted then Some (of_nat kOrderAcceptedSize)
      else if t = mt_order_rejected then Some (of_nat kOrderRejectedSize)
      else if t = mt_execution then Some (of_nat kExecutionSize)
      else if t = mt_cancel_accepted then Some (of_nat kCancelAcceptedSize)
      else if t = mt_cancel_rejected then Some (of_nat kCancelRejectedSize)
      else if t = mt_replace_accepted then Some (of_nat kReplaceAcceptedSize)
      else if t = mt_replace_rejected then Some (of_nat kReplaceRejectedSize)
      else if t = mt_protocol_error then Some (of_nat kProtocolErrorSize)
      else None)"

definition is_known_message_type :: "message_type \<Rightarrow> bool" where
  "is_known_message_type t \<longleftrightarrow> expected_payload_length t \<noteq> None"

definition validate_header :: "wire_header \<Rightarrow> error_code option" where
  "validate_header h =
     (if wh_magic h \<noteq> kMagic then Some malformed_frame
      else if wh_version h \<noteq> kVersion then Some unsupported_version
      else if wh_payload_length h > kMaxPayloadLength then Some payload_too_large
      else if \<not> flags_reserved_bits_clear (wh_flags h) then Some invalid_field
      else case expected_payload_length (wh_type h) of
             None \<Rightarrow> Some unknown_message_type
           | Some expected \<Rightarrow> if wh_payload_length h \<noteq> expected then Some payload_length_invalid else None)"

definition encode_header :: "wire_header \<Rightarrow> bytes \<Rightarrow> (bool \<times> bytes) ub" where
  "encode_header h out =
     (if length out < kHeaderSize then Some (False, out)
      else do {
        o1 \<leftarrow> write_u16_le 0 (wh_magic h) out;
        o2 \<leftarrow> span_put 2 (wh_version h) o1;
        o3 \<leftarrow> span_put 3 (mt_value (wh_type h)) o2;
        o4 \<leftarrow> write_u16_le 4 (wh_flags h) o3;
        o5 \<leftarrow> write_u16_le 6 (wh_payload_length h) o4;
        Some (True, o5)
      })"

definition decode_header :: "bytes \<Rightarrow> wire_header option ub" where
  "decode_header inp =
     (if length inp < kHeaderSize then Some None
      else do {
        magic \<leftarrow> read_u16_le inp 0;
        version \<leftarrow> span_get inp 2;
        type \<leftarrow> span_get inp 3;
        flags \<leftarrow> read_u16_le inp 4;
        len \<leftarrow> read_u16_le inp 6;
        Some (Some \<lparr>wh_magic = magic, wh_version = version, wh_type = MessageType type,
                    wh_flags = flags, wh_payload_length = len\<rparr>)
      })"

definition encode_frame :: "message_type \<Rightarrow> bytes \<Rightarrow> u16 \<Rightarrow> bytes \<Rightarrow> (bool \<times> bytes) ub" where
  "encode_frame t payload flags out =
     (if length out < kHeaderSize + length payload then Some (False, out)
      else do {
        (ok, head) \<leftarrow> encode_header
           \<lparr>wh_magic = kMagic, wh_version = kVersion, wh_type = t, wh_flags = flags,
            wh_payload_length = of_nat (length payload)\<rparr> (take kHeaderSize out);
        let out1 = head @ drop kHeaderSize out;
        if \<not> ok then Some (False, out1)
        else do {
          out2 \<leftarrow> (if payload = [] then Some out1
                   else write_loop [0..<length payload] (\<lambda>i. payload ! i) kHeaderSize out1);
          Some (True, out2)
        }
      })"

section \<open>Commands on the wire\<close>

definition decode_new_order :: "bytes \<Rightarrow> (error_code + new_order) ub" where
  "decode_new_order inp =
     (if length inp \<noteq> kNewOrderSize then Some (Inl payload_length_invalid)
      else do {
        seq_val \<leftarrow> read_u64_le inp 0;
        oid_val \<leftarrow> read_u64_le inp 8;
        qty_val \<leftarrow> read_u64_le inp 16;
        price_val \<leftarrow> read_i64_le inp 24;
        side_byte \<leftarrow> span_get inp 32;
        type_byte \<leftarrow> span_get inp 33;
        clear \<leftarrow> reserved_zero inp 34 6;
        if \<not> clear then Some (Inl invalid_field)
        else if seq_val = 0 \<or> oid_val = 0 \<or> qty_val = 0 \<or> side_byte > 1 \<or> type_byte > 1 \<or> sint price_val < 0
        then Some (Inl invalid_field)
        else (case (sequence_from_value seq_val, order_id_from_value oid_val, from_units qty_val) of
            (Some sq, Some oid, Some qty) \<Rightarrow>
              let side = (if side_byte = 0 then Buy else Sell);
                  type = (if type_byte = 0 then Limit else Market);
                  order = (\<lambda>lp. \<lparr>no_sequence = sq, no_order_id = oid, no_side = side, no_type = type,
                                 no_quantity = qty, no_limit_price = lp\<rparr>)
              in if type = Limit then
                   (if price_val = 0 then Some (Inl limit_order_missing_price)
                    else case from_ticks price_val of
                           None \<Rightarrow> Some (Inl invalid_field)
                         | Some lp \<Rightarrow> Some (Inr (order (Some lp))))
                 else if price_val \<noteq> 0 then Some (Inl market_order_has_price)
                 else Some (Inr (order None))
          | _ \<Rightarrow> Some (Inl invalid_field))
      })"

definition decode_cancel_order :: "bytes \<Rightarrow> (error_code + cancel_order) ub" where
  "decode_cancel_order inp =
     (if length inp \<noteq> kCancelOrderSize then Some (Inl payload_length_invalid)
      else do {
        seq_val \<leftarrow> read_u64_le inp 0;
        oid_val \<leftarrow> read_u64_le inp 8;
        if seq_val = 0 \<or> oid_val = 0 then Some (Inl invalid_field)
        else (case (sequence_from_value seq_val, order_id_from_value oid_val) of
            (Some sq, Some oid) \<Rightarrow> Some (Inr \<lparr>co_sequence = sq, co_order_id = oid\<rparr>)
          | _ \<Rightarrow> Some (Inl invalid_field))
      })"

definition decode_replace_order :: "bytes \<Rightarrow> (error_code + replace_order) ub" where
  "decode_replace_order inp =
     (if length inp \<noteq> kReplaceOrderSize then Some (Inl payload_length_invalid)
      else do {
        seq_val \<leftarrow> read_u64_le inp 0;
        oid_val \<leftarrow> read_u64_le inp 8;
        qty_val \<leftarrow> read_u64_le inp 16;
        price_val \<leftarrow> read_i64_le inp 24;
        if seq_val = 0 \<or> oid_val = 0 \<or> qty_val = 0 \<or> sint price_val \<le> 0 then Some (Inl invalid_field)
        else (case (sequence_from_value seq_val, order_id_from_value oid_val, from_units qty_val,
                    from_ticks price_val) of
            (Some sq, Some oid, Some qty, Some px) \<Rightarrow>
              Some (Inr \<lparr>rpo_sequence = sq, rpo_order_id = oid, rpo_new_quantity = qty, rpo_new_price = px\<rparr>)
          | _ \<Rightarrow> Some (Inl invalid_field))
      })"

definition encode_new_order :: "new_order \<Rightarrow> bytes \<Rightarrow> (bool \<times> bytes) ub" where
  "encode_new_order order out =
     (if length out < kNewOrderSize then Some (False, out)
      else do {
        o1 \<leftarrow> write_u64_le 0 (seq_value (no_sequence order)) out;
        o2 \<leftarrow> write_u64_le 8 (oid_value (no_order_id order)) o1;
        o3 \<leftarrow> write_u64_le 16 (units (no_quantity order)) o2;
        o4 \<leftarrow> write_i64_le 24 (case no_limit_price order of Some px \<Rightarrow> ticks px | None \<Rightarrow> 0) o3;
        o5 \<leftarrow> span_put 32 (if no_side order = Buy then 0 else 1) o4;
        o6 \<leftarrow> span_put 33 (if no_type order = Limit then 0 else 1) o5;
        o7 \<leftarrow> write_zeros 34 6 o6;
        Some (True, o7)
      })"

definition encode_cancel_order :: "cancel_order \<Rightarrow> bytes \<Rightarrow> (bool \<times> bytes) ub" where
  "encode_cancel_order order out =
     (if length out < kCancelOrderSize then Some (False, out)
      else do {
        o1 \<leftarrow> write_u64_le 0 (seq_value (co_sequence order)) out;
        o2 \<leftarrow> write_u64_le 8 (oid_value (co_order_id order)) o1;
        Some (True, o2)
      })"

definition encode_replace_order :: "replace_order \<Rightarrow> bytes \<Rightarrow> (bool \<times> bytes) ub" where
  "encode_replace_order order out =
     (if length out < kReplaceOrderSize then Some (False, out)
      else do {
        o1 \<leftarrow> write_u64_le 0 (seq_value (rpo_sequence order)) out;
        o2 \<leftarrow> write_u64_le 8 (oid_value (rpo_order_id order)) o1;
        o3 \<leftarrow> write_u64_le 16 (units (rpo_new_quantity order)) o2;
        o4 \<leftarrow> write_i64_le 24 (ticks (rpo_new_price order)) o3;
        Some (True, o4)
      })"

section \<open>Events on the wire\<close>

record order_accepted_event =
  oa_sequence :: sequence_number
  oa_order_id :: order_id
  oa_remaining_quantity :: u64

record order_rejected_event =
  or_sequence :: sequence_number
  or_order_id :: order_id
  or_error_code :: error_code

record execution_event =
  ee_sequence :: sequence_number
  ee_resting_order_id :: order_id
  ee_incoming_order_id :: order_id
  ee_price :: price
  ee_quantity :: quantity

record cancel_accepted_event =
  ca_sequence :: sequence_number
  ca_order_id :: order_id
  ca_cancelled_quantity :: quantity

record protocol_error_event =
  pe_error_code :: error_code
  pe_offending_type :: u8

definition submit_error_code :: "order_reject_reason \<Rightarrow> error_code" where
  "submit_error_code reason =
     (case reason of
        Invalid_order \<Rightarrow> invalid_order
      | Market_orders_not_supported \<Rightarrow> invalid_order
      | Duplicate_order_id \<Rightarrow> duplicate_order_id)"

definition cancel_error_code :: "cancel_reject_reason \<Rightarrow> error_code" where
  "cancel_error_code reason = order_not_found"

definition replace_error_code :: "replace_reject_reason \<Rightarrow> error_code" where
  "replace_error_code reason = order_not_found"

definition encode_order_accepted :: "order_accepted_event \<Rightarrow> bytes \<Rightarrow> (bool \<times> bytes) ub" where
  "encode_order_accepted ev out =
     (if length out < kOrderAcceptedSize then Some (False, out)
      else do {
        o1 \<leftarrow> write_u64_le 0 (seq_value (oa_sequence ev)) out;
        o2 \<leftarrow> write_u64_le 8 (oid_value (oa_order_id ev)) o1;
        o3 \<leftarrow> write_u64_le 16 (oa_remaining_quantity ev) o2;
        Some (True, o3)
      })"

definition decode_order_accepted :: "bytes \<Rightarrow> (error_code + order_accepted_event) ub" where
  "decode_order_accepted inp =
     (if length inp \<noteq> kOrderAcceptedSize then Some (Inl payload_length_invalid)
      else do {
        seq_val \<leftarrow> read_u64_le inp 0;
        oid_val \<leftarrow> read_u64_le inp 8;
        (case (sequence_from_value seq_val, order_id_from_value oid_val) of
            (Some sq, Some oid) \<Rightarrow> do {
              rem \<leftarrow> read_u64_le inp 16;
              Some (Inr \<lparr>oa_sequence = sq, oa_order_id = oid, oa_remaining_quantity = rem\<rparr>) }
          | _ \<Rightarrow> Some (Inl invalid_field))
      })"

definition encode_order_rejected :: "order_rejected_event \<Rightarrow> bytes \<Rightarrow> (bool \<times> bytes) ub" where
  "encode_order_rejected ev out =
     (if length out < kOrderRejectedSize then Some (False, out)
      else do {
        o1 \<leftarrow> write_u64_le 0 (seq_value (or_sequence ev)) out;
        o2 \<leftarrow> write_u64_le 8 (oid_value (or_order_id ev)) o1;
        o3 \<leftarrow> write_u16_le 16 (ec_value (or_error_code ev)) o2;
        o4 \<leftarrow> write_zeros 18 6 o3;
        Some (True, o4)
      })"

definition decode_order_rejected :: "bytes \<Rightarrow> (error_code + order_rejected_event) ub" where
  "decode_order_rejected inp =
     (if length inp \<noteq> kOrderRejectedSize then Some (Inl payload_length_invalid)
      else do {
        clear \<leftarrow> reserved_zero inp 18 6;
        if \<not> clear then Some (Inl invalid_field)
        else do {
          seq_val \<leftarrow> read_u64_le inp 0;
          oid_val \<leftarrow> read_u64_le inp 8;
          (case sequence_from_value seq_val of
              None \<Rightarrow> Some (Inl invalid_field)
            | Some sq \<Rightarrow> do {
                oid \<leftarrow> (if oid_val = 0 then order_id_from_value 1 else order_id_from_value oid_val);
                code \<leftarrow> read_u16_le inp 16;
                Some (Inr \<lparr>or_sequence = sq, or_order_id = oid, or_error_code = ErrorCode code\<rparr>) })
        }
      })"

definition encode_execution :: "execution_event \<Rightarrow> bytes \<Rightarrow> (bool \<times> bytes) ub" where
  "encode_execution ev out =
     (if length out < kExecutionSize then Some (False, out)
      else do {
        o1 \<leftarrow> write_u64_le 0 (seq_value (ee_sequence ev)) out;
        o2 \<leftarrow> write_u64_le 8 (oid_value (ee_resting_order_id ev)) o1;
        o3 \<leftarrow> write_u64_le 16 (oid_value (ee_incoming_order_id ev)) o2;
        o4 \<leftarrow> write_i64_le 24 (ticks (ee_price ev)) o3;
        o5 \<leftarrow> write_u64_le 32 (units (ee_quantity ev)) o4;
        Some (True, o5)
      })"

definition decode_execution :: "bytes \<Rightarrow> (error_code + execution_event) ub" where
  "decode_execution inp =
     (if length inp \<noteq> kExecutionSize then Some (Inl payload_length_invalid)
      else do {
        seq_val \<leftarrow> read_u64_le inp 0;
        resting_val \<leftarrow> read_u64_le inp 8;
        incoming_val \<leftarrow> read_u64_le inp 16;
        price_val \<leftarrow> read_i64_le inp 24;
        qty_val \<leftarrow> read_u64_le inp 32;
        (case (sequence_from_value seq_val, order_id_from_value resting_val, order_id_from_value incoming_val,
               from_ticks price_val, from_units qty_val) of
            (Some sq, Some resting, Some incoming, Some px, Some qty) \<Rightarrow>
              Some (Inr \<lparr>ee_sequence = sq, ee_resting_order_id = resting, ee_incoming_order_id = incoming,
                         ee_price = px, ee_quantity = qty\<rparr>)
          | _ \<Rightarrow> Some (Inl invalid_field))
      })"

definition encode_cancel_accepted :: "cancel_accepted_event \<Rightarrow> bytes \<Rightarrow> (bool \<times> bytes) ub" where
  "encode_cancel_accepted ev out =
     (if length out < kCancelAcceptedSize then Some (False, out)
      else do {
        o1 \<leftarrow> write_u64_le 0 (seq_value (ca_sequence ev)) out;
        o2 \<leftarrow> write_u64_le 8 (oid_value (ca_order_id ev)) o1;
        o3 \<leftarrow> write_u64_le 16 (units (ca_cancelled_quantity ev)) o2;
        Some (True, o3)
      })"

definition decode_cancel_accepted :: "bytes \<Rightarrow> (error_code + cancel_accepted_event) ub" where
  "decode_cancel_accepted inp =
     (if length inp \<noteq> kCancelAcceptedSize then Some (Inl payload_length_invalid)
      else do {
        seq_val \<leftarrow> read_u64_le inp 0;
        oid_val \<leftarrow> read_u64_le inp 8;
        qty_val \<leftarrow> read_u64_le inp 16;
        (case (sequence_from_value seq_val, order_id_from_value oid_val, from_units qty_val) of
            (Some sq, Some oid, Some qty) \<Rightarrow>
              Some (Inr \<lparr>ca_sequence = sq, ca_order_id = oid, ca_cancelled_quantity = qty\<rparr>)
          | _ \<Rightarrow> Some (Inl invalid_field))
      })"

definition encode_protocol_error :: "protocol_error_event \<Rightarrow> bytes \<Rightarrow> (bool \<times> bytes) ub" where
  "encode_protocol_error ev out =
     (if length out < kProtocolErrorSize then Some (False, out)
      else do {
        o1 \<leftarrow> write_u16_le 0 (ec_value (pe_error_code ev)) out;
        o2 \<leftarrow> span_put 2 (pe_offending_type ev) o1;
        o3 \<leftarrow> write_zeros 3 5 o2;
        Some (True, o3)
      })"

definition decode_protocol_error :: "bytes \<Rightarrow> (error_code + protocol_error_event) ub" where
  "decode_protocol_error inp =
     (if length inp \<noteq> kProtocolErrorSize then Some (Inl payload_length_invalid)
      else do {
        clear \<leftarrow> reserved_zero inp 3 5;
        if \<not> clear then Some (Inl invalid_field)
        else do {
          code \<leftarrow> read_u16_le inp 0;
          type \<leftarrow> span_get inp 2;
          Some (Inr \<lparr>pe_error_code = ErrorCode code, pe_offending_type = type\<rparr>)
        }
      })"

end
