(* ===== verification/Protocol_Codec.thy ===== *)
theory Protocol_Codec
  imports Protocol
begin

text \<open>
  The codecs of \<open>src/protocol.cpp\<close> against their contract, stated as a locale: an encoder refuses
  a span that is too short and otherwise replaces exactly the first \<open>size\<close> bytes, a decoder answers
  every input without leaving it, accepts only well-formed values, and inverts the encoder. A codec
  is canonical when, conversely, re-encoding a decoded payload gives the payload back. Each of the
  eight codecs interprets the contract.
\<close>

section \<open>Layout of encoded payloads\<close>

lemma overwrite_append [codec_simps]:
  "off' = off + length a \<Longrightarrow> off' + length b \<le> length out \<Longrightarrow>
   overwrite off' b (overwrite off a out) = overwrite off (a @ b) out"
  by (simp add: overwrite_def ac_simps)

lemma overwrite_start: "length p \<le> length out \<Longrightarrow> overwrite 0 p out = p @ drop (length p) out"
  by (simp add: overwrite_def)

lemma segment_append [codec_simps]:
  "segment (a @ b) off n =
     (if off + n \<le> length a then segment a off n
      else if length a \<le> off then segment b (off - length a) n
      else segment a off (length a - off) @ segment b 0 (n - (length a - off)))"
  by (auto simp: segment_def)

lemma segment_all [codec_simps]: "length a = n \<Longrightarrow> segment a 0 n = a"
  by (simp add: segment_def)

lemma segment_join [codec_simps]:
  "off' = off + k \<Longrightarrow> segment inp off k @ segment inp off' m = segment inp off (k + m)"
  by (simp add: segment_def take_add add.commute)

lemma segment_Cons_join [codec_simps]:
  "i < length inp \<Longrightarrow> off = Suc i \<Longrightarrow> inp ! i # segment inp off m = segment inp i (Suc m)"
  by (simp add: segment_Suc)

lemma segment_Cons [codec_simps]:
  "segment (a # b) (Suc off) n = segment b off n"
  "segment (a # b) (numeral k) n = segment b (numeral k - 1) n"
  by (simp_all add: segment_def drop_Cons')

lemma byte_at_most_one: "\<not> 1 < (b :: u8) \<Longrightarrow> b = 0 \<or> b = 1"
  by (simp add: word_less_nat_alt word_unat_eq_iff) linarith

section \<open>The codec contract\<close>

locale codec =
  fixes encode :: "'v \<Rightarrow> bytes \<Rightarrow> (bool \<times> bytes) ub"
    and decode :: "bytes \<Rightarrow> (error_code + 'v) ub"
    and payload :: "'v \<Rightarrow> bytes"
    and size :: nat
    and ok :: "'v \<Rightarrow> bool"
  assumes encode_short: "length out < size \<Longrightarrow> encode v out = Some (False, out)"
    and encode_fits: "size \<le> length out \<Longrightarrow> encode v out = Some (True, payload v @ drop size out)"
    and payload_length: "length (payload v) = size"
    and decode_length: "length inp \<noteq> size \<Longrightarrow> decode inp = Some (Inl payload_length_invalid)"
    and decode_payload: "ok v \<Longrightarrow> decode (payload v) = Some (Inr v)"
    and decode_sound: "length inp = size \<Longrightarrow> \<exists>r. decode inp = Some r \<and> (\<forall>v. r = Inr v \<longrightarrow> ok v)"
begin

lemma encode_defined: "encode v out \<noteq> None"
  using encode_short encode_fits by (cases "length out < size") auto

lemma decode_defined: "decode inp \<noteq> None"
  using decode_length [of inp] decode_sound [of inp] by (cases "length inp = size") auto

lemma decode_ok: "decode inp = Some (Inr v) \<Longrightarrow> ok v \<and> length inp = size"
  using decode_length [of inp] decode_sound [of inp] by (cases "length inp = size") auto

lemma round_trip:
  "ok v \<Longrightarrow> length out = size \<Longrightarrow> \<exists>p. encode v out = Some (True, p) \<and> decode p = Some (Inr v)"
  using encode_fits decode_payload by simp

lemma payload_inj: "ok v \<Longrightarrow> ok w \<Longrightarrow> payload v = payload w \<Longrightarrow> v = w"
  using decode_payload by (metis Inr_inject option.inject)

end

locale canonical_codec = codec +
  assumes canonical: "decode inp = Some (Inr v) \<Longrightarrow> payload v = inp"
begin

lemma decode_inj: "decode inp = Some (Inr v) \<Longrightarrow> decode inp' = Some (Inr v) \<Longrightarrow> inp = inp'"
  using canonical by metis

end

section \<open>Payloads\<close>

definition new_order_payload :: "new_order \<Rightarrow> bytes" where
  "new_order_payload order =
     bytes_of 8 (seq_value (no_sequence order)) @ bytes_of 8 (oid_value (no_order_id order)) @
     bytes_of 8 (units (no_quantity order)) @
     bytes_of 8 (case no_limit_price order of Some px \<Rightarrow> ticks px | None \<Rightarrow> 0) @
     [if no_side order = Buy then 0 else 1, if no_type order = Limit then 0 else 1] @ replicate 6 0"

definition cancel_order_payload :: "cancel_order \<Rightarrow> bytes" where
  "cancel_order_payload c = bytes_of 8 (seq_value (co_sequence c)) @ bytes_of 8 (oid_value (co_order_id c))"

definition replace_order_payload :: "replace_order \<Rightarrow> bytes" where
  "replace_order_payload c =
     bytes_of 8 (seq_value (rpo_sequence c)) @ bytes_of 8 (oid_value (rpo_order_id c)) @
     bytes_of 8 (units (rpo_new_quantity c)) @ bytes_of 8 (ticks (rpo_new_price c))"

definition order_accepted_payload :: "order_accepted_event \<Rightarrow> bytes" where
  "order_accepted_payload ev =
     bytes_of 8 (seq_value (oa_sequence ev)) @ bytes_of 8 (oid_value (oa_order_id ev)) @
     bytes_of 8 (oa_remaining_quantity ev)"

definition order_rejected_payload :: "order_rejected_event \<Rightarrow> bytes" where
  "order_rejected_payload ev =
     bytes_of 8 (seq_value (or_sequence ev)) @ bytes_of 8 (oid_value (or_order_id ev)) @
     bytes_of 2 (ec_value (or_error_code ev)) @ replicate 6 0"

definition execution_payload :: "execution_event \<Rightarrow> bytes" where
  "execution_payload ev =
     bytes_of 8 (seq_value (ee_sequence ev)) @ bytes_of 8 (oid_value (ee_resting_order_id ev)) @
     bytes_of 8 (oid_value (ee_incoming_order_id ev)) @ bytes_of 8 (ticks (ee_price ev)) @
     bytes_of 8 (units (ee_quantity ev))"

definition cancel_accepted_payload :: "cancel_accepted_event \<Rightarrow> bytes" where
  "cancel_accepted_payload ev =
     bytes_of 8 (seq_value (ca_sequence ev)) @ bytes_of 8 (oid_value (ca_order_id ev)) @
     bytes_of 8 (units (ca_cancelled_quantity ev))"

definition protocol_error_payload :: "protocol_error_event \<Rightarrow> bytes" where
  "protocol_error_payload ev =
     bytes_of 2 (ec_value (pe_error_code ev)) @ [pe_offending_type ev] @ replicate 5 0"

definition valid_new_order :: "new_order \<Rightarrow> bool" where
  "valid_new_order order \<longleftrightarrow> new_order_ok order \<and> validate order = None"

definition order_accepted_ok :: "order_accepted_event \<Rightarrow> bool" where
  "order_accepted_ok ev \<longleftrightarrow> sequence_ok (oa_sequence ev) \<and> order_id_ok (oa_order_id ev)"

definition order_rejected_ok :: "order_rejected_event \<Rightarrow> bool" where
  "order_rejected_ok ev \<longleftrightarrow> sequence_ok (or_sequence ev) \<and> order_id_ok (or_order_id ev)"

definition execution_ok :: "execution_event \<Rightarrow> bool" where
  "execution_ok ev \<longleftrightarrow> sequence_ok (ee_sequence ev) \<and> order_id_ok (ee_resting_order_id ev) \<and>
     order_id_ok (ee_incoming_order_id ev) \<and> price_ok (ee_price ev) \<and> quantity_ok (ee_quantity ev)"

definition cancel_accepted_ok :: "cancel_accepted_event \<Rightarrow> bool" where
  "cancel_accepted_ok ev \<longleftrightarrow> sequence_ok (ca_sequence ev) \<and> order_id_ok (ca_order_id ev) \<and>
     quantity_ok (ca_cancelled_quantity ev)"

definition protocol_error_ok :: "protocol_error_event \<Rightarrow> bool" where
  "protocol_error_ok ev = True"

lemmas factory_simps = sequence_from_value_def order_id_from_value_def from_units_def from_ticks_def
  sequence_ok_def order_id_ok_def quantity_ok_def price_ok_def

section \<open>The eight codecs\<close>

interpretation cancel_codec: canonical_codec encode_cancel_order decode_cancel_order cancel_order_payload
  kCancelOrderSize cancel_order_ok
proof unfold_locales
  fix inp v
  show "length inp < kCancelOrderSize \<Longrightarrow> encode_cancel_order v inp = Some (False, inp)"
    by (simp add: encode_cancel_order_def)
  show "kCancelOrderSize \<le> length inp \<Longrightarrow>
      encode_cancel_order v inp = Some (True, cancel_order_payload v @ drop kCancelOrderSize inp)"
    by (simp add: encode_cancel_order_def cancel_order_payload_def codec_simps) (simp add: overwrite_start)
  show "length (cancel_order_payload v) = kCancelOrderSize"
    by (simp add: cancel_order_payload_def codec_simps)
  show "length inp \<noteq> kCancelOrderSize \<Longrightarrow> decode_cancel_order inp = Some (Inl payload_length_invalid)"
    by (simp add: decode_cancel_order_def)
  show "cancel_order_ok v \<Longrightarrow> decode_cancel_order (cancel_order_payload v) = Some (Inr v)"
    by (simp add: decode_cancel_order_def cancel_order_payload_def cancel_order_ok_def codec_simps factory_simps)
  show "length inp = kCancelOrderSize \<Longrightarrow>
      \<exists>r. decode_cancel_order inp = Some r \<and> (\<forall>v. r = Inr v \<longrightarrow> cancel_order_ok v)"
    by (auto simp: decode_cancel_order_def cancel_order_ok_def codec_simps factory_simps)
  show "decode_cancel_order inp = Some (Inr v) \<Longrightarrow> cancel_order_payload v = inp"
    by (auto simp: decode_cancel_order_def cancel_order_payload_def codec_simps factory_simps bytes_u64
        split: if_splits)
qed

interpretation replace_codec: canonical_codec encode_replace_order decode_replace_order replace_order_payload
  kReplaceOrderSize replace_order_ok
proof unfold_locales
  fix inp v
  show "length inp < kReplaceOrderSize \<Longrightarrow> encode_replace_order v inp = Some (False, inp)"
    by (simp add: encode_replace_order_def)
  show "kReplaceOrderSize \<le> length inp \<Longrightarrow>
      encode_replace_order v inp = Some (True, replace_order_payload v @ drop kReplaceOrderSize inp)"
    by (simp add: encode_replace_order_def replace_order_payload_def codec_simps) (simp add: overwrite_start)
  show "length (replace_order_payload v) = kReplaceOrderSize"
    by (simp add: replace_order_payload_def codec_simps)
  show "length inp \<noteq> kReplaceOrderSize \<Longrightarrow> decode_replace_order inp = Some (Inl payload_length_invalid)"
    by (simp add: decode_replace_order_def)
  show "replace_order_ok v \<Longrightarrow> decode_replace_order (replace_order_payload v) = Some (Inr v)"
    by (simp add: decode_replace_order_def replace_order_payload_def replace_order_ok_def codec_simps factory_simps)
  show "length inp = kReplaceOrderSize \<Longrightarrow>
      \<exists>r. decode_replace_order inp = Some r \<and> (\<forall>v. r = Inr v \<longrightarrow> replace_order_ok v)"
    by (auto simp: decode_replace_order_def replace_order_ok_def codec_simps factory_simps)
  show "decode_replace_order inp = Some (Inr v) \<Longrightarrow> replace_order_payload v = inp"
    by (auto simp: decode_replace_order_def replace_order_payload_def codec_simps factory_simps bytes_u64 bytes_u16
        split: if_splits)
qed

interpretation order_accepted_codec: canonical_codec encode_order_accepted decode_order_accepted order_accepted_payload
  kOrderAcceptedSize order_accepted_ok
proof unfold_locales
  fix inp v
  show "length inp < kOrderAcceptedSize \<Longrightarrow> encode_order_accepted v inp = Some (False, inp)"
    by (simp add: encode_order_accepted_def)
  show "kOrderAcceptedSize \<le> length inp \<Longrightarrow>
      encode_order_accepted v inp = Some (True, order_accepted_payload v @ drop kOrderAcceptedSize inp)"
    by (simp add: encode_order_accepted_def order_accepted_payload_def codec_simps) (simp add: overwrite_start)
  show "length (order_accepted_payload v) = kOrderAcceptedSize"
    by (simp add: order_accepted_payload_def codec_simps)
  show "length inp \<noteq> kOrderAcceptedSize \<Longrightarrow> decode_order_accepted inp = Some (Inl payload_length_invalid)"
    by (simp add: decode_order_accepted_def)
  show "order_accepted_ok v \<Longrightarrow> decode_order_accepted (order_accepted_payload v) = Some (Inr v)"
    by (simp add: decode_order_accepted_def order_accepted_payload_def order_accepted_ok_def codec_simps factory_simps)
  show "length inp = kOrderAcceptedSize \<Longrightarrow>
      \<exists>r. decode_order_accepted inp = Some r \<and> (\<forall>v. r = Inr v \<longrightarrow> order_accepted_ok v)"
    by (auto simp: decode_order_accepted_def order_accepted_ok_def codec_simps factory_simps)
  show "decode_order_accepted inp = Some (Inr v) \<Longrightarrow> order_accepted_payload v = inp"
    by (auto simp: decode_order_accepted_def order_accepted_payload_def codec_simps factory_simps bytes_u64 bytes_u16
        split: if_splits)
qed

interpretation order_rejected_codec: codec encode_order_rejected decode_order_rejected order_rejected_payload
  kOrderRejectedSize order_rejected_ok
proof unfold_locales
  fix inp v
  show "length inp < kOrderRejectedSize \<Longrightarrow> encode_order_rejected v inp = Some (False, inp)"
    by (simp add: encode_order_rejected_def)
  show "kOrderRejectedSize \<le> length inp \<Longrightarrow>
      encode_order_rejected v inp = Some (True, order_rejected_payload v @ drop kOrderRejectedSize inp)"
    by (simp add: encode_order_rejected_def order_rejected_payload_def codec_simps) (simp add: overwrite_start)
  show "length (order_rejected_payload v) = kOrderRejectedSize"
    by (simp add: order_rejected_payload_def codec_simps)
  show "length inp \<noteq> kOrderRejectedSize \<Longrightarrow> decode_order_rejected inp = Some (Inl payload_length_invalid)"
    by (simp add: decode_order_rejected_def)
  show "order_rejected_ok v \<Longrightarrow> decode_order_rejected (order_rejected_payload v) = Some (Inr v)"
    by (simp add: decode_order_rejected_def order_rejected_payload_def order_rejected_ok_def codec_simps factory_simps)
  show "length inp = kOrderRejectedSize \<Longrightarrow>
      \<exists>r. decode_order_rejected inp = Some r \<and> (\<forall>v. r = Inr v \<longrightarrow> order_rejected_ok v)"
    by (auto simp: decode_order_rejected_def order_rejected_ok_def codec_simps factory_simps)
qed

interpretation execution_codec: canonical_codec encode_execution decode_execution execution_payload
  kExecutionSize execution_ok
proof unfold_locales
  fix inp v
  show "length inp < kExecutionSize \<Longrightarrow> encode_execution v inp = Some (False, inp)"
    by (simp add: encode_execution_def)
  show "kExecutionSize \<le> length inp \<Longrightarrow>
      encode_execution v inp = Some (True, execution_payload v @ drop kExecutionSize inp)"
    by (simp add: encode_execution_def execution_payload_def codec_simps) (simp add: overwrite_start)
  show "length (execution_payload v) = kExecutionSize"
    by (simp add: execution_payload_def codec_simps)
  show "length inp \<noteq> kExecutionSize \<Longrightarrow> decode_execution inp = Some (Inl payload_length_invalid)"
    by (simp add: decode_execution_def)
  show "execution_ok v \<Longrightarrow> decode_execution (execution_payload v) = Some (Inr v)"
    by (simp add: decode_execution_def execution_payload_def execution_ok_def codec_simps factory_simps)
  show "length inp = kExecutionSize \<Longrightarrow>
      \<exists>r. decode_execution inp = Some r \<and> (\<forall>v. r = Inr v \<longrightarrow> execution_ok v)"
    by (auto simp: decode_execution_def execution_ok_def codec_simps factory_simps)
  show "decode_execution inp = Some (Inr v) \<Longrightarrow> execution_payload v = inp"
    by (auto simp: decode_execution_def execution_payload_def codec_simps factory_simps bytes_u64 bytes_u16
        split: if_splits)
qed

interpretation cancel_accepted_codec: canonical_codec encode_cancel_accepted decode_cancel_accepted cancel_accepted_payload
  kCancelAcceptedSize cancel_accepted_ok
proof unfold_locales
  fix inp v
  show "length inp < kCancelAcceptedSize \<Longrightarrow> encode_cancel_accepted v inp = Some (False, inp)"
    by (simp add: encode_cancel_accepted_def)
  show "kCancelAcceptedSize \<le> length inp \<Longrightarrow>
      encode_cancel_accepted v inp = Some (True, cancel_accepted_payload v @ drop kCancelAcceptedSize inp)"
    by (simp add: encode_cancel_accepted_def cancel_accepted_payload_def codec_simps) (simp add: overwrite_start)
  show "length (cancel_accepted_payload v) = kCancelAcceptedSize"
    by (simp add: cancel_accepted_payload_def codec_simps)
  show "length inp \<noteq> kCancelAcceptedSize \<Longrightarrow> decode_cancel_accepted inp = Some (Inl payload_length_invalid)"
    by (simp add: decode_cancel_accepted_def)
  show "cancel_accepted_ok v \<Longrightarrow> decode_cancel_accepted (cancel_accepted_payload v) = Some (Inr v)"
    by (simp add: decode_cancel_accepted_def cancel_accepted_payload_def cancel_accepted_ok_def codec_simps factory_simps)
  show "length inp = kCancelAcceptedSize \<Longrightarrow>
      \<exists>r. decode_cancel_accepted inp = Some r \<and> (\<forall>v. r = Inr v \<longrightarrow> cancel_accepted_ok v)"
    by (auto simp: decode_cancel_accepted_def cancel_accepted_ok_def codec_simps factory_simps)
  show "decode_cancel_accepted inp = Some (Inr v) \<Longrightarrow> cancel_accepted_payload v = inp"
    by (auto simp: decode_cancel_accepted_def cancel_accepted_payload_def codec_simps factory_simps bytes_u64 bytes_u16
        split: if_splits)
qed

interpretation protocol_error_codec: canonical_codec encode_protocol_error decode_protocol_error protocol_error_payload
  kProtocolErrorSize protocol_error_ok
proof unfold_locales
  fix inp v
  show "length inp < kProtocolErrorSize \<Longrightarrow> encode_protocol_error v inp = Some (False, inp)"
    by (simp add: encode_protocol_error_def)
  show "kProtocolErrorSize \<le> length inp \<Longrightarrow>
      encode_protocol_error v inp = Some (True, protocol_error_payload v @ drop kProtocolErrorSize inp)"
    by (simp add: encode_protocol_error_def protocol_error_payload_def codec_simps) (simp add: overwrite_start)
  show "length (protocol_error_payload v) = kProtocolErrorSize"
    by (simp add: protocol_error_payload_def codec_simps)
  show "length inp \<noteq> kProtocolErrorSize \<Longrightarrow> decode_protocol_error inp = Some (Inl payload_length_invalid)"
    by (simp add: decode_protocol_error_def)
  show "protocol_error_ok v \<Longrightarrow> decode_protocol_error (protocol_error_payload v) = Some (Inr v)"
    by (simp add: decode_protocol_error_def protocol_error_payload_def codec_simps nth_append)
  show "length inp = kProtocolErrorSize \<Longrightarrow>
      \<exists>r. decode_protocol_error inp = Some r \<and> (\<forall>v. r = Inr v \<longrightarrow> protocol_error_ok v)"
    by (auto simp: decode_protocol_error_def protocol_error_ok_def codec_simps factory_simps)
  show "decode_protocol_error inp = Some (Inr v) \<Longrightarrow> protocol_error_payload v = inp"
  proof -
    assume dec: "decode_protocol_error inp = Some (Inr v)"
    then have len: "length inp = 8" by (auto simp: decode_protocol_error_def codec_simps split: if_splits)
    then have "replicate 5 0 = segment inp 3 5"
        "v = \<lparr>pe_error_code = ErrorCode (word_of_bytes (segment inp 0 2)), pe_offending_type = inp ! 2\<rparr>"
      using dec by (auto simp: decode_protocol_error_def codec_simps split: if_splits)
    then have "protocol_error_payload v = segment inp 0 2 @ [inp ! 2] @ segment inp 3 5"
      using len by (simp add: protocol_error_payload_def bytes_u16)
    then show ?thesis using len by (simp add: codec_simps)
  qed
qed

text \<open>
  The new-order decoder has the most branches; its decision as one conditional over the fields read.
\<close>

definition new_order_fields :: "bytes \<Rightarrow> error_code + new_order" where
  "new_order_fields inp =
     (let sq = word_of_bytes (segment inp 0 8); oid = word_of_bytes (segment inp 8 8);
          qty = word_of_bytes (segment inp 16 8); px = word_of_bytes (segment inp 24 8) in
      if segment inp 34 6 \<noteq> replicate 6 0 \<or> sq = 0 \<or> oid = 0 \<or> qty = 0 \<or> inp ! 32 > 1 \<or> inp ! 33 > 1 \<or> sint px < 0
      then Inl invalid_field
      else if inp ! 33 = 0 \<and> px = 0 then Inl limit_order_missing_price
      else if inp ! 33 \<noteq> 0 \<and> px \<noteq> 0 then Inl market_order_has_price
      else Inr \<lparr>no_sequence = SequenceNumber sq, no_order_id = OrderId oid,
                no_side = if inp ! 32 = 0 then Buy else Sell, no_type = if inp ! 33 = 0 then Limit else Market,
                no_quantity = Quantity qty, no_limit_price = if inp ! 33 = 0 then Some (Price px) else None\<rparr>)"

lemma sint_pos: "\<not> sint (v :: i64) < 0 \<Longrightarrow> v \<noteq> 0 \<Longrightarrow> 0 < sint v"
  by (metis linorder_neqE_linordered_idom sint_eqD sint_0)

lemma decode_new_order_fields:
  assumes "length inp = kNewOrderSize"
  shows "decode_new_order inp = Some (new_order_fields inp)"
proof -
  have "length inp = 40" using assms by (simp add: codec_simps)
  then show ?thesis
    using sint_pos [of "word_of_bytes (segment inp 24 8)"]
    by (simp add: decode_new_order_def new_order_fields_def codec_simps Let_def
        sequence_from_value_def order_id_from_value_def from_units_def from_ticks_def) auto
qed

lemma decode_new_order_sound:
  assumes "length inp = kNewOrderSize"
  shows "\<exists>r. decode_new_order inp = Some r \<and> (\<forall>v. r = Inr v \<longrightarrow> valid_new_order v)"
  using sint_pos [of "word_of_bytes (segment inp 24 8)"]
  by (auto simp: decode_new_order_fields [OF assms] new_order_fields_def Let_def valid_new_order_def
      new_order_ok_def validate_def sequence_ok_def order_id_ok_def quantity_ok_def price_ok_def split: if_splits)

lemma decode_new_order_payload:
  assumes "valid_new_order v"
  shows "decode_new_order (new_order_payload v) = Some (Inr v)"
proof -
  let ?p = "new_order_payload v" and ?px = "case no_limit_price v of Some px \<Rightarrow> ticks px | None \<Rightarrow> 0"
  have len: "length ?p = kNewOrderSize" by (simp add: new_order_payload_def codec_simps)
  have seg: "segment ?p 0 8 = bytes_of 8 (seq_value (no_sequence v))"
      "segment ?p 8 8 = bytes_of 8 (oid_value (no_order_id v))"
      "segment ?p 16 8 = bytes_of 8 (units (no_quantity v))" "segment ?p 24 8 = bytes_of 8 ?px"
      "segment ?p 34 6 = replicate 6 0"
    by (simp_all add: new_order_payload_def codec_simps)
  have nth: "?p ! 32 = (if no_side v = Buy then 0 else 1)" "?p ! 33 = (if no_type v = Limit then 0 else 1)"
    by (simp_all add: new_order_payload_def nth_append)
  show ?thesis
    unfolding decode_new_order_fields [OF len] new_order_fields_def seg nth u64_bytes Let_def
    using assms
    by (cases "no_side v"; cases "no_type v")
      (auto simp: valid_new_order_def new_order_ok_def validate_None_iff sequence_ok_def order_id_ok_def
        quantity_ok_def price_ok_def)
qed

lemma decode_new_order_canonical:
  assumes "decode_new_order inp = Some (Inr v)"
  shows "new_order_payload v = inp"
proof -
  have len: "length inp = kNewOrderSize"
    using assms by (cases "length inp = kNewOrderSize") (simp_all add: decode_new_order_def)
  then have l40: "length inp = 40" by (simp add: codec_simps)
  have f: "new_order_fields inp = Inr v" using assms decode_new_order_fields [OF len] by simp
  have bits: "inp ! 32 = 0 \<or> inp ! 32 = 1" "inp ! 33 = 0 \<or> inp ! 33 = 1"
    using f byte_at_most_one by (auto simp: new_order_fields_def Let_def split: if_splits)
  have res: "replicate 6 0 = segment inp 34 6"
    using f by (auto simp: new_order_fields_def Let_def split: if_splits)
  have px: "(case no_limit_price v of Some px \<Rightarrow> ticks px | None \<Rightarrow> 0) = word_of_bytes (segment inp 24 8)"
    using f by (auto simp: new_order_fields_def Let_def split: if_splits)
  have v: "seq_value (no_sequence v) = word_of_bytes (segment inp 0 8)"
      "oid_value (no_order_id v) = word_of_bytes (segment inp 8 8)"
      "units (no_quantity v) = word_of_bytes (segment inp 16 8)"
      "(if no_side v = Buy then 0 else 1) = inp ! 32" "(if no_type v = Limit then 0 else 1) = inp ! 33"
    using f bits by (auto simp: new_order_fields_def Let_def split: if_splits)
  have "new_order_payload v = segment inp 0 8 @ segment inp 8 8 @ segment inp 16 8 @ segment inp 24 8 @
      [inp ! 32, inp ! 33] @ segment inp 34 6"
    unfolding new_order_payload_def v px res using l40 by (simp add: bytes_u64)
  also have "\<dots> = inp" using l40 by (simp add: codec_simps)
  finally show ?thesis .
qed

interpretation new_order_codec: canonical_codec encode_new_order decode_new_order new_order_payload
  kNewOrderSize valid_new_order
proof unfold_locales
  fix inp v
  show "length inp < kNewOrderSize \<Longrightarrow> encode_new_order v inp = Some (False, inp)"
    by (simp add: encode_new_order_def)
  show "kNewOrderSize \<le> length inp \<Longrightarrow>
      encode_new_order v inp = Some (True, new_order_payload v @ drop kNewOrderSize inp)"
    by (simp add: encode_new_order_def new_order_payload_def codec_simps) (simp add: overwrite_start)
  show "length (new_order_payload v) = kNewOrderSize"
    by (simp add: new_order_payload_def codec_simps)
  show "length inp \<noteq> kNewOrderSize \<Longrightarrow> decode_new_order inp = Some (Inl payload_length_invalid)"
    by (simp add: decode_new_order_def)
  show "valid_new_order v \<Longrightarrow> decode_new_order (new_order_payload v) = Some (Inr v)"
    by (rule decode_new_order_payload)
  show "length inp = kNewOrderSize \<Longrightarrow>
      \<exists>r. decode_new_order inp = Some r \<and> (\<forall>v. r = Inr v \<longrightarrow> valid_new_order v)"
    by (rule decode_new_order_sound)
  show "decode_new_order inp = Some (Inr v) \<Longrightarrow> new_order_payload v = inp"
    by (rule decode_new_order_canonical)
qed

section \<open>Headers and frames\<close>

definition header_bytes :: "wire_header \<Rightarrow> bytes" where
  "header_bytes h = bytes_of 2 (wh_magic h) @ [wh_version h, mt_value (wh_type h)] @
     bytes_of 2 (wh_flags h) @ bytes_of 2 (wh_payload_length h)"

lemma length_header_bytes [simp]: "length (header_bytes h) = 8"
  by (simp add: header_bytes_def)

lemma encode_header_fits:
  "kHeaderSize \<le> length out \<Longrightarrow> encode_header h out = Some (True, header_bytes h @ drop kHeaderSize out)"
  by (simp add: encode_header_def header_bytes_def kHeaderSize_def codec_simps) (simp add: overwrite_start)

lemma decode_header_bytes: "decode_header (header_bytes h @ rest) = Some (Some h)"
  by (simp add: decode_header_def header_bytes_def kHeaderSize_def codec_simps nth_append)

lemma decode_header_defined: "decode_header inp \<noteq> None"
  by (simp add: decode_header_def kHeaderSize_def codec_simps)

lemma header_bytes_decode:
  assumes "decode_header inp = Some (Some h)"
  shows "header_bytes h = take kHeaderSize inp"
proof -
  have len: "8 \<le> length inp" using assms by (auto simp: decode_header_def kHeaderSize_def split: if_splits)
  then have "h = \<lparr>wh_magic = word_of_bytes (segment inp 0 2), wh_version = inp ! 2,
      wh_type = MessageType (inp ! 3), wh_flags = word_of_bytes (segment inp 4 2),
      wh_payload_length = word_of_bytes (segment inp 6 2)\<rparr>"
    using assms by (simp add: decode_header_def kHeaderSize_def codec_simps)
  then have "header_bytes h = segment inp 0 2 @ [inp ! 2, inp ! 3] @ segment inp 4 2 @ segment inp 6 2"
    using len by (simp add: header_bytes_def bytes_u16)
  also have "\<dots> = segment inp 0 8" using len by (simp add: codec_simps)
  finally show ?thesis by (simp add: segment_def kHeaderSize_def)
qed

definition frame_header :: "message_type \<Rightarrow> bytes \<Rightarrow> u16 \<Rightarrow> wire_header" where
  "frame_header t payload flags = \<lparr>wh_magic = kMagic, wh_version = kVersion, wh_type = t, wh_flags = flags,
     wh_payload_length = of_nat (length payload)\<rparr>"

lemma encode_frame_fits:
  assumes "kHeaderSize + length payload \<le> length out"
  shows "encode_frame t payload flags out =
    Some (True, header_bytes (frame_header t payload flags) @ payload @ drop (kHeaderSize + length payload) out)"
proof -
  let ?h = "header_bytes (frame_header t payload flags)"
  have "encode_header (frame_header t payload flags) (take kHeaderSize out) = Some (True, ?h)"
    using assms encode_header_fits [of "take kHeaderSize out"] by simp
  moreover have "write_loop [0..<length payload] (\<lambda>i. payload ! i) kHeaderSize (?h @ drop kHeaderSize out) =
      Some (?h @ payload @ drop (kHeaderSize + length payload) out)"
    using assms write_loop_overwrite [of kHeaderSize "length payload" "?h @ drop kHeaderSize out" "(!) payload"]
    by (simp add: overwrite_def kHeaderSize_def map_nth add.commute)
  ultimately show ?thesis
    using assms by (auto simp: encode_frame_def frame_header_def Let_def)
qed

lemma validate_header_None:
  "validate_header h = None \<longleftrightarrow> wh_magic h = kMagic \<and> wh_version h = kVersion \<and>
     flags_reserved_bits_clear (wh_flags h) \<and> wh_payload_length h \<le> kMaxPayloadLength \<and>
     expected_payload_length (wh_type h) = Some (wh_payload_length h)"
  by (auto simp: validate_header_def not_less split: option.splits)

section \<open>Properties of the protocol\<close>

text \<open>
  Inbound commands survive the wire: encoding a valid new order, cancel or replace into
  a large enough span writes exactly the message's size, leaves the rest of the span alone, and
  decoding those bytes gives the command back.
\<close>

theorem command_wire_round_trip:
  assumes "valid_new_order n" and "cancel_order_ok c" and "replace_order_ok r" and "40 \<le> length out"
  shows "(\<exists>p. encode_new_order n out = Some (True, p @ drop 40 out) \<and> length p = 40 \<and>
              decode_new_order p = Some (Inr n)) \<and>
    (\<exists>p. encode_cancel_order c out = Some (True, p @ drop 16 out) \<and> length p = 16 \<and>
              decode_cancel_order p = Some (Inr c)) \<and>
    (\<exists>p. encode_replace_order r out = Some (True, p @ drop 32 out) \<and> length p = 32 \<and>
              decode_replace_order p = Some (Inr r))"
  using assms new_order_codec.encode_fits [of out n] new_order_codec.payload_length [of n]
    new_order_codec.decode_payload [of n] cancel_codec.encode_fits [of out c] cancel_codec.payload_length [of c]
    cancel_codec.decode_payload [of c] replace_codec.encode_fits [of out r] replace_codec.payload_length [of r]
    replace_codec.decode_payload [of r]
  by (simp add: size_defs)

definition example_new_order :: new_order where
  "example_new_order = \<lparr>no_sequence = SequenceNumber 7, no_order_id = OrderId 300, no_side = Sell, no_type = Limit,
     no_quantity = Quantity 70000, no_limit_price = Some (Price 12345)\<rparr>"

definition example_cancel_order :: cancel_order where
  "example_cancel_order = \<lparr>co_sequence = SequenceNumber 8, co_order_id = OrderId 300\<rparr>"

definition example_replace_order :: replace_order where
  "example_replace_order = \<lparr>rpo_sequence = SequenceNumber 9, rpo_order_id = OrderId 300,
     rpo_new_quantity = Quantity 5, rpo_new_price = Price 12000\<rparr>"

theorem command_wire_round_trip_witness:
  "\<exists>p. encode_new_order example_new_order (replicate 41 9) = Some (True, p @ [9]) \<and> length p = 40 \<and>
     decode_new_order p = Some (Inr example_new_order)"
proof -
  have "valid_new_order example_new_order" "cancel_order_ok example_cancel_order"
    "replace_order_ok example_replace_order" by code_simp+
  from command_wire_round_trip [OF this, of "replicate 41 9"] show ?thesis by auto
qed

text \<open>
  Claim C33. The inbound decoders answer every byte string, without reading outside it; what they
  accept is valid (positive sequence, identifier, quantity and price, price present exactly for limit
  orders), and canonical: re-encoding it reproduces the bytes, so no two payloads mean the same
  command. A payload of any other length is refused as \<open>payload_length_invalid\<close>.
\<close>

theorem inbound_decoders_exact:
  "(\<exists>res. decode_new_order inp = Some res \<and> (case res of Inl e \<Rightarrow> True
      | Inr n \<Rightarrow> valid_new_order n \<and> encode_new_order n (replicate 40 0) = Some (True, inp))) \<and>
   (\<exists>res. decode_cancel_order inp = Some res \<and> (case res of Inl e \<Rightarrow> True
      | Inr c \<Rightarrow> cancel_order_ok c \<and> encode_cancel_order c (replicate 16 0) = Some (True, inp))) \<and>
   (\<exists>res. decode_replace_order inp = Some res \<and> (case res of Inl e \<Rightarrow> True
      | Inr r \<Rightarrow> replace_order_ok r \<and> encode_replace_order r (replicate 32 0) = Some (True, inp))) \<and>
   (length inp = 40 \<or> decode_new_order inp = Some (Inl payload_length_invalid)) \<and>
   (length inp = 16 \<or> decode_cancel_order inp = Some (Inl payload_length_invalid)) \<and>
   (length inp = 32 \<or> decode_replace_order inp = Some (Inl payload_length_invalid))"
proof -
  have "\<exists>res. decode_new_order inp = Some res \<and> (case res of Inl e \<Rightarrow> True
      | Inr n \<Rightarrow> valid_new_order n \<and> encode_new_order n (replicate 40 0) = Some (True, inp))"
    using new_order_codec.decode_defined [of inp] new_order_codec.decode_ok [of inp]
      new_order_codec.canonical [of inp] new_order_codec.encode_fits [of "replicate 40 0"]
    by (auto simp: size_defs split: sum.splits)
  moreover have "\<exists>res. decode_cancel_order inp = Some res \<and> (case res of Inl e \<Rightarrow> True
      | Inr c \<Rightarrow> cancel_order_ok c \<and> encode_cancel_order c (replicate 16 0) = Some (True, inp))"
    using cancel_codec.decode_defined [of inp] cancel_codec.decode_ok [of inp]
      cancel_codec.canonical [of inp] cancel_codec.encode_fits [of "replicate 16 0"]
    by (auto simp: size_defs split: sum.splits)
  moreover have "\<exists>res. decode_replace_order inp = Some res \<and> (case res of Inl e \<Rightarrow> True
      | Inr r \<Rightarrow> replace_order_ok r \<and> encode_replace_order r (replicate 32 0) = Some (True, inp))"
    using replace_codec.decode_defined [of inp] replace_codec.decode_ok [of inp]
      replace_codec.canonical [of inp] replace_codec.encode_fits [of "replicate 32 0"]
    by (auto simp: size_defs split: sum.splits)
  ultimately show ?thesis
    using new_order_codec.decode_length [of inp] cancel_codec.decode_length [of inp]
      replace_codec.decode_length [of inp] by (auto simp: size_defs)
qed

text \<open>
  Outbound events survive the wire: each of the five event codecs decodes what it
  encodes, for every well-formed event and every span that is large enough.
\<close>

theorem event_wire_round_trip:
  assumes "order_accepted_ok a" and "order_rejected_ok r" and "execution_ok x" and "cancel_accepted_ok c"
    and "40 \<le> length out"
  shows "(\<exists>p. encode_order_accepted a out = Some (True, p @ drop 24 out) \<and> decode_order_accepted p = Some (Inr a)) \<and>
    (\<exists>p. encode_order_rejected r out = Some (True, p @ drop 24 out) \<and> decode_order_rejected p = Some (Inr r)) \<and>
    (\<exists>p. encode_execution x out = Some (True, p @ drop 40 out) \<and> decode_execution p = Some (Inr x)) \<and>
    (\<exists>p. encode_cancel_accepted c out = Some (True, p @ drop 24 out) \<and> decode_cancel_accepted p = Some (Inr c)) \<and>
    (\<exists>p. encode_protocol_error e out = Some (True, p @ drop 8 out) \<and> decode_protocol_error p = Some (Inr e))"
  using assms order_accepted_codec.encode_fits [of out a] order_accepted_codec.decode_payload [of a]
    order_rejected_codec.encode_fits [of out r] order_rejected_codec.decode_payload [of r]
    execution_codec.encode_fits [of out x] execution_codec.decode_payload [of x]
    cancel_accepted_codec.encode_fits [of out c] cancel_accepted_codec.decode_payload [of c]
    protocol_error_codec.encode_fits [of out e] protocol_error_codec.decode_payload [of e]
  by (simp add: size_defs protocol_error_ok_def)

theorem event_wire_round_trip_witness:
  "\<exists>p. encode_execution \<lparr>ee_sequence = SequenceNumber 3, ee_resting_order_id = OrderId 1,
         ee_incoming_order_id = OrderId 2, ee_price = Price 100, ee_quantity = Quantity 9\<rparr> (replicate 40 0) = Some (True, p) \<and>
     decode_execution p = Some (Inr \<lparr>ee_sequence = SequenceNumber 3, ee_resting_order_id = OrderId 1,
         ee_incoming_order_id = OrderId 2, ee_price = Price 100, ee_quantity = Quantity 9\<rparr>)"
proof -
  let ?x = "\<lparr>ee_sequence = SequenceNumber 3, ee_resting_order_id = OrderId 1,
         ee_incoming_order_id = OrderId 2, ee_price = Price 100, ee_quantity = Quantity 9\<rparr>"
  have "order_accepted_ok \<lparr>oa_sequence = SequenceNumber 1, oa_order_id = OrderId 1, oa_remaining_quantity = 0\<rparr>"
    "order_rejected_ok \<lparr>or_sequence = SequenceNumber 1, or_order_id = OrderId 1, or_error_code = ErrorCode 100\<rparr>"
    "execution_ok ?x"
    "cancel_accepted_ok \<lparr>ca_sequence = SequenceNumber 1, ca_order_id = OrderId 1, ca_cancelled_quantity = Quantity 1\<rparr>"
    by code_simp+
  from event_wire_round_trip [OF this, of "replicate 40 0"] show ?thesis by auto
qed

text \<open>
  A frame carries its payload: for every message type with a payload of the length that
  type demands, and flags without reserved bits, \<open>encode_frame\<close> writes a header that decodes and
  validates, with that type and those flags, followed by exactly the payload.
\<close>

theorem frame_round_trip:
  assumes "expected_payload_length t = Some (of_nat (length payload))" and "length payload \<le> 1024"
    and "flags_reserved_bits_clear flags" and "length out = kHeaderSize + length payload"
  shows "\<exists>frame h. encode_frame t payload flags out = Some (True, frame) \<and> length frame = length out \<and>
    decode_header frame = Some (Some h) \<and> validate_header h = None \<and> wh_type h = t \<and> wh_flags h = flags \<and>
    drop kHeaderSize frame = payload"
proof -
  let ?h = "frame_header t payload flags"
  have "wh_payload_length ?h \<le> kMaxPayloadLength"
    using assms(2) by (simp add: frame_header_def kMaxPayloadLength_def word_le_nat_alt)
  then have "validate_header ?h = None"
    unfolding validate_header_None using assms(1,3) by (simp add: frame_header_def)
  then show ?thesis
    using encode_frame_fits [of payload out t flags] assms(4) decode_header_bytes [of ?h payload]
    by (auto simp: frame_header_def kHeaderSize_def intro!: exI)
qed

theorem frame_round_trip_witness:
  "\<exists>frame h. encode_frame mt_cancel_order (replicate 16 1) 0 (replicate 24 0) = Some (True, frame) \<and>
    length frame = 24 \<and> decode_header frame = Some (Some h) \<and> validate_header h = None \<and>
    wh_type h = mt_cancel_order \<and> wh_flags h = 0 \<and> drop kHeaderSize frame = replicate 16 1"
proof -
  have "expected_payload_length mt_cancel_order = Some (of_nat (length (replicate 16 (1 :: u8))))" by code_simp
  moreover have "flags_reserved_bits_clear 0" by code_simp
  ultimately show ?thesis
    using frame_round_trip [of mt_cancel_order "replicate 16 1" 0 "replicate 24 0"]
    by (simp add: kHeaderSize_def)
qed

text \<open>
  The rejection decoder does not keep an absent identifier apart: a rejection on the
  wire whose order identifier is zero, the documented value for a command that could not be parsed,
  is decoded as a rejection of the order with identifier one.
\<close>

theorem rejected_zero_id_decodes_as_one:
  "decode_order_rejected (bytes_of 8 (5 :: u64) @ bytes_of 8 (0 :: u64) @ bytes_of 2 (6 :: u16) @ replicate 6 0) =
     Some (Inr \<lparr>or_sequence = SequenceNumber 5, or_order_id = OrderId 1, or_error_code = invalid_field\<rparr>)"
  by code_simp

end
