(* ===== verification/Price_Time_Spec.thy ===== *)
theory Price_Time_Spec
  imports Order_Book
begin

text \<open>
  What the matching core promises, stated without price levels, aggregates, iterators or an index:
  each side of the book is one list of resting orders in price-time priority, an incoming order
  consumes the contra list from its front while prices cross, a remainder is inserted behind every
  order that is at least as good, a cancellation deletes an order by its identifier. The theory
  \<open>Order_Book_Refinement\<close> proves that \<open>src/order_book.cpp\<close> implements this specification.
\<close>

section \<open>The abstract book\<close>

type_synonym entry = "price \<times> resting_order"

record abs_book =
  ab_bids :: "entry list"
  ab_asks :: "entry list"
  ab_seen :: "order_id set"

abbreviation entry_id :: "entry \<Rightarrow> order_id" where
  "entry_id e \<equiv> ro_order_id (snd e)"

abbreviation entry_units :: "entry \<Rightarrow> u64" where
  "entry_units e \<equiv> units (ro_remaining_quantity (snd e))"

definition set_entry_quantity :: "quantity \<Rightarrow> entry \<Rightarrow> entry" where
  "set_entry_quantity q e = (fst e, (snd e)\<lparr>ro_remaining_quantity := q\<rparr>)"

definition fill :: "order_id \<Rightarrow> entry \<Rightarrow> u64 \<Rightarrow> execution" where
  "fill inc e u = \<lparr>ex_resting_order_id = entry_id e, ex_incoming_order_id = inc,
                   ex_price = fst e, ex_quantity = Quantity u\<rparr>"

fun spec_match ::
    "(price \<Rightarrow> bool) \<Rightarrow> order_id \<Rightarrow> u64 \<Rightarrow> entry list \<Rightarrow> execution list \<times> u64 \<times> entry list" where
  "spec_match crosses inc rem [] = ([], rem, [])"
| "spec_match crosses inc rem (e # es) =
     (if rem = 0 \<or> \<not> crosses (fst e) then ([], rem, e # es)
      else if entry_units e \<le> rem then
        (let (xs, rem', es') = spec_match crosses inc (rem - entry_units e) es
         in (fill inc e (entry_units e) # xs, rem', es'))
      else ([fill inc e rem], 0, set_entry_quantity (Quantity (entry_units e - rem)) e # es))"

definition spec_insert :: "(price \<Rightarrow> price \<Rightarrow> bool) \<Rightarrow> entry \<Rightarrow> entry list \<Rightarrow> entry list" where
  "spec_insert better e es =
     takeWhile (\<lambda>e'. \<not> better (fst e) (fst e')) es @ e # dropWhile (\<lambda>e'. \<not> better (fst e) (fst e')) es"

definition spec_crosses :: "side \<Rightarrow> order_type \<Rightarrow> price option \<Rightarrow> price \<Rightarrow> bool" where
  "spec_crosses side type limit px =
     (type = Market \<or> (case side of Buy \<Rightarrow> px \<le> the limit | Sell \<Rightarrow> px \<ge> the limit))"

section \<open>Operations\<close>

definition spec_take ::
    "order_id \<Rightarrow> side \<Rightarrow> order_type \<Rightarrow> price option \<Rightarrow> u64 \<Rightarrow> abs_book \<Rightarrow>
     execution list \<times> u64 \<times> abs_book" where
  "spec_take inc side type limit rem a =
     (case side of
        Buy \<Rightarrow> let (xs, rem', es) = spec_match (spec_crosses Buy type limit) inc rem (ab_asks a)
               in (xs, rem', a\<lparr>ab_asks := es\<rparr>)
      | Sell \<Rightarrow> let (xs, rem', es) = spec_match (spec_crosses Sell type limit) inc rem (ab_bids a)
                in (xs, rem', a\<lparr>ab_bids := es\<rparr>))"

definition spec_rest :: "side \<Rightarrow> entry \<Rightarrow> abs_book \<Rightarrow> abs_book" where
  "spec_rest side e a =
     (case side of
        Buy \<Rightarrow> a\<lparr>ab_bids := spec_insert (>) e (ab_bids a)\<rparr>
      | Sell \<Rightarrow> a\<lparr>ab_asks := spec_insert (<) e (ab_asks a)\<rparr>)"

definition spec_submit :: "new_order \<Rightarrow> abs_book \<Rightarrow> submit_result \<times> abs_book" where
  "spec_submit order a =
     (if validate order \<noteq> None then
        (\<lparr>sr_executions = [], sr_rejection = Some Invalid_order, sr_remaining_quantity = None\<rparr>, a)
      else if no_order_id order \<in> ab_seen a then
        (\<lparr>sr_executions = [], sr_rejection = Some Duplicate_order_id, sr_remaining_quantity = None\<rparr>, a)
      else
        (let (xs, rem, a1) = spec_take (no_order_id order) (no_side order) (no_type order)
               (no_limit_price order) (units (no_quantity order))
               (a\<lparr>ab_seen := insert (no_order_id order) (ab_seen a)\<rparr>)
         in if no_type order = Limit \<and> rem \<noteq> 0 then
              (\<lparr>sr_executions = xs, sr_rejection = None,
                sr_remaining_quantity = Some (Quantity rem)\<rparr>,
               spec_rest (no_side order)
                 (the (no_limit_price order),
                  \<lparr>ro_order_id = no_order_id order, ro_sequence = no_sequence order,
                   ro_remaining_quantity = Quantity rem\<rparr>) a1)
            else (\<lparr>sr_executions = xs, sr_rejection = None, sr_remaining_quantity = None\<rparr>, a1)))"

definition spec_find :: "order_id \<Rightarrow> abs_book \<Rightarrow> (side \<times> entry) option" where
  "spec_find oid a =
     (case find (\<lambda>e. entry_id e = oid) (ab_bids a) of
        Some e \<Rightarrow> Some (Buy, e)
      | None \<Rightarrow> (case find (\<lambda>e. entry_id e = oid) (ab_asks a) of
                   Some e \<Rightarrow> Some (Sell, e) | None \<Rightarrow> None))"

definition spec_delete :: "order_id \<Rightarrow> abs_book \<Rightarrow> abs_book" where
  "spec_delete oid a =
     a\<lparr>ab_bids := filter (\<lambda>e. entry_id e \<noteq> oid) (ab_bids a),
       ab_asks := filter (\<lambda>e. entry_id e \<noteq> oid) (ab_asks a)\<rparr>"

definition spec_cancel :: "cancel_order \<Rightarrow> abs_book \<Rightarrow> cancel_result \<times> abs_book" where
  "spec_cancel c a =
     (case spec_find (co_order_id c) a of
        None \<Rightarrow> (\<lparr>cr_order_id = co_order_id c, cr_cancelled_quantity = None,
                  cr_rejection = Some Cancel_order_not_found\<rparr>, a)
      | Some (_, e) \<Rightarrow> (\<lparr>cr_order_id = co_order_id c,
                         cr_cancelled_quantity = Some (ro_remaining_quantity (snd e)),
                         cr_rejection = None\<rparr>, spec_delete (co_order_id c) a))"

definition spec_requantify :: "order_id \<Rightarrow> quantity \<Rightarrow> entry list \<Rightarrow> entry list" where
  "spec_requantify oid q es = map (\<lambda>e. if entry_id e = oid then set_entry_quantity q e else e) es"

definition spec_replace :: "replace_order \<Rightarrow> abs_book \<Rightarrow> replace_result \<times> abs_book" where
  "spec_replace c a =
     (case spec_find (rpo_order_id c) a of
        None \<Rightarrow> (\<lparr>rr_order_id = rpo_order_id c, rr_executions = [], rr_remaining_quantity = None,
                  rr_rejection = Some Replace_order_not_found\<rparr>, a)
      | Some (side, e) \<Rightarrow>
          if rpo_new_price c = fst e \<and> units (rpo_new_quantity c) \<le> entry_units e then
            (\<lparr>rr_order_id = rpo_order_id c, rr_executions = [],
              rr_remaining_quantity = Some (rpo_new_quantity c), rr_rejection = None\<rparr>,
             a\<lparr>ab_bids := spec_requantify (rpo_order_id c) (rpo_new_quantity c) (ab_bids a),
               ab_asks := spec_requantify (rpo_order_id c) (rpo_new_quantity c) (ab_asks a)\<rparr>)
          else
            (let (xs, rem, a1) = spec_take (rpo_order_id c) side Limit (Some (rpo_new_price c))
                   (units (rpo_new_quantity c)) (spec_delete (rpo_order_id c) a)
             in if rem \<noteq> 0 then
                  (\<lparr>rr_order_id = rpo_order_id c, rr_executions = xs,
                    rr_remaining_quantity = Some (Quantity rem), rr_rejection = None\<rparr>,
                   spec_rest side
                     (rpo_new_price c, \<lparr>ro_order_id = rpo_order_id c, ro_sequence = rpo_sequence c,
                                        ro_remaining_quantity = Quantity rem\<rparr>) a1)
                else (\<lparr>rr_order_id = rpo_order_id c, rr_executions = xs,
                       rr_remaining_quantity = None, rr_rejection = None\<rparr>, a1)))"

section \<open>Laws of matching\<close>

lemma spec_match_append:
  "spec_match c inc rem (es @ fs) =
     (case spec_match c inc rem es of (xs, rem', es') \<Rightarrow>
        if es' = [] then (case spec_match c inc rem' fs of (ys, rem'', fs') \<Rightarrow> (xs @ ys, rem'', fs'))
        else (xs, rem', es' @ fs))"
  by (induction c inc rem es rule: spec_match.induct) (auto split: prod.splits)

lemma spec_match_cong:
  "(\<And>e. e \<in> set es \<Longrightarrow> c (fst e) = c' (fst e)) \<Longrightarrow> spec_match c inc rem es = spec_match c' inc rem es"
  by (induction c inc rem es rule: spec_match.induct) auto

lemma spec_match_zero [simp]: "spec_match c inc 0 es = ([], 0, es)"
  by (cases es) auto

text \<open>Price-time priority: the executions run through the contra list from its front, in order.\<close>

lemma spec_match_priority:
  "spec_match c inc rem es = (xs, rem', es') \<Longrightarrow>
   map ex_resting_order_id xs = map entry_id (take (length xs) es) \<and>
   map ex_price xs = map fst (take (length xs) es) \<and> length xs \<le> length es"
  by (induction c inc rem es arbitrary: xs rem' es' rule: spec_match.induct)
    (auto simp: fill_def split: if_splits prod.splits)

lemma spec_match_prices:
  "spec_match c inc rem es = (xs, rem', es') \<Longrightarrow> x \<in> set xs \<Longrightarrow>
   c (ex_price x) \<and> ex_incoming_order_id x = inc"
  by (induction c inc rem es arbitrary: xs rem' es' rule: spec_match.induct)
    (auto simp: fill_def split: if_splits prod.splits)

text \<open>Conservation: what the incoming order loses, the executions carry and the contra side loses.\<close>

definition executed_units :: "execution list \<Rightarrow> nat" where
  "executed_units xs = (\<Sum>x\<leftarrow>xs. unat (units (ex_quantity x)))"

definition resting_units :: "entry list \<Rightarrow> nat" where
  "resting_units es = (\<Sum>e\<leftarrow>es. unat (entry_units e))"

lemma executed_units_simps [simp]:
  "executed_units [] = 0"
  "executed_units (x # xs) = unat (units (ex_quantity x)) + executed_units xs"
  "executed_units (xs @ ys) = executed_units xs + executed_units ys"
  by (simp_all add: executed_units_def)

lemma resting_units_simps [simp]:
  "resting_units [] = 0"
  "resting_units (e # es) = unat (entry_units e) + resting_units es"
  "resting_units (es @ fs) = resting_units es + resting_units fs"
  by (simp_all add: resting_units_def)

lemma spec_match_conserves:
  "spec_match c inc rem es = (xs, rem', es') \<Longrightarrow>
   unat rem = executed_units xs + unat rem' \<and> resting_units es = executed_units xs + resting_units es'"
proof (induction c inc rem es arbitrary: xs rem' es' rule: spec_match.induct)
  case (2 c inc rem e es)
  consider (stop) "rem = 0 \<or> \<not> c (fst e)" | (full) "rem \<noteq> 0" "c (fst e)" "entry_units e \<le> rem"
    | (part) "rem \<noteq> 0" "c (fst e)" "\<not> entry_units e \<le> rem" by blast
  then show ?case
  proof cases
    case full
    with "2" show ?thesis
      by (auto simp: fill_def unat_diff_le word_le_nat_alt split: prod.splits)
  next
    case part
    with "2.prems" show ?thesis
      by (auto simp: fill_def set_entry_quantity_def unat_diff_le word_le_nat_alt)
  qed (use "2.prems" in auto)
qed simp

text \<open>Every execution and every order left behind has a positive size.\<close>

lemma spec_match_positive:
  "spec_match c inc rem es = (xs, rem', es') \<Longrightarrow> \<forall>e \<in> set es. entry_units e \<noteq> 0 \<Longrightarrow>
   (\<forall>x \<in> set xs. units (ex_quantity x) \<noteq> 0) \<and> (\<forall>e \<in> set es'. entry_units e \<noteq> 0)"
  by (induction c inc rem es arbitrary: xs rem' es' rule: spec_match.induct)
    (auto simp: fill_def set_entry_quantity_def split: if_splits prod.splits)

text \<open>The survivors are a suffix of the contra list, their first order possibly reduced.\<close>

lemma spec_match_suffix:
  "spec_match c inc rem es = (xs, rem', es') \<Longrightarrow>
   \<exists>k \<le> length es. map fst es' = drop k (map fst es) \<and> map entry_id es' = drop k (map entry_id es)"
proof (induction c inc rem es arbitrary: xs rem' es' rule: spec_match.induct)
  case (2 c inc rem e es)
  show ?case
  proof (cases "rem = 0 \<or> \<not> c (fst e) \<or> \<not> entry_units e \<le> rem")
    case True
    with "2.prems" show ?thesis
      by (intro exI [of _ 0]) (auto simp: set_entry_quantity_def split: if_splits)
  next
    case False
    then obtain k where "k \<le> length es" "map fst es' = drop k (map fst es)"
        "map entry_id es' = drop k (map entry_id es)"
      using "2" by (auto split: prod.splits)
    then show ?thesis by (intro exI [of _ "Suc k"]) simp
  qed
qed simp

text \<open>An order that is left with units has exhausted the prices it crosses.\<close>

lemma spec_match_exhausts:
  "spec_match c inc rem es = (xs, rem', es') \<Longrightarrow> rem' \<noteq> 0 \<Longrightarrow> es' \<noteq> [] \<Longrightarrow> \<not> c (fst (hd es'))"
  by (induction c inc rem es arbitrary: xs rem' es' rule: spec_match.induct)
    (auto split: if_splits prod.splits)

lemma spec_match_frame:
  "spec_match c inc rem es = (xs, rem', es') \<Longrightarrow> e \<in> set es \<Longrightarrow>
   entry_id e \<notin> set (map ex_resting_order_id xs) \<Longrightarrow> e \<in> set es'"
  by (induction c inc rem es arbitrary: xs rem' es' rule: spec_match.induct)
    (auto simp: fill_def split: if_splits prod.splits)

end
