(* ===== verification/Order_Book_Invariant.thy ===== *)
theory Order_Book_Invariant
  imports Price_Time_Spec
begin

text \<open>
  The data-structure invariant of the order book and the effect of its four elementary mutations
  on it: removing a node, changing a node's quantity, appending a node to a level, erasing an empty
  level. The invariant has a part about the node store and the locator index (\<open>store_inv\<close>), which
  does not depend on how the locations are grouped into levels, and a part about each side's levels
  (\<open>side_inv\<close>).
\<close>

section \<open>Sides\<close>

definition better :: "side \<Rightarrow> price \<Rightarrow> price \<Rightarrow> bool" where
  "better s = (case s of Buy \<Rightarrow> (>) | Sell \<Rightarrow> (<))"

definition opposite :: "side \<Rightarrow> side" where
  "opposite s = (case s of Buy \<Rightarrow> Sell | Sell \<Rightarrow> Buy)"

definition levels_of :: "side \<Rightarrow> order_book \<Rightarrow> levels" where
  "levels_of s b = (case s of Buy \<Rightarrow> ob_bids b | Sell \<Rightarrow> ob_asks b)"

definition put_levels :: "side \<Rightarrow> levels \<Rightarrow> order_book \<Rightarrow> order_book" where
  "put_levels s ls b = (case s of Buy \<Rightarrow> b\<lparr>ob_bids := ls\<rparr> | Sell \<Rightarrow> b\<lparr>ob_asks := ls\<rparr>)"

interpretation side_order: comparator "better s" for s
  by unfold_locales (auto simp: better_def split: side.splits)

lemma opposite_simps [simp]:
  "opposite Buy = Sell" "opposite Sell = Buy" "opposite (opposite s) = s" "opposite s \<noteq> s"
  by (cases s; simp add: opposite_def)+

lemma levels_of_put [simp]:
  "levels_of s (put_levels s ls b) = ls"
  "levels_of (opposite s) (put_levels s ls b) = levels_of (opposite s) b"
  "levels_of s (put_levels (opposite s) ls b) = levels_of s b"
  by (cases s; simp add: levels_of_def put_levels_def)+

lemma put_levels_put [simp]: "put_levels s ls (put_levels s ls' b) = put_levels s ls b"
  by (cases s) (simp_all add: put_levels_def)

lemma put_levels_of [simp]: "put_levels s (levels_of s b) b = b"
  by (cases s) (simp_all add: put_levels_def levels_of_def)

lemma put_levels_fields [simp]:
  "ob_resting_orders (put_levels s ls b) = ob_resting_orders b"
  "ob_seen_order_ids (put_levels s ls b) = ob_seen_order_ids b"
  "ob_resting_order_count (put_levels s ls b) = ob_resting_order_count b"
  "ob_nodes (put_levels s ls b) = ob_nodes b"
  "ob_next_node (put_levels s ls b) = ob_next_node b"
  by (cases s; simp add: put_levels_def)+

lemma all_sides: "(\<forall>s'. P s') \<longleftrightarrow> P s \<and> P (opposite s)"
  by (metis opposite_simps(1,2) side.exhaust)

section \<open>Locations and entries of a side\<close>

definition level_locs :: "side \<Rightarrow> price \<Rightarrow> node list \<Rightarrow> order_location list" where
  "level_locs s px ns = map (\<lambda>n. \<lparr>ol_side = s, ol_price = px, ol_it = n\<rparr>) ns"

definition level_entries :: "(node \<rightharpoonup> resting_order) \<Rightarrow> price \<Rightarrow> node list \<Rightarrow> entry list" where
  "level_entries nodes px ns = map (\<lambda>n. (px, the (nodes n))) ns"

definition level_total :: "(node \<rightharpoonup> resting_order) \<Rightarrow> node list \<Rightarrow> u64" where
  "level_total nodes ns = (\<Sum>n\<leftarrow>ns. units (ro_remaining_quantity (the (nodes n))))"

definition side_locs :: "side \<Rightarrow> levels \<Rightarrow> order_location list" where
  "side_locs s ls = concat (map (\<lambda>(px, l). level_locs s px (pl_orders l)) ls)"

definition side_entries :: "(node \<rightharpoonup> resting_order) \<Rightarrow> levels \<Rightarrow> entry list" where
  "side_entries nodes ls = concat (map (\<lambda>(px, l). level_entries nodes px (pl_orders l)) ls)"

definition side_nodes :: "levels \<Rightarrow> node list" where
  "side_nodes ls = concat (map (\<lambda>(px, l). pl_orders l) ls)"

lemma side_simps [simp]:
  "side_locs s [] = []" "side_entries nodes [] = []" "side_nodes [] = []"
  "side_locs s ((px, l) # ls) = level_locs s px (pl_orders l) @ side_locs s ls"
  "side_entries nodes ((px, l) # ls) = level_entries nodes px (pl_orders l) @ side_entries nodes ls"
  "side_nodes ((px, l) # ls) = pl_orders l @ side_nodes ls"
  "side_locs s (ls @ ls') = side_locs s ls @ side_locs s ls'"
  "side_entries nodes (ls @ ls') = side_entries nodes ls @ side_entries nodes ls'"
  "side_nodes (ls @ ls') = side_nodes ls @ side_nodes ls'"
  by (simp_all add: side_locs_def side_entries_def side_nodes_def)

lemma level_simps [simp]:
  "level_locs s px [] = []" "level_entries nodes px [] = []" "level_total nodes [] = 0"
  "level_locs s px (n # ns) = \<lparr>ol_side = s, ol_price = px, ol_it = n\<rparr> # level_locs s px ns"
  "level_entries nodes px (n # ns) = (px, the (nodes n)) # level_entries nodes px ns"
  "level_total nodes (n # ns) = units (ro_remaining_quantity (the (nodes n))) + level_total nodes ns"
  "level_locs s px (ns @ ns') = level_locs s px ns @ level_locs s px ns'"
  "level_entries nodes px (ns @ ns') = level_entries nodes px ns @ level_entries nodes px ns'"
  "level_total nodes (ns @ ns') = level_total nodes ns + level_total nodes ns'"
  by (simp_all add: level_locs_def level_entries_def level_total_def)

lemma map_it_level_locs [simp]: "map ol_it (level_locs s px ns) = ns"
  by (simp add: level_locs_def comp_def)

lemma map_it_side_locs [simp]: "map ol_it (side_locs s ls) = side_nodes ls"
  by (induction ls) auto

lemma it_image_side_locs [simp]: "ol_it ` set (side_locs s ls) = set (side_nodes ls)"
  by (metis list.set_map map_it_side_locs)

lemma fst_side_entries: "fst ` set (side_entries nodes ls) \<subseteq> fst ` set ls"
  by (force simp: side_entries_def level_entries_def)

text \<open>Entries, totals and locations depend on the store only at the side's own nodes.\<close>

lemma level_entries_cong:
  "(\<And>n. n \<in> set ns \<Longrightarrow> nodes n = nodes' n) \<Longrightarrow> level_entries nodes px ns = level_entries nodes' px ns"
  by (simp add: level_entries_def)

lemma level_total_cong:
  "(\<And>n. n \<in> set ns \<Longrightarrow> nodes n = nodes' n) \<Longrightarrow> level_total nodes ns = level_total nodes' ns"
  unfolding level_total_def by (metis (mono_tags, lifting) map_eq_conv)

lemma side_entries_cong:
  "(\<And>n. n \<in> set (side_nodes ls) \<Longrightarrow> nodes n = nodes' n) \<Longrightarrow> side_entries nodes ls = side_entries nodes' ls"
  by (induction ls) (auto intro!: arg_cong2 [of _ _ _ _ append] level_entries_cong)

section \<open>The invariant\<close>

definition resting_ok :: "resting_order \<Rightarrow> bool" where
  "resting_ok r \<longleftrightarrow> quantity_ok (ro_remaining_quantity r)"

definition loc_key :: "(node \<rightharpoonup> resting_order) \<Rightarrow> order_location \<Rightarrow> order_id \<times> order_location" where
  "loc_key nodes loc = (ro_order_id (the (nodes (ol_it loc))), loc)"

definition store_inv :: "order_location list \<Rightarrow> order_book \<Rightarrow> bool" where
  "store_inv L b \<longleftrightarrow>
     distinct (map ol_it L) \<and> dom (ob_nodes b) = ol_it ` set L \<and>
     (\<forall>n \<in> dom (ob_nodes b). n < ob_next_node b) \<and>
     (\<forall>r \<in> ran (ob_nodes b). resting_ok r) \<and>
     mset (ob_resting_orders b) = mset (map (loc_key (ob_nodes b)) L) \<and>
     distinct (map fst (ob_resting_orders b)) \<and>
     ob_resting_order_count b = of_nat (length (ob_resting_orders b)) \<and>
     fst ` set (ob_resting_orders b) \<subseteq> ob_seen_order_ids b"

definition side_inv :: "side \<Rightarrow> (node \<rightharpoonup> resting_order) \<Rightarrow> levels \<Rightarrow> bool" where
  "side_inv s nodes ls \<longleftrightarrow>
     sorted_wrt (better s) (map fst ls) \<and>
     (\<forall>(px, l) \<in> set ls. pl_total_units l = level_total nodes (pl_orders l))"

definition no_empty_level :: "levels \<Rightarrow> bool" where
  "no_empty_level ls \<longleftrightarrow> (\<forall>(px, l) \<in> set ls. pl_orders l \<noteq> [])"

definition uncrossed :: "order_book \<Rightarrow> bool" where
  "uncrossed b \<longleftrightarrow> (\<forall>p \<in> fst ` set (ob_bids b). \<forall>q \<in> fst ` set (ob_asks b). p < q)"

definition all_locs :: "order_book \<Rightarrow> order_location list" where
  "all_locs b = side_locs Buy (ob_bids b) @ side_locs Sell (ob_asks b)"

definition book_core :: "order_book \<Rightarrow> bool" where
  "book_core b \<longleftrightarrow> store_inv (all_locs b) b \<and> (\<forall>s. side_inv s (ob_nodes b) (levels_of s b))"

definition book_inv :: "order_book \<Rightarrow> bool" where
  "book_inv b \<longleftrightarrow> book_core b \<and> (\<forall>s. no_empty_level (levels_of s b)) \<and> uncrossed b"

definition abs_of :: "order_book \<Rightarrow> abs_book" where
  "abs_of b = \<lparr>ab_bids = side_entries (ob_nodes b) (ob_bids b),
               ab_asks = side_entries (ob_nodes b) (ob_asks b),
               ab_seen = ob_seen_order_ids b\<rparr>"

lemma book_inv_empty: "book_inv empty_book"
  by (auto simp: book_inv_def book_core_def store_inv_def side_inv_def no_empty_level_def
      uncrossed_def all_locs_def levels_of_def empty_book_def split: side.splits)

section \<open>The store under its elementary mutations\<close>

lemma store_inv_perm:
  assumes "mset L = mset L'"
  shows "store_inv L b = store_inv L' b"
proof -
  have its: "mset (map ol_it L) = mset (map ol_it L')"
    and keys: "mset (map (loc_key (ob_nodes b)) L) = mset (map (loc_key (ob_nodes b)) L')"
    using assms by simp_all
  have "distinct (map ol_it L) = distinct (map ol_it L')"
    using its by (rule mset_eq_imp_distinct_iff)
  moreover have "set L = set L'" using assms by (rule mset_eq_setD)
  moreover note keys
  ultimately show ?thesis by (simp only: store_inv_def)
qed

lemma store_inv_all_locs:
  "store_inv (all_locs b) b' =
   store_inv (side_locs s (levels_of s b) @ side_locs (opposite s) (levels_of (opposite s) b)) b'"
  by (rule store_inv_perm) (cases s; simp add: all_locs_def levels_of_def)

lemma loc_key_cong:
  "(\<And>loc. loc \<in> set L \<Longrightarrow> ro_order_id (the (nodes (ol_it loc))) = ro_order_id (the (nodes' (ol_it loc)))) \<Longrightarrow>
   mset (map (loc_key nodes) L) = mset (map (loc_key nodes') L)"
  by (intro arg_cong [of _ _ mset] map_cong) (auto simp: loc_key_def)

lemma store_inv_node:
  assumes "store_inv L b" and "loc \<in> set L"
  obtains r where "ob_nodes b (ol_it loc) = Some r" and "resting_ok r"
    and "(ro_order_id r, loc) \<in> set (ob_resting_orders b)"
proof -
  have "ol_it loc \<in> dom (ob_nodes b)" using assms by (auto simp: store_inv_def)
  then obtain r where r: "ob_nodes b (ol_it loc) = Some r" by blast
  moreover have "resting_ok r" using assms r by (auto simp: store_inv_def intro: ranI)
  moreover have "loc_key (ob_nodes b) loc \<in># mset (ob_resting_orders b)"
    using assms by (simp add: store_inv_def)
  ultimately show thesis using that by (simp add: loc_key_def)
qed

lemma store_inv_find:
  assumes "store_inv L b" and "um_find oid (ob_resting_orders b) = Some loc"
  obtains r where "loc \<in> set L" and "ob_nodes b (ol_it loc) = Some r" and "resting_ok r"
    and "ro_order_id r = oid"
proof -
  have "(oid, loc) \<in># mset (ob_resting_orders b)"
    using assms(2) by (auto simp: um_find_def dest: map_of_SomeD)
  then have "(oid, loc) \<in> set (map (loc_key (ob_nodes b)) L)"
    using assms(1) by (metis store_inv_def set_mset_mset)
  then have "loc \<in> set L" and "ro_order_id (the (ob_nodes b (ol_it loc))) = oid"
    by (auto simp: loc_key_def)
  with assms(1) that show thesis by (auto elim: store_inv_node)
qed

lemma erase_key_mset:
  assumes "mset idx = mset ((k, v) # kvs)" and "distinct (map fst idx)"
  shows "mset (um_erase k idx) = mset kvs"
proof -
  have "mset (map fst idx) = mset (map fst ((k, v) # kvs))" using assms(1) by (metis mset_map)
  then have "distinct (map fst ((k, v) # kvs))" using assms(2) by (metis mset_eq_imp_distinct_iff)
  then have "filter (\<lambda>e. fst e \<noteq> k) kvs = kvs" by (auto simp: filter_id_conv image_iff)
  moreover have "mset (um_erase k idx) = filter_mset (\<lambda>e. fst e \<noteq> k) (mset ((k, v) # kvs))"
    unfolding um_erase_def by (metis assms(1) mset_filter)
  ultimately show ?thesis by (simp flip: mset_filter)
qed

lemma store_inv_remove:
  assumes inv: "store_inv (loc # L) b" and r: "ob_nodes b (ol_it loc) = Some r"
  shows "store_inv L (drop_filled (ol_it loc) r b)"
proof -
  let ?idx = "ob_resting_orders b" and ?nodes = "(ob_nodes b)(ol_it loc := None)"
  let ?idx' = "um_erase (ro_order_id r) ?idx"
  have dist: "distinct (map ol_it (loc # L))" "distinct (map fst ?idx)"
    and dom: "dom (ob_nodes b) = ol_it ` set (loc # L)"
    and bound: "\<forall>n \<in> dom (ob_nodes b). n < ob_next_node b"
    and ok: "\<forall>r \<in> ran (ob_nodes b). resting_ok r"
    and cnt: "ob_resting_order_count b = of_nat (length ?idx)"
    and seen: "fst ` set ?idx \<subseteq> ob_seen_order_ids b"
    and ms: "mset ?idx = mset (map (loc_key (ob_nodes b)) (loc # L))"
    using inv by (simp_all add: store_inv_def)
  have "mset ?idx = mset ((ro_order_id r, loc) # map (loc_key (ob_nodes b)) L)"
    using ms r by (simp add: loc_key_def)
  then have ms': "mset ?idx' = mset (map (loc_key (ob_nodes b)) L)"
    using dist(2) by (rule erase_key_mset)
  have len: "length ?idx = Suc (length ?idx')"
    using ms ms' by (metis length_Cons length_map mset_eq_length)
  have cong: "mset (map (loc_key (ob_nodes b)) L) = mset (map (loc_key ?nodes) L)"
    using dist(1) by (intro loc_key_cong) (auto simp: image_iff)
  have sub: "set ?idx' \<subseteq> set ?idx" by (auto simp: um_erase_def)
  have "dom ?nodes = ol_it ` set L" using dom dist(1) by auto
  moreover have "\<forall>r \<in> ran ?nodes. resting_ok r" using ok by (auto simp: ran_def)
  moreover have "distinct (map fst ?idx')" using dist(2) by (simp add: um_erase_def distinct_keys_filter)
  moreover have "fst ` set ?idx' \<subseteq> ob_seen_order_ids b" using sub seen by blast
  ultimately show ?thesis
    using dist(1) bound ms' cong len cnt dom by (simp add: store_inv_def drop_filled_def)
qed

lemma store_inv_requantify:
  assumes inv: "store_inv L b" and r: "ob_nodes b n = Some r" and q: "quantity_ok q"
  shows "store_inv L (reduce_front n r q b)"
proof -
  let ?nodes = "(ob_nodes b)(n \<mapsto> r\<lparr>ro_remaining_quantity := q\<rparr>)"
  have "mset (map (loc_key (ob_nodes b)) L) = mset (map (loc_key ?nodes) L)"
    using r by (intro loc_key_cong) auto
  moreover have "dom ?nodes = dom (ob_nodes b)" using r by auto
  moreover have "\<forall>r \<in> ran ?nodes. resting_ok r"
    using inv q by (auto simp: store_inv_def ran_def resting_ok_def)
  ultimately show ?thesis
    using inv by (simp add: store_inv_def reduce_front_def)
qed

lemma store_inv_insert:
  assumes inv: "store_inv L b" and fresh: "oid \<notin> fst ` set (ob_resting_orders b)"
    and seen: "oid \<in> ob_seen_order_ids b" and q: "quantity_ok (ro_remaining_quantity r)"
    and r: "ro_order_id r = oid" and loc: "ol_it loc = ob_next_node b"
  shows "store_inv (loc # L)
     (b\<lparr>ob_nodes := (ob_nodes b)(ob_next_node b \<mapsto> r), ob_next_node := ob_next_node b + 1,
        ob_resting_orders := um_emplace oid loc (ob_resting_orders b),
        ob_resting_order_count := ob_resting_order_count b + 1\<rparr>)"
proof -
  let ?nodes = "(ob_nodes b)(ob_next_node b \<mapsto> r)"
  have dom: "dom (ob_nodes b) = ol_it ` set L" and bound: "\<forall>n \<in> dom (ob_nodes b). n < ob_next_node b"
    using inv by (simp_all add: store_inv_def)
  then have new: "ob_next_node b \<notin> ol_it ` set L" by blast
  then have cong: "mset (map (loc_key (ob_nodes b)) L) = mset (map (loc_key ?nodes) L)"
    by (intro loc_key_cong) (auto simp: image_iff)
  have idx: "um_emplace oid loc (ob_resting_orders b) = (oid, loc) # ob_resting_orders b"
    using fresh by (simp add: um_emplace_def um_contains_def um_find_def map_of_eq_None_iff)
  have key: "loc_key ?nodes loc = (oid, loc)" using r loc by (simp add: loc_key_def)
  have ran: "\<forall>r' \<in> ran ?nodes. resting_ok r'"
    using inv q by (auto simp: store_inv_def ran_def resting_ok_def)
  have "\<forall>n \<in> dom ?nodes. n < ob_next_node b + 1" using bound by (auto simp: less_Suc_eq)
  moreover have "mset ((oid, loc) # ob_resting_orders b) = mset (map (loc_key ?nodes) (loc # L))"
    using inv cong key by (simp add: store_inv_def)
  moreover have "dom ?nodes = ol_it ` set (loc # L)" using dom loc by simp
  ultimately show ?thesis
    using inv fresh seen loc new ran by (simp add: store_inv_def idx)
qed

section \<open>The book under its elementary mutations\<close>

definition entries :: "side \<Rightarrow> order_book \<Rightarrow> entry list" where
  "entries s b = side_entries (ob_nodes b) (levels_of s b)"

lemma levels_of_mutations [simp]:
  "levels_of s (drop_filled n r b) = levels_of s b"
  "levels_of s (reduce_front n r q b) = levels_of s b"
  by (cases s; simp add: levels_of_def drop_filled_def reduce_front_def)+

lemma store_inv_put_levels [simp]: "store_inv L (put_levels s ls b) = store_inv L b"
  by (simp add: store_inv_def)

lemma side_inv_split:
  "side_inv s nodes (ls1 @ (px, l) # ls2) \<longleftrightarrow>
     sorted_wrt (better s) (map fst (ls1 @ (px, l) # ls2)) \<and>
     pl_total_units l = level_total nodes (pl_orders l) \<and>
     (\<forall>(px, l) \<in> set ls1 \<union> set ls2. pl_total_units l = level_total nodes (pl_orders l))"
  by (auto simp: side_inv_def)

lemma side_inv_cong:
  assumes "\<And>n. n \<in> set (side_nodes ls) \<Longrightarrow> nodes n = nodes' n"
  shows "side_inv s nodes ls = side_inv s nodes' ls"
proof -
  have "level_total nodes (pl_orders l) = level_total nodes' (pl_orders l)" if "(px, l) \<in> set ls" for px l
    using that assms by (intro level_total_cong) (force simp: side_nodes_def)
  then show ?thesis by (auto simp: side_inv_def)
qed

lemma book_core_iff:
  "book_core b \<longleftrightarrow>
     store_inv (side_locs s (levels_of s b) @ side_locs (opposite s) (levels_of (opposite s) b)) b \<and>
     side_inv s (ob_nodes b) (levels_of s b) \<and>
     side_inv (opposite s) (ob_nodes b) (levels_of (opposite s) b)"
  unfolding book_core_def store_inv_all_locs [of b b s]
  by (subst all_sides [of _ s]) simp

lemma book_coreI:
  assumes "levels_of s b = A" and "levels_of (opposite s) b = B"
    and "store_inv (side_locs s A @ side_locs (opposite s) B) b"
    and "side_inv s (ob_nodes b) A" and "side_inv (opposite s) (ob_nodes b) B"
  shows "book_core b"
  using assms by (simp add: book_core_iff [of b s])

lemma core_store:
  "book_core b \<Longrightarrow>
   store_inv (side_locs s (levels_of s b) @ side_locs (opposite s) (levels_of (opposite s) b)) b"
  using book_core_iff by blast

lemma core_sorted: "book_core b \<Longrightarrow> sorted_wrt (better s) (map fst (levels_of s b))"
  by (simp add: book_core_def side_inv_def)

lemma core_distinct_nodes:
  "book_core b \<Longrightarrow> distinct (side_nodes (levels_of s b) @ side_nodes (levels_of (opposite s) b))"
  using core_store [of b s] by (simp add: store_inv_def)

lemma core_node:
  assumes "book_core b" and "n \<in> set (side_nodes (levels_of s b))"
  obtains r where "ob_nodes b n = Some r" and "resting_ok r"
proof -
  from assms(2) obtain loc where "loc \<in> set (side_locs s (levels_of s b))" "ol_it loc = n"
    by (metis (no_types, lifting) image_iff it_image_side_locs)
  with core_store [OF assms(1), of s] that show thesis by (auto elim!: store_inv_node)
qed

lemma map_entry_id_side_entries:
  "map entry_id (side_entries nodes ls) = map (fst \<circ> loc_key nodes) (side_locs s ls)"
  by (induction ls) (auto simp: level_entries_def level_locs_def loc_key_def)

lemma core_distinct_ids:
  assumes "book_core b"
  shows "distinct (map entry_id (entries s b @ entries (opposite s) b))"
proof -
  let ?L = "side_locs s (levels_of s b) @ side_locs (opposite s) (levels_of (opposite s) b)"
  from core_store [OF assms, of s]
  have "mset (ob_resting_orders b) = mset (map (loc_key (ob_nodes b)) ?L)"
    and "distinct (map fst (ob_resting_orders b))" by (simp_all add: store_inv_def)
  then have "distinct (map fst (map (loc_key (ob_nodes b)) ?L))"
    by (metis mset_eq_imp_distinct_iff mset_map)
  also have "map fst (map (loc_key (ob_nodes b)) ?L) = map entry_id (entries s b @ entries (opposite s) b)"
    using map_entry_id_side_entries [of "ob_nodes b" "levels_of s b" s]
      map_entry_id_side_entries [of "ob_nodes b" "levels_of (opposite s) b" "opposite s"]
    by (simp add: entries_def)
  finally show ?thesis .
qed

text \<open>
  A mutation of one side that replaces the levels \<open>M\<close> by \<open>M'\<close> and leaves the store alone at
  the nodes of every other level. The three lemmas after it are its instances.
\<close>

lemma core_local:
  assumes core: "book_core b" and ls: "levels_of s b = ls1 @ M @ ls2"
    and lv: "levels_of s b' = ls1 @ M' @ ls2" "levels_of (opposite s) b' = levels_of (opposite s) b"
    and away: "\<And>m. m \<in> set (side_nodes ls1) \<union> set (side_nodes ls2) \<union>
                   set (side_nodes (levels_of (opposite s) b)) \<Longrightarrow> ob_nodes b' m = ob_nodes b m"
    and store: "store_inv (side_locs s (ls1 @ M' @ ls2) @
                  side_locs (opposite s) (levels_of (opposite s) b)) b'"
    and new: "side_inv s (ob_nodes b') M'"
    and sorted: "sorted_wrt (better s) (map fst (ls1 @ M' @ ls2))"
  shows "book_core b'"
    and "entries s b' = side_entries (ob_nodes b) ls1 @ side_entries (ob_nodes b') M' @
           side_entries (ob_nodes b) ls2"
    and "entries (opposite s) b' = entries (opposite s) b"
proof -
  let ?os = "levels_of (opposite s) b"
  have "side_inv s (ob_nodes b) (ls1 @ M @ ls2)" and os: "side_inv (opposite s) (ob_nodes b) ?os"
    using core by (simp_all add: book_core_iff [of b s] ls)
  then have "side_inv s (ob_nodes b) ls1" "side_inv s (ob_nodes b) ls2"
    by (auto simp: side_inv_def sorted_wrt_append)
  moreover have "side_inv s (ob_nodes b') ls1 = side_inv s (ob_nodes b) ls1"
      "side_inv s (ob_nodes b') ls2 = side_inv s (ob_nodes b) ls2"
      "side_inv (opposite s) (ob_nodes b') ?os = side_inv (opposite s) (ob_nodes b) ?os"
    by (intro side_inv_cong; simp add: away)+
  ultimately have "side_inv s (ob_nodes b') (ls1 @ M' @ ls2)" "side_inv (opposite s) (ob_nodes b') ?os"
    using new sorted os by (auto simp: side_inv_def)
  with store lv show "book_core b'" by (intro book_coreI [of s]) auto
  have "side_entries (ob_nodes b') ls1 = side_entries (ob_nodes b) ls1"
      "side_entries (ob_nodes b') ls2 = side_entries (ob_nodes b) ls2"
      "side_entries (ob_nodes b') ?os = side_entries (ob_nodes b) ?os"
    by (intro side_entries_cong; simp add: away)+
  with lv show "entries s b' = side_entries (ob_nodes b) ls1 @ side_entries (ob_nodes b') M' @
           side_entries (ob_nodes b) ls2"
    and "entries (opposite s) b' = entries (opposite s) b"
    by (simp_all add: entries_def)
qed

text \<open>Removing the node \<open>n\<close> of the level at \<open>px\<close>.\<close>

lemma core_remove:
  assumes core: "book_core b" and ls: "levels_of s b = ls1 @ (px, l) # ls2"
    and ns: "pl_orders l = ns1 @ n # ns2" and r: "ob_nodes b n = Some r"
    and b': "b' = put_levels s (ls1 @ (px, l\<lparr>pl_total_units := pl_total_units l - units (ro_remaining_quantity r),
                                     pl_orders := ns1 @ ns2\<rparr>) # ls2) (drop_filled n r b)"
  shows "book_core b'"
    and "entries s b' = side_entries (ob_nodes b) ls1 @ level_entries (ob_nodes b) px (ns1 @ ns2) @
           side_entries (ob_nodes b) ls2"
    and "entries (opposite s) b' = entries (opposite s) b"
proof -
  let ?os = "levels_of (opposite s) b"
  let ?M' = "[(px, l\<lparr>pl_total_units := pl_total_units l - units (ro_remaining_quantity r),
                     pl_orders := ns1 @ ns2\<rparr>)]"
  have nodes': "ob_nodes b' = (ob_nodes b)(n := None)" by (simp add: b' drop_filled_def)
  have dist: "distinct (side_nodes ls1 @ (ns1 @ n # ns2) @ side_nodes ls2 @ side_nodes ?os)"
    using core_distinct_nodes [OF core, of s] by (simp add: ls ns)
  then have keep: "level_total (ob_nodes b') (ns1 @ ns2) = level_total (ob_nodes b) (ns1 @ ns2)"
      "level_entries (ob_nodes b') px (ns1 @ ns2) = level_entries (ob_nodes b) px (ns1 @ ns2)"
    by (intro level_total_cong level_entries_cong; auto simp: nodes')+
  have store: "store_inv (side_locs s (ls1 @ ?M' @ ls2) @ side_locs (opposite s) ?os) b'"
  proof -
    let ?loc = "\<lparr>ol_side = s, ol_price = px, ol_it = n\<rparr>"
    have "store_inv (?loc # side_locs s ls1 @ level_locs s px (ns1 @ ns2) @ side_locs s ls2 @
        side_locs (opposite s) ?os) b"
      using core_store [OF core, of s] by (subst store_inv_perm) (auto simp: ls ns)
    from store_inv_remove [OF this] r show ?thesis by (simp add: b')
  qed
  have si: "side_inv s (ob_nodes b) (ls1 @ (px, l) # ls2)"
    using core by (simp add: book_core_iff [of b s] ls)
  then have "pl_total_units l = units (ro_remaining_quantity r) + level_total (ob_nodes b) (ns1 @ ns2)"
    using r by (simp add: side_inv_split ns)
  then have new: "side_inv s (ob_nodes b') ?M'" using keep by (simp add: side_inv_def)
  have sorted: "sorted_wrt (better s) (map fst (ls1 @ ?M' @ ls2))" using si by (simp add: side_inv_def)
  have lv: "levels_of s b = ls1 @ [(px, l)] @ ls2" "levels_of s b' = ls1 @ ?M' @ ls2"
      "levels_of (opposite s) b' = ?os" by (simp_all add: ls b')
  have away: "ob_nodes b' m = ob_nodes b m"
    if "m \<in> set (side_nodes ls1) \<union> set (side_nodes ls2) \<union> set (side_nodes ?os)" for m
    using that dist by (auto simp: nodes')
  note loc = core_local [OF core lv away store new sorted]
  show "book_core b'" and "entries (opposite s) b' = entries (opposite s) b" using loc by blast+
  show "entries s b' = side_entries (ob_nodes b) ls1 @ level_entries (ob_nodes b) px (ns1 @ ns2) @
           side_entries (ob_nodes b) ls2"
    using loc(2) keep by simp
qed

text \<open>Changing the quantity of the node \<open>n\<close> of the level at \<open>px\<close>.\<close>

lemma core_requantify:
  assumes core: "book_core b" and ls: "levels_of s b = ls1 @ (px, l) # ls2"
    and ns: "pl_orders l = ns1 @ n # ns2" and r: "ob_nodes b n = Some r" and q: "quantity_ok q"
    and tot: "t = pl_total_units l - (units (ro_remaining_quantity r) - units q)"
    and b': "b' = put_levels s (ls1 @ (px, l\<lparr>pl_total_units := t\<rparr>) # ls2) (reduce_front n r q b)"
  shows "book_core b'"
    and "entries s b' = side_entries (ob_nodes b) ls1 @ level_entries (ob_nodes b) px ns1 @
           (px, r\<lparr>ro_remaining_quantity := q\<rparr>) # level_entries (ob_nodes b) px ns2 @
           side_entries (ob_nodes b) ls2"
    and "entries (opposite s) b' = entries (opposite s) b"
proof -
  let ?os = "levels_of (opposite s) b" and ?M' = "[(px, l\<lparr>pl_total_units := t\<rparr>)]"
  have nodes': "ob_nodes b' = (ob_nodes b)(n \<mapsto> r\<lparr>ro_remaining_quantity := q\<rparr>)"
    by (simp add: b' reduce_front_def)
  have dist: "distinct (side_nodes ls1 @ (ns1 @ n # ns2) @ side_nodes ls2 @ side_nodes ?os)"
    using core_distinct_nodes [OF core, of s] by (simp add: ls ns)
  then have keep: "level_total (ob_nodes b') ns1 = level_total (ob_nodes b) ns1"
      "level_total (ob_nodes b') ns2 = level_total (ob_nodes b) ns2"
      "level_entries (ob_nodes b') px ns1 = level_entries (ob_nodes b) px ns1"
      "level_entries (ob_nodes b') px ns2 = level_entries (ob_nodes b) px ns2"
    by (intro level_total_cong level_entries_cong; auto simp: nodes')+
  have store: "store_inv (side_locs s (ls1 @ ?M' @ ls2) @ side_locs (opposite s) ?os) b'"
    using store_inv_requantify [OF core_store [OF core, of s] r q] by (simp add: b' ls)
  have si: "side_inv s (ob_nodes b) (ls1 @ (px, l) # ls2)"
    using core by (simp add: book_core_iff [of b s] ls)
  then have "pl_total_units l = level_total (ob_nodes b) ns1 + units (ro_remaining_quantity r) +
      level_total (ob_nodes b) ns2"
    using r by (simp add: side_inv_split ns)
  then have new: "side_inv s (ob_nodes b') ?M'" using keep by (simp add: side_inv_def tot ns nodes')
  have sorted: "sorted_wrt (better s) (map fst (ls1 @ ?M' @ ls2))" using si by (simp add: side_inv_def)
  have lv: "levels_of s b = ls1 @ [(px, l)] @ ls2" "levels_of s b' = ls1 @ ?M' @ ls2"
      "levels_of (opposite s) b' = ?os" by (simp_all add: ls b')
  have away: "ob_nodes b' m = ob_nodes b m"
    if "m \<in> set (side_nodes ls1) \<union> set (side_nodes ls2) \<union> set (side_nodes ?os)" for m
    using that dist by (auto simp: nodes')
  note loc = core_local [OF core lv away store new sorted]
  show "book_core b'" and "entries (opposite s) b' = entries (opposite s) b" using loc by blast+
  show "entries s b' = side_entries (ob_nodes b) ls1 @ level_entries (ob_nodes b) px ns1 @
           (px, r\<lparr>ro_remaining_quantity := q\<rparr>) # level_entries (ob_nodes b) px ns2 @
           side_entries (ob_nodes b) ls2"
    using loc(2) keep by (simp add: ns nodes')
qed

text \<open>Erasing a level whose queue is empty.\<close>

lemma core_drop_empty:
  assumes core: "book_core b" and ls: "levels_of s b = ls1 @ (px, l) # ls2" and "pl_orders l = []"
    and b': "b' = put_levels s (ls1 @ ls2) b"
  shows "book_core b'" and "entries s b' = entries s b"
    and "entries (opposite s) b' = entries (opposite s) b"
proof -
  have si: "side_inv s (ob_nodes b) (ls1 @ (px, l) # ls2)"
    using core by (simp add: book_core_iff [of b s] ls)
  have "store_inv (side_locs s (ls1 @ [] @ ls2) @ side_locs (opposite s) (levels_of (opposite s) b)) b'"
    using core_store [OF core, of s] assms(3) by (simp add: b' ls)
  note loc = core_local [where M = "[(px, l)]" and M' = "[]" and b' = b', OF core _ _ _ _ this]
  have "sorted_wrt (better s) (map fst (ls1 @ [] @ ls2))"
    using si by (auto simp: side_inv_def sorted_wrt_append)
  with loc show "book_core b'" and "entries (opposite s) b' = entries (opposite s) b"
    by (simp_all add: ls b' side_inv_def)
  show "entries s b' = entries s b" using assms(3) by (simp add: entries_def ls b')
qed

text \<open>Appending a fresh node to the level at \<open>px\<close>, which is created when it is missing.\<close>

definition append_node :: "side \<Rightarrow> price \<Rightarrow> resting_order \<Rightarrow> order_book \<Rightarrow> order_book" where
  "append_node s px r b =
     b\<lparr>ob_nodes := (ob_nodes b)(ob_next_node b \<mapsto> r), ob_next_node := ob_next_node b + 1,
       ob_resting_orders := um_emplace (ro_order_id r)
         \<lparr>ol_side = s, ol_price = px, ol_it = ob_next_node b\<rparr> (ob_resting_orders b),
       ob_resting_order_count := ob_resting_order_count b + 1\<rparr>"

lemma levels_of_append_node [simp]: "levels_of s (append_node s' px r b) = levels_of s b"
  by (cases s) (simp_all add: levels_of_def append_node_def)

lemma core_append:
  assumes core: "book_core b"
    and lv: "levels_of s b = ls1 @ M @ ls2" "M = [] \<and> l = empty_level \<or> M = [(px, l)]"
    and fresh: "ro_order_id r \<notin> fst ` set (ob_resting_orders b)"
    and seen: "ro_order_id r \<in> ob_seen_order_ids b" and q: "quantity_ok (ro_remaining_quantity r)"
    and l': "l' = l\<lparr>pl_total_units := pl_total_units l + units (ro_remaining_quantity r),
                   pl_orders := pl_orders l @ [ob_next_node b]\<rparr>"
    and sorted: "sorted_wrt (better s) (map fst (ls1 @ (px, l') # ls2))"
    and b': "b' = put_levels s (ls1 @ (px, l') # ls2) (append_node s px r b)"
  shows "book_core b'"
    and "entries s b' = side_entries (ob_nodes b) ls1 @ level_entries (ob_nodes b) px (pl_orders l) @
           (px, r) # side_entries (ob_nodes b) ls2"
    and "entries (opposite s) b' = entries (opposite s) b"
proof -
  let ?os = "levels_of (opposite s) b" and ?n = "ob_next_node b" and ?M' = "[(px, l')]"
  have nodes': "ob_nodes b' = (ob_nodes b)(?n \<mapsto> r)" by (simp add: b' append_node_def)
  have orders: "pl_orders l = side_nodes M" and total: "pl_total_units l = level_total (ob_nodes b) (pl_orders l)"
    using lv core by (auto simp: empty_level_def book_core_iff [of b s] side_inv_def)
  have "?n \<notin> set (side_nodes (levels_of s b) @ side_nodes ?os)"
    using core_store [OF core, of s] by (auto simp: store_inv_def image_Un)
  then have away: "ob_nodes b' m = ob_nodes b m"
    if "m \<in> set (side_nodes ls1) \<union> set (side_nodes ls2) \<union> set (side_nodes ?os)" for m
    using that by (auto simp: nodes' lv)
  have "?n \<notin> set (pl_orders l)"
    using \<open>?n \<notin> set (side_nodes (levels_of s b) @ side_nodes ?os)\<close> by (simp add: lv orders)
  then have keep: "level_total (ob_nodes b') (pl_orders l) = level_total (ob_nodes b) (pl_orders l)"
      "level_entries (ob_nodes b') px (pl_orders l) = level_entries (ob_nodes b) px (pl_orders l)"
    by (intro level_total_cong level_entries_cong; auto simp: nodes')+
  have "side_locs s M = level_locs s px (pl_orders l)"
    using lv(2) by (auto simp: empty_level_def)
  moreover have "store_inv (\<lparr>ol_side = s, ol_price = px, ol_it = ?n\<rparr> #
      side_locs s (levels_of s b) @ side_locs (opposite s) ?os) (append_node s px r b)"
    unfolding append_node_def
    by (rule store_inv_insert [OF core_store [OF core] fresh seen q]) simp_all
  ultimately have store: "store_inv (side_locs s (ls1 @ ?M' @ ls2) @ side_locs (opposite s) ?os) b'"
    by (subst store_inv_perm) (auto simp: lv l' b')
  have new: "side_inv s (ob_nodes b') ?M'"
    using keep total by (simp add: side_inv_def l' nodes')
  have lv': "levels_of s b' = ls1 @ ?M' @ ls2" "levels_of (opposite s) b' = ?os" by (simp_all add: b')
  have sorted': "sorted_wrt (better s) (map fst (ls1 @ ?M' @ ls2))" using sorted by simp
  note loc = core_local [OF core lv(1) lv' away store new sorted']
  show "book_core b'" and "entries (opposite s) b' = entries (opposite s) b" using loc by blast+
  show "entries s b' = side_entries (ob_nodes b) ls1 @ level_entries (ob_nodes b) px (pl_orders l) @
           (px, r) # side_entries (ob_nodes b) ls2"
    using loc(2) keep by (simp add: l' nodes')
qed

end
