(* ===== verification/Order_Book_Refinement.thy ===== *)
theory Order_Book_Refinement
  imports Order_Book_Invariant
begin

text \<open>
  The order book implements the price-time specification. For a book that satisfies the invariant,
  each operation of \<open>src/order_book.cpp\<close> returns (no undefined behaviour), keeps the invariant, and
  its result and new state are those of the specification under the abstraction \<open>abs_of\<close>.
\<close>

section \<open>The matching loops\<close>

definition loop_frame :: "side \<Rightarrow> order_book \<Rightarrow> order_book \<Rightarrow> bool" where
  "loop_frame s b b' \<longleftrightarrow>
     (\<forall>s'. levels_of s' b' = levels_of s' b) \<and> ob_seen_order_ids b' = ob_seen_order_ids b \<and>
     fst ` set (ob_resting_orders b') \<subseteq> fst ` set (ob_resting_orders b) \<and>
     entries (opposite s) b' = entries (opposite s) b"

lemma loop_frame_refl [simp]: "loop_frame s b b"
  by (simp add: loop_frame_def)

lemma loop_frame_trans: "loop_frame s b b' \<Longrightarrow> loop_frame s b' b'' \<Longrightarrow> loop_frame s b b''"
  unfolding loop_frame_def by (metis subset_trans)

lemma put_levels_mutations [simp]:
  "drop_filled n r (put_levels s ls b) = put_levels s ls (drop_filled n r b)"
  "reduce_front n r q (put_levels s ls b) = put_levels s ls (reduce_front n r q b)"
  by (cases s; simp add: put_levels_def drop_filled_def reduce_front_def)+

lemma entries_put [simp]:
  "entries s (put_levels s ls b) = side_entries (ob_nodes b) ls"
  "entries (opposite s) (put_levels s ls b) = entries (opposite s) b"
  by (simp_all add: entries_def)

lemma length_level_entries [simp]: "length (level_entries nodes px ns) = length ns"
  by (simp add: level_entries_def)

lemma keys_mutations:
  "fst ` set (ob_resting_orders (drop_filled n r b)) \<subseteq> fst ` set (ob_resting_orders b)"
  "ob_resting_orders (reduce_front n r q b) = ob_resting_orders b"
  "ob_seen_order_ids (drop_filled n r b) = ob_seen_order_ids b"
  "ob_seen_order_ids (reduce_front n r q b) = ob_seen_order_ids b"
  by (auto simp: drop_filled_def reduce_front_def um_erase_def)

abbreviation at_level :: "price_level \<Rightarrow> u64 \<Rightarrow> node list \<Rightarrow> price_level" where
  "at_level l t ns \<equiv> l\<lparr>pl_total_units := t, pl_orders := ns\<rparr>"

lemma price_level_swap [simp]: "l\<lparr>pl_orders := ns, pl_total_units := t\<rparr> = at_level l t ns"
  by simp

text \<open>Filling the order at the front of the first level, and reducing it.\<close>

lemma drop_filled_front:
  assumes "book_core (put_levels s ((px, at_level l tot (n # ns)) # rest) b)" and r: "ob_nodes b n = Some r"
  shows "book_core (put_levels s ((px, at_level l (tot - units (ro_remaining_quantity r)) ns) # rest) (drop_filled n r b))"
    "level_entries (ob_nodes (drop_filled n r b)) px ns = level_entries (ob_nodes b) px ns"
    "side_entries (ob_nodes (drop_filled n r b)) rest = side_entries (ob_nodes b) rest" "loop_frame s b (drop_filled n r b)"
proof -
  let ?B = "put_levels s ((px, at_level l tot (n # ns)) # rest) b"
  let ?B1 = "put_levels s ((px, at_level l (tot - units (ro_remaining_quantity r)) ns) # rest) (drop_filled n r b)"
  have lv: "levels_of s ?B = [] @ (px, at_level l tot (n # ns)) # rest" by simp
  note rm = core_remove [OF assms(1) lv, of "[]" n ns r ?B1]
  have core: "book_core ?B1" and opp: "entries (opposite s) ?B1 = entries (opposite s) ?B"
    and "entries s ?B1 = level_entries (ob_nodes b) px ns @ side_entries (ob_nodes b) rest"
    using rm r by simp_all
  then show "level_entries (ob_nodes (drop_filled n r b)) px ns = level_entries (ob_nodes b) px ns"
    "side_entries (ob_nodes (drop_filled n r b)) rest = side_entries (ob_nodes b) rest" by simp_all
  show "book_core ?B1" by (rule core)
  show "loop_frame s b (drop_filled n r b)" using opp keys_mutations by (simp add: loop_frame_def)
qed

lemma reduce_front_entry:
  assumes "book_core (put_levels s ((px, at_level l tot (n # ns)) # rest) b)" and r: "ob_nodes b n = Some r"
    and less: "\<not> units (ro_remaining_quantity r) \<le> rem" and q: "q = Quantity (units (ro_remaining_quantity r) - rem)"
  shows "book_core (put_levels s ((px, at_level l (tot - rem) (n # ns)) # rest) (reduce_front n r q b))"
    "level_entries (ob_nodes (reduce_front n r q b)) px (n # ns) =
       (px, r\<lparr>ro_remaining_quantity := q\<rparr>) # level_entries (ob_nodes b) px ns"
    "side_entries (ob_nodes (reduce_front n r q b)) rest = side_entries (ob_nodes b) rest" "loop_frame s b (reduce_front n r q b)"
proof -
  let ?B = "put_levels s ((px, at_level l tot (n # ns)) # rest) b"
  let ?B1 = "put_levels s ((px, at_level l (tot - rem) (n # ns)) # rest) (reduce_front n r q b)"
  have lv: "levels_of s ?B = [] @ (px, at_level l tot (n # ns)) # rest" by simp
  have "quantity_ok q" using less by (auto simp: q quantity_ok_def)
  moreover note rq = core_requantify [OF assms(1) lv, of "[]" n ns r q "tot - rem" ?B1]
  ultimately have core: "book_core ?B1" and opp: "entries (opposite s) ?B1 = entries (opposite s) ?B"
    and "entries s ?B1 = (px, r\<lparr>ro_remaining_quantity := q\<rparr>) # level_entries (ob_nodes b) px ns @ side_entries (ob_nodes b) rest"
    using r less by (simp_all add: q)
  then show "level_entries (ob_nodes (reduce_front n r q b)) px (n # ns) =
       (px, r\<lparr>ro_remaining_quantity := q\<rparr>) # level_entries (ob_nodes b) px ns"
    "side_entries (ob_nodes (reduce_front n r q b)) rest = side_entries (ob_nodes b) rest" by simp_all
  show "book_core ?B1" by (rule core)
  show "loop_frame s b (reduce_front n r q b)" using opp keys_mutations by (simp add: loop_frame_def)
qed

lemma match_orders_refines:
  assumes "book_core (put_levels s ((px, at_level l tot ns) # rest) b)"
  shows "\<exists>ns' tot' rem' xs b'.
     match_orders inc px ns tot rem exs b = Some (ns', tot', rem', exs @ xs, b') \<and>
     book_core (put_levels s ((px, at_level l tot' ns') # rest) b') \<and>
     spec_match (\<lambda>_. True) inc rem (level_entries (ob_nodes b) px ns) =
       (xs, rem', level_entries (ob_nodes b') px ns') \<and>
     side_entries (ob_nodes b') rest = side_entries (ob_nodes b) rest \<and> loop_frame s b b'"
  using assms
proof (induction ns arbitrary: tot rem exs b)
  case Nil
  then show ?case by auto
next
  case (Cons n ns)
  obtain r where r: "ob_nodes b n = Some r" and ok: "resting_ok r" using core_node [OF Cons.prems, of n s] by auto
  let ?u = "units (ro_remaining_quantity r)"
  have u: "?u \<noteq> 0" using ok by (simp add: resting_ok_def quantity_ok_def)
  consider "rem = 0" | "rem \<noteq> 0" "?u \<le> rem" | "rem \<noteq> 0" "\<not> ?u \<le> rem" by blast
  then show ?case
  proof cases
    case 1
    then show ?thesis using Cons.prems by (auto simp: match_orders_Cons)
  next
    case 2
    let ?b1 = "drop_filled n r b"
    note step = drop_filled_front [OF Cons.prems r]
    from Cons.IH [OF step(1), of "rem - ?u" "exs @ [fill inc (px, r) ?u]"] step(2,3)
    obtain ns' tot' rem' xs b' where IH:
      "match_orders inc px ns (tot - ?u) (rem - ?u) (exs @ [fill inc (px, r) ?u]) ?b1 =
         Some (ns', tot', rem', exs @ fill inc (px, r) ?u # xs, b')"
      "book_core (put_levels s ((px, at_level l tot' ns') # rest) b')"
      "spec_match (\<lambda>_. True) inc (rem - ?u) (level_entries (ob_nodes b) px ns) = (xs, rem', level_entries (ob_nodes b') px ns')"
      "side_entries (ob_nodes b') rest = side_entries (ob_nodes b) rest" "loop_frame s ?b1 b'"
      by auto
    then have "match_orders inc px (n # ns) tot rem exs b = Some (ns', tot', rem', exs @ fill inc (px, r) ?u # xs, b')"
      using 2 r u by (simp add: match_orders_Cons fill_def)
    with IH 2 r loop_frame_trans [OF step(4)] show ?thesis by auto
  next
    case 3
    let ?q = "Quantity (?u - rem)"
    note step = reduce_front_entry [OF Cons.prems r 3(2) refl]
    have "match_orders inc px (n # ns) tot rem exs b = Some (n # ns, tot - rem, 0, exs @ [fill inc (px, r) rem], reduce_front n r ?q b)"
      using 3 r u by (simp add: match_orders_Cons fill_def)
    moreover have "spec_match (\<lambda>_. True) inc rem (level_entries (ob_nodes b) px (n # ns)) =
        ([fill inc (px, r) rem], 0, level_entries (ob_nodes (reduce_front n r ?q b)) px (n # ns))"
      using 3 r step(2) by (simp add: set_entry_quantity_def)
    ultimately show ?thesis using step by blast
  qed
qed

lemma no_empty_level_simps [simp]:
  "no_empty_level []"
  "no_empty_level ((px, l) # ls) \<longleftrightarrow> pl_orders l \<noteq> [] \<and> no_empty_level ls"
  "no_empty_level (ls @ ls') \<longleftrightarrow> no_empty_level ls \<and> no_empty_level ls'"
  by (auto simp: no_empty_level_def)

lemma match_levels_refines:
  assumes "book_core (put_levels s ls b)" and "no_empty_level ls"
    and "\<And>px. crosses px = Some (c px)"
  shows "\<exists>ls' rem' xs b'.
     match_levels crosses inc ls rem exs b = Some (ls', rem', exs @ xs, b') \<and>
     book_core (put_levels s ls' b') \<and> no_empty_level ls' \<and> fst ` set ls' \<subseteq> fst ` set ls \<and>
     spec_match c inc rem (side_entries (ob_nodes b) ls) = (xs, rem', side_entries (ob_nodes b') ls') \<and>
     loop_frame s b b'"
  using assms(1,2)
proof (induction ls arbitrary: rem exs b)
  case Nil
  then show ?case by auto
next
  case (Cons e rest)
  obtain px l where e: "e = (px, l)" by (cases e)
  obtain n ns where ns: "pl_orders l = n # ns" using Cons.prems(2) e by (cases "pl_orders l") auto
  show ?case
  proof (cases "rem = 0 \<or> \<not> c px")
    case True
    then have "match_levels crosses inc (e # rest) rem exs b = Some (e # rest, rem, exs, b)"
      using assms(3) by (auto simp: e match_levels.simps)
    moreover have "spec_match c inc rem (side_entries (ob_nodes b) (e # rest)) =
        ([], rem, side_entries (ob_nodes b) (e # rest))"
      using True by (auto simp: e ns)
    ultimately show ?thesis using Cons.prems by fastforce
  next
    case False
    have at: "at_level l (pl_total_units l) (pl_orders l) = l" by simp
    from match_orders_refines [where l = l and tot = "pl_total_units l" and ns = "pl_orders l"
        and s = s and px = px and rest = rest and b = b and inc = inc and rem = rem and exs = exs] Cons.prems(1)
    obtain ns' tot' rem' xs b' where m:
      "match_orders inc px (pl_orders l) (pl_total_units l) rem exs b = Some (ns', tot', rem', exs @ xs, b')"
      "book_core (put_levels s ((px, at_level l tot' ns') # rest) b')"
      "spec_match (\<lambda>_. True) inc rem (level_entries (ob_nodes b) px (pl_orders l)) =
         (xs, rem', level_entries (ob_nodes b') px ns')"
      "side_entries (ob_nodes b') rest = side_entries (ob_nodes b) rest" "loop_frame s b b'"
      unfolding e at by blast
    have sm: "spec_match c inc rem (level_entries (ob_nodes b) px (pl_orders l)) =
         (xs, rem', level_entries (ob_nodes b') px ns')"
      using m(3) False by (subst spec_match_cong [of _ c "\<lambda>_. True"]) (auto simp: level_entries_def)
    show ?thesis
    proof (cases "ns' = []")
      case True
      have "book_core (put_levels s rest b')"
        using core_drop_empty(1) [OF m(2), of s "[]" px "at_level l tot' ns'" rest] True by simp
      from Cons.IH [OF this, of rem' "exs @ xs"] Cons.prems(2) e
      obtain ls' rem'' ys b'' where IH:
        "match_levels crosses inc rest rem' (exs @ xs) b' = Some (ls', rem'', (exs @ xs) @ ys, b'')"
        "book_core (put_levels s ls' b'')" "no_empty_level ls'" "fst ` set ls' \<subseteq> fst ` set rest"
        "spec_match c inc rem' (side_entries (ob_nodes b') rest) =
           (ys, rem'', side_entries (ob_nodes b'') ls')" "loop_frame s b' b''"
        by auto
      have "match_levels crosses inc (e # rest) rem exs b = Some (ls', rem'', exs @ (xs @ ys), b'')"
        using False assms(3) m(1) IH(1) True by (simp add: e match_levels.simps)
      moreover have "spec_match c inc rem (side_entries (ob_nodes b) (e # rest)) =
          (xs @ ys, rem'', side_entries (ob_nodes b'') ls')"
        using sm IH(5) m(4) True by (simp add: e spec_match_append)
      moreover have "loop_frame s b b''" using m(5) IH(6) by (rule loop_frame_trans)
      moreover have "fst ` set ls' \<subseteq> fst ` set (e # rest)" using IH(4) by auto
      ultimately show ?thesis using IH(2,3) by blast
    next
      case ne: False
      let ?ls = "(px, at_level l tot' ns') # rest"
      have zero: "rem' = 0" using m(1) ne by (rule match_orders_stops)
      have "match_levels crosses inc (e # rest) rem exs b = Some (?ls, rem', exs @ xs, b')"
        using False assms(3) m(1) ne zero by (simp add: e match_levels.simps)
      moreover have "spec_match c inc rem (side_entries (ob_nodes b) (e # rest)) =
          (xs, rem', side_entries (ob_nodes b') ?ls)"
        using sm m(4) ne by (simp add: e spec_match_append level_entries_def)
      moreover have "no_empty_level ?ls" using Cons.prems(2) ne by (simp add: e)
      moreover have "fst ` set ?ls \<subseteq> fst ` set (e # rest)" by (simp add: e)
      ultimately show ?thesis using m(2,5) by blast
    qed
  qed
qed

section \<open>Matching an incoming order\<close>

definition side_crosses :: "side \<Rightarrow> order_type \<Rightarrow> price option \<Rightarrow> price \<Rightarrow> bool ub" where
  "side_crosses side = (case side of Buy \<Rightarrow> buy_crosses | Sell \<Rightarrow> sell_crosses)"

lemma side_crosses_defined:
  "type = Limit \<longrightarrow> limit \<noteq> None \<Longrightarrow> side_crosses side type limit px = Some (spec_crosses side type limit px)"
  by (cases side; cases type)
    (auto simp: side_crosses_def buy_crosses_def sell_crosses_def spec_crosses_def)

lemma spec_crosses_mono:
  "better (opposite side) p q \<Longrightarrow> spec_crosses side type limit q \<Longrightarrow> spec_crosses side type limit p"
  by (cases side) (auto simp: spec_crosses_def better_def)

lemma match_against_book_alt:
  "match_against_book inc side type limit rem exs b = do {
     (ls, rem', exs', b') \<leftarrow>
       match_levels (side_crosses side type limit) inc (levels_of (opposite side) b) rem exs b;
     Some (rem', exs', put_levels (opposite side) ls b') }"
  by (cases side) (simp_all add: match_against_book_def side_crosses_def levels_of_def put_levels_def)

definition ab_side :: "side \<Rightarrow> abs_book \<Rightarrow> entry list" where
  "ab_side s a = (case s of Buy \<Rightarrow> ab_bids a | Sell \<Rightarrow> ab_asks a)"

lemma ab_side_abs_of [simp]: "ab_side s (abs_of b) = entries s b"
  by (cases s) (simp_all add: ab_side_def abs_of_def entries_def levels_of_def)

lemma ab_seen_abs_of [simp]: "ab_seen (abs_of b) = ob_seen_order_ids b"
  by (simp add: abs_of_def)

lemma abs_eqI:
  "ab_side s a = ab_side s a' \<Longrightarrow> ab_side (opposite s) a = ab_side (opposite s) a' \<Longrightarrow>
   ab_seen a = ab_seen a' \<Longrightarrow> (a :: abs_book) = a'"
  by (cases s) (auto simp: ab_side_def intro: abs_book.equality)

lemma spec_take_side:
  "spec_match (spec_crosses side type limit) inc rem (ab_side (opposite side) a) = (xs, rem', es) \<Longrightarrow>
   ab_side (opposite side) a' = es \<Longrightarrow> ab_side side a' = ab_side side a \<Longrightarrow> ab_seen a' = ab_seen a \<Longrightarrow>
   spec_take inc side type limit rem a = (xs, rem', a')"
  by (cases side) (auto simp: spec_take_def ab_side_def intro: abs_book.equality)

lemma match_against_book_refines:
  assumes core: "book_core b" and ne: "\<forall>s. no_empty_level (levels_of s b)"
    and lim: "type = Limit \<longrightarrow> limit \<noteq> None"
  shows "\<exists>rem' xs b'.
     match_against_book inc side type limit rem exs b = Some (rem', exs @ xs, b') \<and>
     book_core b' \<and> (\<forall>s. no_empty_level (levels_of s b')) \<and>
     spec_take inc side type limit rem (abs_of b) = (xs, rem', abs_of b') \<and>
     levels_of side b' = levels_of side b \<and>
     fst ` set (levels_of (opposite side) b') \<subseteq> fst ` set (levels_of (opposite side) b) \<and>
     fst ` set (ob_resting_orders b') \<subseteq> fst ` set (ob_resting_orders b) \<and>
     ob_seen_order_ids b' = ob_seen_order_ids b \<and>
     (rem' \<noteq> 0 \<longrightarrow> (\<forall>px \<in> fst ` set (levels_of (opposite side) b'). \<not> spec_crosses side type limit px))"
proof -
  let ?o = "opposite side" and ?c = "spec_crosses side type limit"
  obtain ls' rem' xs b' where m:
    "match_levels (side_crosses side type limit) inc (levels_of ?o b) rem exs b = Some (ls', rem', exs @ xs, b')"
    "book_core (put_levels ?o ls' b')" "no_empty_level ls'"
    "fst ` set ls' \<subseteq> fst ` set (levels_of ?o b)"
    "spec_match ?c inc rem (entries ?o b) = (xs, rem', side_entries (ob_nodes b') ls')"
    "loop_frame ?o b b'"
    using match_levels_refines [of ?o "levels_of ?o b" b "side_crosses side type limit" ?c inc rem exs]
      core ne side_crosses_defined [OF lim] by (auto simp: entries_def)
  let ?b' = "put_levels ?o ls' b'"
  have fr: "levels_of side ?b' = levels_of side b" "entries side ?b' = entries side b"
      "ob_seen_order_ids ?b' = ob_seen_order_ids b"
      "fst ` set (ob_resting_orders ?b') \<subseteq> fst ` set (ob_resting_orders b)"
    using m(6) by (auto simp: loop_frame_def entries_def)
  have lv: "levels_of ?o ?b' = ls'" by simp
  have "no_empty_level (levels_of side b)" using ne by blast
  then have ne': "\<forall>s. no_empty_level (levels_of s ?b')"
    unfolding all_sides [of _ side] using m(3) fr(1) lv by simp
  have take: "spec_take inc side type limit rem (abs_of b) = (xs, rem', abs_of ?b')"
    using m(5) fr by (intro spec_take_side) simp_all
  have "\<forall>px \<in> fst ` set ls'. \<not> ?c px" if nz: "rem' \<noteq> 0"
  proof (cases ls')
    case (Cons e rest)
    obtain px l where e: "e = (px, l)" by (cases e)
    obtain n ns where "pl_orders l = n # ns" using m(3) Cons e by (cases "pl_orders l") auto
    then have "\<not> ?c px" using spec_match_exhausts [OF m(5) nz] Cons e by simp
    moreover have "\<forall>q \<in> fst ` set rest. better ?o px q"
      using core_sorted [OF m(2), of ?o] Cons e by simp
    ultimately have "\<forall>q \<in> insert px (fst ` set rest). \<not> ?c q" by (blast dest: spec_crosses_mono)
    then show ?thesis using Cons e by simp
  qed simp
  then show ?thesis
    using m(1,2,4) fr lv ne' take by (simp add: match_against_book_alt)
qed

section \<open>Resting an order\<close>

lemma insert_resting_order_alt:
  "insert_resting_order oid seq side px q b =
     put_levels side
       (om_subscript_update (better side) empty_level px
          (\<lambda>level. level\<lparr>pl_total_units := pl_total_units level + units q,
                         pl_orders := pl_orders level @ [ob_next_node b]\<rparr>) (levels_of side b))
       (append_node side px
          \<lparr>ro_order_id = oid, ro_sequence = seq, ro_remaining_quantity = q\<rparr> b)"
  by (cases side)
    (simp_all add: insert_resting_order_def Let_def put_levels_def levels_of_def append_node_def better_def)

lemma spec_rest_side [simp]:
  "ab_side side (spec_rest side e a) = spec_insert (better side) e (ab_side side a)"
  "ab_side (opposite side) (spec_rest side e a) = ab_side (opposite side) a"
  "ab_seen (spec_rest side e a) = ab_seen a"
  by (cases side; simp add: spec_rest_def ab_side_def better_def)+

lemma spec_insert_split:
  "\<forall>e' \<in> set es. \<not> better s (fst e) (fst e') \<Longrightarrow> \<forall>e' \<in> set fs. better s (fst e) (fst e') \<Longrightarrow>
   spec_insert (better s) e (es @ fs) = es @ e # fs"
  by (cases fs) (auto simp: spec_insert_def takeWhile_append2 dropWhile_append2)

lemma insert_resting_order_refines:
  assumes core: "book_core b" and ne: "\<forall>s. no_empty_level (levels_of s b)"
    and fresh: "oid \<notin> fst ` set (ob_resting_orders b)" and seen: "oid \<in> ob_seen_order_ids b"
    and q: "quantity_ok q" and eq: "b' = insert_resting_order oid seq side px q b"
  shows "book_core b'"
    and "\<forall>s. no_empty_level (levels_of s b')"
    and "abs_of b' = spec_rest side
           (px, \<lparr>ro_order_id = oid, ro_sequence = seq, ro_remaining_quantity = q\<rparr>) (abs_of b)"
    and "levels_of (opposite side) b' = levels_of (opposite side) b"
    and "fst ` set (levels_of side b') = insert px (fst ` set (levels_of side b))"
proof -
  let ?r = "\<lparr>ro_order_id = oid, ro_sequence = seq, ro_remaining_quantity = q\<rparr>"
  let ?f = "\<lambda>level. level\<lparr>pl_total_units := pl_total_units level + units q,
                         pl_orders := pl_orders level @ [ob_next_node b]\<rparr>"
  have ord: "sorted_wrt (better side) (map fst (levels_of side b))" using core by (rule core_sorted)
  obtain ls1 M ls2 l where sp: "levels_of side b = ls1 @ M @ ls2"
      "M = [] \<and> l = empty_level \<or> M = [(px, l)]"
      "\<forall>e \<in> set ls1. better side (fst e) px" "\<forall>e \<in> set ls2. better side px (fst e)"
      "om_subscript_update (better side) empty_level px ?f (levels_of side b) = ls1 @ (px, ?f l) # ls2"
    using ord
  proof (cases rule: side_order.subscript_cases [where d = empty_level and k = px and f = ?f])
    case (found m1 v m2)
    then show thesis by (intro that [of m1 "[(px, v)]" m2 v]) auto
  next
    case (absent m1 m2)
    then show thesis by (intro that [of m1 "[]" m2 empty_level]) auto
  qed
  have b': "b' = put_levels side (ls1 @ (px, ?f l) # ls2) (append_node side px ?r b)"
    unfolding eq insert_resting_order_alt sp(5) ..
  have sorted: "sorted_wrt (better side) (map fst (ls1 @ (px, ?f l) # ls2))"
    using ord sp by (auto simp: sorted_wrt_append intro: side_order.trans)
  have fresh': "ro_order_id ?r \<notin> fst ` set (ob_resting_orders b)"
    and seen': "ro_order_id ?r \<in> ob_seen_order_ids b" and q': "quantity_ok (ro_remaining_quantity ?r)"
    using fresh seen q by simp_all
  have f: "?f l = l\<lparr>pl_total_units := pl_total_units l + units (ro_remaining_quantity ?r),
                 pl_orders := pl_orders l @ [ob_next_node b]\<rparr>" by simp
  note app = core_append [OF core sp(1,2) fresh' seen' q' f sorted b']
  show "book_core b'" by (rule app(1))
  show opp: "levels_of (opposite side) b' = levels_of (opposite side) b" by (simp add: b')
  have "no_empty_level (levels_of side b')" using ne sp(1) by (simp add: b') (metis no_empty_level_simps(3))
  then show "\<forall>s. no_empty_level (levels_of s b')"
    unfolding all_sides [of _ side] using opp ne by simp
  show "fst ` set (levels_of side b') = insert px (fst ` set (levels_of side b))"
    using sp(2) by (auto simp: b' sp(1))
  have es: "entries side b = (side_entries (ob_nodes b) ls1 @ level_entries (ob_nodes b) px (pl_orders l)) @
      side_entries (ob_nodes b) ls2"
    using sp(2) by (auto simp: entries_def sp(1) empty_level_def)
  have "spec_insert (better side) (px, ?r) (entries side b) =
      (side_entries (ob_nodes b) ls1 @ level_entries (ob_nodes b) px (pl_orders l)) @ (px, ?r) #
      side_entries (ob_nodes b) ls2"
    unfolding es
  proof (rule spec_insert_split)
    show "\<forall>e' \<in> set (side_entries (ob_nodes b) ls1 @ level_entries (ob_nodes b) px (pl_orders l)).
        \<not> better side (fst (px, ?r)) (fst e')"
      using sp(3) fst_side_entries [of "ob_nodes b" ls1] side_order.asym side_order.irrefl
      by (fastforce simp: level_entries_def)
    show "\<forall>e' \<in> set (side_entries (ob_nodes b) ls2). better side (fst (px, ?r)) (fst e')"
      using sp(4) fst_side_entries [of "ob_nodes b" ls2] by fastforce
  qed
  then show "abs_of b' = spec_rest side (px, ?r) (abs_of b)"
    using app(2,3) by (intro abs_eqI [of side]) (simp_all add: b' append_node_def)
qed

section \<open>Removing an order\<close>

lemma in_side_locs:
  "loc \<in> set (side_locs s ls) \<longleftrightarrow> ol_side loc = s \<and> (\<exists>l. (ol_price loc, l) \<in> set ls \<and> ol_it loc \<in> set (pl_orders l))"
  by (cases loc) (auto simp: side_locs_def level_locs_def split: prod.splits)

lemma remove_resting_order_alt:
  assumes r: "ob_nodes b (ol_it loc) = Some r" and id: "ro_order_id r = oid"
    and l: "om_find (ol_price loc) (levels_of (ol_side loc) b) = Some l"
    and e: "erase_from_level (better (ol_side loc)) (ol_price loc) (ol_it loc)
              (units (ro_remaining_quantity r)) (levels_of (ol_side loc) b) = Some ls"
  shows "remove_resting_order loc oid b =
     Some (ro_remaining_quantity r, put_levels (ol_side loc) ls (drop_filled (ol_it loc) r b))"
  using assms
  by (cases "ol_side loc")
    (simp_all add: remove_resting_order_def levels_of_def put_levels_def better_def drop_filled_def)

lemma find_unique:
  assumes "e \<in> set es" and "P e" and "\<And>e'. e' \<in> set es \<Longrightarrow> P e' \<Longrightarrow> e' = e"
  shows "find P es = Some e"
proof -
  from assms(1,2) have "find P es \<noteq> None" by (auto simp: find_None_iff)
  then obtain e' where e': "find P es = Some e'" by blast
  then have "e' \<in> set es" "P e'" by (auto simp: find_Some_iff)
  with assms(3) e' show ?thesis by simp
qed

lemma find_None_ids: "find (\<lambda>e. entry_id e = oid) es = None \<longleftrightarrow> oid \<notin> entry_id ` set es"
  by (induction es) auto

lemma spec_find_eq_Some:
  assumes dist: "distinct (map entry_id (ab_side s a @ ab_side (opposite s) a))"
    and e: "e \<in> set (ab_side s a)"
  shows "spec_find (entry_id e) a = Some (s, e)"
proof -
  have "find (\<lambda>e'. entry_id e' = entry_id e) (ab_side s a) = Some e"
    using dist e by (intro find_unique) (auto simp: distinct_map dest: inj_onD)
  moreover have "find (\<lambda>e'. entry_id e' = entry_id e) (ab_side (opposite s) a) = None"
    unfolding find_None_ids using dist e by auto
  ultimately show ?thesis by (cases s) (simp_all add: spec_find_def ab_side_def)
qed

lemma spec_find_eq_None:
  "spec_find oid a = None \<longleftrightarrow> oid \<notin> entry_id ` set (ab_side s a @ ab_side (opposite s) a)"
proof -
  have "spec_find oid a = None \<longleftrightarrow> find (\<lambda>e. entry_id e = oid) (ab_bids a) = None \<and>
      find (\<lambda>e. entry_id e = oid) (ab_asks a) = None"
    by (auto simp: spec_find_def split: option.splits)
  then show ?thesis unfolding find_None_ids by (cases s) (auto simp: ab_side_def image_Un)
qed

lemma spec_delete_side [simp]:
  "ab_side s (spec_delete oid a) = filter (\<lambda>e. entry_id e \<noteq> oid) (ab_side s a)"
  "ab_seen (spec_delete oid a) = ab_seen a"
  by (cases s; simp add: spec_delete_def ab_side_def)+

lemma core_keys:
  assumes "book_core b"
  shows "fst ` set (ob_resting_orders b) = entry_id ` set (entries s b @ entries (opposite s) b)"
proof -
  let ?L = "side_locs s (levels_of s b) @ side_locs (opposite s) (levels_of (opposite s) b)"
  have "set (ob_resting_orders b) = set (map (loc_key (ob_nodes b)) ?L)"
    using core_store [OF assms, of s] by (auto simp only: store_inv_def dest: mset_eq_setD)
  then have "fst ` set (ob_resting_orders b) = set (map fst (map (loc_key (ob_nodes b)) ?L))"
    by (simp only: list.set_map)
  also have "map fst (map (loc_key (ob_nodes b)) ?L) = map entry_id (entries s b @ entries (opposite s) b)"
    using map_entry_id_side_entries [of "ob_nodes b" "levels_of s b" s]
      map_entry_id_side_entries [of "ob_nodes b" "levels_of (opposite s) b" "opposite s"]
    by (simp add: entries_def)
  finally show ?thesis by (simp only: list.set_map)
qed

lemma find_None_refines:
  "book_core b \<Longrightarrow> um_find oid (ob_resting_orders b) = None \<Longrightarrow> spec_find oid (abs_of b) = None"
  using core_keys [of b Buy]
  by (simp add: spec_find_eq_None [of _ _ Buy] um_find_def map_of_eq_None_iff)

text \<open>The location that the index holds for a resting order.\<close>

lemma locate:
  assumes core: "book_core b" and find: "um_find oid (ob_resting_orders b) = Some loc"
  obtains ls1 l ls2 ns1 ns2 r where
    "levels_of (ol_side loc) b = ls1 @ (ol_price loc, l) # ls2" and "pl_orders l = ns1 @ ol_it loc # ns2"
    and "ob_nodes b (ol_it loc) = Some r" and "resting_ok r" and "ro_order_id r = oid"
    and "\<forall>e \<in> set ls1. better (ol_side loc) (fst e) (ol_price loc)"
    and "\<forall>e \<in> set ls2. better (ol_side loc) (ol_price loc) (fst e)"
proof -
  let ?s = "ol_side loc"
  obtain r where r: "loc \<in> set (side_locs ?s (levels_of ?s b) @ side_locs (opposite ?s) (levels_of (opposite ?s) b))"
    "ob_nodes b (ol_it loc) = Some r" "resting_ok r" "ro_order_id r = oid"
    using core_store [OF core, of ?s] find by (rule store_inv_find)
  then obtain l where l: "(ol_price loc, l) \<in> set (levels_of ?s b)" "ol_it loc \<in> set (pl_orders l)"
    by (auto simp: in_side_locs)
  have ord: "sorted_wrt (better ?s) (map fst (levels_of ?s b))" using core by (rule core_sorted)
  then have "map_of (levels_of ?s b) (ol_price loc) = Some l"
    using l(1) side_order.ordered_distinct by (auto intro: map_of_is_SomeI)
  with ord obtain ls1 ls2 where "levels_of ?s b = ls1 @ (ol_price loc, l) # ls2"
    "\<forall>e \<in> set ls1. better ?s (fst e) (ol_price loc)" "\<forall>e \<in> set ls2. better ?s (ol_price loc) (fst e)"
    by (rule side_order.ordered_split)
  moreover obtain ns1 ns2 where "pl_orders l = ns1 @ ol_it loc # ns2" using l(2) by (auto dest: split_list)
  ultimately show thesis using r that by blast
qed

lemma locate_spec_find:
  assumes core: "book_core b" and ls: "levels_of s b = ls1 @ (px, l) # ls2"
    and ns: "pl_orders l = ns1 @ n # ns2" and r: "ob_nodes b n = Some r"
  shows "spec_find (ro_order_id r) (abs_of b) = Some (s, (px, r))"
  using spec_find_eq_Some [of s "abs_of b" "(px, r)"] core_distinct_ids [OF core, of s] r
  by (simp add: entries_def ls ns)

lemma remove_resting_order_refines:
  assumes core: "book_core b" and ne: "\<forall>s. no_empty_level (levels_of s b)"
    and find: "um_find oid (ob_resting_orders b) = Some loc"
  shows "\<exists>r b'. remove_resting_order loc oid b = Some (ro_remaining_quantity r, b') \<and>
     ob_nodes b (ol_it loc) = Some r \<and> spec_find oid (abs_of b) = Some (ol_side loc, (ol_price loc, r)) \<and>
     book_core b' \<and> (\<forall>s. no_empty_level (levels_of s b')) \<and> abs_of b' = spec_delete oid (abs_of b) \<and>
     (\<forall>s. fst ` set (levels_of s b') \<subseteq> fst ` set (levels_of s b)) \<and>
     oid \<notin> fst ` set (ob_resting_orders b') \<and> ob_seen_order_ids b' = ob_seen_order_ids b"
proof -
  let ?s = "ol_side loc" and ?px = "ol_price loc" and ?n = "ol_it loc"
  obtain ls1 l ls2 ns1 ns2 r where ls: "levels_of ?s b = ls1 @ (?px, l) # ls2"
    and ns: "pl_orders l = ns1 @ ?n # ns2" and r: "ob_nodes b ?n = Some r" and id: "ro_order_id r = oid"
    and sep: "\<forall>e \<in> set ls1. better ?s (fst e) ?px" "\<forall>e \<in> set ls2. better ?s ?px (fst e)"
    using core find by (rule locate)
  let ?l' = "l\<lparr>pl_total_units := pl_total_units l - units (ro_remaining_quantity r), pl_orders := ns1 @ ns2\<rparr>"
  let ?ls' = "ls1 @ (?px, ?l') # ls2"
  let ?b1 = "put_levels ?s ?ls' (drop_filled ?n r b)"
  note rm = core_remove [OF core ls ns r refl]
  define ls' where "ls' = (if ns1 @ ns2 = [] then ls1 @ ls2 else ?ls')"
  define b' where "b' = put_levels ?s ls' (drop_filled ?n r b)"
  have dist: "distinct (map entry_id (entries ?s b @ entries (opposite ?s) b))"
    using core by (rule core_distinct_ids)
  have "om_find ?px (levels_of ?s b) = Some l"
    using sep side_order.irrefl by (auto simp: om_find_def ls map_add_def map_of_eq_None_iff split: option.splits
        dest!: map_of_SomeD)
  moreover have "distinct (pl_orders l)" using core_distinct_nodes [OF core, of ?s] by (simp add: ls)
  then have "erase_from_level (better ?s) ?px ?n (units (ro_remaining_quantity r)) (levels_of ?s b) = Some ls'"
    using calculation sep
    by (simp add: erase_from_level_def ls ns remove1_append side_order.om_put_middle
        side_order.om_erase_middle ls'_def Let_def)
  ultimately have op: "remove_resting_order loc oid b = Some (ro_remaining_quantity r, b')"
    using r id by (simp add: remove_resting_order_alt b'_def)
  have core': "book_core b'" and es: "entries ?s b' = entries ?s ?b1"
      "entries (opposite ?s) b' = entries (opposite ?s) ?b1"
    using rm(1) core_drop_empty [OF rm(1), of ?s ls1 ?px ?l' ls2 b']
    by (auto simp: b'_def ls'_def)
  have "entries ?s b' = filter (\<lambda>e. entry_id e \<noteq> oid) (entries ?s b)"
    using rm(2) dist id r es by (auto simp: entries_def [of ?s b] ls ns filter_id_conv image_iff filter_empty_conv
        intro!: arg_cong2 [of _ _ _ _ append] filter_True [symmetric])
  moreover have "entries (opposite ?s) b' = filter (\<lambda>e. entry_id e \<noteq> oid) (entries (opposite ?s) b)"
  proof -
    have "(?px, r) \<in> set (entries ?s b)" using r by (simp add: entries_def ls ns)
    then have "\<forall>e \<in> set (entries (opposite ?s) b). entry_id e \<noteq> oid"
      using dist id by (force simp: image_iff)
    then show ?thesis using rm(3) es(2) by (simp add: filter_id_conv)
  qed
  ultimately have "abs_of b' = spec_delete oid (abs_of b)"
    by (intro abs_eqI [of ?s]) (simp_all add: b'_def drop_filled_def)
  moreover have "levels_of (opposite ?s) b' = levels_of (opposite ?s) b" "levels_of ?s b' = ls'"
    by (simp_all add: b'_def)
  moreover have "no_empty_level ls'" using ne ls by (auto simp: ls'_def) (metis no_empty_level_simps(2,3))+
  ultimately have "\<forall>s. no_empty_level (levels_of s b')" "\<forall>s. fst ` set (levels_of s b') \<subseteq> fst ` set (levels_of s b)"
    unfolding all_sides [of _ ?s] using ne ls by (auto simp: ls'_def)
  moreover have "oid \<notin> fst ` set (ob_resting_orders b')" "ob_seen_order_ids b' = ob_seen_order_ids b"
    by (auto simp: b'_def drop_filled_def um_erase_def id)
  moreover have "spec_find oid (abs_of b) = Some (?s, (?px, r))"
    using locate_spec_find [OF core ls ns r] id by simp
  ultimately show ?thesis
    using op r core' \<open>abs_of b' = spec_delete oid (abs_of b)\<close> by blast
qed

section \<open>Commands\<close>

lemma uncrossed_iff:
  "uncrossed b \<longleftrightarrow> (\<forall>p \<in> fst ` set (levels_of s b). \<forall>q \<in> fst ` set (levels_of (opposite s) b).
     \<not> spec_crosses s Limit (Some p) q)"
  by (cases s) (auto simp: uncrossed_def levels_of_def spec_crosses_def not_le)

lemma uncrossed_subset:
  "uncrossed b \<Longrightarrow> \<forall>s. fst ` set (levels_of s b') \<subseteq> fst ` set (levels_of s b) \<Longrightarrow> uncrossed b'"
proof -
  assume unc: "uncrossed b" and sub: "\<forall>s. fst ` set (levels_of s b') \<subseteq> fst ` set (levels_of s b)"
  have "fst ` set (ob_bids b') \<subseteq> fst ` set (ob_bids b)" "fst ` set (ob_asks b') \<subseteq> fst ` set (ob_asks b)"
    using sub [THEN spec, of Buy] sub [THEN spec, of Sell] by (simp_all add: levels_of_def)
  with unc show "uncrossed b'" unfolding uncrossed_def by blast
qed

lemma book_inv_rest:
  assumes core: "book_core b" and ne: "\<forall>s. no_empty_level (levels_of s b)" and unc: "uncrossed b"
    and fresh: "oid \<notin> fst ` set (ob_resting_orders b)" and seen: "oid \<in> ob_seen_order_ids b"
    and q: "quantity_ok q"
    and clear: "\<forall>px' \<in> fst ` set (levels_of (opposite side) b). \<not> spec_crosses side Limit (Some px) px'"
  shows "book_inv (insert_resting_order oid seq side px q b)"
proof -
  note ins = insert_resting_order_refines [OF core ne fresh seen q refl, where seq = seq and side = side and px = px]
  have "uncrossed (insert_resting_order oid seq side px q b)"
    using unc clear unfolding uncrossed_iff [of _ side] ins(4,5) by blast
  with ins show ?thesis by (simp add: book_inv_def)
qed

lemma book_inv_seen:
  assumes "book_inv b" and "ob_seen_order_ids b \<subseteq> S"
  shows "book_inv (b\<lparr>ob_seen_order_ids := S\<rparr>)"
    and "abs_of (b\<lparr>ob_seen_order_ids := S\<rparr>) = (abs_of b)\<lparr>ab_seen := S\<rparr>"
proof -
  have "levels_of s (b\<lparr>ob_seen_order_ids := S\<rparr>) = levels_of s b" for s
    by (cases s) (simp_all add: levels_of_def)
  moreover have "store_inv L (b\<lparr>ob_seen_order_ids := S\<rparr>)" if "store_inv L b" for L
    using that assms(2) by (auto simp: store_inv_def)
  ultimately show "book_inv (b\<lparr>ob_seen_order_ids := S\<rparr>)"
    using assms(1) by (auto simp: book_inv_def book_core_def all_locs_def uncrossed_def)
qed (simp add: abs_of_def)

lemma book_invD:
  "book_inv b \<Longrightarrow> book_core b" "book_inv b \<Longrightarrow> \<forall>s. no_empty_level (levels_of s b)" "book_inv b \<Longrightarrow> uncrossed b"
  by (simp_all add: book_inv_def)

lemma core_seen: "book_core b \<Longrightarrow> fst ` set (ob_resting_orders b) \<subseteq> ob_seen_order_ids b"
  by (simp add: book_core_def store_inv_def)

lemma submit_refines:
  assumes inv: "book_inv b" and q: "quantity_ok (no_quantity order)"
  shows "\<exists>res b'. submit order b = Some (res, b') \<and> book_inv b' \<and>
     spec_submit order (abs_of b) = (res, abs_of b')"
proof (cases "validate order \<noteq> None \<or> no_order_id order \<in> ob_seen_order_ids b")
  case True
  with inv show ?thesis by (auto simp: submit_def spec_submit_def)
next
  case False
  let ?oid = "no_order_id order" and ?side = "no_side order" and ?type = "no_type order"
  let ?lim = "no_limit_price order" and ?S = "insert ?oid (ob_seen_order_ids b)"
  let ?b0 = "b\<lparr>ob_seen_order_ids := ?S\<rparr>"
  have inv0: "book_inv ?b0" and abs0: "abs_of ?b0 = (abs_of b)\<lparr>ab_seen := ?S\<rparr>"
    using book_inv_seen [OF inv, of ?S] by auto
  have lim: "?type = Limit \<longrightarrow> ?lim \<noteq> None" using False validate_None_iff by auto
  obtain rem xs b1 where m:
    "match_against_book ?oid ?side ?type ?lim (units (no_quantity order)) [] ?b0 = Some (rem, xs, b1)"
    "book_core b1" "\<forall>s. no_empty_level (levels_of s b1)"
    "spec_take ?oid ?side ?type ?lim (units (no_quantity order)) (abs_of ?b0) = (xs, rem, abs_of b1)"
    "levels_of ?side b1 = levels_of ?side ?b0"
    "fst ` set (levels_of (opposite ?side) b1) \<subseteq> fst ` set (levels_of (opposite ?side) ?b0)"
    "fst ` set (ob_resting_orders b1) \<subseteq> fst ` set (ob_resting_orders ?b0)"
    "ob_seen_order_ids b1 = ?S"
    "rem \<noteq> 0 \<longrightarrow> (\<forall>px \<in> fst ` set (levels_of (opposite ?side) b1). \<not> spec_crosses ?side ?type ?lim px)"
    using match_against_book_refines [OF book_invD(1,2) [OF inv0] lim, of ?oid ?side
        "units (no_quantity order)" "[]"] by auto
  have sub: "\<forall>s. fst ` set (levels_of s b1) \<subseteq> fst ` set (levels_of s ?b0)"
    unfolding all_sides [of _ ?side] using m(5,6) by simp
  have unc: "uncrossed b1" using book_invD(3) [OF inv0] sub by (rule uncrossed_subset)
  show ?thesis
  proof (cases "?type = Limit \<and> rem \<noteq> 0")
    case rest: True
    then obtain lp where lp: "?lim = Some lp" using lim by auto
    have fresh: "?oid \<notin> fst ` set (ob_resting_orders b1)"
      using m(7) core_seen [OF book_invD(1) [OF inv]] False by auto
    have q': "quantity_ok (Quantity rem)" using rest by (simp add: quantity_ok_def)
    note ins = book_inv_rest [OF m(2,3) unc fresh _ q'] insert_resting_order_refines(3) [OF m(2,3) fresh _ q' refl]
    show ?thesis
      using False rest m(1,4,8,9) lp ins abs0
      by (simp add: submit_def spec_submit_def word_gt_0 from_units_def)
  next
    case False2: False
    then show ?thesis
      using False m(1-4) unc abs0
      by (auto simp: submit_def spec_submit_def word_gt_0 book_inv_def)
  qed
qed

lemma cancel_refines:
  assumes inv: "book_inv b"
  shows "\<exists>res b'. cancel c b = Some (res, b') \<and> book_inv b' \<and> spec_cancel c (abs_of b) = (res, abs_of b')"
proof (cases "um_find (co_order_id c) (ob_resting_orders b)")
  case None
  with find_None_refines [OF book_invD(1) [OF inv]] inv show ?thesis
    by (simp add: cancel_def spec_cancel_def)
next
  case (Some loc)
  from remove_resting_order_refines [OF book_invD(1,2) [OF inv] Some]
  obtain r b' where rm: "remove_resting_order loc (co_order_id c) b = Some (ro_remaining_quantity r, b')"
    "spec_find (co_order_id c) (abs_of b) = Some (ol_side loc, (ol_price loc, r))"
    "book_core b'" "\<forall>s. no_empty_level (levels_of s b')"
    "abs_of b' = spec_delete (co_order_id c) (abs_of b)"
    "\<forall>s. fst ` set (levels_of s b') \<subseteq> fst ` set (levels_of s b)"
    by blast
  have "book_inv b'"
    using rm(3,4) uncrossed_subset [OF book_invD(3) [OF inv] rm(6)] by (simp add: book_inv_def)
  with Some rm show ?thesis by (simp add: cancel_def spec_cancel_def)
qed

lemma reduce_in_place_alt:
  "ob_nodes b (ol_it loc) = Some r \<Longrightarrow>
   reduce_in_place loc q diff b =
     Some (put_levels (ol_side loc)
       (om_subscript_update (better (ol_side loc)) empty_level (ol_price loc)
          (\<lambda>level. level\<lparr>pl_total_units := pl_total_units level - diff\<rparr>) (levels_of (ol_side loc) b))
       (reduce_front (ol_it loc) r q b))"
  by (cases "ol_side loc")
    (simp_all add: reduce_in_place_def put_levels_def levels_of_def better_def reduce_front_def Let_def)

lemma spec_requantify_absent:
  "\<forall>e \<in> set es. entry_id e \<noteq> oid \<Longrightarrow> spec_requantify oid q es = es"
  unfolding spec_requantify_def by (induction es) auto

lemma spec_requantify_split:
  "\<forall>e' \<in> set es \<union> set fs. entry_id e' \<noteq> entry_id e \<Longrightarrow>
   spec_requantify (entry_id e) q (es @ e # fs) = es @ set_entry_quantity q e # fs"
  using spec_requantify_absent [of es "entry_id e" q] spec_requantify_absent [of fs "entry_id e" q]
  by (simp add: spec_requantify_def)

lemma reduce_in_place_refines:
  assumes inv: "book_inv b" and find: "um_find oid (ob_resting_orders b) = Some loc"
    and r: "ob_nodes b (ol_it loc) = Some r" and q: "quantity_ok q"
  shows "\<exists>b'. reduce_in_place loc q (units (ro_remaining_quantity r) - units q) b = Some b' \<and> book_inv b' \<and>
     abs_of b' = (abs_of b)\<lparr>ab_bids := spec_requantify oid q (ab_bids (abs_of b)),
                            ab_asks := spec_requantify oid q (ab_asks (abs_of b))\<rparr>"
proof -
  let ?s = "ol_side loc" and ?px = "ol_price loc" and ?n = "ol_it loc"
  let ?d = "units (ro_remaining_quantity r) - units q"
  note core = book_invD(1) [OF inv]
  obtain ls1 l ls2 ns1 ns2 r' where loc: "levels_of ?s b = ls1 @ (?px, l) # ls2"
    "pl_orders l = ns1 @ ?n # ns2" "ob_nodes b ?n = Some r'" "resting_ok r'" "ro_order_id r' = oid"
    "\<forall>e \<in> set ls1. better ?s (fst e) ?px" "\<forall>e \<in> set ls2. better ?s ?px (fst e)"
    using core find by (rule locate)
  have id: "ro_order_id r = oid" using loc(3,5) r by simp
  have "om_find ?px (levels_of ?s b) = Some l"
    using loc(6) side_order.irrefl by (auto simp: om_find_def loc(1) map_add_def split: option.splits
        dest!: map_of_SomeD)
  then have upd: "om_subscript_update (better ?s) empty_level ?px
      (\<lambda>level. level\<lparr>pl_total_units := pl_total_units level - ?d\<rparr>) (levels_of ?s b) =
      ls1 @ (?px, l\<lparr>pl_total_units := pl_total_units l - ?d\<rparr>) # ls2"
    using loc(6) by (simp add: om_subscript_update_def loc(1) side_order.om_put_middle)
  define b' where "b' = put_levels ?s (ls1 @ (?px, l\<lparr>pl_total_units := pl_total_units l - ?d\<rparr>) # ls2)
      (reduce_front ?n r q b)"
  note rq = core_requantify [OF core loc(1,2) r q refl b'_def]
  have dist: "distinct (map entry_id (entries ?s b @ entries (opposite ?s) b))"
    using core by (rule core_distinct_ids)
  let ?A = "side_entries (ob_nodes b) ls1 @ level_entries (ob_nodes b) ?px ns1"
    and ?B = "level_entries (ob_nodes b) ?px ns2 @ side_entries (ob_nodes b) ls2"
  have es: "entries ?s b = ?A @ (?px, r) # ?B" using r by (simp add: entries_def loc(1,2))
  then have n1: "entry_id (?px, r) \<notin> entry_id ` (set ?A \<union> set ?B)"
    and n2: "oid \<notin> entry_id ` set (entries (opposite ?s) b)"
    using dist id unfolding es by auto
  have notin: "\<forall>e' \<in> set ?A \<union> set ?B. entry_id e' \<noteq> entry_id (?px, r)"
    using n1 by (metis (no_types, lifting) imageI)
  have notin2: "\<forall>e' \<in> set (entries (opposite ?s) b). entry_id e' \<noteq> oid"
    using n2 by (metis (no_types, lifting) imageI)
  have "spec_requantify oid q (entries ?s b) = entries ?s b'"
    using spec_requantify_split [OF notin, of q] rq(2) id by (simp add: es set_entry_quantity_def)
  moreover have "spec_requantify oid q (entries (opposite ?s) b) = entries (opposite ?s) b'"
    using notin2 rq(3) by (simp add: spec_requantify_absent)
  moreover have "ab_side s ((abs_of b)\<lparr>ab_bids := spec_requantify oid q (ab_bids (abs_of b)),
      ab_asks := spec_requantify oid q (ab_asks (abs_of b))\<rparr>) = spec_requantify oid q (entries s b)" for s
    by (cases s) (simp_all add: ab_side_def abs_of_def entries_def levels_of_def)
  ultimately have abs: "abs_of b' = (abs_of b)\<lparr>ab_bids := spec_requantify oid q (ab_bids (abs_of b)),
      ab_asks := spec_requantify oid q (ab_asks (abs_of b))\<rparr>"
    by (intro abs_eqI [of ?s]) (simp_all add: b'_def reduce_front_def)
  have lv: "levels_of (opposite ?s) b' = levels_of (opposite ?s) b"
      "levels_of ?s b' = ls1 @ (?px, l\<lparr>pl_total_units := pl_total_units l - ?d\<rparr>) # ls2"
    by (simp_all add: b'_def)
  have nel: "no_empty_level (ls1 @ (?px, l) # ls2)" using book_invD(2) [OF inv] loc(1) by metis
  have "\<forall>s. no_empty_level (levels_of s b')"
    unfolding all_sides [of _ ?s] using lv nel book_invD(2) [OF inv] by simp
  moreover have "uncrossed b'"
  proof (rule uncrossed_subset [OF book_invD(3) [OF inv]])
    show "\<forall>s. fst ` set (levels_of s b') \<subseteq> fst ` set (levels_of s b)"
      unfolding all_sides [of _ ?s] using lv loc(1) by auto
  qed
  ultimately have "book_inv b'" using rq(1) by (simp add: book_inv_def)
  with abs show ?thesis using reduce_in_place_alt [OF r] by (simp add: upd b'_def)
qed

lemma replace_refines:
  assumes inv: "book_inv b" and q: "quantity_ok (rpo_new_quantity c)"
  shows "\<exists>res b'. replace c b = Some (res, b') \<and> book_inv b' \<and> spec_replace c (abs_of b) = (res, abs_of b')"
proof (cases "um_find (rpo_order_id c) (ob_resting_orders b)")
  case None
  with find_None_refines [OF book_invD(1) [OF inv]] inv show ?thesis
    by (simp add: replace_def spec_replace_def)
next
  case (Some loc)
  let ?oid = "rpo_order_id c" and ?side = "ol_side loc" and ?lim = "Some (rpo_new_price c)"
  from remove_resting_order_refines [OF book_invD(1,2) [OF inv] Some]
  obtain r b1 where rm: "remove_resting_order loc ?oid b = Some (ro_remaining_quantity r, b1)"
    "ob_nodes b (ol_it loc) = Some r" "spec_find ?oid (abs_of b) = Some (?side, (ol_price loc, r))"
    "book_core b1" "\<forall>s. no_empty_level (levels_of s b1)" "abs_of b1 = spec_delete ?oid (abs_of b)"
    "\<forall>s. fst ` set (levels_of s b1) \<subseteq> fst ` set (levels_of s b)"
    "?oid \<notin> fst ` set (ob_resting_orders b1)" "ob_seen_order_ids b1 = ob_seen_order_ids b"
    by blast
  show ?thesis
  proof (cases "rpo_new_price c = ol_price loc \<and>
      units (rpo_new_quantity c) \<le> units (ro_remaining_quantity r)")
    case True
    with reduce_in_place_refines [OF inv Some rm(2) q] Some rm(2,3) show ?thesis
      by (auto simp: replace_def spec_replace_def)
  next
    case False
    then have moves: "(rpo_new_price c = ol_price loc \<and>
        units (rpo_new_quantity c) \<le> units (ro_remaining_quantity r)) = False" by blast
    obtain rem xs b2 where m:
      "match_against_book ?oid ?side Limit ?lim (units (rpo_new_quantity c)) [] b1 = Some (rem, xs, b2)"
      "book_core b2" "\<forall>s. no_empty_level (levels_of s b2)"
      "spec_take ?oid ?side Limit ?lim (units (rpo_new_quantity c)) (abs_of b1) = (xs, rem, abs_of b2)"
      "levels_of ?side b2 = levels_of ?side b1"
      "fst ` set (levels_of (opposite ?side) b2) \<subseteq> fst ` set (levels_of (opposite ?side) b1)"
      "fst ` set (ob_resting_orders b2) \<subseteq> fst ` set (ob_resting_orders b1)"
      "ob_seen_order_ids b2 = ob_seen_order_ids b1"
      "rem \<noteq> 0 \<longrightarrow> (\<forall>px \<in> fst ` set (levels_of (opposite ?side) b2). \<not> spec_crosses ?side Limit ?lim px)"
      using match_against_book_refines [OF rm(4,5), of Limit ?lim ?oid ?side
          "units (rpo_new_quantity c)" "[]"] by auto
    have "\<forall>s. fst ` set (levels_of s b2) \<subseteq> fst ` set (levels_of s b1)"
      unfolding all_sides [of _ ?side] using m(5,6) by simp
    with rm(7) have "\<forall>s. fst ` set (levels_of s b2) \<subseteq> fst ` set (levels_of s b)" by blast
    with book_invD(3) [OF inv] have unc: "uncrossed b2" by (rule uncrossed_subset)
    have fresh: "?oid \<notin> fst ` set (ob_resting_orders b2)" using m(7) rm(8) by blast
    have "?oid \<in> fst ` set (ob_resting_orders b)"
      using Some by (force simp: um_find_def dest: map_of_SomeD)
    then have seen: "?oid \<in> ob_seen_order_ids b2"
      using core_seen [OF book_invD(1) [OF inv]] m(8) rm(9) by auto
    show ?thesis
    proof (cases "rem = 0")
      case True
      then show ?thesis
        using Some rm(1,2,3,6) m(1-4) unc
        by (simp add: replace_def spec_replace_def moves Let_def book_inv_def)
    next
      case nz: False
      then have q': "quantity_ok (Quantity rem)" by (simp add: quantity_ok_def)
      note ins = book_inv_rest [OF m(2,3) unc fresh seen q']
        insert_resting_order_refines(3) [OF m(2,3) fresh seen q' refl]
      show ?thesis
        using Some rm(1,2,3,6) m(1,4,9) nz ins
        by (simp add: replace_def spec_replace_def moves Let_def word_gt_0 from_units_def)
    qed
  qed
qed

end
