(* ===== verification/Simulation.thy ===== *)
theory Simulation
  imports Exchange_Prelude
begin

text \<open>
  Forward simulation between a component of the program and what it promises. A component is a
  partial step function on its own state (\<open>None\<close> is undefined behaviour), its promise a total step
  function on an abstract state. The locale states what one step has to show; runs of any length
  follow once and for all, and each component obtains them by interpretation.
\<close>

section \<open>Runs\<close>

primrec run :: "('c \<Rightarrow> 's \<Rightarrow> ('r \<times> 's) ub) \<Rightarrow> 'c list \<Rightarrow> 's \<Rightarrow> ('r list \<times> 's) ub" where
  "run step [] s = Some ([], s)"
| "run step (c # cs) s = do { (r, s') \<leftarrow> step c s; (rs, s'') \<leftarrow> run step cs s'; Some (r # rs, s'') }"

primrec spec_run :: "('c \<Rightarrow> 'a \<Rightarrow> 'r \<times> 'a) \<Rightarrow> 'c list \<Rightarrow> 'a \<Rightarrow> 'r list \<times> 'a" where
  "spec_run spec [] a = ([], a)"
| "spec_run spec (c # cs) a = (let (r, a') = spec c a; (rs, a'') = spec_run spec cs a' in (r # rs, a''))"

lemma run_append:
  "run step (cs @ ds) s =
     do { (rs, s') \<leftarrow> run step cs s; (qs, s'') \<leftarrow> run step ds s'; Some (rs @ qs, s'') }"
  by (induction cs arbitrary: s) (auto split: bind_splits)

lemma run_length: "run step cs s = Some (rs, s') \<Longrightarrow> length rs = length cs"
  by (induction cs arbitrary: s rs) (auto split: bind_splits)

section \<open>The simulation contract\<close>

locale simulation =
  fixes ok :: "'c \<Rightarrow> bool"
    and inv :: "'s \<Rightarrow> bool"
    and abs :: "'s \<Rightarrow> 'a"
    and step :: "'c \<Rightarrow> 's \<Rightarrow> ('r \<times> 's) ub"
    and spec :: "'c \<Rightarrow> 'a \<Rightarrow> 'r \<times> 'a"
  assumes step_simulates:
    "ok c \<Longrightarrow> inv s \<Longrightarrow> \<exists>r s'. step c s = Some (r, s') \<and> inv s' \<and> spec c (abs s) = (r, abs s')"
begin

lemma step_defined: "ok c \<Longrightarrow> inv s \<Longrightarrow> step c s \<noteq> None"
  using step_simulates by fastforce

lemma step_inv: "ok c \<Longrightarrow> inv s \<Longrightarrow> step c s = Some (r, s') \<Longrightarrow> inv s'"
  using step_simulates by fastforce

lemma step_spec: "ok c \<Longrightarrow> inv s \<Longrightarrow> step c s = Some (r, s') \<Longrightarrow> spec c (abs s) = (r, abs s')"
  using step_simulates by fastforce

lemma run_simulates:
  "list_all ok cs \<Longrightarrow> inv s \<Longrightarrow>
   \<exists>rs s'. run step cs s = Some (rs, s') \<and> inv s' \<and> spec_run spec cs (abs s) = (rs, abs s')"
proof (induction cs arbitrary: s)
  case (Cons c cs)
  then obtain r s1 where "step c s = Some (r, s1)" "inv s1" "spec c (abs s) = (r, abs s1)"
    using step_simulates [of c s] by auto
  with Cons.IH [of s1] Cons.prems show ?case by auto
qed simp

lemma run_inv: "list_all ok cs \<Longrightarrow> inv s \<Longrightarrow> run step cs s = Some (rs, s') \<Longrightarrow> inv s'"
  using run_simulates by fastforce

text \<open>Two implementation states with the same abstraction cannot be told apart by any run.\<close>

lemma run_determined_by_abs:
  assumes "list_all ok cs" and "inv s" and "inv t" and "abs s = abs t"
    and "run step cs s = Some (rs, s')" and "run step cs t = Some (qs, t')"
  shows "rs = qs \<and> abs s' = abs t'"
  using run_simulates [OF assms(1,2)] run_simulates [OF assms(1,3)] assms(4-6) by auto

end

end
