(* ===== verification/Order_Book_Reachable.thy ===== *)
theory Order_Book_Reachable
  imports Order_Book_Refinement Simulation
begin

text \<open>
  The order book under sequences of commands: the books that a run of \<open>apply_command\<close> from the
  empty book can reach, the invariant on them by rule induction, and the queries of
  \<open>order_book.cpp\<close> (quotes, depth, self-check, digest) on a reachable book.
\<close>

section \<open>Commands against the specification\<close>

definition spec_apply :: "command \<Rightarrow> abs_book \<Rightarrow> bool \<times> abs_book" where
  "spec_apply c a =
     (case c of
        New_order order \<Rightarrow> let (r, a') = spec_submit order a in (submit_accepted r, a')
      | Cancel_order order \<Rightarrow> let (r, a') = spec_cancel order a in (cancel_accepted r, a')
      | Replace_order order \<Rightarrow> let (r, a') = spec_replace order a in (replace_accepted r, a')
      | Monostate \<Rightarrow> (False, a))"

abbreviation book_op :: "command \<Rightarrow> order_book \<Rightarrow> (bool \<times> order_book) ub" where
  "book_op c b \<equiv> apply_command b c"

interpretation book: simulation command_ok book_inv abs_of book_op spec_apply
proof unfold_locales
  fix c b
  assume "command_ok c" "book_inv b"
  then show "\<exists>r b'. book_op c b = Some (r, b') \<and> book_inv b' \<and> spec_apply c (abs_of b) = (r, abs_of b')"
  proof (cases c)
    case (New_order order)
    with \<open>command_ok c\<close> \<open>book_inv b\<close> show ?thesis
      using submit_refines [of b order]
      by (auto simp: apply_command_def spec_apply_def command_ok_def new_order_ok_def)
  next
    case (Cancel_order order)
    with \<open>book_inv b\<close> show ?thesis
      using cancel_refines [of b order] by (auto simp: apply_command_def spec_apply_def)
  next
    case (Replace_order order)
    with \<open>command_ok c\<close> \<open>book_inv b\<close> show ?thesis
      using replace_refines [of b order]
      by (auto simp: apply_command_def spec_apply_def command_ok_def replace_order_ok_def)
  qed (auto simp: apply_command_def spec_apply_def)
qed

section \<open>Reachable books\<close>

inductive book_step :: "order_book \<Rightarrow> command \<Rightarrow> bool \<Rightarrow> order_book \<Rightarrow> bool" where
  exec: "command_ok c \<Longrightarrow> apply_command b c = Some (accepted, b') \<Longrightarrow> book_step b c accepted b'"

inductive book_reachable :: "order_book \<Rightarrow> bool" where
  empty: "book_reachable empty_book"
| step: "book_reachable b \<Longrightarrow> book_step b c accepted b' \<Longrightarrow> book_reachable b'"

inductive_simps book_step_iff: "book_step b c accepted b'"

lemma reachable_inv: "book_reachable b \<Longrightarrow> book_inv b"
  by (induction rule: book_reachable.induct)
    (auto simp: book_step_iff book_inv_empty intro: book.step_inv)

lemma reachable_run:
  "book_reachable b \<Longrightarrow> list_all command_ok cs \<Longrightarrow> run book_op cs b = Some (rs, b') \<Longrightarrow> book_reachable b'"
proof (induction cs arbitrary: b rs)
  case (Cons c cs)
  then obtain r b1 qs where "command_ok c" "book_op c b = Some (r, b1)" "run book_op cs b1 = Some (qs, b')"
    by (auto simp: bind_ub_eq_Some)
  moreover from this Cons.prems have "book_reachable b1"
    by (meson book_reachable.step book_step.exec)
  ultimately show ?case using Cons.IH Cons.prems by auto
qed simp

lemma reachable_from_empty:
  "list_all command_ok cs \<Longrightarrow> book_reachable (snd (the (run book_op cs empty_book)))"
  using book.run_simulates [OF _ book_inv_empty, of cs] reachable_run [OF book_reachable.empty, of cs]
  by auto

text \<open>Prices and identifiers in a reachable book come from accepted commands: they are positive.\<close>

lemma reachable_core: "book_reachable b \<Longrightarrow> book_core b"
  using book_invD(1) reachable_inv by blast

lemmas reachable_facts = reachable_inv reachable_core book_invD [OF reachable_inv]

section \<open>Grouping the abstract book by price\<close>

text \<open>
  The levels are recovered from the abstract book: a level is a maximal run of entries at one
  price. Quotes, depth and digest are then functions of the abstract book alone.
\<close>

function group_levels :: "entry list \<Rightarrow> (price \<times> entry list) list" where
  "group_levels [] = []"
| "group_levels (e # es) =
     (fst e, e # takeWhile (\<lambda>e'. fst e' = fst e) es) # group_levels (dropWhile (\<lambda>e'. fst e' = fst e) es)"
  by pat_completeness auto
termination
  by (relation "measure length") (auto intro: le_imp_less_Suc length_dropWhile_le)

definition level_group :: "(node \<rightharpoonup> resting_order) \<Rightarrow> price \<times> price_level \<Rightarrow> price \<times> entry list" where
  "level_group nodes e = (fst e, level_entries nodes (fst e) (pl_orders (snd e)))"

lemma takeWhile_append_stop:
  "(\<And>x. x \<in> set xs \<Longrightarrow> P x) \<Longrightarrow> (\<And>y. y \<in> set ys \<Longrightarrow> \<not> P y) \<Longrightarrow>
   takeWhile P (xs @ ys) = xs \<and> dropWhile P (xs @ ys) = ys"
  by (induction xs) (cases ys, auto)+

lemma group_levels_side:
  "sorted_wrt (better s) (map fst ls) \<Longrightarrow> no_empty_level ls \<Longrightarrow>
   group_levels (side_entries nodes ls) = map (level_group nodes) ls"
proof (induction ls)
  case (Cons e ls)
  obtain px l where e: "e = (px, l)" by (cases e)
  with Cons.prems obtain n ns where ns: "pl_orders l = n # ns"
    by (cases "pl_orders l") (auto simp: no_empty_level_def)
  have "\<forall>q \<in> fst ` set ls. q \<noteq> px"
    using Cons.prems(1) e side_order.irrefl [of s] by force
  then have "\<not> fst e' = px" if "e' \<in> set (side_entries nodes ls)" for e'
    using that fst_side_entries [of nodes ls] by blast
  then have "takeWhile (\<lambda>e'. fst e' = px) (level_entries nodes px ns @ side_entries nodes ls) =
        level_entries nodes px ns \<and>
      dropWhile (\<lambda>e'. fst e' = px) (level_entries nodes px ns @ side_entries nodes ls) =
        side_entries nodes ls"
    by (intro takeWhile_append_stop) (auto simp: level_entries_def)
  moreover have "group_levels (side_entries nodes ls) = map (level_group nodes) ls"
    using Cons by (simp add: no_empty_level_def)
  ultimately show ?case by (simp add: e ns level_group_def)
qed simp

lemma group_levels_book:
  assumes "book_inv b"
  shows "group_levels (entries s b) = map (level_group (ob_nodes b)) (levels_of s b)"
  unfolding entries_def using book_invD(2) [OF assms] core_sorted [OF book_invD(1) [OF assms]]
  by (blast intro: group_levels_side)

section \<open>Level quotes and depth\<close>

text \<open>
  The aggregate of a level against the exact sum of its orders: they agree modulo \<open>2 ^ 64\<close>, and
  exactly when the sum fits.
\<close>

definition no_overflow :: "abs_book \<Rightarrow> bool" where
  "no_overflow a \<longleftrightarrow>
     (\<forall>(px, es) \<in> set (group_levels (ab_bids a)) \<union> set (group_levels (ab_asks a)).
        resting_units es < 2 ^ 64)"

definition spec_quote :: "price \<times> entry list \<Rightarrow> level_quote" where
  "spec_quote g = \<lparr>lq_price = fst g, lq_quantity = Quantity (of_nat (resting_units (snd g))),
                   lq_order_count = of_nat (length (snd g))\<rparr>"

lemma level_total_of_nat:
  "level_total nodes ns = of_nat (resting_units (level_entries nodes px ns))"
  by (induction ns) simp_all

lemma core_level:
  assumes "book_core b" and "(px, l) \<in> set (levels_of s b)"
  shows "pl_total_units l = of_nat (resting_units (level_entries (ob_nodes b) px (pl_orders l)))"
  using assms by (auto simp: book_core_def side_inv_def simp flip: level_total_of_nat)

lemma core_level_node:
  assumes "book_core b" and "(px, l) \<in> set (levels_of s b)" and "n \<in> set (pl_orders l)"
  obtains r where "ob_nodes b n = Some r" and "resting_ok r"
    and "um_find (ro_order_id r) (ob_resting_orders b) = Some \<lparr>ol_side = s, ol_price = px, ol_it = n\<rparr>"
proof -
  let ?loc = "\<lparr>ol_side = s, ol_price = px, ol_it = n\<rparr>"
  let ?L = "side_locs s (levels_of s b) @ side_locs (opposite s) (levels_of (opposite s) b)"
  have st: "store_inv ?L b" using assms(1) by (rule core_store)
  have "?loc \<in> set (side_locs s (levels_of s b))"
    using assms(2,3) by (force simp: side_locs_def level_locs_def)
  then have "?loc \<in> set ?L" by simp
  with st obtain r where "ob_nodes b n = Some r" "resting_ok r"
      "(ro_order_id r, ?loc) \<in> set (ob_resting_orders b)"
    by (rule store_inv_node) simp
  moreover have "distinct (map fst (ob_resting_orders b))" using st by (simp add: store_inv_def)
  ultimately show ?thesis using that by (auto simp: um_find_def)
qed

lemma level_units_pos:
  assumes "book_inv b" and "(px, l) \<in> set (levels_of s b)"
  shows "0 < resting_units (level_entries (ob_nodes b) px (pl_orders l))"
proof -
  have "pl_orders l \<noteq> []"
    using book_invD(2) [OF assms(1)] assms(2) by (auto simp: no_empty_level_def)
  then obtain n ns where ns: "pl_orders l = n # ns" by (cases "pl_orders l") auto
  then obtain r where "ob_nodes b n = Some r" "resting_ok r"
    using core_level_node [OF book_invD(1) [OF assms(1)] assms(2), of n] by auto
  with ns show ?thesis by (simp add: resting_ok_def quantity_ok_def unat_gt_0)
qed

lemma no_overflow_level:
  assumes "book_inv b" and "no_overflow (abs_of b)" and "(px, l) \<in> set (levels_of s b)"
  shows "resting_units (level_entries (ob_nodes b) px (pl_orders l)) < 2 ^ 64"
proof -
  have "(px, level_entries (ob_nodes b) px (pl_orders l)) \<in> set (group_levels (entries s b))"
    using assms(3) by (force simp: group_levels_book [OF assms(1)] level_group_def)
  then show ?thesis
    using assms(2) by (cases s) (auto simp: no_overflow_def abs_of_def entries_def levels_of_def)
qed

text \<open>The exact sums of the levels, and which of them the 64-bit aggregates show as zero.\<close>

definition level_sums :: "entry list \<Rightarrow> nat list" where
  "level_sums es = map (resting_units \<circ> snd) (group_levels es)"

definition nonzero_sums :: "nat list \<Rightarrow> bool" where
  "nonzero_sums ns \<longleftrightarrow> list_all (\<lambda>n. n mod 2 ^ 64 \<noteq> 0) ns"

lemma level_sums_book:
  "book_inv b \<Longrightarrow> level_sums (entries s b) = map (resting_units \<circ> snd \<circ> level_group (ob_nodes b)) (levels_of s b)"
  by (simp add: level_sums_def group_levels_book)

lemma no_overflow_sums: "no_overflow a \<longleftrightarrow> list_all (\<lambda>n. n < 2 ^ 64) (level_sums (ab_bids a) @ level_sums (ab_asks a))"
  by (simp add: no_overflow_def level_sums_def list_all_iff case_prod_unfold ball_Un)

lemma no_overflow_nonzero:
  assumes "book_inv b" and "no_overflow (abs_of b)"
  shows "nonzero_sums (take n (level_sums (entries s b)))"
proof -
  have "0 < resting_units (snd (level_group (ob_nodes b) e)) \<and> resting_units (snd (level_group (ob_nodes b) e)) < 2 ^ 64"
    if "e \<in> set (levels_of s b)" for e
    using that level_units_pos [OF assms(1), of "fst e" "snd e" s] no_overflow_level [OF assms, of "fst e" "snd e" s]
    by (simp add: level_group_def)
  then show ?thesis by (auto simp: nonzero_sums_def level_sums_book [OF assms(1)] list_all_iff dest!: in_set_takeD)
qed

lemma total_units_exact:
  assumes "book_inv b" and "e \<in> set (levels_of s b)"
  shows "pl_total_units (snd e) = of_nat (resting_units (snd (level_group (ob_nodes b) e)))"
  using core_level [OF book_invD(1) [OF assms(1)], of "fst e" "snd e" s] assms(2) by (simp add: level_group_def)

lemma quote_level_exact:
  assumes "book_inv b" and "e \<in> set (levels_of s b)"
  shows "quote_level e = (if resting_units (snd (level_group (ob_nodes b) e)) mod 2 ^ 64 \<noteq> 0
    then Some (spec_quote (level_group (ob_nodes b) e)) else None)"
proof -
  have "(of_nat n :: u64) = 0 \<longleftrightarrow> n mod 2 ^ 64 = 0" for n
    by (simp add: word_of_nat_eq_0_iff dvd_eq_mod_eq_0)
  moreover have "fst (level_group (ob_nodes b) e) = fst e" "length (snd (level_group (ob_nodes b) e)) = length (pl_orders (snd e))"
    by (simp_all add: level_group_def level_entries_def)
  ultimately show ?thesis using total_units_exact [OF assms] by (simp add: quote_level_def spec_quote_def from_units_def)
qed

lemma depth_loop_exact:
  assumes "\<And>e. e \<in> set ls \<Longrightarrow> quote_level e = (if P e then Some (f e) else None)" and "length acc \<le> unat max_depth"
  shows "depth_loop max_depth ls acc =
    (if list_all P (take (unat max_depth - length acc) ls) then Some (acc @ map f (take (unat max_depth - length acc) ls)) else None)"
  using assms
proof (induction ls arbitrary: acc)
  case (Cons e ls)
  show ?case
  proof (cases "length acc = unat max_depth")
    case True
    then have "of_nat (length acc) = max_depth" by simp
    with True show ?thesis by simp
  next
    case False
    then have lt: "length acc < unat max_depth" using Cons.prems(2) by simp
    then have "of_nat (length acc) \<noteq> max_depth" using of_nat_eq_word_iff [of "length acc" max_depth] by simp
    moreover have "unat max_depth - length acc = Suc (unat max_depth - length (acc @ [f e]))"
      using lt by simp
    ultimately show ?thesis using Cons.IH [of "acc @ [f e]"] Cons.prems lt by simp
  qed
qed simp

definition spec_depth :: "entry list \<Rightarrow> level_quote list" where
  "spec_depth es = map spec_quote (group_levels es)"

text \<open>The depth of a side: exact as far as the levels reported do not add up to zero.\<close>

lemma depth_loop_book_exact:
  assumes "book_inv b"
  shows "depth_loop max_depth (levels_of s b) [] =
    (if nonzero_sums (take (unat max_depth) (level_sums (entries s b))) then Some (take (unat max_depth) (spec_depth (entries s b))) else None)"
  by (subst depth_loop_exact [where P = "\<lambda>e. resting_units (snd (level_group (ob_nodes b) e)) mod 2 ^ 64 \<noteq> 0" and
        f = "\<lambda>e. spec_quote (level_group (ob_nodes b) e)"])
    (simp_all add: quote_level_exact [OF assms] nonzero_sums_def level_sums_book [OF assms] spec_depth_def group_levels_book [OF assms]
      take_map list.pred_map comp_def)

lemma depth_loop_book:
  assumes "book_inv b" and "no_overflow (abs_of b)"
  shows "depth_loop max_depth (levels_of s b) [] = Some (take (unat max_depth) (spec_depth (entries s b)))"
  by (simp add: depth_loop_book_exact [OF assms(1)] no_overflow_nonzero [OF assms])

lemma copy_levels_exact:
  assumes "\<And>e. e \<in> set ls \<Longrightarrow> quote_level e = (if P e then Some (f e) else None)" and "i \<le> length out"
  shows "copy_levels ls i out =
    (if list_all P (take (length out - i) ls)
     then Some (take i out @ map (Some \<circ> f) (take (length out - i) ls) @ drop (i + length ls) out) else None)"
  using assms
proof (induction ls arbitrary: i out)
  case (Cons e ls)
  show ?case
  proof (cases "i = length out")
    case False
    then have lt: "i < length out" using Cons.prems(2) by simp
    then have "length out - i = Suc (length out - Suc i)" by simp
    then show ?thesis using Cons.IH [of "Suc i" "out[i := Some (f e)]"] Cons.prems lt
      by (simp add: take_Suc_conv_app_nth)
  qed simp
qed simp

lemma copy_levels_book_exact:
  assumes "book_inv b"
  shows "copy_levels (levels_of s b) 0 (map (\<lambda>_. None) out) =
    (if nonzero_sums (take (length out) (level_sums (entries s b)))
     then Some (take (length out) (map Some (spec_depth (entries s b)) @ replicate (length out) None)) else None)"
  by (subst copy_levels_exact [where P = "\<lambda>e. resting_units (snd (level_group (ob_nodes b) e)) mod 2 ^ 64 \<noteq> 0" and
        f = "\<lambda>e. spec_quote (level_group (ob_nodes b) e)"])
    (simp_all add: quote_level_exact [OF assms] nonzero_sums_def level_sums_book [OF assms] spec_depth_def group_levels_book [OF assms]
      take_map list.pred_map comp_def map_replicate_const flip: drop_replicate)

lemma copy_levels_book:
  assumes "book_inv b" and "no_overflow (abs_of b)"
  shows "copy_levels (levels_of s b) 0 (map (\<lambda>_. None) out) =
    Some (take (length out) (map Some (spec_depth (entries s b)) @ replicate (length out) None))"
  by (simp add: copy_levels_book_exact [OF assms(1)] no_overflow_nonzero [OF assms])

section \<open>The self-check\<close>

text \<open>
  \<open>validate_invariants\<close> finds every structural condition satisfied; its only way to fail on a
  book with the invariant is a level whose aggregate has wrapped around to zero.
\<close>

definition no_zero_aggregate :: "entry list \<Rightarrow> bool" where
  "no_zero_aggregate es \<longleftrightarrow> (\<forall>(px, g) \<in> set (group_levels es). resting_units g mod 2 ^ 64 \<noteq> 0)"

lemma validate_orders_book:
  assumes "book_core b" and "(px, l) \<in> set (levels_of s b)" and "set ns \<subseteq> set (pl_orders l)"
  shows "validate_orders s px ns counted b = Some (Some (counted + level_total (ob_nodes b) ns))"
  using assms(3)
proof (induction ns arbitrary: counted)
  case (Cons n ns)
  then have "n \<in> set (pl_orders l)" by simp
  with assms(1,2) obtain r where "ob_nodes b n = Some r"
      "um_find (ro_order_id r) (ob_resting_orders b) = Some \<lparr>ol_side = s, ol_price = px, ol_it = n\<rparr>"
    by (rule core_level_node)
  with Cons show ?case by (simp add: algebra_simps)
qed simp

lemma validate_levels_book:
  assumes "book_inv b" and "set ls \<subseteq> set (levels_of s b)"
  shows "validate_levels s ls tot b =
    Some (if \<forall>(px, l) \<in> set ls. pl_total_units l \<noteq> 0 then Some (tot + of_nat (length (side_nodes ls))) else None)"
  using assms(2)
proof (induction ls arbitrary: tot)
  case (Cons e ls)
  obtain px l where e: "e = (px, l)" by (cases e)
  have mem: "(px, l) \<in> set (levels_of s b)" using Cons.prems e by simp
  have ne: "pl_orders l \<noteq> []" using book_invD(2) [OF assms(1)] mem by (auto simp: no_empty_level_def)
  have "pl_total_units l = level_total (ob_nodes b) (pl_orders l)"
    using core_level [OF book_invD(1) [OF assms(1)] mem] by (simp add: level_total_of_nat [of _ _ px])
  then have "validate_orders s px (pl_orders l) 0 b = Some (Some (pl_total_units l))"
    using validate_orders_book [OF book_invD(1) [OF assms(1)] mem order_refl] by simp
  with Cons ne show ?case by (simp add: e algebra_simps)
qed simp

lemma aggregate_nonzero_iff:
  assumes "book_inv b"
  shows "no_zero_aggregate (entries s b) \<longleftrightarrow> (\<forall>(px, l) \<in> set (levels_of s b). pl_total_units l \<noteq> 0)"
proof -
  have "pl_total_units l \<noteq> 0 \<longleftrightarrow>
      resting_units (level_entries (ob_nodes b) px (pl_orders l)) mod 2 ^ 64 \<noteq> 0"
    if "(px, l) \<in> set (levels_of s b)" for px l
    using core_level [OF book_invD(1) [OF assms] that]
    by (simp add: word_of_nat_eq_0_iff dvd_eq_mod_eq_0)
  then show ?thesis
    unfolding no_zero_aggregate_def group_levels_book [OF assms]
    by (force simp: level_group_def)
qed

lemma core_index_length:
  assumes "book_core b"
  shows "length (ob_resting_orders b) = length (entries Buy b) + length (entries Sell b)"
    and "ob_resting_order_count b = of_nat (length (entries Buy b) + length (entries Sell b))"
proof -
  have len: "length (side_locs s ls) = length (side_entries nodes ls)" for s ls nodes
    by (induction ls) (auto simp: level_locs_def level_entries_def)
  have "store_inv (all_locs b) b" using assms by (simp add: book_core_def)
  then have "mset (ob_resting_orders b) = mset (map (loc_key (ob_nodes b)) (all_locs b))"
    and count: "ob_resting_order_count b = of_nat (length (ob_resting_orders b))"
    by (simp_all add: store_inv_def)
  then have "length (ob_resting_orders b) = length (all_locs b)" by (metis length_map size_mset)
  then show "length (ob_resting_orders b) = length (entries Buy b) + length (entries Sell b)"
    by (simp add: all_locs_def entries_def levels_of_def len [of _ _ "ob_nodes b"])
  with count show "ob_resting_order_count b = of_nat (length (entries Buy b) + length (entries Sell b))"
    by simp
qed

lemma length_side_nodes: "length (side_nodes ls) = length (side_entries nodes ls)"
  by (induction ls) (auto simp: level_entries_def)

lemma validate_invariants_book:
  assumes "book_inv b"
  shows "validate_invariants b =
    Some (no_zero_aggregate (ab_bids (abs_of b)) \<and> no_zero_aggregate (ab_asks (abs_of b)))"
proof -
  have unc: "\<not> (ob_bids b \<noteq> [] \<and> ob_asks b \<noteq> [] \<and> fst (hd (ob_bids b)) \<ge> fst (hd (ob_asks b)))"
    using book_invD(3) [OF assms] by (cases "ob_bids b"; cases "ob_asks b") (auto simp: uncrossed_def)
  have z: "no_zero_aggregate (ab_bids (abs_of b)) \<longleftrightarrow> (\<forall>(px, l) \<in> set (ob_bids b). pl_total_units l \<noteq> 0)"
      "no_zero_aggregate (ab_asks (abs_of b)) \<longleftrightarrow> (\<forall>(px, l) \<in> set (ob_asks b). pl_total_units l \<noteq> 0)"
    using aggregate_nonzero_iff [OF assms, of Buy] aggregate_nonzero_iff [OF assms, of Sell]
    by (simp_all add: abs_of_def entries_def levels_of_def)
  have "length (side_nodes (ob_bids b)) + length (side_nodes (ob_asks b)) = length (ob_resting_orders b)"
    using core_index_length(1) [OF book_invD(1) [OF assms]]
    by (simp add: entries_def levels_of_def length_side_nodes [of _ "ob_nodes b"])
  moreover have "ob_resting_order_count b = of_nat (length (ob_resting_orders b))"
    using core_index_length [OF book_invD(1) [OF assms]] by simp
  ultimately show ?thesis
    using validate_levels_book [OF assms, of "ob_bids b" Buy] validate_levels_book [OF assms, of "ob_asks b" Sell]
    unfolding validate_invariants_def z using unc
    by (auto simp: levels_of_def simp flip: of_nat_add)
qed

section \<open>The state digest\<close>

definition spec_hash_entry :: "entry \<Rightarrow> u64 \<Rightarrow> u64" where
  "spec_hash_entry e h =
     hash_u64 (entry_units e) (hash_u64 (seq_value (ro_sequence (snd e))) (hash_u64 (oid_value (entry_id e)) h))"

definition spec_hash_level :: "price \<times> entry list \<Rightarrow> u64 \<Rightarrow> u64" where
  "spec_hash_level g h =
     fold spec_hash_entry (snd g)
       (hash_u64 (of_nat (length (snd g)))
         (hash_u64 (of_nat (resting_units (snd g))) (hash_u64 (ticks (fst g)) h)))"

definition spec_hash_side :: "side \<Rightarrow> entry list \<Rightarrow> u64 \<Rightarrow> u64" where
  "spec_hash_side s es h =
     fold spec_hash_level (group_levels es) (hash_u64 (of_nat (length (group_levels es))) (hash_u64 (side_value s) h))"

definition spec_digest :: "abs_book \<Rightarrow> u64" where
  "spec_digest a =
     hash_u64 (of_nat (length (ab_bids a) + length (ab_asks a)))
       (spec_hash_side Sell (ab_asks a) (spec_hash_side Buy (ab_bids a) kFnvOffsetBasis))"

lemma hash_orders_fold:
  "\<forall>n \<in> set ns. \<exists>r. nodes n = Some r \<Longrightarrow>
   hash_orders nodes ns h = Some (fold spec_hash_entry (level_entries nodes px ns) h)"
  by (induction ns arbitrary: h) (auto simp: spec_hash_entry_def)

lemma hash_levels_fold:
  assumes "book_core b" and "set ls \<subseteq> set (levels_of s b)"
  shows "hash_levels (ob_nodes b) ls h = Some (fold spec_hash_level (map (level_group (ob_nodes b)) ls) h)"
  using assms(2)
proof (induction ls arbitrary: h)
  case (Cons e ls)
  obtain px l where e: "e = (px, l)" by (cases e)
  have mem: "(px, l) \<in> set (levels_of s b)" using Cons.prems e by simp
  have nn: "\<forall>n \<in> set (pl_orders l). \<exists>r. ob_nodes b n = Some r"
    using core_level_node [OF assms(1) mem] by blast
  have "length (level_entries (ob_nodes b) px (pl_orders l)) = length (pl_orders l)"
    by (simp add: level_entries_def)
  with Cons show ?case
    using hash_orders_fold [of "pl_orders l" "ob_nodes b" _ px] nn core_level [OF assms(1) mem]
    by (simp add: e spec_hash_level_def level_group_def)
qed simp

lemma hash_side_book:
  assumes "book_inv b"
  shows "hash_side (ob_nodes b) (levels_of s b) s h = Some (spec_hash_side s (entries s b) h)"
  using hash_levels_fold [OF book_invD(1) [OF assms], of "levels_of s b" s]
  by (simp add: hash_side_def spec_hash_side_def group_levels_book [OF assms])

lemma state_digest_book:
  assumes "book_inv b"
  shows "state_digest b = Some (spec_digest (abs_of b))"
proof -
  have "state_digest b = Some (hash_u64 (ob_resting_order_count b)
      (spec_hash_side Sell (entries Sell b) (spec_hash_side Buy (entries Buy b) kFnvOffsetBasis)))"
    using hash_side_book [OF assms, of Buy] hash_side_book [OF assms, of Sell]
    by (simp add: state_digest_def levels_of_def)
  then show ?thesis
    using core_index_length(2) [OF book_invD(1) [OF assms]]
    by (simp add: spec_digest_def abs_of_def entries_def levels_of_def)
qed

end
