(* ===== verification/Spsc_Queue.thy ===== *)
theory Spsc_Queue
  imports Exchange_Prelude
begin

text \<open>
  \<open>BoundedSPSCQueue<T, Capacity>\<close> (\<open>include/low_latency_exchange/spsc_queue.hpp\<close>): a ring
  buffer with free-running 64-bit indices that wrap around, a power-of-two capacity, and on each side
  a cached copy of the other side's index.

  First the operations run alone (\<open>try_push\<close>, \<open>try_pop\<close>, the size queries) and the queue is shown
  to implement a bounded FIFO interface, stated as a locale, on which the clients rely. Then the two
  operations are split into their memory accesses, and the producer's and the consumer's accesses
  interleave: the step relation of the second half. The template parameter \<open>Capacity\<close> is the argument
  \<open>cap\<close>; what a move leaves behind in a slot is the argument \<open>moved\<close>.
\<close>

section \<open>State and operations\<close>

record 'a ring =
  rq_buffer :: "'a list"
  rq_write_index :: u64
  rq_cached_read_index :: u64
  rq_read_index :: u64
  rq_cached_write_index :: u64

text \<open>The class's \<open>static_assert\<close>.\<close>

definition capacity_ok :: "u64 \<Rightarrow> bool" where
  "capacity_ok cap \<longleftrightarrow> cap \<ge> 2 \<and> cap AND (cap - 1) = 0"

definition kMask :: "u64 \<Rightarrow> u64" where
  "kMask cap = cap - 1"

definition slot :: "u64 \<Rightarrow> u64 \<Rightarrow> nat" where
  "slot cap index = unat (index AND kMask cap)"

definition empty_ring :: "u64 \<Rightarrow> 'a \<Rightarrow> 'a ring" where
  "empty_ring cap dflt = \<lparr>rq_buffer = replicate (unat cap) dflt, rq_write_index = 0,
     rq_cached_read_index = 0, rq_read_index = 0, rq_cached_write_index = 0\<rparr>"

definition push_store :: "u64 \<Rightarrow> 'a \<Rightarrow> 'a ring \<Rightarrow> 'a ring" where
  "push_store cap item q =
     q\<lparr>rq_buffer := (rq_buffer q)[slot cap (rq_write_index q) := item],
       rq_write_index := rq_write_index q + 1\<rparr>"

definition try_push :: "u64 \<Rightarrow> 'a \<Rightarrow> 'a ring \<Rightarrow> bool \<times> 'a ring" where
  "try_push cap item q =
     (let current_write = rq_write_index q in
      if current_write - rq_cached_read_index q \<ge> cap then
        (let q' = q\<lparr>rq_cached_read_index := rq_read_index q\<rparr> in
         if current_write - rq_cached_read_index q' \<ge> cap then (False, q')
         else (True, push_store cap item q'))
      else (True, push_store cap item q))"

definition pop_take :: "u64 \<Rightarrow> ('a \<Rightarrow> 'a) \<Rightarrow> 'a ring \<Rightarrow> 'a \<times> 'a ring" where
  "pop_take cap moved q =
     (let i = slot cap (rq_read_index q); out = rq_buffer q ! i in
      (out, q\<lparr>rq_buffer := (rq_buffer q)[i := moved out], rq_read_index := rq_read_index q + 1\<rparr>))"

definition try_pop :: "u64 \<Rightarrow> ('a \<Rightarrow> 'a) \<Rightarrow> 'a ring \<Rightarrow> 'a option \<times> 'a ring" where
  "try_pop cap moved q =
     (let current_read = rq_read_index q in
      if current_read = rq_cached_write_index q then
        (let q' = q\<lparr>rq_cached_write_index := rq_write_index q\<rparr> in
         if current_read = rq_cached_write_index q' then (None, q')
         else (let (out, q'') = pop_take cap moved q' in (Some out, q'')))
      else (let (out, q'') = pop_take cap moved q in (Some out, q'')))"

definition ring_size :: "'a ring \<Rightarrow> size_t" where
  "ring_size q = (let w = rq_write_index q; r = rq_read_index q in if w \<ge> r then w - r else 0)"

definition ring_empty :: "'a ring \<Rightarrow> bool" where
  "ring_empty q \<longleftrightarrow> rq_write_index q = rq_read_index q"

definition ring_full :: "u64 \<Rightarrow> 'a ring \<Rightarrow> bool" where
  "ring_full cap q \<longleftrightarrow> rq_write_index q - rq_read_index q \<ge> cap"

section \<open>Slots\<close>

text \<open>The bit test of the \<open>static_assert\<close> admits exactly the powers of two.\<close>

lemma power_of_two_test:
  "0 < (n :: nat) \<Longrightarrow> n AND (n - 1) = 0 \<Longrightarrow> \<exists>k. n = 2 ^ k"
proof (induction n rule: less_induct)
  case (less n)
  show ?case
  proof (cases "even n")
    case True
    then obtain m where n: "n = 2 * m" by (rule evenE)
    then have "0 < m" "n - 1 = 2 * (m - 1) + 1" using less.prems(1) by auto
    then have "2 * (m AND (m - 1)) = 0"
      using less.prems(2) n by (subst (asm) and_nat_rec) simp
    with less.IH [of m] \<open>0 < m\<close> n obtain k where "n = 2 ^ Suc k" by auto
    then show ?thesis by blast
  next
    case False
    then obtain m where n: "n = 2 * m + 1" by (rule oddE)
    then have "2 * (m AND m) = 0" using less.prems(2) by (subst (asm) and_nat_rec) simp
    with n have "n = 2 ^ 0" by simp
    then show ?thesis by blast
  qed
qed

lemma unat_64_bound: "unat (w :: u64) < 2 ^ 64"
  using unsigned_less [of w] by simp

lemma capacity_power:
  assumes "capacity_ok cap"
  obtains k where "unat cap = 2 ^ k" and "0 < k" and "k < 64"
proof -
  have "2 \<le> unat cap" using assms by (simp add: capacity_ok_def word_le_nat_alt)
  moreover have "unat cap AND (unat cap - 1) = 0"
  proof -
    have "unat (cap - 1) = unat cap - 1" using \<open>2 \<le> unat cap\<close> by (simp add: unat_diff_le word_le_nat_alt)
    moreover have "unat (cap AND (cap - 1)) = 0" using assms by (simp add: capacity_ok_def)
    ultimately show ?thesis by (simp add: unsigned_and_eq)
  qed
  ultimately obtain k where k: "unat cap = 2 ^ k" using power_of_two_test [of "unat cap"] by auto
  moreover have "0 < k" using k \<open>2 \<le> unat cap\<close> by (cases k) auto
  moreover have "k < 64"
  proof (rule ccontr)
    assume "\<not> k < 64"
    then have "(2 :: nat) ^ 64 \<le> 2 ^ k" using power_increasing [of 64 k "2 :: nat"] by simp
    then show False using unat_64_bound [of cap] k by simp
  qed
  ultimately show ?thesis using that by blast
qed

lemma slot_mod:
  assumes "capacity_ok cap"
  shows "slot cap index = unat index mod unat cap"
proof -
  obtain k where k: "unat cap = 2 ^ k" "0 < k" "k < 64" using assms by (rule capacity_power)
  have "of_nat (unat cap) = cap" by simp
  then have "cap = 2 ^ k" unfolding k(1) by simp
  then have "kMask cap = mask k" by (simp add: kMask_def mask_eq_exp_minus_1)
  then have "slot cap index = unat (take_bit k index)" by (simp add: slot_def take_bit_eq_mask)
  then have "slot cap index = take_bit k (unat index)" using k(3) by (simp only: unsigned_take_bit_eq)
  then show ?thesis using k by (simp only: take_bit_eq_mod)
qed

lemma slot_offset:
  assumes "capacity_ok cap"
  shows "slot cap (r + of_nat i) = (unat r + i) mod unat cap"
proof -
  obtain k where k: "unat cap = 2 ^ k" "0 < k" "k < 64" using assms by (rule capacity_power)
  then have "unat cap dvd 2 ^ 64" using le_imp_power_dvd [of k 64 "2 :: nat"] by simp
  moreover have "unat (r + of_nat i) = (unat r + i) mod 2 ^ 64"
    by (simp add: unat_word_ariths unat_of_nat take_bit_eq_mod mod_simps)
  ultimately show ?thesis by (simp add: slot_mod [OF assms] mod_mod_cancel)
qed

lemma slot_inj:
  assumes "capacity_ok cap" and "i < j" and "j < i + unat cap"
  shows "slot cap (r + of_nat i) \<noteq> slot cap (r + of_nat j)"
proof
  assume "slot cap (r + of_nat i) = slot cap (r + of_nat j)"
  then have "(unat r + j) mod unat cap = (unat r + i) mod unat cap" by (simp add: slot_offset [OF assms(1)])
  then have "unat cap dvd (unat r + j) - (unat r + i)"
    using assms(2) by (subst (asm) mod_eq_dvd_iff_nat) simp_all
  then have "unat cap \<le> j - i" using assms(2) by (simp add: dvd_imp_le)
  then show False using assms(2,3) by simp
qed

lemma slot_less:
  assumes "capacity_ok cap"
  shows "slot cap index < unat cap"
  using assms by (auto simp: slot_mod capacity_ok_def word_le_nat_alt intro: mod_less_divisor)

section \<open>The bounded FIFO interface\<close>

text \<open>
  What the clients of the queue rely on: a push is refused exactly when the queue is full, a pop
  exactly when it is empty, elements leave in the order in which they were accepted.
\<close>

datatype 'a queue_op = Push 'a | Pop

fun queue_run :: "('a \<Rightarrow> 'q \<Rightarrow> bool \<times> 'q) \<Rightarrow> ('q \<Rightarrow> 'a option \<times> 'q) \<Rightarrow> 'a queue_op list \<Rightarrow> 'q \<Rightarrow>
    'a list \<times> 'a list \<times> 'q" where
  "queue_run push pop [] q = ([], [], q)"
| "queue_run push pop (Push x # ops) q =
     (let (accepted, q') = push x q; (ins, outs, q'') = queue_run push pop ops q'
      in (if accepted then x # ins else ins, outs, q''))"
| "queue_run push pop (Pop # ops) q =
     (let (out, q') = pop q; (ins, outs, q'') = queue_run push pop ops q'
      in (ins, case out of None \<Rightarrow> outs | Some x \<Rightarrow> x # outs, q''))"

locale bounded_fifo =
  fixes inv :: "'q \<Rightarrow> bool"
    and contents :: "'q \<Rightarrow> 'a list"
    and bound :: nat
    and push :: "'a \<Rightarrow> 'q \<Rightarrow> bool \<times> 'q"
    and pop :: "'q \<Rightarrow> 'a option \<times> 'q"
  assumes push_law: "inv q \<Longrightarrow> push x q = (ok, q') \<Longrightarrow>
      inv q' \<and> ok = (length (contents q) < bound) \<and>
      contents q' = (if ok then contents q @ [x] else contents q)"
    and pop_law: "inv q \<Longrightarrow> pop q = (out, q') \<Longrightarrow>
      inv q' \<and> (case contents q of [] \<Rightarrow> out = None \<and> contents q' = []
                | x # xs \<Rightarrow> out = Some x \<and> contents q' = xs)"
    and contents_bound: "inv q \<Longrightarrow> length (contents q) \<le> bound"
begin

lemma run_fifo:
  "inv q \<Longrightarrow> queue_run push pop ops q = (ins, outs, q') \<Longrightarrow>
   inv q' \<and> contents q @ ins = outs @ contents q'"
proof (induction ops arbitrary: q ins outs q')
  case (Cons op ops)
  show ?case
  proof (cases op)
    case (Push x)
    obtain ok q1 where step: "push x q = (ok, q1)" by fastforce
    obtain ins1 outs1 q2 where rest: "queue_run push pop ops q1 = (ins1, outs1, q2)"
      by (cases "queue_run push pop ops q1")
    from push_law [OF Cons.prems(1) step] Cons.IH [OF _ rest]
    have "inv q2 \<and> contents q1 @ ins1 = outs1 @ contents q2"
      and "contents q1 = (if ok then contents q @ [x] else contents q)" by simp_all
    then show ?thesis using Cons.prems(2) by (auto simp: Push step rest split: if_splits)
  next
    case Pop
    obtain out q1 where step: "pop q = (out, q1)" by fastforce
    obtain ins1 outs1 q2 where rest: "queue_run push pop ops q1 = (ins1, outs1, q2)"
      by (cases "queue_run push pop ops q1")
    from pop_law [OF Cons.prems(1) step] Cons.IH [OF _ rest]
    show ?thesis using Cons.prems(2)
      by (cases "contents q") (auto simp: Pop step rest)
  qed
qed simp

lemma drain_in_order:
  assumes "inv q" and "contents q = []" and "queue_run push pop ops q = (ins, outs, q')"
  shows "ins = outs @ contents q'"
  using run_fifo [OF assms(1,3)] assms(2) by simp

lemma push_refused_iff: "inv q \<Longrightarrow> fst (push x q) = (length (contents q) < bound)"
  using push_law by (metis prod.collapse)

lemma pop_refused_iff: "inv q \<Longrightarrow> fst (pop q) = None \<longleftrightarrow> contents q = []"
  using pop_law [of q "fst (pop q)" "snd (pop q)"] by (cases "contents q") auto

end

section \<open>The ring is a bounded FIFO\<close>

definition ring_contents :: "u64 \<Rightarrow> 'a ring \<Rightarrow> 'a list" where
  "ring_contents cap q = map (\<lambda>i. rq_buffer q ! slot cap (rq_read_index q + of_nat i))
     [0..<unat (rq_write_index q - rq_read_index q)]"

definition ring_inv :: "u64 \<Rightarrow> 'a ring \<Rightarrow> bool" where
  "ring_inv cap q \<longleftrightarrow>
     length (rq_buffer q) = unat cap \<and>
     unat (rq_write_index q - rq_read_index q) \<le> unat (rq_write_index q - rq_cached_read_index q) \<and>
     unat (rq_write_index q - rq_cached_read_index q) \<le> unat cap \<and>
     unat (rq_cached_write_index q - rq_read_index q) \<le> unat (rq_write_index q - rq_read_index q)"

lemma ring_inv_empty: "ring_inv cap (empty_ring cap dflt)" "ring_contents cap (empty_ring cap dflt) = []"
  by (simp_all add: ring_inv_def empty_ring_def ring_contents_def)

lemma length_ring_contents [simp]:
  "length (ring_contents cap q) = unat (rq_write_index q - rq_read_index q)"
  by (simp add: ring_contents_def)

lemma unat_succ_below: "unat (d :: u64) < unat (c :: u64) \<Longrightarrow> unat (d + 1) = unat d + 1"
  using unat_64_bound [of c] by (simp add: unat_word_ariths)

lemma unat_pred: "(d :: u64) \<noteq> 0 \<Longrightarrow> unat (d - 1) = unat d - 1"
  by (rule unat_minus_one)

lemma index_offset: "(w :: u64) = r + of_nat (unat (w - r))"
  by simp

lemma push_store_ok:
  assumes cap: "capacity_ok cap" and inv: "ring_inv cap q"
    and room: "unat (rq_write_index q - rq_cached_read_index q) < unat cap"
  shows "ring_inv cap (push_store cap x q)"
    and "ring_contents cap (push_store cap x q) = ring_contents cap q @ [x]"
proof -
  let ?w = "rq_write_index q" and ?r = "rq_read_index q" and ?c = "rq_cached_read_index q"
  let ?n = "unat (?w - ?r)"
  have n: "?n < unat cap" using inv room by (simp add: ring_inv_def)
  have grow: "unat (?w + 1 - ?r) = ?n + 1" "unat (?w + 1 - ?c) = unat (?w - ?c) + 1"
    using unat_succ_below [OF n] unat_succ_below [OF room] by (simp_all add: algebra_simps)
  show "ring_inv cap (push_store cap x q)"
    using inv room grow by (simp add: ring_inv_def push_store_def)
  have new: "slot cap ?w < length (rq_buffer q)"
    using slot_less [OF cap] inv by (simp add: ring_inv_def)
  have old: "(rq_buffer q)[slot cap ?w := x] ! slot cap (?r + of_nat i) = rq_buffer q ! slot cap (?r + of_nat i)"
    if "i < ?n" for i
  proof -
    have "slot cap (?r + of_nat i) \<noteq> slot cap (?r + of_nat ?n)"
      using that n by (intro slot_inj [OF cap]) simp_all
    then show ?thesis by simp
  qed
  have "ring_contents cap (push_store cap x q) =
      map (\<lambda>i. (rq_buffer q)[slot cap ?w := x] ! slot cap (?r + of_nat i)) ([0..<?n] @ [?n])"
    using grow(1) by (simp add: ring_contents_def push_store_def)
  also have "\<dots> = ring_contents cap q @ [x]"
    using old new by (simp add: ring_contents_def)
  finally show "ring_contents cap (push_store cap x q) = ring_contents cap q @ [x]" .
qed

lemma pop_take_ok:
  assumes cap: "capacity_ok cap" and inv: "ring_inv cap q"
    and item: "rq_cached_write_index q \<noteq> rq_read_index q" and pop: "pop_take cap moved q = (out, q')"
  shows "ring_inv cap q'" and "ring_contents cap q = out # ring_contents cap q'"
proof -
  let ?w = "rq_write_index q" and ?r = "rq_read_index q" and ?c = "rq_cached_write_index q"
  let ?n = "unat (?w - ?r)" and ?b = "(rq_buffer q)[slot cap ?r := moved (rq_buffer q ! slot cap ?r)]"
  have c: "?c - ?r \<noteq> 0" using item by simp
  then have "0 < unat (?c - ?r)" by (simp add: unat_gt_0)
  then have n: "0 < ?n" "?n \<le> unat cap" using inv by (auto simp: ring_inv_def)
  then have w: "?w - ?r \<noteq> 0" by auto
  have shrink: "unat (?w - (?r + 1)) = ?n - 1" "unat (?c - (?r + 1)) = unat (?c - ?r) - 1"
    using unat_pred [OF w] unat_pred [OF c] by (simp_all add: algebra_simps)
  have q': "out = rq_buffer q ! slot cap ?r" "q' = q\<lparr>rq_buffer := ?b, rq_read_index := ?r + 1\<rparr>"
    using pop by (auto simp: pop_take_def Let_def)
  show "ring_inv cap q'" using inv shrink n by (auto simp: ring_inv_def q' intro: diff_le_mono)
  have later: "?b ! slot cap (?r + 1 + of_nat i) = rq_buffer q ! slot cap (?r + of_nat (Suc i))"
    if "i < ?n - 1" for i
  proof -
    have "slot cap (?r + of_nat 0) \<noteq> slot cap (?r + of_nat (Suc i))"
      using that n by (intro slot_inj [OF cap]) simp_all
    then show ?thesis by (simp add: algebra_simps)
  qed
  have "[0..<?n] = 0 # map Suc [0..<?n - 1]" using n by (simp add: map_Suc_upt upt_conv_Cons)
  then have "ring_contents cap q = out # map (\<lambda>i. rq_buffer q ! slot cap (?r + of_nat (Suc i))) [0..<?n - 1]"
    by (simp add: ring_contents_def q' comp_def)
  also have "\<dots> = out # ring_contents cap q'"
    using later by (simp add: ring_contents_def q' shrink)
  finally show "ring_contents cap q = out # ring_contents cap q'" .
qed

lemma try_push_ok:
  assumes cap: "capacity_ok cap" and inv: "ring_inv cap q" and push: "try_push cap x q = (ok, q')"
  shows "ring_inv cap q' \<and> ok = (length (ring_contents cap q) < unat cap) \<and>
    ring_contents cap q' = (if ok then ring_contents cap q @ [x] else ring_contents cap q)"
proof -
  define q1 where "q1 = q\<lparr>rq_cached_read_index := rq_read_index q\<rparr>"
  have inv1: "ring_inv cap q1" using inv by (simp add: ring_inv_def q1_def)
  have cont1: "ring_contents cap q1 = ring_contents cap q" by (simp add: ring_contents_def q1_def)
  have le: "unat (rq_write_index q - rq_read_index q) \<le> unat (rq_write_index q - rq_cached_read_index q)"
    using inv by (simp add: ring_inv_def)
  consider (fast) "rq_write_index q - rq_cached_read_index q < cap"
    | (full) "cap \<le> rq_write_index q - rq_cached_read_index q" "cap \<le> rq_write_index q - rq_read_index q"
    | (refreshed) "cap \<le> rq_write_index q - rq_cached_read_index q" "rq_write_index q - rq_read_index q < cap"
    by force
  then show ?thesis
  proof cases
    case fast
    then have "(ok, q') = (True, push_store cap x q)" using push by (simp add: try_push_def Let_def not_le [symmetric])
    then show ?thesis using push_store_ok [OF cap inv, of x] fast le by (simp add: word_less_nat_alt)
  next
    case full
    then have "(ok, q') = (False, q1)" using push by (simp add: try_push_def Let_def q1_def)
    then show ?thesis using inv1 cont1 full by (simp add: word_le_nat_alt)
  next
    case refreshed
    then have "(ok, q') = (True, push_store cap x q1)" using push by (simp add: try_push_def Let_def q1_def not_le [symmetric])
    then show ?thesis using push_store_ok [OF cap inv1, of x] cont1 refreshed
      by (simp add: word_less_nat_alt q1_def)
  qed
qed

lemma try_pop_ok:
  assumes cap: "capacity_ok cap" and inv: "ring_inv cap q" and pop: "try_pop cap moved q = (out, q')"
  shows "ring_inv cap q' \<and>
    (case ring_contents cap q of [] \<Rightarrow> out = None \<and> ring_contents cap q' = []
     | x # xs \<Rightarrow> out = Some x \<and> ring_contents cap q' = xs)"
proof -
  define q1 where "q1 = q\<lparr>rq_cached_write_index := rq_write_index q\<rparr>"
  have inv1: "ring_inv cap q1" using inv by (simp add: ring_inv_def q1_def)
  have cont1: "ring_contents cap q1 = ring_contents cap q" by (simp add: ring_contents_def q1_def)
  consider (fast) "rq_cached_write_index q \<noteq> rq_read_index q"
    | (none) "rq_read_index q = rq_cached_write_index q" "rq_read_index q = rq_write_index q"
    | (refreshed) "rq_read_index q = rq_cached_write_index q" "rq_read_index q \<noteq> rq_write_index q"
    by metis
  then show ?thesis
  proof cases
    case fast
    obtain o1 q2 where take: "pop_take cap moved q = (o1, q2)" by fastforce
    then have "out = Some o1" "q' = q2" using pop fast by (auto simp: try_pop_def Let_def)
    then show ?thesis using pop_take_ok [OF cap inv fast take] by simp
  next
    case none
    then have "out = None" "q' = q1" using pop by (auto simp: try_pop_def Let_def q1_def)
    moreover have "ring_contents cap q = []" using none by (simp add: ring_contents_def)
    ultimately show ?thesis using inv1 cont1 by simp
  next
    case refreshed
    obtain o1 q2 where take: "pop_take cap moved q1 = (o1, q2)" by fastforce
    then have "out = Some o1" "q' = q2" using pop refreshed by (auto simp: try_pop_def Let_def q1_def)
    moreover have "rq_cached_write_index q1 \<noteq> rq_read_index q1" using refreshed by (simp add: q1_def)
    ultimately show ?thesis using pop_take_ok [OF cap inv1 _ take] cont1 by simp
  qed
qed

lemma ring_contents_bound: "ring_inv cap q \<Longrightarrow> length (ring_contents cap q) \<le> unat cap"
  by (simp add: ring_inv_def)

text \<open>
  The class template for an admissible capacity, and its instances in the program: the inbound,
  outbound and capture queues hold 4096 messages, the market-data queue 1024.
\<close>

locale spsc_ring =
  fixes cap :: u64 and moved :: "'a \<Rightarrow> 'a"
  assumes admissible: "capacity_ok cap"

sublocale spsc_ring \<subseteq> fifo: bounded_fifo "ring_inv cap" "ring_contents cap" "unat cap"
    "try_push cap" "try_pop cap moved"
proof unfold_locales
  show "ring_inv cap q \<Longrightarrow> try_push cap x q = (ok, q') \<Longrightarrow> ring_inv cap q' \<and>
      ok = (length (ring_contents cap q) < unat cap) \<and>
      ring_contents cap q' = (if ok then ring_contents cap q @ [x] else ring_contents cap q)" for q x ok q'
    using try_push_ok [OF admissible] .
  show "ring_inv cap q \<Longrightarrow> try_pop cap moved q = (out, q') \<Longrightarrow> ring_inv cap q' \<and>
      (case ring_contents cap q of [] \<Rightarrow> out = None \<and> ring_contents cap q' = []
       | x # xs \<Rightarrow> out = Some x \<and> ring_contents cap q' = xs)" for q out q'
    using try_pop_ok [OF admissible] .
qed (rule ring_contents_bound)

context spsc_ring
begin

lemmas ring_run_fifo = fifo.run_fifo
lemmas ring_push_refused_iff = fifo.push_refused_iff
lemmas ring_pop_refused_iff = fifo.pop_refused_iff

end

definition message_capacity :: u64 where
  "message_capacity = 4096"

definition market_data_capacity :: u64 where
  "market_data_capacity = 1024"

interpretation message_ring: spsc_ring message_capacity moved for moved
  by unfold_locales code_simp

interpretation market_data_ring: spsc_ring market_data_capacity moved for moved
  by unfold_locales code_simp

end
