(* ===== verification/Event_Log.thy ===== *)
theory Event_Log
  imports Protocol_Codec Order_Book_Reachable Spsc_Queue "HOL-Library.Sublist"
begin

text \<open>
  The event log: \<open>include/low_latency_exchange/event_log.hpp\<close> and \<open>src/event_log.cpp\<close>. Accepted
  commands are captured in a bounded queue, appended to a file as framed, checksummed records, and
  replayed into a fresh order book.

  A file is the list of its bytes. An input stream is what is left of the file: reading takes as many
  bytes as there are, \<open>gcount\<close> is their number. An output stream has its \<open>good\<close> flag, the bytes that
  have reached the file, the bytes still in its buffer, and the number of bytes the device will still
  take.
\<close>

section \<open>Records\<close>

definition kRecordMagic :: u32 where "kRecordMagic = 0x474C584C"
definition kRecordVersion :: u8 where "kRecordVersion = 1"
definition kRecordHeaderSize :: nat where "kRecordHeaderSize = 16"
definition kRecordPayloadMax :: nat where "kRecordPayloadMax = kNewOrderSize"

datatype event_log_error = Io_error | Truncated_header | Malformed_header | Truncated_payload
  | Checksum_mismatch | Invalid_command | Replay_command_rejected

fun event_log_error_name :: "event_log_error \<Rightarrow> string" where
  "event_log_error_name Io_error = ''io_error''"
| "event_log_error_name Truncated_header = ''truncated_header''"
| "event_log_error_name Malformed_header = ''malformed_header''"
| "event_log_error_name Truncated_payload = ''truncated_payload''"
| "event_log_error_name Checksum_mismatch = ''checksum_mismatch''"
| "event_log_error_name Invalid_command = ''invalid_command''"
| "event_log_error_name Replay_command_rejected = ''replay_command_rejected''"

definition read_u32_le :: "bytes \<Rightarrow> nat \<Rightarrow> u32 ub" where
  "read_u32_le inp off = read_loop [0..<4] inp off 0"

definition write_u32_le :: "nat \<Rightarrow> u32 \<Rightarrow> bytes \<Rightarrow> bytes ub" where
  "write_u32_le off v out = write_loop [0..<4] (byte_of v) off out"

definition mix :: "u8 \<Rightarrow> u64 \<Rightarrow> u64" where
  "mix b hash = (hash XOR ucast b) * kFnvPrime"

definition checksum :: "message_type \<Rightarrow> bytes \<Rightarrow> u64" where
  "checksum t payload =
     fold mix payload
       (mix (ucast (drop_bit 8 (of_nat (length payload) :: size_t) AND 0xFF))
         (mix (ucast ((of_nat (length payload) :: size_t) AND 0xFF))
           (mix (mt_value t) (mix kRecordVersion kFnvOffsetBasis))))"

definition encode_command :: "command \<Rightarrow> (bool \<times> message_type \<times> bytes) ub" where
  "encode_command c =
     (case c of
        New_order order \<Rightarrow> do {
          (ok, p) \<leftarrow> encode_new_order order (replicate kNewOrderSize 0); Some (ok, mt_new_order, p) }
      | Cancel_order order \<Rightarrow> do {
          (ok, p) \<leftarrow> encode_cancel_order order (replicate kCancelOrderSize 0); Some (ok, mt_cancel_order, p) }
      | Replace_order order \<Rightarrow> do {
          (ok, p) \<leftarrow> encode_replace_order order (replicate kReplaceOrderSize 0); Some (ok, mt_replace_order, p) }
      | Monostate \<Rightarrow> Some (False, mt_new_order, []))"

definition decode_command :: "message_type \<Rightarrow> bytes \<Rightarrow> (event_log_error + command) ub" where
  "decode_command t payload =
     (if t = mt_new_order then do {
        r \<leftarrow> decode_new_order payload;
        Some (case r of Inl _ \<Rightarrow> Inl Invalid_command | Inr order \<Rightarrow> Inr (New_order order)) }
      else if t = mt_cancel_order then do {
        r \<leftarrow> decode_cancel_order payload;
        Some (case r of Inl _ \<Rightarrow> Inl Invalid_command | Inr order \<Rightarrow> Inr (Cancel_order order)) }
      else if t = mt_replace_order then do {
        r \<leftarrow> decode_replace_order payload;
        Some (case r of Inl _ \<Rightarrow> Inl Invalid_command | Inr order \<Rightarrow> Inr (Replace_order order)) }
      else Some (Inl Invalid_command))"

section \<open>Capture\<close>

record event_capture_metrics =
  ecm_captured_commands :: u64
  ecm_dropped_commands :: u64
  ecm_queue_occupancy :: size_t
  ecm_max_queue_occupancy :: size_t

record event_capture_feed =
  ecf_queue :: "command ring"
  ecf_captured_commands :: u64
  ecf_dropped_commands :: u64
  ecf_max_queue_occupancy :: size_t

definition make_capture_feed :: "command ring \<Rightarrow> event_capture_feed" where
  "make_capture_feed q = \<lparr>ecf_queue = q, ecf_captured_commands = 0, ecf_dropped_commands = 0, ecf_max_queue_occupancy = 0\<rparr>"

definition capture_record_occupancy :: "event_capture_feed \<Rightarrow> event_capture_feed" where
  "capture_record_occupancy f =
     (if ring_size (ecf_queue f) > ecf_max_queue_occupancy f
      then f\<lparr>ecf_max_queue_occupancy := ring_size (ecf_queue f)\<rparr> else f)"

definition capture :: "command \<Rightarrow> event_capture_feed \<Rightarrow> event_capture_feed" where
  "capture c f =
     (let (ok, q) = try_push message_capacity c (ecf_queue f); f1 = f\<lparr>ecf_queue := q\<rparr> in
      if \<not> ok
      then capture_record_occupancy (f1\<lparr>ecf_dropped_commands := ecf_dropped_commands f1 + 1\<rparr>)
      else capture_record_occupancy (f1\<lparr>ecf_captured_commands := ecf_captured_commands f1 + 1\<rparr>))"

definition capture_metrics :: "event_capture_feed \<Rightarrow> event_capture_metrics" where
  "capture_metrics f = \<lparr>ecm_captured_commands = ecf_captured_commands f,
     ecm_dropped_commands = ecf_dropped_commands f, ecm_queue_occupancy = ring_size (ecf_queue f),
     ecm_max_queue_occupancy = ecf_max_queue_occupancy f\<rparr>"

section \<open>Writing\<close>

text \<open>
  The writer's \<open>std::ofstream\<close> is buffered. \<open>lw_file\<close> is what has reached the file and \<open>lw_buffer\<close> what
  was written to the stream but not yet passed on. The standard does not say when a stream passes
  pending bytes on before it is flushed: \<open>lw_spills\<close> is the schedule of that, for every coming
  write the number of pending bytes it passes on (none after the end of the list), and results hold
  for every schedule. \<open>lw_space\<close> is the room left on the device; the write that exceeds it fails and
  sets the stream's error flag, but a write that only fills the buffer succeeds.
\<close>

record log_writer =
  lw_good :: bool
  lw_file :: bytes
  lw_buffer :: bytes
  lw_spills :: "nat list"
  lw_space :: nat

text \<open>Opening truncates the file; a device on which it fails gives a stream that is not good.\<close>

definition make_log_writer :: "bool \<Rightarrow> nat \<Rightarrow> log_writer" where
  "make_log_writer opened space =
     \<lparr>lw_good = opened, lw_file = [], lw_buffer = [], lw_spills = [], lw_space = space\<rparr>"

text \<open>The stream passes the first \<open>n\<close> pending bytes on to the file.\<close>

definition write_out :: "nat \<Rightarrow> log_writer \<Rightarrow> log_writer" where
  "write_out n w =
     (let pending = take n (lw_buffer w) in
      if length pending \<le> lw_space w
      then w\<lparr>lw_file := lw_file w @ pending, lw_buffer := drop n (lw_buffer w),
             lw_space := lw_space w - length pending\<rparr>
      else w\<lparr>lw_good := False, lw_file := lw_file w @ take (lw_space w) pending,
             lw_buffer := drop (lw_space w) (lw_buffer w), lw_space := 0\<rparr>)"

definition log_flush :: "log_writer \<Rightarrow> bool \<times> log_writer" where
  "log_flush w =
     (let w1 = (if lw_good w then write_out (length (lw_buffer w)) w else w) in (lw_good w1, w1))"

definition stream_write :: "bytes \<Rightarrow> log_writer \<Rightarrow> log_writer" where
  "stream_write bs w =
     (if \<not> lw_good w then w
      else write_out (case lw_spills w of [] \<Rightarrow> 0 | n # _ \<Rightarrow> n)
        (w\<lparr>lw_buffer := lw_buffer w @ bs, lw_spills := tl (lw_spills w)\<rparr>))"

definition append_record :: "command \<Rightarrow> log_writer \<Rightarrow> (bool \<times> log_writer) ub" where
  "append_record c w =
     (if \<not> lw_good w then Some (False, w)
      else do {
        (ok, type, payload) \<leftarrow> encode_command c;
        if \<not> ok then Some (False, w)
        else do {
          h1 \<leftarrow> write_u32_le 0 kRecordMagic (replicate kRecordHeaderSize 0);
          h2 \<leftarrow> span_put 4 kRecordVersion h1;
          h3 \<leftarrow> span_put 5 (mt_value type) h2;
          h4 \<leftarrow> write_u16_le 6 (of_nat (length payload)) h3;
          h5 \<leftarrow> write_u64_le 8 (checksum type payload) h4;
          let w2 = stream_write payload (stream_write h5 w);
          Some (lw_good w2, w2)
        }
      })"

definition drain_event_capture_one ::
    "(command \<Rightarrow> command) \<Rightarrow> command ring \<Rightarrow> log_writer \<Rightarrow> (bool \<times> command ring \<times> log_writer) ub" where
  "drain_event_capture_one moved q w =
     (case try_pop message_capacity moved q of
        (None, q') \<Rightarrow> Some (False, q', w)
      | (Some c, q') \<Rightarrow> do { (ok, w') \<leftarrow> append_record c w; Some (ok, q', w') })"

section \<open>Reading and replay\<close>

datatype read_result = Read_record command | Read_end | Read_error event_log_error

definition read_record :: "bytes \<Rightarrow> (read_result \<times> bytes) ub" where
  "read_record input =
     (let header = take kRecordHeaderSize input; input1 = drop kRecordHeaderSize input in
      if header = [] then Some (Read_end, input1)
      else if length header \<noteq> kRecordHeaderSize then Some (Read_error Truncated_header, input1)
      else do {
        magic \<leftarrow> read_u32_le header 0;
        version \<leftarrow> span_get header 4;
        type_byte \<leftarrow> span_get header 5;
        let type = MessageType type_byte;
        payload_size \<leftarrow> read_u16_le header 6;
        expected_checksum \<leftarrow> read_u64_le header 8;
        if magic \<noteq> kRecordMagic \<or> version \<noteq> kRecordVersion \<or> \<not> is_inbound type \<or>
           expected_payload_length type \<noteq> Some payload_size \<or> unat payload_size > kRecordPayloadMax
        then Some (Read_error Malformed_header, input1)
        else
          (let payload = take (unat payload_size) input1; input2 = drop (unat payload_size) input1 in
           if length payload \<noteq> unat payload_size then Some (Read_error Truncated_payload, input2)
           else if checksum type payload \<noteq> expected_checksum then Some (Read_error Checksum_mismatch, input2)
           else do {
             r \<leftarrow> decode_command type payload;
             Some (case r of Inl e \<Rightarrow> Read_error e | Inr c \<Rightarrow> Read_record c, input2)
           })
      })"

record replay_result =
  rp_error :: "event_log_error option"
  rp_replayed_commands :: size_t
  rp_state_digest :: u64

lemma read_record_consumes:
  "read_record input = Some (Read_record c, rest) \<Longrightarrow> length rest < length input"
proof -
  assume r: "read_record input = Some (Read_record c, rest)"
  then have "length (take kRecordHeaderSize input) = kRecordHeaderSize"
    by (auto simp: read_record_def Let_def split: if_splits)
  then have "kRecordHeaderSize \<le> length input" by simp
  moreover obtain n where "rest = drop n (drop kRecordHeaderSize input)"
    using r by (auto simp: read_record_def Let_def bind_ub_eq_Some split: if_splits)
  ultimately show ?thesis by (simp add: kRecordHeaderSize_def)
qed

function (sequential) replay_loop :: "bytes \<Rightarrow> order_book \<Rightarrow> size_t \<Rightarrow> replay_result ub" where
  "replay_loop input book replayed =
     (case read_record input of
        None \<Rightarrow> None
      | Some (Read_end, _) \<Rightarrow> do {
          d \<leftarrow> state_digest book;
          Some \<lparr>rp_error = None, rp_replayed_commands = replayed, rp_state_digest = d\<rparr> }
      | Some (Read_error e, _) \<Rightarrow> do {
          d \<leftarrow> state_digest book;
          Some \<lparr>rp_error = Some e, rp_replayed_commands = replayed, rp_state_digest = d\<rparr> }
      | Some (Read_record c, rest) \<Rightarrow> do {
          (accepted, book') \<leftarrow> apply_command book c;
          if \<not> accepted then do {
            d \<leftarrow> state_digest book';
            Some \<lparr>rp_error = Some Replay_command_rejected, rp_replayed_commands = replayed, rp_state_digest = d\<rparr> }
          else replay_loop rest book' (replayed + 1)
        })"
  by pat_completeness auto
termination
  by (relation "measure (\<lambda>(input, _, _). length input)") (auto simp: read_record_consumes)

definition replay_event_log :: "bytes option \<Rightarrow> replay_result ub" where
  "replay_event_log file =
     (case file of
        None \<Rightarrow> Some \<lparr>rp_error = Some Io_error, rp_replayed_commands = 0, rp_state_digest = 0\<rparr>
      | Some input \<Rightarrow> replay_loop input empty_book 0)"

declare replay_loop.simps [simp del]

section \<open>The record format\<close>

definition command_type :: "command \<Rightarrow> message_type" where
  "command_type c = (case c of New_order _ \<Rightarrow> mt_new_order | Cancel_order _ \<Rightarrow> mt_cancel_order
     | Replace_order _ \<Rightarrow> mt_replace_order | Monostate \<Rightarrow> mt_new_order)"

definition command_payload :: "command \<Rightarrow> bytes" where
  "command_payload c = (case c of New_order order \<Rightarrow> new_order_payload order
     | Cancel_order order \<Rightarrow> cancel_order_payload order
     | Replace_order order \<Rightarrow> replace_order_payload order | Monostate \<Rightarrow> [])"

definition loggable :: "command \<Rightarrow> bool" where
  "loggable c = (case c of New_order order \<Rightarrow> valid_new_order order | Cancel_order order \<Rightarrow> cancel_order_ok order
     | Replace_order order \<Rightarrow> replace_order_ok order | Monostate \<Rightarrow> False)"

definition record_header :: "message_type \<Rightarrow> bytes \<Rightarrow> bytes" where
  "record_header t payload = bytes_of 4 kRecordMagic @ [kRecordVersion, mt_value t] @
     bytes_of 2 (of_nat (length payload) :: u16) @ bytes_of 8 (checksum t payload)"

definition record_bytes :: "command \<Rightarrow> bytes" where
  "record_bytes c = record_header (command_type c) (command_payload c) @ command_payload c"

definition log_bytes :: "command list \<Rightarrow> bytes" where
  "log_bytes cs = concat (map record_bytes cs)"

lemma loggable_ok: "loggable c \<Longrightarrow> command_ok c"
  by (cases c) (simp_all add: loggable_def command_ok_def valid_new_order_def)

lemma u32_bytes [simp]: "word_of_bytes (bytes_of 4 v) = (v :: u32)"
  by (rule word_of_bytes_of) simp

lemma write_u32_overwrite [codec_simps]:
  "off + 4 \<le> length out \<Longrightarrow> write_u32_le off v out = Some (overwrite off (bytes_of 4 v) out)"
  unfolding write_u32_le_def bytes_of_def by (rule write_loop_overwrite)

lemma read_u32_segment [codec_simps]:
  "off + 4 \<le> length inp \<Longrightarrow> read_u32_le inp off = Some (word_of_bytes (segment inp off 4))"
  using read_loop_from [of 0 4 off inp 0] by (simp add: read_u32_le_def)

lemma length_record_header [simp]: "length (record_header t p) = 16"
  by (simp add: record_header_def)

lemma record_header_nonempty [simp]: "record_header t p \<noteq> []"
  by (metis length_record_header list.size(3) zero_neq_numeral)

lemma encode_command_loggable:
  "loggable c \<Longrightarrow> encode_command c = Some (True, command_type c, command_payload c)"
  using new_order_codec.encode_fits [of "replicate kNewOrderSize 0"]
    cancel_codec.encode_fits [of "replicate kCancelOrderSize 0"]
    replace_codec.encode_fits [of "replicate kReplaceOrderSize 0"]
  by (cases c) (simp_all add: encode_command_def command_type_def command_payload_def loggable_def)

lemma decode_command_loggable:
  "loggable c \<Longrightarrow> decode_command (command_type c) (command_payload c) = Some (Inr c)"
  using new_order_codec.decode_payload cancel_codec.decode_payload replace_codec.decode_payload
  by (cases c) (simp_all add: decode_command_def command_type_def command_payload_def loggable_def mt_defs)

lemma decode_command_sound:
  "\<exists>r. decode_command t p = Some r \<and> (case r of Inl e \<Rightarrow> True | Inr c \<Rightarrow> loggable c)"
proof -
  obtain n c r where d: "decode_new_order p = Some n" "decode_cancel_order p = Some c"
      "decode_replace_order p = Some r"
    using new_order_codec.decode_defined [of p] cancel_codec.decode_defined [of p]
      replace_codec.decode_defined [of p] by blast
  have ok: "n = Inr x \<Longrightarrow> valid_new_order x" "c = Inr y \<Longrightarrow> cancel_order_ok y" "r = Inr z \<Longrightarrow> replace_order_ok z"
    for x y z
    using d new_order_codec.decode_ok [of p] cancel_codec.decode_ok [of p] replace_codec.decode_ok [of p] by auto
  show ?thesis
    using ok by (cases n; cases c; cases r) (simp_all add: decode_command_def d loggable_def)
qed

lemma command_type_inbound:
  "loggable c \<Longrightarrow> is_inbound (command_type c) \<and>
     expected_payload_length (command_type c) = Some (of_nat (length (command_payload c))) \<and>
     length (command_payload c) \<le> kRecordPayloadMax"
  using new_order_codec.payload_length cancel_codec.payload_length replace_codec.payload_length
  by (cases c) (simp_all add: is_inbound_def command_type_def command_payload_def loggable_def mt_defs
      expected_payload_length_def size_defs kRecordPayloadMax_def word_le_nat_alt)

lemma append_record_loggable:
  assumes "loggable c" and "lw_good w"
  shows "append_record c w =
    (let w2 = stream_write (command_payload c) (stream_write (record_header (command_type c) (command_payload c)) w)
     in Some (lw_good w2, w2))"
proof -
  have "overwrite 8 (bytes_of 8 s) (overwrite 6 (bytes_of 2 n) (overwrite 5 [t] (overwrite 4 [v]
      (overwrite 0 (bytes_of 4 m) (replicate 16 0))))) = bytes_of 4 m @ [v, t] @ bytes_of 2 n @ bytes_of 8 s"
    for s :: u64 and n :: u16 and m :: u32 and t v :: u8
    by (simp add: codec_simps) (simp add: overwrite_def)
  then show ?thesis
    using assms by (simp add: append_record_def encode_command_loggable kRecordHeaderSize_def codec_simps
        record_header_def Let_def)
qed

text \<open>All that was written to the stream, whether it has reached the file or not.\<close>

definition written :: "log_writer \<Rightarrow> bytes" where
  "written w = lw_file w @ lw_buffer w"

lemma written_fields [simp]: "written (w\<lparr>lw_spills := spills\<rparr>) = written w" "written (make_log_writer opened space) = []"
  by (simp_all add: written_def make_log_writer_def)

lemma write_out_written [simp]: "written (write_out n w) = written w"
  by (auto simp: written_def write_out_def Let_def min_def)

lemma log_flush_written [simp]: "written (snd (log_flush w)) = written w" "fst (log_flush w) = lw_good (snd (log_flush w))"
  by (simp_all add: log_flush_def Let_def)

lemma log_flush_complete:
  assumes "lw_good (snd (log_flush w))"
  shows "lw_good w" "lw_file (snd (log_flush w)) = written w"
  using assms by (auto simp: log_flush_def write_out_def written_def Let_def split: if_splits)

lemma stream_write_written:
  "written (stream_write bs w) = (if lw_good w then written w @ bs else written w)"
  "lw_good (stream_write bs w) \<Longrightarrow> lw_good w"
  by (simp_all add: stream_write_def split: if_splits) (simp add: written_def)

text \<open>The device has room for \<open>n\<close> more bytes behind those that are pending.\<close>

definition room_for :: "nat \<Rightarrow> log_writer \<Rightarrow> bool" where
  "room_for n w \<longleftrightarrow> lw_good w \<and> length (lw_buffer w) + n \<le> lw_space w"

lemma room_for_simps [simp]:
  "room_for n (w\<lparr>lw_spills := spills\<rparr>) = room_for n w" "room_for n (make_log_writer opened space) \<longleftrightarrow> opened \<and> n \<le> space"
  by (simp_all add: room_for_def make_log_writer_def)

lemma write_out_room: "room_for n w \<Longrightarrow> room_for n (write_out k w)"
  by (auto simp: room_for_def write_out_def Let_def)

lemma stream_write_room:
  assumes "room_for (length bs + n) w"
  shows "room_for n (stream_write bs w)"
proof -
  have "lw_good w" "room_for n (w\<lparr>lw_buffer := lw_buffer w @ bs, lw_spills := tl (lw_spills w)\<rparr>)"
    using assms by (simp_all add: room_for_def)
  then show ?thesis by (simp add: stream_write_def write_out_room)
qed

lemma log_flush_room: "room_for n w \<Longrightarrow> lw_good (snd (log_flush w))"
  using write_out_room [of n w "length (lw_buffer w)"] by (simp add: log_flush_def Let_def room_for_def)

lemma append_record_room:
  assumes "loggable c" and "room_for (length (record_bytes c) + n) w"
  shows "\<exists>w'. append_record c w = Some (True, w') \<and> written w' = written w @ record_bytes c \<and> room_for n w'"
proof -
  let ?h = "record_header (command_type c) (command_payload c)"
  let ?w1 = "stream_write ?h w"
  have "room_for (length (command_payload c) + n) ?w1"
    by (rule stream_write_room) (use assms(2) in \<open>simp add: record_bytes_def add.assoc\<close>)
  then have "room_for n (stream_write (command_payload c) ?w1)" "lw_good ?w1" by (rule stream_write_room, simp add: room_for_def)
  then show ?thesis using assms
    by (simp add: append_record_loggable stream_write_written record_bytes_def room_for_def Let_def)
qed

lemma append_record_written:
  assumes "loggable c" and "append_record c w = Some (ok, w')"
  shows "lw_good w' \<Longrightarrow> lw_good w \<and> written w' = written w @ record_bytes c"
    and "prefix (written w') (written w @ record_bytes c)" and "\<not> lw_good w \<Longrightarrow> w' = w"
proof -
  let ?w1 = "stream_write (record_header (command_type c) (command_payload c)) w"
  have w': "w' = (if lw_good w then stream_write (command_payload c) ?w1 else w)"
    using assms(2) append_record_loggable [OF assms(1), of w] by (cases "lw_good w") (auto simp: append_record_def Let_def)
  show "lw_good w' \<Longrightarrow> lw_good w \<and> written w' = written w @ record_bytes c"
    using stream_write_written(2) [of _ w] stream_write_written(2) [of _ ?w1] by (simp add: w' stream_write_written record_bytes_def split: if_splits)
  show "prefix (written w') (written w @ record_bytes c)" by (auto simp: w' stream_write_written record_bytes_def)
qed (use assms(2) in \<open>simp add: append_record_def\<close>)

section \<open>Reading what was written\<close>

lemma read_record_end [simp]: "read_record [] = Some (Read_end, [])"
  by (simp add: read_record_def)

lemma header_fields:
  "segment (record_header t p) 0 4 = bytes_of 4 kRecordMagic"
  "record_header t p ! 4 = kRecordVersion" "record_header t p ! 5 = mt_value t"
  "segment (record_header t p) 6 2 = bytes_of 2 (of_nat (length p) :: u16)"
  "segment (record_header t p) 8 8 = bytes_of 8 (checksum t p)"
  by (simp_all add: record_header_def codec_simps nth_append)

lemma read_record_header:
  assumes "is_inbound t" and "expected_payload_length t = Some (of_nat (length p))"
    and "length p \<le> kRecordPayloadMax"
  shows "read_record (record_header t p @ input) =
    (if length input < length p then Some (Read_error Truncated_payload, [])
     else let q = take (length p) input in
       if checksum t q \<noteq> checksum t p then Some (Read_error Checksum_mismatch, drop (length p) input)
       else do { r \<leftarrow> decode_command t q;
                 Some (case r of Inl e \<Rightarrow> Read_error e | Inr c \<Rightarrow> Read_record c, drop (length p) input) })"
proof -
  have len: "unat (of_nat (length p) :: u16) = length p"
    using assms(3) by (simp add: kRecordPayloadMax_def size_defs)
  show ?thesis
    using assms by (simp add: read_record_def kRecordHeaderSize_def codec_simps header_fields Let_def len)
qed

lemma read_record_bytes:
  assumes "loggable c"
  shows "read_record (record_bytes c @ rest) = Some (Read_record c, rest)"
  using read_record_header [of "command_type c" "command_payload c" "command_payload c @ rest"]
    command_type_inbound [OF assms] decode_command_loggable [OF assms]
  by (simp add: record_bytes_def)

lemma read_record_sound:
  "\<exists>r rest. read_record input = Some (r, rest) \<and> (case r of Read_record c \<Rightarrow> loggable c | _ \<Rightarrow> True)"
proof (cases "kRecordHeaderSize \<le> length input")
  case True
  then have len: "length (take kRecordHeaderSize input) = 16" "take kRecordHeaderSize input \<noteq> []"
    by (auto simp: kRecordHeaderSize_def)
  let ?h = "take 16 input" and ?rest = "drop 16 input"
  let ?t = "MessageType (input ! 5)" and ?n = "unat (word_of_bytes (segment ?h 6 2) :: u16)"
  obtain r where r: "decode_command ?t (take ?n ?rest) = Some r" "case r of Inl e \<Rightarrow> True | Inr c \<Rightarrow> loggable c"
    using decode_command_sound by blast
  have "read_record input = Some (Read_error Malformed_header, ?rest) \<or>
      read_record input = Some (Read_error Truncated_payload, drop ?n ?rest) \<or>
      read_record input = Some (Read_error Checksum_mismatch, drop ?n ?rest) \<or>
      read_record input = Some (case r of Inl e \<Rightarrow> Read_error e | Inr c \<Rightarrow> Read_record c, drop ?n ?rest)"
    using len by (simp add: read_record_def Let_def kRecordHeaderSize_def codec_simps r(1))
  with r(2) show ?thesis by (cases r) auto
next
  case False
  then show ?thesis by (auto simp: read_record_def Let_def)
qed

section \<open>Replay\<close>

lemma replay_loop_end: "book_inv b \<Longrightarrow> replay_loop [] b n =
   Some \<lparr>rp_error = None, rp_replayed_commands = n, rp_state_digest = spec_digest (abs_of b)\<rparr>"
  by (simp add: replay_loop.simps state_digest_book)

lemma replay_loop_error:
  "book_inv b \<Longrightarrow> read_record input = Some (Read_error e, rest) \<Longrightarrow> replay_loop input b n =
   Some \<lparr>rp_error = Some e, rp_replayed_commands = n, rp_state_digest = spec_digest (abs_of b)\<rparr>"
  by (simp add: replay_loop.simps state_digest_book)

text \<open>Replaying a log runs its commands on the book and continues with what follows the log.\<close>

lemma replay_loop_log:
  assumes "list_all loggable cs" and "run book_op cs b = Some (rs, b')" and "list_all (\<lambda>a. a) rs"
  shows "replay_loop (log_bytes cs @ rest) b n = replay_loop rest b' (n + of_nat (length cs))"
  using assms
proof (induction cs arbitrary: b rs n)
  case (Cons c cs)
  then obtain b1 qs where step: "book_op c b = Some (True, b1)" "run book_op cs b1 = Some (qs, b')" "list_all (\<lambda>a. a) qs"
    by (auto simp: bind_ub_eq_Some)
  have "read_record (record_bytes c @ log_bytes cs @ rest) = Some (Read_record c, log_bytes cs @ rest)"
    using Cons.prems(1) by (intro read_record_bytes) simp
  then have "replay_loop (log_bytes (c # cs) @ rest) b n = replay_loop (log_bytes cs @ rest) b1 (n + 1)"
    using step(1) by (subst replay_loop.simps) (simp add: log_bytes_def)
  also have "\<dots> = replay_loop rest b' (n + 1 + of_nat (length cs))"
    using Cons.IH [OF _ step(2,3)] Cons.prems(1) by simp
  finally show ?case by (simp add: ac_simps)
qed (simp add: log_bytes_def)

lemma replay_loop_total:
  assumes "book_reachable b"
  shows "\<exists>res b'. replay_loop input b n = Some res \<and> book_reachable b' \<and>
    rp_state_digest res = spec_digest (abs_of b')"
  using assms
proof (induction "length input" arbitrary: input b n rule: less_induct)
  case less
  note dig = state_digest_book [OF reachable_inv [OF less.prems]]
  obtain r rest where r: "read_record input = Some (r, rest)" "case r of Read_record c \<Rightarrow> loggable c | _ \<Rightarrow> True"
    using read_record_sound by blast
  show ?case
  proof (cases r)
    case (Read_record c)
    then have c: "command_ok c" using r(2) loggable_ok by simp
    then obtain ok b1 where step: "book_op c b = Some (ok, b1)"
      using book.step_defined [OF _ reachable_inv [OF less.prems]] by fastforce
    with c less.prems have b1: "book_reachable b1" by (meson book_reachable.step book_step.exec)
    have "length rest < length input" using read_record_consumes r(1) Read_record by blast
    from less.hyps [OF this b1] show ?thesis
      using r(1) Read_record step b1 state_digest_book [OF reachable_inv [OF b1]]
      by (subst replay_loop.simps) auto
  qed (use r dig less.prems in \<open>auto simp: replay_loop.simps\<close>)
qed

text \<open>A strict, non-empty prefix of a record is reported as truncated.\<close>

lemma read_record_prefix:
  assumes "loggable c" and "0 < k" and "k < length (record_bytes c)"
  shows "\<exists>rest. read_record (take k (record_bytes c)) =
    Some (Read_error (if k < kRecordHeaderSize then Truncated_header else Truncated_payload), rest)"
proof (cases "k < kRecordHeaderSize")
  case True
  then have "take kRecordHeaderSize (take k (record_bytes c)) = take k (record_bytes c)"
    "take k (record_bytes c) \<noteq> []" "length (take k (record_bytes c)) \<noteq> kRecordHeaderSize"
    using assms by auto
  then show ?thesis using True by (simp add: read_record_def Let_def)
next
  case False
  let ?p = "command_payload c" and ?t = "command_type c"
  have "take k (record_bytes c) = record_header ?t ?p @ take (k - 16) ?p"
    using False by (simp add: record_bytes_def kRecordHeaderSize_def)
  moreover have "k - 16 < length ?p"
    using assms(3) False by (simp add: record_bytes_def kRecordHeaderSize_def)
  ultimately show ?thesis
    using read_record_header [of ?t ?p "take (k - 16) ?p"] command_type_inbound [OF assms(1)] False by simp
qed

text \<open>A log of accepted commands, followed by nothing or by something that is not a record.\<close>

lemma replayed_book_inv:
  assumes "list_all loggable cs" and "run book_op cs empty_book = Some (rs, b)"
  shows "book_inv b"
proof -
  have "list_all command_ok cs" using assms(1) by (rule list.pred_mono_strong) (rule loggable_ok)
  then show ?thesis using book.run_inv [OF _ book_inv_empty assms(2)] by blast
qed

lemma replay_log_end:
  assumes "list_all loggable cs" and "run book_op cs empty_book = Some (rs, b)" and "list_all (\<lambda>a. a) rs"
  shows "replay_event_log (Some (log_bytes cs)) =
    Some \<lparr>rp_error = None, rp_replayed_commands = of_nat (length cs), rp_state_digest = spec_digest (abs_of b)\<rparr>"
  using replay_loop_log [OF assms, of "[]" 0] replay_loop_end [OF replayed_book_inv [OF assms(1,2)]]
  by (simp add: replay_event_log_def)

lemma replay_log_error:
  assumes "list_all loggable cs" and "run book_op cs empty_book = Some (rs, b)" and "list_all (\<lambda>a. a) rs"
    and "read_record input = Some (Read_error e, rest)"
  shows "replay_event_log (Some (log_bytes cs @ input)) =
    Some \<lparr>rp_error = Some e, rp_replayed_commands = of_nat (length cs), rp_state_digest = spec_digest (abs_of b)\<rparr>"
  using replay_loop_log [OF assms(1-3), of input 0] replay_loop_error [OF replayed_book_inv [OF assms(1,2)] assms(4)]
  by (simp add: replay_event_log_def)

text \<open>A file that holds a prefix of a log, as an unflushed stream leaves it: some records and a part of the next.\<close>

lemma log_prefix_cut:
  "prefix stored (log_bytes cs) \<Longrightarrow>
   \<exists>n part. n \<le> length cs \<and> stored = log_bytes (take n cs) @ part \<and>
     (if n < length cs then strict_prefix part (record_bytes (cs ! n)) else part = [])"
proof (induction cs arbitrary: stored)
  case (Cons c cs)
  show ?case
  proof (cases "strict_prefix stored (record_bytes c)")
    case True
    then show ?thesis by (intro exI [of _ 0] exI [of _ stored]) (simp add: log_bytes_def)
  next
    case False
    then obtain rest where rest: "stored = record_bytes c @ rest" "prefix rest (log_bytes cs)"
      using Cons.prems by (auto simp: log_bytes_def prefix_append strict_prefix_def)
    then obtain n part where "n \<le> length cs" "rest = log_bytes (take n cs) @ part"
        "if n < length cs then strict_prefix part (record_bytes (cs ! n)) else part = []"
      using Cons.IH by blast
    then show ?thesis using rest(1) by (intro exI [of _ "Suc n"] exI [of _ part]) (simp add: log_bytes_def)
  qed
qed (simp add: log_bytes_def)

lemma replay_prefix:
  assumes "list_all loggable cs" and "run book_op cs empty_book = Some (rs, b)" and "list_all (\<lambda>a. a) rs"
    and "prefix stored (log_bytes cs)"
  shows "\<exists>n b' error. n \<le> length cs \<and> length (log_bytes (take n cs)) \<le> length stored \<and>
    run book_op (take n cs) empty_book = Some (replicate n True, b') \<and>
    error \<in> {None, Some Truncated_header, Some Truncated_payload} \<and> (stored = log_bytes cs \<longrightarrow> error = None \<and> n = length cs) \<and>
    replay_event_log (Some stored) =
      Some \<lparr>rp_error = error, rp_replayed_commands = of_nat n, rp_state_digest = spec_digest (abs_of b')\<rparr>"
proof -
  obtain n part where n: "n \<le> length cs" "stored = log_bytes (take n cs) @ part"
      "if n < length cs then strict_prefix part (record_bytes (cs ! n)) else part = []"
    using log_prefix_cut [OF assms(4)] by blast
  obtain rs1 b1 rs2 where run: "run book_op (take n cs) empty_book = Some (rs1, b1)" "rs = rs1 @ rs2"
    using assms(2) by (subst (asm) append_take_drop_id [of n cs, symmetric]) (auto simp: run_append bind_ub_eq_Some simp del: append_take_drop_id)
  have logs: "list_all loggable (take n cs)" "list_all (\<lambda>a. a) rs1"
    using assms(1,3) run(2) by (auto simp: list_all_iff dest: in_set_takeD)
  have rs1: "rs1 = replicate n True"
    using run_length [OF run(1)] n(1) logs(2) by (intro replicate_eqI) (auto simp: list_all_iff)
  have len: "length (log_bytes (take n cs)) \<le> length stored" using n(2) by simp
  have cut: "stored \<noteq> log_bytes cs" if lt: "n < length cs"
  proof -
    have "length (log_bytes cs) = length (log_bytes (take n cs)) + length (record_bytes (cs ! n)) + length (log_bytes (drop (Suc n) cs))"
      using arg_cong [OF id_take_nth_drop [OF lt], of "\<lambda>ds. length (log_bytes ds)"] by (simp add: log_bytes_def)
    moreover have "length part < length (record_bytes (cs ! n))" using n(3) lt by (simp add: prefix_length_less)
    ultimately have "length stored < length (log_bytes cs)" using n(2) by simp
    then show ?thesis by auto
  qed
  show ?thesis
  proof (cases "part = []")
    case True
    have "n = length cs" if "stored = log_bytes cs" using cut that n(1) by linarith
    moreover have "replay_event_log (Some stored) =
        Some \<lparr>rp_error = None, rp_replayed_commands = of_nat n, rp_state_digest = spec_digest (abs_of b1)\<rparr>"
      using replay_log_end [OF logs(1) run(1) logs(2)] n(1,2) True by simp
    ultimately show ?thesis using n(1) len run(1) rs1 by (intro exI [of _ n] exI [of _ b1] exI [of _ None] conjI) simp_all
  next
    case False
    then have lt: "n < length cs" "strict_prefix part (record_bytes (cs ! n))" using n(3) by (auto split: if_splits)
    then have part: "part = take (length part) (record_bytes (cs ! n))" "length part < length (record_bytes (cs ! n))"
      by (auto simp: strict_prefix_def prefix_def)
    have "loggable (cs ! n)" using assms(1) lt(1) by (simp add: list_all_iff)
    then obtain rest where "read_record part =
        Some (Read_error (if length part < kRecordHeaderSize then Truncated_header else Truncated_payload), rest)"
      using read_record_prefix [of "cs ! n" "length part"] part False by auto
    from replay_log_error [OF logs(1) run(1) logs(2) this] have replay: "replay_event_log (Some stored) =
        Some \<lparr>rp_error = Some (if length part < kRecordHeaderSize then Truncated_header else Truncated_payload),
              rp_replayed_commands = of_nat n, rp_state_digest = spec_digest (abs_of b1)\<rparr>"
      using n(1,2) by simp
    then show ?thesis using replay n(1) len run(1) rs1 cut [OF lt(1)] by (intro exI [of _ n] exI [of _ b1] exI conjI) auto
  qed
qed

section \<open>Checksums\<close>

lemma mix_inj_hash: "mix b h = mix b h' \<Longrightarrow> h = h'"
proof -
  assume eq: "mix b h = mix b h'"
  have unit: "kFnvPrime * 14886173955864302971 = (1 :: u64)" by (simp add: kFnvPrime_def)
  have "(h XOR ucast b) * kFnvPrime * 14886173955864302971 = (h' XOR ucast b) * kFnvPrime * 14886173955864302971"
    using eq by (simp add: mix_def)
  then have "h XOR ucast b = h' XOR ucast b" by (simp add: mult.assoc unit)
  then have "(h XOR ucast b) XOR ucast b = (h' XOR ucast b) XOR ucast b" by simp
  then show ?thesis by (simp add: xor.assoc)
qed

lemma mix_inj_byte: "mix b h = mix b' h \<Longrightarrow> b = b'"
proof -
  assume eq: "mix b h = mix b' h"
  have "mix b h = mix 0 (h XOR ucast b)" "mix b' h = mix 0 (h XOR ucast b')" by (simp_all add: mix_def)
  then have "h XOR ucast b = h XOR ucast b'" using eq mix_inj_hash by metis
  then have "h XOR (h XOR ucast b) = h XOR (h XOR (ucast b' :: u64))" by simp
  then have "(ucast b :: u64) = ucast b'" by (simp flip: xor.assoc)
  then show ?thesis by (auto simp: bit_eq_iff bit_simps)
qed

lemma fold_mix_inj: "fold mix bs h = fold mix bs h' \<Longrightarrow> h = h'"
  by (induction bs arbitrary: h h') (auto dest: mix_inj_hash)

lemma checksum_detects:
  assumes "b \<noteq> b'"
  shows "checksum t (xs @ b # ys) \<noteq> checksum t (xs @ b' # ys)"
  using assms by (auto simp: checksum_def dest!: fold_mix_inj mix_inj_byte)

section \<open>Properties of the log\<close>

definition example_log :: "command list" where
  "example_log = [New_order example_new_order, Replace_order example_replace_order, Cancel_order example_cancel_order]"

lemma example_log_loggable: "list_all loggable example_log"
  by code_simp

definition example_run :: "(bool list \<times> order_book) ub" where
  "example_run = run book_op example_log empty_book"

lemma example_run_accepted: "\<exists>b. run book_op example_log empty_book = Some ([True, True, True], b)"
proof -
  have "map_option fst example_run = Some [True, True, True]" by code_simp
  then show ?thesis by (auto simp: example_run_def)
qed

text \<open>
  Replay reproduces the live book: for any sequence of accepted commands, replaying the
  file that appending them wrote replays all of them without error and ends with the state digest of
  the live book.
\<close>

theorem replay_reproduces_book:
  assumes "list_all loggable cs" and "run book_op cs empty_book = Some (rs, b)" and "list_all (\<lambda>a. a) rs"
  shows "replay_event_log (Some (log_bytes cs)) =
    map_option (\<lambda>d. \<lparr>rp_error = None, rp_replayed_commands = of_nat (length cs), rp_state_digest = d\<rparr>)
      (state_digest b) \<and> state_digest b \<noteq> None"
  using replay_log_end [OF assms] state_digest_book [OF replayed_book_inv [OF assms(1,2)]] by simp

theorem replay_reproduces_book_witness:
  "map_option rp_replayed_commands (replay_event_log (Some (log_bytes example_log))) = Some 3"
proof -
  obtain b where b: "run book_op example_log empty_book = Some ([True, True, True], b)"
    using example_run_accepted by blast
  have "length example_log = 3" by (simp add: example_log_def)
  with replay_reproduces_book [OF example_log_loggable b] show ?thesis by auto
qed

text \<open>
  Appending is what the replay reads: a writer whose device has room for what is pending and one more
  record reports success, stays good and, when it is flushed, has stored exactly the record's bytes
  behind all that was written before; reading those bytes gives the command back and leaves what
  follows.
\<close>

theorem append_read_round_trip:
  assumes "loggable c" and "lw_good w" and "length (lw_buffer w) + length (record_bytes c) \<le> lw_space w"
  shows "\<exists>w' bs. append_record c w = Some (True, w') \<and> lw_good w' \<and> fst (log_flush w') \<and>
    lw_file (snd (log_flush w')) = lw_file w @ lw_buffer w @ bs \<and>
    read_record (bs @ rest) = Some (Read_record c, rest)"
proof -
  obtain w' where w': "append_record c w = Some (True, w')" "written w' = written w @ record_bytes c" "room_for 0 w'"
    using append_record_room [OF assms(1), of 0 w] assms(2,3) by (auto simp: room_for_def)
  then show ?thesis using log_flush_complete(2) [OF log_flush_room [OF w'(3)]] log_flush_room [OF w'(3)] read_record_bytes [OF assms(1)]
    by (auto simp: room_for_def written_def)
qed

theorem append_read_round_trip_witness:
  "\<exists>w' bs. append_record (Cancel_order example_cancel_order)
      \<lparr>lw_good = True, lw_file = [1], lw_buffer = [2], lw_spills = [5], lw_space = 100\<rparr> = Some (True, w') \<and>
    lw_file (snd (log_flush w')) = [1, 2] @ bs \<and> read_record (bs @ [7]) = Some (Read_record (Cancel_order example_cancel_order), [7])"
proof -
  have "loggable (Cancel_order example_cancel_order)" by code_simp
  moreover have "length (record_bytes (Cancel_order example_cancel_order)) \<le> 99" by code_simp
  ultimately show ?thesis
    using append_read_round_trip [of "Cancel_order example_cancel_order"
        "\<lparr>lw_good = True, lw_file = [1], lw_buffer = [2], lw_spills = [5], lw_space = 100\<rparr>" "[7]"]
    by auto
qed

text \<open>
  Claim C35. Replay is total and safe: whatever the file holds, replaying it ends, reads no byte
  outside its buffers, never drives the book into undefined behaviour, and reports the digest of a
  book that commands can reach.
\<close>

theorem replay_total:
  "\<exists>res b. replay_event_log (Some file) = Some res \<and> book_reachable b \<and>
     rp_state_digest res = spec_digest (abs_of b)"
  using replay_loop_total [OF book_reachable.empty] by (simp add: replay_event_log_def)

text \<open>
  Claim C36. A log cut inside its last record is recovered up to the cut: every complete record is
  replayed, the cut is reported as a truncated header or payload, and the digest is that of the book
  after the complete records.
\<close>

theorem replay_truncated_log:
  assumes "list_all loggable cs" and "run book_op cs empty_book = Some (rs, b)" and "list_all (\<lambda>a. a) rs"
    and "loggable c" and "0 < k" and "k < length (record_bytes c)"
  shows "replay_event_log (Some (log_bytes cs @ take k (record_bytes c))) =
    Some \<lparr>rp_error = Some (if k < kRecordHeaderSize then Truncated_header else Truncated_payload),
          rp_replayed_commands = of_nat (length cs), rp_state_digest = spec_digest (abs_of b)\<rparr>"
proof -
  obtain rest where "read_record (take k (record_bytes c)) =
      Some (Read_error (if k < kRecordHeaderSize then Truncated_header else Truncated_payload), rest)"
    using read_record_prefix [OF assms(4-6)] by blast
  then show ?thesis by (rule replay_log_error [OF assms(1-3)])
qed

theorem replay_truncated_log_witness:
  "map_option rp_error (replay_event_log (Some (log_bytes example_log @
      take 20 (record_bytes (Cancel_order example_cancel_order))))) = Some (Some Truncated_payload)"
proof -
  obtain b where b: "run book_op example_log empty_book = Some ([True, True, True], b)"
    using example_run_accepted by blast
  have c: "loggable (Cancel_order example_cancel_order)" by code_simp
  have l: "20 < length (record_bytes (Cancel_order example_cancel_order))" by code_simp
  show ?thesis
    using replay_truncated_log [OF example_log_loggable b _ c _ l] by (simp add: kRecordHeaderSize_def)
qed

text \<open>
  Claim C37. A damaged payload byte is always caught: if one byte of a record's payload differs
  from what was written, the replay of a log ending there stops at that record with a checksum
  mismatch, and the digest is that of the book before the record.
\<close>

theorem replay_detects_corruption:
  assumes "list_all loggable cs" and "run book_op cs empty_book = Some (rs, b)" and "list_all (\<lambda>a. a) rs"
    and "loggable c" and "command_payload c = xs @ y # ys" and "y \<noteq> z"
  shows "replay_event_log (Some (log_bytes cs @ record_header (command_type c) (command_payload c) @ xs @ z # ys @ rest)) =
    Some \<lparr>rp_error = Some Checksum_mismatch, rp_replayed_commands = of_nat (length cs),
          rp_state_digest = spec_digest (abs_of b)\<rparr>"
proof -
  let ?t = "command_type c" and ?p = "command_payload c"
  have "take (length ?p) (xs @ z # ys @ rest) = xs @ z # ys" using assms(5) by simp
  then have "read_record (record_header ?t ?p @ xs @ z # ys @ rest) = Some (Read_error Checksum_mismatch, rest)"
    using read_record_header [of ?t ?p "xs @ z # ys @ rest"] command_type_inbound [OF assms(4)]
      checksum_detects [OF assms(6), THEN not_sym, of ?t xs ys] assms(5) by (simp add: Let_def)
  then show ?thesis by (rule replay_log_error [OF assms(1-3)])
qed

theorem replay_detects_corruption_witness:
  "\<exists>xs y ys. command_payload (Cancel_order example_cancel_order) = xs @ y # ys \<and>
    map_option rp_error (replay_event_log (Some (log_bytes example_log @
      record_header mt_cancel_order (command_payload (Cancel_order example_cancel_order)) @ xs @ (y + 1) # ys @ []))) =
    Some (Some Checksum_mismatch)"
proof -
  obtain b where b: "run book_op example_log empty_book = Some ([True, True, True], b)"
    using example_run_accepted by blast
  let ?c = "Cancel_order example_cancel_order"
  have c: "loggable ?c" by code_simp
  obtain y ys where p: "command_payload ?c = [] @ y # ys"
    using cancel_codec.payload_length [of example_cancel_order]
    by (cases "command_payload ?c") (auto simp: command_payload_def size_defs)
  have ne: "y \<noteq> y + 1" by simp
  have t: "command_type ?c = mt_cancel_order" by (simp add: command_type_def)
  show ?thesis
    using replay_detects_corruption [OF example_log_loggable b _ c p ne, of "[]"] p unfolding t
    by (intro exI [of _ "[]"] exI [of _ y] exI [of _ ys]) simp
qed

end
