(* ===== verification/Order_Book_Properties.thy ===== *)
theory Order_Book_Properties
  imports Order_Book_Reachable
begin

text \<open>
  The promises of the matching core on every reachable book: refinement of the price-time
  specification, conservation of quantity, priority, the fate of replaced and cancelled orders,
  rejections, the queries, and the one way in which the aggregates fail. Each property stands over
  the definitions of \<open>Order_Book\<close>; the proofs go through the refinement and the laws of the
  specification.
\<close>

section \<open>Accepted submissions, seen through the specification\<close>

lemma spec_take_match:
  "spec_take inc side type limit rem a = (xs, rem', a') \<Longrightarrow>
   spec_match (spec_crosses side type limit) inc rem (ab_side (opposite side) a) =
     (xs, rem', ab_side (opposite side) a') \<and>
   ab_side side a' = ab_side side a \<and> ab_seen a' = ab_seen a"
  by (cases side) (auto simp: spec_take_def ab_side_def split: prod.splits)

lemma ab_side_seen [simp]: "ab_side s (a\<lparr>ab_seen := S\<rparr>) = ab_side s a"
  by (cases s) (simp_all add: ab_side_def)

lemma spec_rest_seen [simp]: "ab_seen (spec_rest side e a) = ab_seen a"
  by (cases side) (simp_all add: spec_rest_def)

lemma spec_submit_accepted:
  assumes "spec_submit order a = (res, a')" and "submit_accepted res"
  shows "validate order = None" and "no_order_id order \<notin> ab_seen a"
    and "ab_seen a' = insert (no_order_id order) (ab_seen a)"
    and "\<exists>rem. spec_match (spec_crosses (no_side order) (no_type order) (no_limit_price order))
            (no_order_id order) (units (no_quantity order)) (ab_side (opposite (no_side order)) a) =
              (sr_executions res, rem, ab_side (opposite (no_side order)) a') \<and>
         (if no_type order = Limit \<and> rem \<noteq> 0
          then sr_remaining_quantity res = Some (Quantity rem) \<and>
               ab_side (no_side order) a' = spec_insert (better (no_side order))
                 (the (no_limit_price order),
                  \<lparr>ro_order_id = no_order_id order, ro_sequence = no_sequence order,
                   ro_remaining_quantity = Quantity rem\<rparr>) (ab_side (no_side order) a)
          else sr_remaining_quantity res = None \<and> ab_side (no_side order) a' = ab_side (no_side order) a)"
proof -
  show v: "validate order = None" and n: "no_order_id order \<notin> ab_seen a"
    using assms by (auto simp: spec_submit_def submit_accepted_def split: if_splits)
  define a0 where "a0 = a\<lparr>ab_seen := insert (no_order_id order) (ab_seen a)\<rparr>"
  obtain xs rem a1 where take: "spec_take (no_order_id order) (no_side order) (no_type order)
      (no_limit_price order) (units (no_quantity order)) a0 = (xs, rem, a1)"
    by (cases "spec_take (no_order_id order) (no_side order) (no_type order)
      (no_limit_price order) (units (no_quantity order)) a0")
  have sub: "spec_submit order a = (if no_type order = Limit \<and> rem \<noteq> 0 then
        (\<lparr>sr_executions = xs, sr_rejection = None, sr_remaining_quantity = Some (Quantity rem)\<rparr>,
         spec_rest (no_side order) (the (no_limit_price order),
            \<lparr>ro_order_id = no_order_id order, ro_sequence = no_sequence order,
             ro_remaining_quantity = Quantity rem\<rparr>) a1)
      else (\<lparr>sr_executions = xs, sr_rejection = None, sr_remaining_quantity = None\<rparr>, a1))"
    using v n take by (simp add: spec_submit_def a0_def)
  note m = spec_take_match [OF take, THEN conjunct1]
    and frame = spec_take_match [OF take, THEN conjunct2, THEN conjunct1]
    and seen = spec_take_match [OF take, THEN conjunct2, THEN conjunct2]
  have eq: "sr_executions res = xs" "(res, a') = spec_submit order a" using assms(1) sub
    by (auto split: if_splits)
  show "ab_seen a' = insert (no_order_id order) (ab_seen a)"
    using eq(2) seen unfolding sub by (simp add: a0_def split: if_splits)
  show "\<exists>rem. spec_match (spec_crosses (no_side order) (no_type order) (no_limit_price order))
            (no_order_id order) (units (no_quantity order)) (ab_side (opposite (no_side order)) a) =
              (sr_executions res, rem, ab_side (opposite (no_side order)) a') \<and>
         (if no_type order = Limit \<and> rem \<noteq> 0
          then sr_remaining_quantity res = Some (Quantity rem) \<and>
               ab_side (no_side order) a' = spec_insert (better (no_side order))
                 (the (no_limit_price order),
                  \<lparr>ro_order_id = no_order_id order, ro_sequence = no_sequence order,
                   ro_remaining_quantity = Quantity rem\<rparr>) (ab_side (no_side order) a)
          else sr_remaining_quantity res = None \<and> ab_side (no_side order) a' = ab_side (no_side order) a)"
    using eq m frame unfolding sub by (intro exI [of _ rem]) (simp add: a0_def split: if_splits)
qed

lemma reachable_submit:
  assumes "book_reachable b" and "new_order_ok order" and "submit order b = Some (res, b')"
  shows "book_reachable b'" and "spec_submit order (abs_of b) = (res, abs_of b')"
proof -
  have "book_step b (New_order order) (submit_accepted res) b'"
    using assms(2,3) by (simp add: book_step_iff command_ok_def apply_command_def)
  with assms(1) show "book_reachable b'" by (rule book_reachable.step)
  show "spec_submit order (abs_of b) = (res, abs_of b')"
    using submit_refines [OF reachable_inv [OF assms(1)], of order] assms(2,3)
    by (auto simp: new_order_ok_def)
qed

lemma reachable_cancel:
  assumes "book_reachable b" and "cancel_order_ok c" and "cancel c b = Some (res, b')"
  shows "book_reachable b'" and "spec_cancel c (abs_of b) = (res, abs_of b')"
proof -
  have "book_step b (Cancel_order c) (cancel_accepted res) b'"
    using assms(2,3) by (simp add: book_step_iff command_ok_def apply_command_def)
  with assms(1) show "book_reachable b'" by (rule book_reachable.step)
  show "spec_cancel c (abs_of b) = (res, abs_of b')"
    using cancel_refines [OF reachable_inv [OF assms(1)], of c] assms(3) by auto
qed

lemma reachable_replace:
  assumes "book_reachable b" and "replace_order_ok c" and "replace c b = Some (res, b')"
  shows "book_reachable b'" and "spec_replace c (abs_of b) = (res, abs_of b')"
proof -
  have "book_step b (Replace_order c) (replace_accepted res) b'"
    using assms(2,3) by (simp add: book_step_iff command_ok_def apply_command_def)
  with assms(1) show "book_reachable b'" by (rule book_reachable.step)
  show "spec_replace c (abs_of b) = (res, abs_of b')"
    using replace_refines [OF reachable_inv [OF assms(1)], of c] assms(2,3)
    by (auto simp: replace_order_ok_def)
qed

lemmas reachable_submit_laws =
  spec_submit_accepted [OF reachable_submit(2), unfolded ab_side_abs_of ab_seen_abs_of]

lemma contains_iff:
  "book_core b \<Longrightarrow> contains oid b \<longleftrightarrow> oid \<in> entry_id ` set (entries s b @ entries (opposite s) b)"
  using core_keys [of b s] map_of_eq_None_iff [of "ob_resting_orders b" oid]
  by (simp add: contains_def um_contains_def um_find_def)

lemma resting_units_insert [simp]:
  "resting_units (spec_insert lt e es) = resting_units es + unat (entry_units e)"
proof -
  let ?P = "\<lambda>e'. \<not> lt (fst e) (fst e')"
  have "resting_units es = resting_units (takeWhile ?P es) + resting_units (dropWhile ?P es)"
    using resting_units_simps(3) [of "takeWhile ?P es" "dropWhile ?P es"] by simp
  then show ?thesis by (simp add: spec_insert_def)
qed

text \<open>All orders hit before the last one are filled.\<close>

lemma spec_match_filled:
  "spec_match c inc rem es = (xs, rem', es') \<Longrightarrow>
   map ex_quantity (butlast xs) = map (ro_remaining_quantity \<circ> snd) (take (length xs - 1) es)"
proof (induction c inc rem es arbitrary: xs rem' es' rule: spec_match.induct)
  case (2 c inc rem e es)
  show ?case
  proof (cases "rem \<noteq> 0 \<and> c (fst e) \<and> entry_units e \<le> rem")
    case True
    then obtain ys where "spec_match c inc (rem - entry_units e) es = (ys, rem', es')"
        "xs = fill inc e (entry_units e) # ys"
      using "2.prems" by (auto split: prod.splits)
    with True "2.IH" [of ys rem' es'] show ?thesis
      by (cases ys) (auto simp: fill_def)
  next
    case False
    with "2.prems" have "xs = [] \<or> (\<exists>x. xs = [x])" by (auto split: if_splits)
    then show ?thesis by auto
  qed
qed simp

lemma core_entries_ok:
  assumes "book_core b" and "e \<in> set (entries s b)"
  shows "resting_ok (snd e)"
proof -
  obtain px l n where "(px, l) \<in> set (levels_of s b)" "n \<in> set (pl_orders l)" "e = (px, the (ob_nodes b n))"
    using assms(2) by (force simp: entries_def side_entries_def level_entries_def)
  then show ?thesis using core_level_node [OF assms(1)] by (metis option.sel snd_conv)
qed

text \<open>No command forgets an identifier.\<close>

lemma spec_take_seen: "spec_take inc side type limit rem a = (xs, rem', a') \<Longrightarrow> ab_seen a' = ab_seen a"
  using spec_take_match by blast

lemma spec_apply_seen: "spec_apply c a = (accepted, a') \<Longrightarrow> ab_seen a \<subseteq> ab_seen a'"
  by (cases c)
    (auto simp: spec_apply_def spec_submit_def spec_cancel_def spec_replace_def Let_def
      dest: spec_take_seen split: prod.splits if_splits option.splits)

section \<open>A small book for the examples\<close>

definition limit_order :: "u64 \<Rightarrow> side \<Rightarrow> u64 \<Rightarrow> i64 \<Rightarrow> new_order" where
  "limit_order i s q p = \<lparr>no_sequence = SequenceNumber i, no_order_id = OrderId i, no_side = s,
     no_type = Limit, no_quantity = Quantity q, no_limit_price = Some (Price p)\<rparr>"

definition market_order :: "u64 \<Rightarrow> side \<Rightarrow> u64 \<Rightarrow> new_order" where
  "market_order i s q = \<lparr>no_sequence = SequenceNumber i, no_order_id = OrderId i, no_side = s,
     no_type = Market, no_quantity = Quantity q, no_limit_price = None\<rparr>"

definition example_commands :: "command list" where
  "example_commands =
     [New_order (limit_order 1 Sell 5 101), New_order (limit_order 2 Sell 7 101),
      New_order (limit_order 3 Sell 4 102), New_order (limit_order 4 Buy 10 99)]"

definition example_book :: order_book where
  "example_book = snd (the (run book_op example_commands empty_book))"

lemma example_book_reachable: "book_reachable example_book"
  unfolding example_book_def by (rule reachable_from_empty) code_simp

lemma example_submit:
  "submit (limit_order 5 Buy 8 101) example_book =
   Some (\<lparr>sr_executions = [\<lparr>ex_resting_order_id = OrderId 1, ex_incoming_order_id = OrderId 5,
            ex_price = Price 101, ex_quantity = Quantity 5\<rparr>,
          \<lparr>ex_resting_order_id = OrderId 2, ex_incoming_order_id = OrderId 5,
            ex_price = Price 101, ex_quantity = Quantity 3\<rparr>],
          sr_rejection = None, sr_remaining_quantity = None\<rparr>,
     snd (the (submit (limit_order 5 Buy 8 101) example_book)))"
proof -
  have "map_option fst (submit (limit_order 5 Buy 8 101) example_book) =
   Some (\<lparr>sr_executions = [\<lparr>ex_resting_order_id = OrderId 1, ex_incoming_order_id = OrderId 5,
            ex_price = Price 101, ex_quantity = Quantity 5\<rparr>,
          \<lparr>ex_resting_order_id = OrderId 2, ex_incoming_order_id = OrderId 5,
            ex_price = Price 101, ex_quantity = Quantity 3\<rparr>],
          sr_rejection = None, sr_remaining_quantity = None\<rparr>)"
    by code_simp
  then show ?thesis by (auto simp: map_option_case split: option.splits)
qed

section \<open>The operations implement the specification\<close>

text \<open>The first level of a side holds an order, and its price is the best on that side.\<close>

lemma best_level_extreme:
  assumes "book_inv b"
  shows "case levels_of s b of [] \<Rightarrow> entries s b = []
    | (px, l) # ls \<Rightarrow> px \<in> fst ` set (entries s b) \<and> (\<forall>e \<in> set (entries s b). fst e = px \<or> better s px (fst e))"
proof (cases "levels_of s b")
  case (Cons e ls)
  obtain px l where e: "e = (px, l)" by (cases e)
  have "pl_orders l \<noteq> []" using spec [OF book_invD(2) [OF assms], of s] Cons e by (auto simp: no_empty_level_def)
  then have "px \<in> fst ` set (entries s b)" by (cases "pl_orders l") (auto simp: entries_def Cons e)
  moreover have "\<forall>x \<in> fst ` set (levels_of s b). x = px \<or> better s px x"
    using core_sorted [OF book_invD(1) [OF assms], of s] Cons e by auto
  then have "\<forall>e \<in> set (entries s b). fst e = px \<or> better s px (fst e)"
    using fst_side_entries [of "ob_nodes b" "levels_of s b"] unfolding entries_def by blast
  ultimately show ?thesis by (simp add: Cons e)
qed (simp add: entries_def)

text \<open>
  Claim C1. On every book that commands can reach, \<open>OrderBook::submit\<close> with a well-formed order
  returns (no undefined behaviour, both matching loops end), reaches a book with the data-structure
  invariant, and gives exactly the result and the successor that the price-time specification gives.
\<close>

theorem submit_implements_spec:
  assumes "book_reachable b" and "new_order_ok order"
  shows "\<exists>res b'. submit order b = Some (res, b') \<and> book_reachable b' \<and> book_inv b' \<and>
     spec_submit order (abs_of b) = (res, abs_of b')"
  using submit_refines [OF reachable_inv [OF assms(1)], of order] assms(2)
    reachable_submit(1) [OF assms] by (auto simp: new_order_ok_def)

theorem submit_implements_spec_witness:
  "\<exists>res b'. submit (limit_order 5 Buy 8 101) example_book = Some (res, b') \<and> book_reachable b' \<and>
     book_inv b' \<and> spec_submit (limit_order 5 Buy 8 101) (abs_of example_book) = (res, abs_of b')"
  by (rule submit_implements_spec [OF example_book_reachable]) code_simp

text \<open>
  Claim C2. On every reachable book, \<open>OrderBook::cancel\<close> returns, reaches a book with the
  invariant and implements the specification: an unknown identifier is rejected and nothing changes,
  a resting order is removed and its remaining quantity reported, every other order keeps its place.
\<close>

theorem cancel_implements_spec:
  assumes "book_reachable b" and "cancel_order_ok c"
  shows "\<exists>res b'. cancel c b = Some (res, b') \<and> book_reachable b' \<and> book_inv b' \<and>
     spec_cancel c (abs_of b) = (res, abs_of b')"
  using cancel_refines [OF reachable_inv [OF assms(1)], of c] reachable_cancel(1) [OF assms] by auto

theorem cancel_implements_spec_witness:
  "\<exists>res b'. cancel \<lparr>co_sequence = SequenceNumber 6, co_order_id = OrderId 2\<rparr> example_book = Some (res, b') \<and>
     book_reachable b' \<and> book_inv b' \<and>
     spec_cancel \<lparr>co_sequence = SequenceNumber 6, co_order_id = OrderId 2\<rparr> (abs_of example_book) =
       (res, abs_of b')"
  by (rule cancel_implements_spec [OF example_book_reachable]) code_simp

text \<open>
  Claim C3. On every reachable book, \<open>OrderBook::replace\<close> with a well-formed command returns,
  reaches a book with the invariant and implements the specification: reduced in place when the
  price stays and the quantity does not grow, otherwise removed, matched and re-queued.
\<close>

theorem replace_implements_spec:
  assumes "book_reachable b" and "replace_order_ok c"
  shows "\<exists>res b'. replace c b = Some (res, b') \<and> book_reachable b' \<and> book_inv b' \<and>
     spec_replace c (abs_of b) = (res, abs_of b')"
  using replace_refines [OF reachable_inv [OF assms(1)], of c] assms(2)
    reachable_replace(1) [OF assms] by (auto simp: replace_order_ok_def)

definition example_replace :: "u64 \<Rightarrow> u64 \<Rightarrow> i64 \<Rightarrow> replace_order" where
  "example_replace i q p = \<lparr>rpo_sequence = SequenceNumber 9, rpo_order_id = OrderId i,
     rpo_new_quantity = Quantity q, rpo_new_price = Price p\<rparr>"

theorem replace_implements_spec_witness:
  "\<exists>res b'. replace (example_replace 4 20 101) example_book = Some (res, b') \<and>
     book_reachable b' \<and> book_inv b' \<and>
     spec_replace (example_replace 4 20 101) (abs_of example_book) = (res, abs_of b')"
  by (rule replace_implements_spec [OF example_book_reachable]) code_simp

text \<open>
  Claim C12. The best prices are true, and a reachable book is never crossed or locked. The best bid is
  the price of a resting bid and no resting bid has a higher one, the best ask the price of a resting
  ask and none has a lower one; there is no best price exactly when nothing rests on that side; and when
  there are both, the best bid is strictly below the best ask.
\<close>

theorem reachable_book_uncrossed:
  assumes "book_reachable b"
  shows "(case best_bid b of None \<Rightarrow> entries Buy b = []
      | Some p \<Rightarrow> p \<in> fst ` set (entries Buy b) \<and> list_all (\<lambda>e. fst e \<le> p) (entries Buy b)) \<and>
    (case best_ask b of None \<Rightarrow> entries Sell b = []
      | Some q \<Rightarrow> q \<in> fst ` set (entries Sell b) \<and> list_all (\<lambda>e. q \<le> fst e) (entries Sell b)) \<and>
    (\<forall>p q. best_bid b = Some p \<and> best_ask b = Some q \<longrightarrow> p < q)"
proof (intro conjI allI impI)
  note inv = reachable_inv [OF assms]
  show "case best_bid b of None \<Rightarrow> entries Buy b = []
      | Some p \<Rightarrow> p \<in> fst ` set (entries Buy b) \<and> list_all (\<lambda>e. fst e \<le> p) (entries Buy b)"
    using best_level_extreme [OF inv, of Buy]
    by (auto simp: best_bid_def better_def list_all_iff levels_of_def split: list.splits)
  show "case best_ask b of None \<Rightarrow> entries Sell b = []
      | Some q \<Rightarrow> q \<in> fst ` set (entries Sell b) \<and> list_all (\<lambda>e. q \<le> fst e) (entries Sell b)"
    using best_level_extreme [OF inv, of Sell]
    by (auto simp: best_ask_def better_def list_all_iff levels_of_def split: list.splits)
  fix p q
  assume "best_bid b = Some p \<and> best_ask b = Some q"
  then show "p < q" using book_invD(3) [OF inv]
    by (auto simp: best_bid_def best_ask_def uncrossed_def split: list.splits)
qed

theorem reachable_book_uncrossed_witness:
  "Price 99 < Price 101 \<and> Price 99 \<in> fst ` set (entries Buy example_book) \<and>
     list_all (\<lambda>e. fst e \<le> Price 99) (entries Buy example_book) \<and>
     list_all (\<lambda>e. Price 101 \<le> fst e) (entries Sell example_book)"
proof -
  have "best_bid example_book = Some (Price 99)" "best_ask example_book = Some (Price 101)" by code_simp+
  with reachable_book_uncrossed [OF example_book_reachable] show ?thesis by simp
qed

section \<open>Matching\<close>

definition leftover_units :: "submit_result \<Rightarrow> nat" where
  "leftover_units res = (case sr_remaining_quantity res of None \<Rightarrow> 0 | Some q \<Rightarrow> unat (units q))"

text \<open>
  Claim C13. Quantity is conserved by an accepted submission: the contra side loses exactly what
  the executions report, the order's own side gains exactly the reported remainder, and for a limit
  order executions and remainder add up to the submitted quantity (a market order never reports
  more than it was submitted for). The sums are exact natural numbers, so nothing is lost to
  wrap-around.
\<close>

theorem submit_conserves_quantity:
  assumes "book_reachable b" and "new_order_ok order" and "submit order b = Some (res, b')"
    and "submit_accepted res"
  shows "resting_units (entries (opposite (no_side order)) b) =
      executed_units (sr_executions res) + resting_units (entries (opposite (no_side order)) b') \<and>
    resting_units (entries (no_side order) b') =
      resting_units (entries (no_side order) b) + leftover_units res \<and>
    (if no_type order = Limit
     then unat (units (no_quantity order)) = executed_units (sr_executions res) + leftover_units res
     else unat (units (no_quantity order)) \<ge> executed_units (sr_executions res) \<and> leftover_units res = 0)"
proof -
  obtain rem where m: "spec_match (spec_crosses (no_side order) (no_type order) (no_limit_price order))
      (no_order_id order) (units (no_quantity order)) (entries (opposite (no_side order)) b) =
        (sr_executions res, rem, entries (opposite (no_side order)) b')"
    and r: "if no_type order = Limit \<and> rem \<noteq> 0
      then sr_remaining_quantity res = Some (Quantity rem) \<and>
           entries (no_side order) b' = spec_insert (better (no_side order))
             (the (no_limit_price order),
              \<lparr>ro_order_id = no_order_id order, ro_sequence = no_sequence order,
               ro_remaining_quantity = Quantity rem\<rparr>) (entries (no_side order) b)
      else sr_remaining_quantity res = None \<and> entries (no_side order) b' = entries (no_side order) b"
    using reachable_submit_laws(4) [OF assms] by blast
  show ?thesis
    using spec_match_conserves [OF m] r by (auto simp: leftover_units_def split: if_splits)
qed

theorem submit_conserves_quantity_witness:
  "resting_units (entries Sell example_book) = 8 +
     resting_units (entries Sell (snd (the (submit (limit_order 5 Buy 8 101) example_book))))"
  using submit_conserves_quantity [OF example_book_reachable _ example_submit]
  by (simp add: submit_accepted_def limit_order_def new_order_ok_def sequence_ok_def order_id_ok_def
      quantity_ok_def price_ok_def)

text \<open>
  Claim C14. Price-time priority: the executions of an accepted submission run through the contra
  side from its front without skipping an order; each trades at the resting order's price, which is
  within the incoming limit; each has a positive size; every order but the last one hit is filled
  completely.
\<close>

theorem submit_price_time_priority:
  assumes "book_reachable b" and "new_order_ok order" and "submit order b = Some (res, b')"
    and "submit_accepted res"
  shows "let xs = sr_executions res; es = entries (opposite (no_side order)) b in
     length xs \<le> length es \<and>
     map ex_resting_order_id xs = map entry_id (take (length xs) es) \<and>
     map ex_price xs = map fst (take (length xs) es) \<and>
     map ex_quantity (butlast xs) = map (ro_remaining_quantity \<circ> snd) (take (length xs - 1) es) \<and>
     list_all (\<lambda>x. spec_crosses (no_side order) (no_type order) (no_limit_price order) (ex_price x) \<and>
        ex_incoming_order_id x = no_order_id order \<and> units (ex_quantity x) \<noteq> 0) xs"
proof -
  let ?es = "entries (opposite (no_side order)) b"
  obtain rem es' where m: "spec_match (spec_crosses (no_side order) (no_type order) (no_limit_price order))
      (no_order_id order) (units (no_quantity order)) ?es = (sr_executions res, rem, es')"
    using reachable_submit_laws(4) [OF assms] by auto
  have pos: "\<forall>e \<in> set ?es. entry_units e \<noteq> 0"
    using core_entries_ok [OF reachable_core [OF assms(1)]]
    by (auto simp: resting_ok_def quantity_ok_def)
  show ?thesis
    using spec_match_priority [OF m] spec_match_filled [OF m] spec_match_positive [OF m pos]
      spec_match_prices [OF m]
    by (auto simp: Let_def list_all_iff)
qed

theorem submit_price_time_priority_witness:
  "map ex_resting_order_id (sr_executions (fst (the (submit (limit_order 5 Buy 8 101) example_book)))) =
     map entry_id (take 2 (entries Sell example_book))"
proof -
  have "new_order_ok (limit_order 5 Buy 8 101)" by code_simp
  from submit_price_time_priority [OF example_book_reachable this example_submit]
  show ?thesis by (subst example_submit) (simp add: submit_accepted_def Let_def limit_order_def numeral_2_eq_2)
qed

section \<open>What rests, and identifiers\<close>

lemma set_spec_insert: "set (spec_insert lt e es) = insert e (set es)"
proof -
  have "set es = set (takeWhile P es) \<union> set (dropWhile P es)" for P
    by (metis set_append takeWhile_dropWhile_id)
  then show ?thesis by (auto simp: spec_insert_def)
qed

lemma core_entry_seen:
  "book_core b \<Longrightarrow> e \<in> set (entries s b) \<Longrightarrow> entry_id e \<in> ob_seen_order_ids b"
  using core_keys [of b s] core_seen [of b] by auto

lemma spec_match_ids:
  "spec_match c inc rem es = (xs, rem', es') \<Longrightarrow> entry_id ` set es' \<subseteq> entry_id ` set es"
proof -
  assume "spec_match c inc rem es = (xs, rem', es')"
  from spec_match_suffix [OF this] have "set (map entry_id es') \<subseteq> set (map entry_id es)"
    using set_drop_subset by metis
  then show ?thesis by simp
qed

text \<open>
  After an accepted submission the order is in the book exactly when a remainder was
  reported, and a market order never is: it executes and the rest is dropped.
\<close>

theorem submitted_order_rests_iff:
  assumes "book_reachable b" and "new_order_ok order" and "submit order b = Some (res, b')"
    and "submit_accepted res"
  shows "(contains (no_order_id order) b' \<longleftrightarrow> sr_remaining_quantity res \<noteq> None) \<and>
     (if no_type order = Market then sr_remaining_quantity res = None else True)"
proof -
  let ?s = "no_side order" and ?i = "no_order_id order"
  obtain rem where m: "spec_match (spec_crosses ?s (no_type order) (no_limit_price order))
      ?i (units (no_quantity order)) (entries (opposite ?s) b) = (sr_executions res, rem, entries (opposite ?s) b')"
    and r: "if no_type order = Limit \<and> rem \<noteq> 0
      then sr_remaining_quantity res = Some (Quantity rem) \<and>
           entries ?s b' = spec_insert (better ?s) (the (no_limit_price order),
              \<lparr>ro_order_id = ?i, ro_sequence = no_sequence order, ro_remaining_quantity = Quantity rem\<rparr>)
              (entries ?s b)
      else sr_remaining_quantity res = None \<and> entries ?s b' = entries ?s b"
    using reachable_submit_laws(4) [OF assms] by blast
  have fresh: "?i \<notin> entry_id ` set (entries s b)" for s
    using reachable_submit_laws(2) [OF assms] core_entry_seen [OF reachable_core [OF assms(1)]] by auto
  then have "?i \<notin> entry_id ` set (entries (opposite ?s) b')" using spec_match_ids [OF m] by blast
  moreover have "?i \<in> entry_id ` set (entries ?s b') \<longleftrightarrow> sr_remaining_quantity res \<noteq> None"
    using r fresh [of ?s] by (auto simp: set_spec_insert split: if_splits)
  ultimately show ?thesis
    using contains_iff [OF reachable_core [OF reachable_submit(1) [OF assms(1-3)]], of ?i ?s] r
    by (auto simp: image_Un split: if_splits)
qed

theorem submitted_order_rests_iff_witness:
  "contains (OrderId 5) (snd (the (submit (limit_order 5 Buy 8 101) example_book))) \<longleftrightarrow> False"
proof -
  have "new_order_ok (limit_order 5 Buy 8 101)" by code_simp
  from submitted_order_rests_iff [OF example_book_reachable this example_submit]
  show ?thesis by (simp add: submit_accepted_def limit_order_def)
qed

lemma apply_command_seen:
  "apply_command b c = Some (accepted, b') \<Longrightarrow> command_ok c \<Longrightarrow> book_inv b \<Longrightarrow>
   ob_seen_order_ids b \<subseteq> ob_seen_order_ids b'"
proof -
  assume "apply_command b c = Some (accepted, b')" "command_ok c" "book_inv b"
  then have "spec_apply c (abs_of b) = (accepted, abs_of b')" by (intro book.step_spec)
  then have "ab_seen (abs_of b) \<subseteq> ab_seen (abs_of b')" by (rule spec_apply_seen)
  then show ?thesis by simp
qed

lemma run_seen:
  "list_all command_ok cs \<Longrightarrow> book_inv b \<Longrightarrow> run book_op cs b = Some (rs, b') \<Longrightarrow>
   ob_seen_order_ids b \<subseteq> ob_seen_order_ids b'"
proof (induction cs arbitrary: b rs)
  case (Cons c cs)
  then obtain r b1 qs where "command_ok c" "book_op c b = Some (r, b1)" "run book_op cs b1 = Some (qs, b')"
    by (auto simp: bind_ub_eq_Some)
  with Cons show ?case using apply_command_seen [of b c r b1] book.step_inv [of c b r b1] by fastforce
qed simp

text \<open>
  Claim C29. An order identifier is used once: after an accepted submission, and after any
  further commands, filled, cancelled or replaced as it may be, a well-formed order with the same
  identifier is rejected as a duplicate and the book stays as it is.
\<close>

theorem order_id_never_reused:
  assumes "book_reachable b" and "new_order_ok order" and "submit order b = Some (res, b1)"
    and "submit_accepted res"
    and "list_all command_ok cs" and "run book_op cs b1 = Some (rs, b2)"
    and "no_order_id again = no_order_id order" and "validate again = None"
  shows "submit again b2 = Some (\<lparr>sr_executions = [], sr_rejection = Some Duplicate_order_id,
     sr_remaining_quantity = None\<rparr>, b2)"
proof -
  have "no_order_id order \<in> ob_seen_order_ids b1" using reachable_submit_laws(3) [OF assms(1-4)] by simp
  then have "no_order_id order \<in> ob_seen_order_ids b2"
    using run_seen [OF assms(5) reachable_inv [OF reachable_submit(1) [OF assms(1-3)]] assms(6)] by blast
  with assms(7,8) show ?thesis by (simp add: submit_def)
qed

theorem order_id_never_reused_witness:
  "submit (market_order 5 Sell 1) (snd (the (submit (limit_order 5 Buy 8 101) example_book))) =
   Some (\<lparr>sr_executions = [], sr_rejection = Some Duplicate_order_id, sr_remaining_quantity = None\<rparr>,
     snd (the (submit (limit_order 5 Buy 8 101) example_book)))"
proof (rule order_id_never_reused [OF example_book_reachable _ example_submit, where cs = "[]"])
  show "new_order_ok (limit_order 5 Buy 8 101)" by code_simp
  show "submit_accepted \<lparr>sr_executions = [\<lparr>ex_resting_order_id = OrderId 1, ex_incoming_order_id = OrderId 5,
            ex_price = Price 101, ex_quantity = Quantity 5\<rparr>,
          \<lparr>ex_resting_order_id = OrderId 2, ex_incoming_order_id = OrderId 5,
            ex_price = Price 101, ex_quantity = Quantity 3\<rparr>],
          sr_rejection = None, sr_remaining_quantity = None\<rparr>" by (simp add: submit_accepted_def)
qed (simp_all add: limit_order_def market_order_def validate_def)

lemma rejected_unchanged: "apply_command b c = Some (False, b') \<Longrightarrow> b' = b"
  by (cases c)
    (auto simp: apply_command_def submit_def cancel_def replace_def submit_accepted_def cancel_accepted_def
      replace_accepted_def Let_def bind_ub_eq_Some split: if_splits option.splits prod.splits)

text \<open>
  A rejected command has no effect: whatever the book, a command that is answered with a
  rejection leaves every part of the state unchanged, the set of seen identifiers included.
\<close>

theorem rejected_command_no_effect:
  assumes "apply_command b c = Some (False, b')"
  shows "b' = b"
  by (rule rejected_unchanged [OF assms])

theorem rejected_command_no_effect_witness:
  "snd (the (apply_command empty_book (Cancel_order \<lparr>co_sequence = SequenceNumber 1, co_order_id = OrderId 1\<rparr>)))
     = empty_book"
  by (rule rejected_command_no_effect
      [of empty_book "Cancel_order \<lparr>co_sequence = SequenceNumber 1, co_order_id = OrderId 1\<rparr>"])
    (simp add: apply_command_def cancel_def cancel_accepted_def empty_book_def um_find_def)

section \<open>Replacement and priority\<close>

lemma core_spec_find:
  assumes "book_core b" and "e \<in> set (entries s b)"
  shows "spec_find (entry_id e) (abs_of b) = Some (s, e)"
  by (rule spec_find_eq_Some) (use core_distinct_ids [OF assms(1)] assms(2) in simp_all)

lemma spec_requantify_nth:
  assumes "distinct (map entry_id es)" and "i < length es"
  shows "spec_requantify (entry_id (es ! i)) q es = es[i := set_entry_quantity q (es ! i)]"
proof -
  have es: "es = take i es @ es ! i # drop (Suc i) es" using assms(2) by (rule id_take_nth_drop)
  then have "distinct (map entry_id (take i es @ es ! i # drop (Suc i) es))" using assms(1) by simp
  then have "entry_id (es ! i) \<notin> entry_id ` (set (take i es) \<union> set (drop (Suc i) es))" by auto
  then have "\<forall>e' \<in> set (take i es) \<union> set (drop (Suc i) es). entry_id e' \<noteq> entry_id (es ! i)"
    by (metis (no_types, lifting) imageI)
  from spec_requantify_split [OF this] have
    "spec_requantify (entry_id (es ! i)) q (take i es @ es ! i # drop (Suc i) es) =
       take i es @ set_entry_quantity q (es ! i) # drop (Suc i) es" .
  then show ?thesis using es assms(2) by (simp add: upd_conv_take_nth_drop)
qed

lemma distinct_entry_ids:
  assumes "book_core b"
  shows "distinct (map entry_id (entries s b))"
    and "e \<in> set (entries s b) \<Longrightarrow> e' \<in> set (entries (opposite s) b) \<Longrightarrow> entry_id e' \<noteq> entry_id e"
  using core_distinct_ids [OF assms, of s] by auto

text \<open>
  Claim C27. Replacing a resting order at its own price with no larger quantity keeps its place:
  no execution, the new quantity is reported and stored at the order's position in its side's queue,
  and every other order of both sides is where it was.
\<close>

theorem replace_keeps_priority:
  assumes "book_reachable b" and "replace_order_ok c" and "i < length (entries s b)"
    and "entry_id (entries s b ! i) = rpo_order_id c" and "rpo_new_price c = fst (entries s b ! i)"
    and "units (rpo_new_quantity c) \<le> entry_units (entries s b ! i)"
  shows "\<exists>b'. replace c b = Some (\<lparr>rr_order_id = rpo_order_id c, rr_executions = [],
      rr_remaining_quantity = Some (rpo_new_quantity c), rr_rejection = None\<rparr>, b') \<and>
    entries s b' = (entries s b)[i := set_entry_quantity (rpo_new_quantity c) (entries s b ! i)] \<and>
    entries (opposite s) b' = entries (opposite s) b"
proof -
  let ?q = "rpo_new_quantity c" and ?e = "entries s b ! i"
  note core = reachable_core [OF assms(1)]
  have e: "?e \<in> set (entries s b)" using assms(3) by simp
  have "\<exists>res b'. replace c b = Some (res, b') \<and> book_inv b' \<and> spec_replace c (abs_of b) = (res, abs_of b')"
    using replace_refines [OF reachable_inv [OF assms(1)]] assms(2) by (simp add: replace_order_ok_def)
  then obtain res b' where b': "replace c b = Some (res, b')" "spec_replace c (abs_of b) = (res, abs_of b')"
    by blast
  have "spec_find (rpo_order_id c) (abs_of b) = Some (s, ?e)"
    using core_spec_find [OF core e] assms(4) by simp
  then have res: "res = \<lparr>rr_order_id = rpo_order_id c, rr_executions = [], rr_remaining_quantity = Some ?q,
        rr_rejection = None\<rparr>"
      "abs_of b' = (abs_of b)\<lparr>ab_bids := spec_requantify (rpo_order_id c) ?q (ab_bids (abs_of b)),
          ab_asks := spec_requantify (rpo_order_id c) ?q (ab_asks (abs_of b))\<rparr>"
    using b'(2) assms(5,6) by (auto simp: spec_replace_def)
  have side: "entries s' b' = spec_requantify (rpo_order_id c) ?q (entries s' b)" for s'
    using arg_cong [OF res(2), of "ab_side s'"]
    by (cases s') (simp_all add: ab_side_def abs_of_def entries_def levels_of_def)
  have "entries s b' = (entries s b)[i := set_entry_quantity ?q ?e]"
    using spec_requantify_nth [OF distinct_entry_ids(1) [OF core] assms(3), of ?q] assms(4) by (simp add: side)
  moreover have "entries (opposite s) b' = entries (opposite s) b"
    unfolding side using distinct_entry_ids(2) [OF core e] assms(4) by (intro spec_requantify_absent) simp
  ultimately show ?thesis using b'(1) res(1) by blast
qed

theorem replace_keeps_priority_witness:
  "\<exists>b'. replace (example_replace 1 2 101) example_book = Some (\<lparr>rr_order_id = OrderId 1, rr_executions = [],
      rr_remaining_quantity = Some (Quantity 2), rr_rejection = None\<rparr>, b') \<and>
    entries Sell b' = (entries Sell example_book)[0 := set_entry_quantity (Quantity 2) (entries Sell example_book ! 0)]"
proof -
  have "replace_order_ok (example_replace 1 2 101)" by code_simp
  moreover have "0 < length (entries Sell example_book)" by code_simp
  moreover have "entry_id (entries Sell example_book ! 0) = rpo_order_id (example_replace 1 2 101)" by code_simp
  moreover have "rpo_new_price (example_replace 1 2 101) = fst (entries Sell example_book ! 0)" by code_simp
  moreover have "units (rpo_new_quantity (example_replace 1 2 101)) \<le> entry_units (entries Sell example_book ! 0)"
    by code_simp
  ultimately show ?thesis
    using replace_keeps_priority [OF example_book_reachable, of "example_replace 1 2 101" 0 Sell]
    by (auto simp: example_replace_def)
qed

lemma sorted_entries:
  assumes "book_core b"
  shows "sorted_wrt (\<lambda>e e'. \<not> better s (fst e') (fst e)) (entries s b)"
proof -
  have lev: "sorted_wrt (\<lambda>e e'. \<not> better s (fst e') (fst e)) (level_entries nodes px ns)" for nodes px ns
    by (simp add: level_entries_def sorted_wrt_map side_order.irrefl sorted_wrt_iff_nth_less)
  have "sorted_wrt (better s) (map fst ls) \<Longrightarrow>
      sorted_wrt (\<lambda>e e'. \<not> better s (fst e') (fst e)) (side_entries nodes ls)" for nodes ls
  proof (induction ls)
    case (Cons l ls)
    have "\<not> better s (fst e') (fst l)" if "e' \<in> set (side_entries nodes ls)" for e'
    proof -
      have "fst e' \<in> fst ` set ls" using that fst_side_entries [of nodes ls] by blast
      then have "better s (fst l) (fst e')" using Cons.prems by auto
      then show ?thesis by (rule side_order.asym)
    qed
    moreover have "fst e = fst l" if "e \<in> set (level_entries nodes (fst l) ns)" for e ns
      using that by (auto simp: level_entries_def)
    ultimately show ?case using Cons lev
      by (cases l) (auto simp: sorted_wrt_append)
  qed simp
  then show ?thesis using core_sorted [OF assms] by (simp add: entries_def)
qed

lemma spec_insert_behind:
  assumes "sorted_wrt (\<lambda>e e'. \<not> better s (fst e') (fst e)) es"
  shows "\<exists>ahead behind. spec_insert (better s) e es = ahead @ e # behind \<and> ahead @ behind = es \<and>
    list_all (\<lambda>e'. \<not> better s (fst e) (fst e')) ahead \<and> list_all (\<lambda>e'. better s (fst e) (fst e')) behind"
proof -
  let ?P = "\<lambda>e'. \<not> better s (fst e) (fst e')"
  have "\<forall>e' \<in> set (dropWhile ?P es). better s (fst e) (fst e')"
    using assms
  proof (induction es)
    case (Cons x es)
    have later: "better s (fst e) (fst e')" if "better s (fst e) (fst x)" "e' \<in> set es" for e'
    proof -
      have "\<not> better s (fst e') (fst x)" using Cons.prems that(2) by simp
      then have "fst x = fst e' \<or> better s (fst x) (fst e')" using side_order.total [where a = "fst x" and b = "fst e'"] by auto
      with that(1) show ?thesis using side_order.trans [where b = "fst x"] by metis
    qed
    show ?case
    proof (cases "better s (fst e) (fst x)")
      case True
      then show ?thesis using later [OF True] by simp
    next
      case False
      then have "dropWhile ?P (x # es) = dropWhile ?P es" by simp
      moreover have "sorted_wrt (\<lambda>e e'. \<not> better s (fst e') (fst e)) es" using Cons.prems by simp
      ultimately show ?thesis using Cons.IH by metis
    qed
  qed simp
  then have "list_all (\<lambda>e'. better s (fst e) (fst e')) (dropWhile ?P es)" by (simp only: list_all_iff)
  moreover have "list_all ?P (takeWhile ?P es)"
    unfolding list_all_iff using set_takeWhileD by fast
  moreover have "spec_insert (better s) e es = takeWhile ?P es @ e # dropWhile ?P es"
    by (simp only: spec_insert_def)
  moreover have "takeWhile ?P es @ dropWhile ?P es = es" by (rule takeWhile_dropWhile_id)
  ultimately show ?thesis by blast
qed

text \<open>
  Claim C28. Any other accepted replacement loses its place: if a remainder rests, it stands at
  the new price with the command's sequence number, behind every order of its side at the same or a
  better price and ahead of every worse one; the other orders of the side keep their relative order.
\<close>

theorem replace_loses_priority:
  assumes "book_reachable b" and "replace_order_ok c" and "e \<in> set (entries s b)"
    and "entry_id e = rpo_order_id c"
    and "rpo_new_price c \<noteq> fst e \<or> entry_units e < units (rpo_new_quantity c)"
    and "replace c b = Some (res, b')" and "rr_remaining_quantity res = Some q"
  shows "\<exists>ahead behind.
     entries s b' = ahead @ (rpo_new_price c, \<lparr>ro_order_id = rpo_order_id c, ro_sequence = rpo_sequence c,
                               ro_remaining_quantity = q\<rparr>) # behind \<and>
     ahead @ behind = filter (\<lambda>e'. entry_id e' \<noteq> rpo_order_id c) (entries s b) \<and>
     list_all (\<lambda>e'. \<not> better s (rpo_new_price c) (fst e')) ahead \<and>
     list_all (\<lambda>e'. better s (rpo_new_price c) (fst e')) behind"
proof -
  note core = reachable_core [OF assms(1)]
  let ?es = "filter (\<lambda>e'. entry_id e' \<noteq> rpo_order_id c) (entries s b)"
  let ?r = "\<lambda>q. (rpo_new_price c, \<lparr>ro_order_id = rpo_order_id c, ro_sequence = rpo_sequence c,
                    ro_remaining_quantity = q\<rparr>)"
  define a0 where "a0 = spec_delete (rpo_order_id c) (abs_of b)"
  obtain xs rem a1 where take: "spec_take (rpo_order_id c) s Limit (Some (rpo_new_price c))
      (units (rpo_new_quantity c)) a0 = (xs, rem, a1)"
    by (cases "spec_take (rpo_order_id c) s Limit (Some (rpo_new_price c)) (units (rpo_new_quantity c)) a0")
  have frame: "ab_side s a1 = ?es" using spec_take_match [OF take] by (simp add: a0_def)
  have "spec_find (rpo_order_id c) (abs_of b) = Some (s, e)"
    using core_spec_find [OF core assms(3)] assms(4) by simp
  moreover have "\<not> (rpo_new_price c = fst e \<and> units (rpo_new_quantity c) \<le> entry_units e)"
    using assms(5) by auto
  moreover have "spec_replace c (abs_of b) = (res, abs_of b')"
    using reachable_replace(2) [OF assms(1,2,6)] .
  ultimately have "q = Quantity rem" "abs_of b' = spec_rest s (?r (Quantity rem)) a1"
    using take assms(7) by (auto simp: spec_replace_def a0_def split: if_splits)
  then have "entries s b' = spec_insert (better s) (?r q) ?es"
    using spec_rest_side(1) [of s "?r q" a1] frame by (metis ab_side_abs_of)
  then show ?thesis
    using spec_insert_behind [OF sorted_wrt_filter [OF sorted_entries [OF core]], where e = "?r q"]
    by simp
qed

theorem replace_loses_priority_witness:
  "\<exists>ahead behind.
     entries Buy (snd (the (replace (example_replace 4 20 98) example_book))) =
       ahead @ (Price 98, \<lparr>ro_order_id = OrderId 4, ro_sequence = SequenceNumber 9,
                  ro_remaining_quantity = Quantity 20\<rparr>) # behind \<and> ahead @ behind = []"
proof -
  let ?c = "example_replace 4 20 98" and ?e = "entries Buy example_book ! 0"
  have ok: "replace_order_ok ?c" by code_simp
  have e: "?e \<in> set (entries Buy example_book)" by (rule nth_mem) code_simp
  have id: "entry_id ?e = rpo_order_id ?c" by code_simp
  have worse: "rpo_new_price ?c \<noteq> fst ?e \<or> entry_units ?e < units (rpo_new_quantity ?c)" by code_simp
  have none: "filter (\<lambda>e'. entry_id e' \<noteq> rpo_order_id ?c) (entries Buy example_book) = []" by code_simp
  obtain res b' where b': "replace ?c example_book = Some (res, b')"
    using replace_refines [OF reachable_inv [OF example_book_reachable]] ok
    by (fastforce simp: replace_order_ok_def)
  have "map_option (rr_remaining_quantity \<circ> fst) (replace ?c example_book) = Some (Some (Quantity 20))"
    by code_simp
  with b' have "rr_remaining_quantity res = Some (Quantity 20)" by simp
  from replace_loses_priority [OF example_book_reachable ok e id worse b' this] none b'
  show ?thesis by (auto simp: example_replace_def)
qed

section \<open>Cancellation\<close>

lemma spec_match_no_trade:
  "spec_match c inc rem es = ([], rem', es') \<Longrightarrow> rem' = rem \<and> es' = es"
  by (cases es) (auto split: if_splits prod.splits)

lemma filter_spec_insert:
  assumes "entry_id e \<notin> entry_id ` set es"
  shows "filter (\<lambda>e'. entry_id e' \<noteq> entry_id e) (spec_insert lt e es) = es"
proof -
  have "filter (\<lambda>e'. entry_id e' \<noteq> entry_id e) fs = fs" if "set fs \<subseteq> set es" for fs
    using that assms by (metis (mono_tags, lifting) filter_True imageI subsetD)
  moreover have "set (takeWhile P es) \<subseteq> set es" "set (dropWhile P es) \<subseteq> set es" for P
    by (auto dest: set_takeWhileD set_dropWhileD)
  ultimately show ?thesis by (simp add: spec_insert_def)
qed

text \<open>
  Claim C30. Submitting a limit order that does not trade and cancelling it is a round trip: the
  cancellation reports the full quantity, both sides hold exactly the orders they held before, in the
  same order, and the state digest is the one before the submission.
\<close>

theorem submit_cancel_round_trip:
  assumes "book_reachable b" and "new_order_ok order" and "no_type order = Limit"
    and "submit order b = Some (res, b1)" and "submit_accepted res" and "sr_executions res = []"
    and "sequence_ok sq"
  shows "\<exists>b2. cancel \<lparr>co_sequence = sq, co_order_id = no_order_id order\<rparr> b1 =
       Some (\<lparr>cr_order_id = no_order_id order, cr_cancelled_quantity = Some (no_quantity order),
              cr_rejection = None\<rparr>, b2) \<and>
     entries Buy b2 = entries Buy b \<and> entries Sell b2 = entries Sell b \<and> state_digest b2 = state_digest b"
proof -
  let ?s = "no_side order" and ?i = "no_order_id order"
  let ?c = "\<lparr>co_sequence = sq, co_order_id = ?i\<rparr>"
  let ?e = "(the (no_limit_price order), \<lparr>ro_order_id = ?i, ro_sequence = no_sequence order,
               ro_remaining_quantity = no_quantity order\<rparr>)"
  note core = reachable_core [OF assms(1)] and reach = reachable_submit(1) [OF assms(1,2,4)]
  have q: "units (no_quantity order) \<noteq> 0" using assms(2) by (simp add: new_order_ok_def quantity_ok_def)
  have after: "entries (opposite ?s) b1 = entries (opposite ?s) b"
      "entries ?s b1 = spec_insert (better ?s) ?e (entries ?s b)"
    using reachable_submit_laws(4) [OF assms(1,2,4,5)] assms(3,6) q by (auto dest!: spec_match_no_trade)
  have fresh: "?i \<notin> entry_id ` set (entries s b)" for s
    using reachable_submit_laws(2) [OF assms(1,2,4,5)] core_entry_seen [OF core] by auto
  obtain cres b2 where b2: "cancel ?c b1 = Some (cres, b2)" "book_inv b2"
      "spec_cancel ?c (abs_of b1) = (cres, abs_of b2)"
    using cancel_refines [OF reachable_inv [OF reach], of ?c] by blast
  have "spec_find ?i (abs_of b1) = Some (?s, ?e)"
    using core_spec_find [OF reachable_core [OF reach], of ?e ?s] after(2) by (simp add: set_spec_insert)
  then have cres: "cres = \<lparr>cr_order_id = ?i, cr_cancelled_quantity = Some (no_quantity order), cr_rejection = None\<rparr>"
      "abs_of b2 = spec_delete ?i (abs_of b1)"
    using b2(3) by (auto simp: spec_cancel_def)
  have ent: "entries s b2 = filter (\<lambda>e. entry_id e \<noteq> ?i) (entries s b1)" for s
    using arg_cong [OF cres(2), of "ab_side s"] by simp
  have "entries ?s b2 = entries ?s b"
    using filter_spec_insert [of ?e "entries ?s b" "better ?s"] fresh by (simp add: ent after(2))
  moreover have "entries (opposite ?s) b2 = entries (opposite ?s) b"
    unfolding ent after(1) using fresh by (intro filter_True) (metis (no_types, lifting) imageI)
  ultimately have same: "entries Buy b2 = entries Buy b" "entries Sell b2 = entries Sell b"
    by (cases ?s; simp)+
  then have "state_digest b2 = state_digest b"
    using state_digest_book [OF b2(2)] state_digest_book [OF reachable_inv [OF assms(1)]]
    by (simp add: spec_digest_def abs_of_def entries_def levels_of_def)
  with same b2(1) cres(1) show ?thesis by blast
qed

definition quiet_submit :: "(submit_result \<times> order_book) ub" where
  "quiet_submit = submit (limit_order 6 Buy 3 98) example_book"

theorem submit_cancel_round_trip_witness:
  "state_digest (snd (the (cancel \<lparr>co_sequence = SequenceNumber 7, co_order_id = OrderId 6\<rparr>
      (snd (the quiet_submit))))) = state_digest example_book"
proof -
  let ?o = "limit_order 6 Buy 3 98"
  have ok: "new_order_ok ?o" "no_type ?o = Limit" "sequence_ok (SequenceNumber 7)"
    by code_simp+
  have "map_option fst quiet_submit =
      Some \<lparr>sr_executions = [], sr_rejection = None, sr_remaining_quantity = Some (Quantity 3)\<rparr>"
    by code_simp
  then obtain b1 where b1: "submit ?o example_book =
      Some (\<lparr>sr_executions = [], sr_rejection = None, sr_remaining_quantity = Some (Quantity 3)\<rparr>, b1)"
    by (auto simp: quiet_submit_def)
  from submit_cancel_round_trip [OF example_book_reachable ok(1,2) b1 _ _ ok(3)]
  show ?thesis by (auto simp: submit_accepted_def limit_order_def quiet_submit_def b1 [unfolded limit_order_def])
qed

section \<open>Queries\<close>

text \<open>
  Depth: on a reachable book none of whose levels overflows, \<open>bid_depth\<close> and
  \<open>ask_depth\<close> return the first \<open>max_depth\<close> price levels, best first, each with the exact sum and
  number of the orders resting at that price.
\<close>

theorem depth_reports_levels:
  assumes "book_reachable b" and "no_overflow (abs_of b)"
  shows "depth max_depth b =
    Some \<lparr>bd_bids = take (unat max_depth) (spec_depth (ab_bids (abs_of b))),
          bd_asks = take (unat max_depth) (spec_depth (ab_asks (abs_of b)))\<rparr>"
  using depth_loop_book [OF reachable_inv [OF assms(1)] assms(2), of max_depth Buy]
    depth_loop_book [OF reachable_inv [OF assms(1)] assms(2), of max_depth Sell]
  by (simp add: depth_def bid_depth_def ask_depth_def levels_of_def entries_def abs_of_def)

lemma no_zero_aggregate_sums:
  "no_zero_aggregate es \<longleftrightarrow> list_all (\<lambda>n. n mod 2 ^ 64 \<noteq> 0) (level_sums es)"
  by (auto simp: no_zero_aggregate_def level_sums_def list_all_iff)

lemma example_level_sums:
  "level_sums (ab_bids (abs_of example_book)) = [10]"
  "level_sums (ab_asks (abs_of example_book)) = [12, 4]"
  by code_simp+

lemma example_no_overflow: "no_overflow (abs_of example_book)"
  by (simp add: no_overflow_sums example_level_sums)

theorem depth_reports_levels_witness:
  "depth 1 example_book =
     Some \<lparr>bd_bids = [\<lparr>lq_price = Price 99, lq_quantity = Quantity 10, lq_order_count = 1\<rparr>],
           bd_asks = [\<lparr>lq_price = Price 101, lq_quantity = Quantity 12, lq_order_count = 2\<rparr>]\<rparr>"
proof -
  have "take (unat (1 :: size_t)) (spec_depth (ab_bids (abs_of example_book))) =
      [\<lparr>lq_price = Price 99, lq_quantity = Quantity 10, lq_order_count = 1\<rparr>]" by code_simp
  moreover have "take (unat (1 :: size_t)) (spec_depth (ab_asks (abs_of example_book))) =
      [\<lparr>lq_price = Price 101, lq_quantity = Quantity 12, lq_order_count = 2\<rparr>]" by code_simp
  ultimately show ?thesis
    by (simp only: depth_reports_levels [OF example_book_reachable example_no_overflow])
qed

text \<open>
  \<open>copy_depth\<close> fills the caller's spans with the same levels whatever they held
  before, pads with empty entries, never writes past a span's end, and so agrees with the vector
  queries.
\<close>

theorem copy_depth_pads:
  assumes "book_reachable b" and "no_overflow (abs_of b)"
  shows "copy_depth bid_out ask_out b =
    Some (take (length bid_out) (map Some (spec_depth (ab_bids (abs_of b))) @ replicate (length bid_out) None),
          take (length ask_out) (map Some (spec_depth (ab_asks (abs_of b))) @ replicate (length ask_out) None))"
  using copy_levels_book [OF reachable_inv [OF assms(1)] assms(2), of Buy bid_out]
    copy_levels_book [OF reachable_inv [OF assms(1)] assms(2), of Sell ask_out]
  by (simp add: copy_depth_def levels_of_def entries_def abs_of_def)

theorem copy_depth_pads_witness:
  "copy_depth [None, None] [None] example_book =
     Some ([Some \<lparr>lq_price = Price 99, lq_quantity = Quantity 10, lq_order_count = 1\<rparr>, None],
           [Some \<lparr>lq_price = Price 101, lq_quantity = Quantity 12, lq_order_count = 2\<rparr>])"
proof -
  have "spec_depth (ab_bids (abs_of example_book)) =
      [\<lparr>lq_price = Price 99, lq_quantity = Quantity 10, lq_order_count = 1\<rparr>]" by code_simp
  moreover have "spec_depth (ab_asks (abs_of example_book)) =
      [\<lparr>lq_price = Price 101, lq_quantity = Quantity 12, lq_order_count = 2\<rparr>,
       \<lparr>lq_price = Price 102, lq_quantity = Quantity 4, lq_order_count = 1\<rparr>]" by code_simp
  ultimately show ?thesis
    by (simp add: copy_depth_pads [OF example_book_reachable example_no_overflow] numeral_2_eq_2)
qed

text \<open>
  Claim C31. The self-check \<open>validate_invariants\<close> is exact on reachable books: it never runs into
  undefined behaviour, and it answers true except when the quantities resting at some price add up
  to a multiple of \<open>2 ^ 64\<close>, where the level's aggregate has wrapped to zero.
\<close>

theorem validate_invariants_exact:
  assumes "book_reachable b"
  shows "validate_invariants b =
    Some (no_zero_aggregate (ab_bids (abs_of b)) \<and> no_zero_aggregate (ab_asks (abs_of b)))"
  using validate_invariants_book [OF reachable_inv [OF assms]] .

theorem validate_invariants_exact_witness: "validate_invariants example_book = Some True"
proof -
  have "no_zero_aggregate (ab_bids (abs_of example_book)) \<and> no_zero_aggregate (ab_asks (abs_of example_book))"
    by (simp add: no_zero_aggregate_sums example_level_sums)
  with validate_invariants_exact [OF example_book_reachable] show ?thesis by simp
qed






text \<open>
  The state digest is a function of the observable book: it is always defined on a
  reachable book and equals the digest computed from the two lists of resting orders in priority
  order, so two reachable books holding the same orders in the same priority have the same digest,
  whatever node addresses, index order or seen identifiers they have.
\<close>

theorem state_digest_observable:
  assumes "book_reachable b"
  shows "state_digest b = Some (spec_digest (abs_of b))"
  using state_digest_book [OF reachable_inv [OF assms]] .

theorem state_digest_observable_witness:
  "state_digest example_book = Some (spec_digest (abs_of example_book))"
  by (rule state_digest_observable [OF example_book_reachable])

end
