(* ===== verification/Market_Data.thy ===== *)
theory Market_Data
  imports Order_Book_Properties Spsc_Queue
begin

text \<open>
  Market data: \<open>include/low_latency_exchange/market_data.hpp\<close> and \<open>src/market_data.cpp\<close>. The
  feed turns the book's top five levels into snapshots and updates and offers them to a bounded queue
  that may refuse them; the publisher drains the queue into a subscriber's depth book, which accepts
  an update only when its feed sequence follows the previous one.
\<close>

section \<open>Events\<close>

definition kMarketDataDepth :: nat where "kMarketDataDepth = 5"

record market_data_level =
  ml_price :: price
  ml_quantity :: quantity
  ml_order_count :: size_t

type_synonym market_data_depth = "market_data_level option list"

datatype market_data_event_kind = Snapshot | Depth_update

record market_data_event =
  me_sequence :: "feed_sequence option"
  me_kind :: market_data_event_kind
  me_bids :: market_data_depth
  me_asks :: market_data_depth

definition event_valid :: "market_data_event \<Rightarrow> bool" where
  "event_valid e \<longleftrightarrow> me_sequence e \<noteq> None"

definition to_market_data_level :: "level_quote \<Rightarrow> market_data_level" where
  "to_market_data_level lq = \<lparr>ml_price = lq_price lq, ml_quantity = lq_quantity lq,
     ml_order_count = lq_order_count lq\<rparr>"

definition is_next_sequence :: "feed_sequence \<Rightarrow> feed_sequence \<Rightarrow> bool" where
  "is_next_sequence previous current \<longleftrightarrow>
     fs_value previous \<noteq> - 1 \<and> fs_value current = fs_value previous + 1"

section \<open>Feed\<close>

record market_data_metrics =
  mm_published_events :: u64
  mm_dropped_events :: u64
  mm_queue_occupancy :: size_t
  mm_max_queue_occupancy :: size_t

record market_data_feed =
  mf_queue :: "market_data_event ring"
  mf_next_sequence :: u64
  mf_snapshot_interval :: size_t
  mf_updates_since_snapshot :: size_t
  mf_published_events :: u64
  mf_dropped_events :: u64
  mf_max_queue_occupancy :: size_t
  mf_snapshot_pending :: bool

definition make_feed :: "market_data_event ring \<Rightarrow> size_t \<Rightarrow> market_data_feed" where
  "make_feed q snapshot_interval =
     \<lparr>mf_queue = q, mf_next_sequence = 1, mf_snapshot_interval = max snapshot_interval 1,
      mf_updates_since_snapshot = 0, mf_published_events = 0, mf_dropped_events = 0,
      mf_max_queue_occupancy = 0, mf_snapshot_pending = True\<rparr>"

definition make_event ::
    "order_book \<Rightarrow> market_data_event_kind \<Rightarrow> feed_sequence \<Rightarrow> market_data_event ub" where
  "make_event book kind sq = do {
     (bid_levels, ask_levels) \<leftarrow>
       copy_depth (replicate kMarketDataDepth None) (replicate kMarketDataDepth None) book;
     Some \<lparr>me_sequence = Some sq, me_kind = kind,
           me_bids = map (\<lambda>i. map_option to_market_data_level (bid_levels ! i)) [0..<kMarketDataDepth],
           me_asks = map (\<lambda>i. map_option to_market_data_level (ask_levels ! i)) [0..<kMarketDataDepth]\<rparr>
   }"

definition feed_record_occupancy :: "market_data_feed \<Rightarrow> market_data_feed" where
  "feed_record_occupancy f =
     f\<lparr>mf_max_queue_occupancy := max (mf_max_queue_occupancy f) (ring_size (mf_queue f))\<rparr>"

definition publish :: "order_book \<Rightarrow> market_data_feed \<Rightarrow> market_data_feed ub" where
  "publish book f =
     (case feed_sequence_from_value (mf_next_sequence f) of
        None \<Rightarrow> Some (f\<lparr>mf_dropped_events := mf_dropped_events f + 1, mf_snapshot_pending := True\<rparr>)
      | Some sq \<Rightarrow>
          if mf_next_sequence f = - 1 then
            Some (f\<lparr>mf_dropped_events := mf_dropped_events f + 1, mf_snapshot_pending := True\<rparr>)
          else do {
            let f1 = f\<lparr>mf_next_sequence := mf_next_sequence f + 1\<rparr>;
            let kind = (if mf_snapshot_pending f1 then Snapshot else Depth_update);
            event \<leftarrow> make_event book kind sq;
            let (ok, q) = try_push market_data_capacity event (mf_queue f1);
            let f2 = f1\<lparr>mf_queue := q\<rparr>;
            if \<not> ok then
              Some (feed_record_occupancy
                (f2\<lparr>mf_dropped_events := mf_dropped_events f2 + 1, mf_snapshot_pending := True\<rparr>))
            else
              let f3 = feed_record_occupancy (f2\<lparr>mf_published_events := mf_published_events f2 + 1\<rparr>) in
              if kind = Snapshot then
                Some (f3\<lparr>mf_snapshot_pending := False, mf_updates_since_snapshot := 0\<rparr>)
              else
                let f4 = f3\<lparr>mf_updates_since_snapshot := mf_updates_since_snapshot f3 + 1\<rparr> in
                Some (if mf_updates_since_snapshot f4 \<ge> mf_snapshot_interval f4
                      then f4\<lparr>mf_snapshot_pending := True\<rparr> else f4)
          })"

definition feed_metrics :: "market_data_feed \<Rightarrow> market_data_metrics" where
  "feed_metrics f = \<lparr>mm_published_events = mf_published_events f, mm_dropped_events = mf_dropped_events f,
     mm_queue_occupancy = ring_size (mf_queue f), mm_max_queue_occupancy = mf_max_queue_occupancy f\<rparr>"

section \<open>Subscriber book and publisher\<close>

record market_data_book =
  mb_bids :: market_data_depth
  mb_asks :: market_data_depth
  mb_last_sequence :: "feed_sequence option"
  mb_synchronized :: bool

definition empty_market_data_book :: market_data_book where
  "empty_market_data_book = \<lparr>mb_bids = replicate kMarketDataDepth None, mb_asks = replicate kMarketDataDepth None,
     mb_last_sequence = None, mb_synchronized = False\<rparr>"

definition apply_event :: "market_data_event \<Rightarrow> market_data_book \<Rightarrow> (bool \<times> market_data_book) ub" where
  "apply_event event mb =
     (if \<not> event_valid event then Some (False, mb)
      else if me_kind event = Snapshot then
        Some (True, mb\<lparr>mb_bids := me_bids event, mb_asks := me_asks event,
                       mb_last_sequence := me_sequence event, mb_synchronized := True\<rparr>)
      else do {
        contiguous \<leftarrow>
          (if \<not> mb_synchronized mb then Some False
           else case mb_last_sequence mb of
                  None \<Rightarrow> Some False
                | Some previous \<Rightarrow> do { current \<leftarrow> me_sequence event; Some (is_next_sequence previous current) });
        if \<not> contiguous then Some (False, mb\<lparr>mb_synchronized := False\<rparr>)
        else Some (True, mb\<lparr>mb_bids := me_bids event, mb_asks := me_asks event,
                            mb_last_sequence := me_sequence event\<rparr>)
      })"

definition publish_one ::
    "(market_data_event \<Rightarrow> market_data_event) \<Rightarrow> market_data_event ring \<Rightarrow> market_data_book \<Rightarrow>
     (bool \<times> market_data_event ring \<times> market_data_book) ub" where
  "publish_one moved q subscriber =
     (case try_pop market_data_capacity moved q of
        (None, q') \<Rightarrow> Some (False, q', subscriber)
      | (Some event, q') \<Rightarrow> do { (ok, s') \<leftarrow> apply_event event subscriber; Some (ok, q', s') })"

text \<open>The drain loop ends when the queue is empty; its result is \<open>None\<close> if it never returns.\<close>

partial_function (option) publish_available ::
    "(market_data_event \<Rightarrow> market_data_event) \<Rightarrow> market_data_event ring \<Rightarrow> market_data_book \<Rightarrow> size_t \<Rightarrow>
     (size_t \<times> market_data_event ring \<times> market_data_book) ub" where
  "publish_available moved q subscriber published =
     (case try_pop market_data_capacity moved q of
        (None, q') \<Rightarrow> Some (published, q', subscriber)
      | (Some event, q') \<Rightarrow> do {
          (ok, s') \<leftarrow> apply_event event subscriber;
          publish_available moved q' s' (if ok then published + 1 else published)
        })"

section \<open>Depth events\<close>

definition depth_view :: "entry list \<Rightarrow> market_data_depth" where
  "depth_view es = take kMarketDataDepth
     (map (Some \<circ> to_market_data_level) (spec_depth es) @ replicate kMarketDataDepth None)"

lemma make_event_view:
  assumes "book_inv b" and "no_overflow (abs_of b)"
  shows "make_event b kind sq = Some \<lparr>me_sequence = Some sq, me_kind = kind,
    me_bids = depth_view (entries Buy b), me_asks = depth_view (entries Sell b)\<rparr>"
proof -
  let ?view = "\<lambda>es. take 5 (map Some (spec_depth es) @ replicate 5 None)"
  have idx: "map (\<lambda>i. map_option to_market_data_level (?view es ! i)) [0..<5] = depth_view es" for es
  proof (rule nth_equalityI)
    fix i
    assume "i < length (map (\<lambda>i. map_option to_market_data_level (?view es ! i)) [0..<5])"
    then show "map (\<lambda>i. map_option to_market_data_level (?view es ! i)) [0..<5] ! i = depth_view es ! i"
      by (simp add: depth_view_def kMarketDataDepth_def nth_append del: take_append)
  qed (simp add: depth_view_def kMarketDataDepth_def)
  have "copy_depth (replicate 5 None) (replicate 5 None) b = Some (?view (entries Buy b), ?view (entries Sell b))"
    using copy_levels_book [OF assms, of Buy "replicate 5 None"] copy_levels_book [OF assms, of Sell "replicate 5 None"]
    by (simp add: copy_depth_def levels_of_def)
  then show ?thesis by (simp only: make_event_def kMarketDataDepth_def bind.simps prod.case idx)
qed

section \<open>Event streams\<close>

text \<open>
  A stream that a subscriber can follow without losing synchronisation: it starts with a snapshot and
  every update continues the sequence of the event before it.
\<close>

fun stream_from :: "feed_sequence option \<Rightarrow> market_data_event list \<Rightarrow> bool" where
  "stream_from previous [] = True"
| "stream_from previous (e # es) =
     (event_valid e \<and>
      (me_kind e = Snapshot \<or>
       (case previous of None \<Rightarrow> False | Some p \<Rightarrow> is_next_sequence p (the (me_sequence e)))) \<and>
      stream_from (me_sequence e) es)"

definition last_of :: "feed_sequence option \<Rightarrow> market_data_event list \<Rightarrow> feed_sequence option" where
  "last_of previous es = (if es = [] then previous else me_sequence (last es))"

lemma last_of_simps [simp]:
  "last_of p [] = p" "last_of p (e # es) = last_of (me_sequence e) es" "last_of p (es @ [e]) = me_sequence e"
  by (simp_all add: last_of_def)

lemma stream_from_append:
  "stream_from p (es @ fs) \<longleftrightarrow> stream_from p es \<and> stream_from (last_of p es) fs"
  by (induction p es rule: stream_from.induct) auto

definition follows :: "market_data_book \<Rightarrow> market_data_event list \<Rightarrow> bool" where
  "follows mb es \<longleftrightarrow> mb_last_sequence mb = last_of None es \<and> (mb_synchronized mb \<longleftrightarrow> es \<noteq> []) \<and>
     (es \<noteq> [] \<longrightarrow> mb_bids mb = me_bids (last es) \<and> mb_asks mb = me_asks (last es))"

lemma apply_event_follows:
  assumes "follows mb es" and "stream_from None (es @ [e])"
  shows "\<exists>mb'. apply_event e mb = Some (True, mb') \<and> follows mb' (es @ [e])"
  using assms
  by (cases "es = []")
    (auto simp: follows_def apply_event_def stream_from_append last_of_def event_valid_def split: option.splits)

definition trailing_updates :: "market_data_event list \<Rightarrow> nat" where
  "trailing_updates es = length (takeWhile (\<lambda>e. me_kind e = Depth_update) (rev es))"

lemma trailing_updates_snoc [simp]:
  "trailing_updates [] = 0"
  "trailing_updates (es @ [e]) = (if me_kind e = Depth_update then Suc (trailing_updates es) else 0)"
  by (simp_all add: trailing_updates_def)

section \<open>The feed's invariant\<close>

text \<open>\<open>sent\<close> is the history of events that entered the queue.\<close>

definition feed_inv :: "market_data_event list \<Rightarrow> market_data_feed \<Rightarrow> bool" where
  "feed_inv sent f \<longleftrightarrow>
     ring_inv market_data_capacity (mf_queue f) \<and> stream_from None sent \<and>
     mf_snapshot_interval f \<noteq> 0 \<and>
     unat (mf_updates_since_snapshot f) = trailing_updates sent \<and>
     trailing_updates sent \<le> unat (mf_snapshot_interval f) \<and>
     (\<not> mf_snapshot_pending f \<longrightarrow>
        trailing_updates sent < unat (mf_snapshot_interval f) \<and>
        (\<exists>sq. last_of None sent = Some sq \<and> fs_value sq + 1 = mf_next_sequence f))"

lemma feed_inv_initial:
  "ring_inv market_data_capacity q \<Longrightarrow> feed_inv [] (make_feed q interval)"
  by (auto simp: feed_inv_def make_feed_def max_def)

abbreviation queued :: "market_data_feed \<Rightarrow> market_data_event list" where
  "queued f \<equiv> ring_contents market_data_capacity (mf_queue f)"

definition view_event :: "order_book \<Rightarrow> market_data_feed \<Rightarrow> market_data_event" where
  "view_event b f = \<lparr>me_sequence = Some (FeedSequence (mf_next_sequence f)),
     me_kind = (if mf_snapshot_pending f then Snapshot else Depth_update),
     me_bids = depth_view (entries Buy b), me_asks = depth_view (entries Sell b)\<rparr>"

lemma occupancy_fields [simp]:
  "mf_queue (feed_record_occupancy f) = mf_queue f"
  "mf_next_sequence (feed_record_occupancy f) = mf_next_sequence f"
  "mf_snapshot_interval (feed_record_occupancy f) = mf_snapshot_interval f"
  "mf_updates_since_snapshot (feed_record_occupancy f) = mf_updates_since_snapshot f"
  "mf_published_events (feed_record_occupancy f) = mf_published_events f"
  "mf_dropped_events (feed_record_occupancy f) = mf_dropped_events f"
  "mf_snapshot_pending (feed_record_occupancy f) = mf_snapshot_pending f"
  by (simp_all add: feed_record_occupancy_def)

text \<open>The three outcomes of \<open>publish\<close>: sequence space used up, queue full, event queued.\<close>

lemma publish_cases:
  assumes book: "book_inv b" "no_overflow (abs_of b)" and ring: "ring_inv market_data_capacity (mf_queue f)"
  obtains (exhausted) "mf_next_sequence f = 0 \<or> mf_next_sequence f = - 1"
      "publish b f = Some (f\<lparr>mf_dropped_events := mf_dropped_events f + 1, mf_snapshot_pending := True\<rparr>)"
  | (dropped) f' where "publish b f = Some f'" "mf_dropped_events f' = mf_dropped_events f + 1"
      "mf_published_events f' = mf_published_events f" "queued f' = queued f" "length (queued f) = 1024"
      "mf_snapshot_pending f'" "mf_updates_since_snapshot f' = mf_updates_since_snapshot f"
      "mf_snapshot_interval f' = mf_snapshot_interval f" "ring_inv market_data_capacity (mf_queue f')"
  | (sent) f' where "publish b f = Some f'" "mf_dropped_events f' = mf_dropped_events f"
      "mf_published_events f' = mf_published_events f + 1" "queued f' = queued f @ [view_event b f]"
      "mf_next_sequence f \<noteq> 0" "mf_next_sequence f \<noteq> - 1" "mf_next_sequence f' = mf_next_sequence f + 1"
      "mf_snapshot_interval f' = mf_snapshot_interval f" "ring_inv market_data_capacity (mf_queue f')"
      "mf_updates_since_snapshot f' = (if mf_snapshot_pending f then 0 else mf_updates_since_snapshot f + 1)"
      "mf_snapshot_pending f' \<longleftrightarrow>
         \<not> mf_snapshot_pending f \<and> mf_updates_since_snapshot f + 1 \<ge> mf_snapshot_interval f"
proof (cases "mf_next_sequence f = 0 \<or> mf_next_sequence f = - 1")
  case True
  then show ?thesis using exhausted by (auto simp: publish_def feed_sequence_from_value_def)
next
  case False
  let ?e = "view_event b f"
  obtain ok q where push: "try_push market_data_capacity ?e (mf_queue f) = (ok, q)" by fastforce
  note law = market_data_ring.fifo.push_law [OF ring push]
  have pub: "publish b f = (let f2 = f\<lparr>mf_next_sequence := mf_next_sequence f + 1, mf_queue := q\<rparr> in
      if \<not> ok then Some (feed_record_occupancy
          (f2\<lparr>mf_dropped_events := mf_dropped_events f2 + 1, mf_snapshot_pending := True\<rparr>))
      else let f3 = feed_record_occupancy (f2\<lparr>mf_published_events := mf_published_events f2 + 1\<rparr>) in
        if mf_snapshot_pending f then Some (f3\<lparr>mf_snapshot_pending := False, mf_updates_since_snapshot := 0\<rparr>)
        else let f4 = f3\<lparr>mf_updates_since_snapshot := mf_updates_since_snapshot f3 + 1\<rparr> in
          Some (if mf_updates_since_snapshot f4 \<ge> mf_snapshot_interval f4
                then f4\<lparr>mf_snapshot_pending := True\<rparr> else f4))"
    using False push make_event_view [OF book]
    by (simp add: publish_def feed_sequence_from_value_def view_event_def Let_def)
  show ?thesis
  proof (cases ok)
    case True
    then show ?thesis using sent law False unfolding pub Let_def
      by (cases "mf_snapshot_pending f") (auto split: if_splits)
  next
    case no: False
    have "length (queued f) = 1024"
      using law no ring_contents_bound [OF ring] by (simp add: market_data_capacity_def)
    then show ?thesis using dropped law no unfolding pub Let_def by auto
  qed
qed

end
