(* ===== verification/Market_Data_Properties.thy ===== *)
theory Market_Data_Properties
  imports Market_Data
begin

text \<open>
  The market-data path as a system: the matching engine publishes reachable books into the feed, the
  publisher delivers queued events to one subscriber, in any interleaving. The ghost history
  \<open>ms_delivered\<close> records the events taken off the queue. The invariant says that the subscriber has
  followed everything delivered and that delivered and queued events together form a stream it can
  follow, dropped events notwithstanding.
\<close>

section \<open>The system\<close>

record md_system =
  ms_feed :: market_data_feed
  ms_subscriber :: market_data_book
  ms_delivered :: "market_data_event list"

definition md_history :: "md_system \<Rightarrow> market_data_event list" where
  "md_history s = ms_delivered s @ queued (ms_feed s)"

text \<open>
  The feed publishes any book that commands can reach, except that the books here have no level of
  \<open>2 ^ 64\<close> units or more: \<open>publish\<close> itself does not check that, and is undefined when the aggregate of a
  level it shows has wrapped to zero.
\<close>

inductive md_step ::
    "(market_data_event \<Rightarrow> market_data_event) \<Rightarrow> md_system \<Rightarrow> md_system \<Rightarrow> bool" for moved where
  publish: "book_reachable b \<Longrightarrow> no_overflow (abs_of b) \<Longrightarrow> publish b (ms_feed s) = Some f' \<Longrightarrow>
     md_step moved s (s\<lparr>ms_feed := f'\<rparr>)"
| deliver: "publish_one moved (mf_queue (ms_feed s)) (ms_subscriber s) = Some (ok, q', mb') \<Longrightarrow>
     md_step moved s (s\<lparr>ms_feed := (ms_feed s)\<lparr>mf_queue := q'\<rparr>, ms_subscriber := mb',
        ms_delivered := ms_delivered s @ take 1 (queued (ms_feed s))\<rparr>)"

definition md_init :: "market_data_event \<Rightarrow> size_t \<Rightarrow> md_system" where
  "md_init dflt interval = \<lparr>ms_feed = make_feed (empty_ring market_data_capacity dflt) interval,
     ms_subscriber = empty_market_data_book, ms_delivered = []\<rparr>"

inductive md_reachable ::
    "(market_data_event \<Rightarrow> market_data_event) \<Rightarrow> market_data_event \<Rightarrow> size_t \<Rightarrow> md_system \<Rightarrow> bool"
    for moved dflt interval where
  init: "md_reachable moved dflt interval (md_init dflt interval)"
| step: "md_reachable moved dflt interval s \<Longrightarrow> md_step moved s s' \<Longrightarrow> md_reachable moved dflt interval s'"

section \<open>Invariant\<close>

definition md_inv :: "size_t \<Rightarrow> md_system \<Rightarrow> bool" where
  "md_inv interval s \<longleftrightarrow>
     feed_inv (md_history s) (ms_feed s) \<and> follows (ms_subscriber s) (ms_delivered s) \<and>
     mf_snapshot_interval (ms_feed s) = max interval 1 \<and>
     (\<forall>xs ys. md_history s = xs @ ys \<longrightarrow> trailing_updates xs \<le> unat (max interval 1))"

lemma feed_inv_ring: "feed_inv sent f \<Longrightarrow> ring_inv market_data_capacity (mf_queue f)"
  by (simp add: feed_inv_def)

lemma md_inv_parts:
  "md_inv interval s \<Longrightarrow> feed_inv (md_history s) (ms_feed s)"
  "md_inv interval s \<Longrightarrow> ring_inv market_data_capacity (mf_queue (ms_feed s))"
  "md_inv interval s \<Longrightarrow> follows (ms_subscriber s) (ms_delivered s)"
  "md_inv interval s \<Longrightarrow> stream_from None (md_history s)"
  unfolding md_inv_def feed_inv_def by blast+

lemma follows_empty: "follows empty_market_data_book []"
  by (simp add: follows_def empty_market_data_book_def)

lemma md_inv_init: "md_inv interval (md_init dflt interval)"
  using feed_inv_initial [of "empty_ring market_data_capacity dflt" interval]
  by (simp add: md_inv_def md_init_def md_history_def ring_inv_empty follows_empty make_feed_def)

lemma feed_inv_sent:
  assumes inv: "feed_inv sent f" and nxt: "mf_next_sequence f \<noteq> 0" "mf_next_sequence f' = mf_next_sequence f + 1"
    and interval: "mf_snapshot_interval f' = mf_snapshot_interval f"
    and ring: "ring_inv market_data_capacity (mf_queue f')"
    and updates: "mf_updates_since_snapshot f' = (if mf_snapshot_pending f then 0 else mf_updates_since_snapshot f + 1)"
    and pending: "mf_snapshot_pending f' \<longleftrightarrow>
      \<not> mf_snapshot_pending f \<and> mf_updates_since_snapshot f + 1 \<ge> mf_snapshot_interval f"
  shows "feed_inv (sent @ [view_event b f]) f'"
proof (cases "mf_snapshot_pending f")
  case True
  then show ?thesis using assms
    by (auto simp: feed_inv_def stream_from_append view_event_def event_valid_def unat_gt_0)
next
  case False
  then obtain sq where sq: "last_of None sent = Some sq" "fs_value sq + 1 = mf_next_sequence f"
    and less: "unat (mf_updates_since_snapshot f) < unat (mf_snapshot_interval f)"
    and n: "unat (mf_updates_since_snapshot f) = trailing_updates sent"
    using inv by (auto simp: feed_inv_def)
  have suc: "unat (mf_updates_since_snapshot f + 1) = Suc (trailing_updates sent)"
    using unat_succ_less [of "mf_updates_since_snapshot f"] less n by (simp add: word_less_nat_alt)
  have "fs_value sq \<noteq> - 1" using sq(2) nxt(1) by auto
  then have "is_next_sequence sq (FeedSequence (mf_next_sequence f))"
    using sq(2) by (simp add: is_next_sequence_def)
  then show ?thesis using False assms sq suc less n
    by (auto simp: feed_inv_def stream_from_append view_event_def event_valid_def word_le_nat_alt)
qed

lemma feed_inv_pending:
  "feed_inv sent f \<Longrightarrow> ring_inv market_data_capacity (mf_queue f') \<Longrightarrow> mf_snapshot_pending f' \<Longrightarrow>
   mf_updates_since_snapshot f' = mf_updates_since_snapshot f \<Longrightarrow>
   mf_snapshot_interval f' = mf_snapshot_interval f \<Longrightarrow> feed_inv sent f'"
  by (simp add: feed_inv_def)

lemma feed_inv_pop:
  "feed_inv sent f \<Longrightarrow> ring_inv market_data_capacity q \<Longrightarrow> feed_inv sent (f\<lparr>mf_queue := q\<rparr>)"
  by (simp add: feed_inv_def)

text \<open>Whatever \<open>publish\<close> does, the history grows by at most one event and the invariant is kept.\<close>

lemma publish_feed_inv:
  assumes "book_inv b" and "no_overflow (abs_of b)" and inv: "feed_inv sent f" and "publish b f = Some f'"
  shows "\<exists>new. queued f' = queued f @ new \<and> length new \<le> 1 \<and> feed_inv (sent @ new) f' \<and>
    mf_snapshot_interval f' = mf_snapshot_interval f"
proof (rule publish_cases [OF assms(1,2) feed_inv_ring [OF inv]])
  assume "publish b f = Some (f\<lparr>mf_dropped_events := mf_dropped_events f + 1, mf_snapshot_pending := True\<rparr>)"
  then have "f' = f\<lparr>mf_dropped_events := mf_dropped_events f + 1, mf_snapshot_pending := True\<rparr>"
    using assms(4) by simp
  then show ?thesis using feed_inv_pending [OF inv, of f'] feed_inv_ring [OF inv] by simp
next
  fix g
  assume *: "publish b f = Some g" "queued g = queued f" "mf_snapshot_pending g"
    "mf_updates_since_snapshot g = mf_updates_since_snapshot f" "mf_snapshot_interval g = mf_snapshot_interval f"
    "ring_inv market_data_capacity (mf_queue g)"
  then have "g = f'" using assms(4) by simp
  then show ?thesis using * feed_inv_pending [OF inv, of f'] by simp
next
  fix g
  assume *: "publish b f = Some g" "queued g = queued f @ [view_event b f]" "mf_next_sequence f \<noteq> 0"
    "mf_next_sequence g = mf_next_sequence f + 1" "mf_snapshot_interval g = mf_snapshot_interval f"
    "ring_inv market_data_capacity (mf_queue g)"
    "mf_updates_since_snapshot g = (if mf_snapshot_pending f then 0 else mf_updates_since_snapshot f + 1)"
    "mf_snapshot_pending g \<longleftrightarrow>
       \<not> mf_snapshot_pending f \<and> mf_updates_since_snapshot f + 1 \<ge> mf_snapshot_interval f"
  then have "g = f'" using assms(4) by simp
  then show ?thesis using * feed_inv_sent [OF inv, of f' b] by auto
qed

text \<open>Delivering the next queued event: the subscriber takes it, whatever was dropped before it.\<close>

lemma publish_one_follows:
  assumes ring: "ring_inv market_data_capacity q" and "follows mb seen"
    and "stream_from None (seen @ ring_contents market_data_capacity q)"
  shows "\<exists>q' mb'. publish_one moved q mb = Some (ring_contents market_data_capacity q \<noteq> [], q', mb') \<and>
    ring_inv market_data_capacity q' \<and>
    ring_contents market_data_capacity q' = drop 1 (ring_contents market_data_capacity q) \<and>
    follows mb' (seen @ take 1 (ring_contents market_data_capacity q)) \<and>
    (ring_contents market_data_capacity q = [] \<longrightarrow> mb' = mb)"
proof -
  obtain out q' where pop: "try_pop market_data_capacity moved q = (out, q')" by fastforce
  note law = market_data_ring.fifo.pop_law [OF ring pop]
  show ?thesis
  proof (cases "ring_contents market_data_capacity q")
    case Nil
    then show ?thesis using law assms(2) by (simp add: publish_one_def pop)
  next
    case (Cons e es)
    then have "stream_from None (seen @ [e])" using assms(3) by (simp add: stream_from_append)
    then obtain mb' where "apply_event e mb = Some (True, mb')" "follows mb' (seen @ [e])"
      using apply_event_follows [OF assms(2)] by blast
    then show ?thesis using law Cons by (simp add: publish_one_def pop)
  qed
qed

lemma split_snoc:
  "xs @ ys = h @ new \<Longrightarrow> length new \<le> 1 \<Longrightarrow> (\<exists>zs. h = xs @ zs) \<or> xs = h @ new"
  by (cases ys rule: rev_cases; cases new rule: rev_cases) auto

lemma md_inv_step:
  assumes "md_step moved s s'" and inv: "md_inv interval s"
  shows "md_inv interval s'"
  using assms(1)
proof cases
  case (publish b f')
  obtain new where new: "queued f' = queued (ms_feed s) @ new" "length new \<le> 1"
      "feed_inv (md_history s @ new) f'" "mf_snapshot_interval f' = max interval 1"
    using publish_feed_inv [OF reachable_inv [OF publish(2)] publish(3) md_inv_parts(1) [OF inv] publish(4)] inv
    by (auto simp: md_inv_def)
  have hist: "md_history s' = md_history s @ new" using publish(1) new(1) by (simp add: md_history_def)
  have "trailing_updates (md_history s @ new) \<le> unat (max interval 1)"
    using new(3,4) by (simp add: feed_inv_def)
  then have "trailing_updates xs \<le> unat (max interval 1)" if "md_history s @ new = xs @ ys" for xs ys
    using split_snoc [OF that [symmetric] new(2)] inv unfolding md_inv_def by metis
  then show ?thesis using new inv hist publish(1) by (auto simp: md_inv_def)
next
  case (deliver ok q' mb')
  let ?q = "queued (ms_feed s)"
  have d: "ring_inv market_data_capacity q'" "ring_contents market_data_capacity q' = drop 1 ?q"
    "follows mb' (ms_delivered s @ take 1 ?q)"
    using publish_one_follows [OF md_inv_parts(2,3) [OF inv], of moved] md_inv_parts(4) [OF inv] deliver(2)
    by (auto simp: md_history_def)
  have "md_history s' = md_history s" using deliver(1) d(2) by (simp add: md_history_def)
  then show ?thesis using inv d deliver(1) feed_inv_pop [of "md_history s" "ms_feed s" q'] by (simp add: md_inv_def)
qed

lemma md_reachable_inv: "md_reachable moved dflt interval s \<Longrightarrow> md_inv interval s"
  by (induction rule: md_reachable.induct) (auto intro: md_inv_init md_inv_step)

section \<open>Draining\<close>

lemma publish_available_drains:
  assumes "ring_inv market_data_capacity q" and "follows mb seen"
    and "stream_from None (seen @ ring_contents market_data_capacity q)"
  shows "\<exists>q' mb'. publish_available moved q mb n =
      Some (n + of_nat (length (ring_contents market_data_capacity q)), q', mb') \<and>
    ring_contents market_data_capacity q' = [] \<and> follows mb' (seen @ ring_contents market_data_capacity q)"
  using assms
proof (induction "ring_contents market_data_capacity q" arbitrary: q mb seen n)
  case Nil
  obtain out q' where pop: "try_pop market_data_capacity moved q = (out, q')" by fastforce
  show ?case using market_data_ring.fifo.pop_law [OF Nil(2) pop] Nil(1,3)
    by (subst publish_available.simps) (auto simp: pop Nil(1) [symmetric] simp del: length_ring_contents)
next
  case (Cons e es)
  obtain out q1 where pop: "try_pop market_data_capacity moved q = (out, q1)" by fastforce
  have q1: "out = Some e" "ring_inv market_data_capacity q1" "es = ring_contents market_data_capacity q1"
    using market_data_ring.fifo.pop_law [OF Cons(3) pop] Cons(2) [symmetric] by simp_all
  have "stream_from None (seen @ [e])" using Cons(2,5) by (simp add: stream_from_append flip: Cons(2))
  then obtain mb1 where mb1: "apply_event e mb = Some (True, mb1)" "follows mb1 (seen @ [e])"
    using apply_event_follows [OF Cons(4)] by blast
  have "stream_from None ((seen @ [e]) @ ring_contents market_data_capacity q1)"
    using Cons(5) q1(3) by (simp flip: Cons(2))
  from Cons(1) [OF q1(3,2) mb1(2) this, of "n + 1"] show ?case
    by (subst publish_available.simps)
      (auto simp: pop q1(1) mb1(1) algebra_simps simp flip: Cons(2) q1(3) simp del: length_ring_contents)
qed

lemma md_publish_step:
  assumes r: "md_reachable moved dflt interval s" and b: "book_reachable b" "no_overflow (abs_of b)"
    and "mf_next_sequence (ms_feed s) \<noteq> 0" "mf_next_sequence (ms_feed s) \<noteq> - 1" "length (queued (ms_feed s)) < 1024"
  shows "\<exists>f'. publish b (ms_feed s) = Some f' \<and> md_reachable moved dflt interval (s\<lparr>ms_feed := f'\<rparr>) \<and>
    queued f' = queued (ms_feed s) @ [view_event b (ms_feed s)] \<and>
    mf_next_sequence f' = mf_next_sequence (ms_feed s) + 1 \<and>
    (mf_snapshot_pending f' \<longleftrightarrow> \<not> mf_snapshot_pending (ms_feed s) \<and>
       mf_updates_since_snapshot (ms_feed s) + 1 \<ge> mf_snapshot_interval (ms_feed s))"
  by (rule publish_cases [OF reachable_inv [OF b(1)] b(2) md_inv_parts(2) [OF md_reachable_inv [OF r]]])
    (use assms(4-6) md_reachable.step [OF r md_step.publish [OF b]] in auto)

section \<open>Properties\<close>

definition blank_event :: market_data_event where
  "blank_event = \<lparr>me_sequence = None, me_kind = Snapshot, me_bids = replicate 5 None, me_asks = replicate 5 None\<rparr>"

lemma init_feed [simp]:
  "queued (ms_feed (md_init dflt interval)) = []" "mf_next_sequence (ms_feed (md_init dflt interval)) = 1"
  "mf_snapshot_pending (ms_feed (md_init dflt interval))"
  "mf_snapshot_interval (ms_feed (md_init dflt interval)) = max interval 1"
  "mf_updates_since_snapshot (ms_feed (md_init dflt interval)) = 0"
  "ms_delivered (md_init dflt interval) = []"
  by (simp_all add: md_init_def make_feed_def ring_inv_empty)

lemmas example_publish = md_publish_step [OF _ example_book_reachable example_no_overflow]

text \<open>
  Claim C22. A subscriber never loses synchronisation, whatever the feed had to drop: at every state of
  the market-data path that is reachable by publishing books whose levels hold less than \<open>2 ^ 64\<close> units
  each, delivering finds either an empty queue or an event the
  subscriber's book applies successfully, after which the book is synchronised and holds that event's
  sequence and depth.
\<close>

theorem subscriber_never_loses_sync:
  assumes "md_reachable moved dflt interval s"
  shows "(mb_synchronized (ms_subscriber s) \<longleftrightarrow> ms_delivered s \<noteq> []) \<and>
    (\<exists>q' mb'. publish_one moved (mf_queue (ms_feed s)) (ms_subscriber s) = Some (queued (ms_feed s) \<noteq> [], q', mb') \<and>
      (case queued (ms_feed s) of
         [] \<Rightarrow> mb' = ms_subscriber s
       | e # es \<Rightarrow> mb_synchronized mb' \<and> mb_last_sequence mb' = me_sequence e \<and> mb_bids mb' = me_bids e \<and>
           mb_asks mb' = me_asks e))"
proof -
  note inv = md_reachable_inv [OF assms]
  have "stream_from None (ms_delivered s @ queued (ms_feed s))" using md_inv_parts(4) [OF inv] by (simp add: md_history_def)
  from publish_one_follows [OF md_inv_parts(2,3) [OF inv] this, of moved]
  show ?thesis using md_inv_parts(3) [OF inv] by (cases "queued (ms_feed s)") (auto simp: follows_def)
qed

theorem subscriber_never_loses_sync_witness:
  "\<exists>(s :: md_system) q' mb'. publish_one (\<lambda>e. e) (mf_queue (ms_feed s)) (ms_subscriber s) = Some (True, q', mb') \<and>
     mb_bids mb' = depth_view (entries Buy example_book)"
proof -
  obtain f where f: "md_reachable (\<lambda>e. e) blank_event 4 ((md_init blank_event 4)\<lparr>ms_feed := f\<rparr>)"
      "queued f = [view_event example_book (ms_feed (md_init blank_event 4))]"
    using example_publish [OF md_reachable.init, of blank_event 4 "\<lambda>e. e"] by auto
  show ?thesis
    by (rule exI [of _ "(md_init blank_event 4)\<lparr>ms_feed := f\<rparr>"])
      (use subscriber_never_loses_sync [OF f(1)] f(2) in \<open>auto simp: view_event_def\<close>)
qed

text \<open>
  Publishing never stalls and is fully accounted for: on every reachable state and book
  (whose levels do not overflow) it returns; with the sequence space used up or the queue full it
  counts a drop, leaves the queue and arranges for the next queued event to be a snapshot; otherwise
  it counts a publication and queues exactly the book's top five levels under the next sequence.
\<close>

theorem publish_accounts:
  assumes "md_reachable moved dflt interval s" and "book_reachable b" and "no_overflow (abs_of b)"
  shows "\<exists>f'. publish b (ms_feed s) = Some f' \<and>
    (if mf_next_sequence (ms_feed s) = 0 \<or> mf_next_sequence (ms_feed s) = - 1 \<or> length (queued (ms_feed s)) = 1024
     then queued f' = queued (ms_feed s) \<and> mf_snapshot_pending f' \<and>
       mf_dropped_events f' = mf_dropped_events (ms_feed s) + 1 \<and>
       mf_published_events f' = mf_published_events (ms_feed s)
     else mf_dropped_events f' = mf_dropped_events (ms_feed s) \<and>
       mf_published_events f' = mf_published_events (ms_feed s) + 1 \<and>
       queued f' = queued (ms_feed s) @ [\<lparr>me_sequence = Some (FeedSequence (mf_next_sequence (ms_feed s))),
         me_kind = (if mf_snapshot_pending (ms_feed s) then Snapshot else Depth_update),
         me_bids = depth_view (ab_bids (abs_of b)), me_asks = depth_view (ab_asks (abs_of b))\<rparr>])"
proof (rule publish_cases [OF reachable_inv [OF assms(2)] assms(3) md_inv_parts(2) [OF md_reachable_inv [OF assms(1)]]])
  fix f'
  assume *: "publish b (ms_feed s) = Some f'" "queued f' = queued (ms_feed s) @ [view_event b (ms_feed s)]"
    "ring_inv market_data_capacity (mf_queue f')" "mf_next_sequence (ms_feed s) \<noteq> 0"
    "mf_next_sequence (ms_feed s) \<noteq> - 1" "mf_dropped_events f' = mf_dropped_events (ms_feed s)"
    "mf_published_events f' = mf_published_events (ms_feed s) + 1"
  have "length (queued (ms_feed s)) \<noteq> 1024"
    using ring_contents_bound [OF *(3)] unfolding *(2) by (simp add: market_data_capacity_def del: length_ring_contents)
  then show ?thesis using * by (simp add: view_event_def abs_of_def entries_def levels_of_def)
qed auto

theorem publish_accounts_witness:
  "\<exists>f'. publish example_book (ms_feed (md_init blank_event 4)) = Some f' \<and> mf_published_events f' = 1 \<and>
     map me_kind (queued f') = [Snapshot]"
  using publish_accounts [OF md_reachable.init [of "\<lambda>e. e" blank_event 4] example_book_reachable example_no_overflow]
  by (auto simp: md_init_def make_feed_def ring_inv_empty)

text \<open>
  Snapshots bound recovery: among the events that entered the queue, in the order they
  did, no run of consecutive depth updates is longer than the configured snapshot interval (at
  least one).
\<close>

theorem updates_between_snapshots:
  assumes "md_reachable moved dflt interval s" and "md_history s = xs @ us @ ys"
    and "list_all (\<lambda>e. me_kind e = Depth_update) us"
  shows "length us \<le> unat (max interval 1)"
proof -
  have "trailing_updates (xs @ us) \<le> unat (max interval 1)"
    using md_reachable_inv [OF assms(1)] assms(2) unfolding md_inv_def by (metis append.assoc)
  moreover have "length us \<le> trailing_updates (xs @ us)" if "list_all (\<lambda>e. me_kind e = Depth_update) us" for us
    using that by (induction us rule: rev_induct) (simp_all flip: append_assoc)
  ultimately show ?thesis using assms(3) order_trans by blast
qed

theorem updates_between_snapshots_witness:
  "\<exists>s u. md_history s = [view_event example_book (ms_feed (md_init blank_event 1)), u] \<and> length [u] \<le> unat (max 1 1 :: size_t)"
proof -
  obtain f where f: "md_reachable (\<lambda>e. e) blank_event 1 ((md_init blank_event 1)\<lparr>ms_feed := f\<rparr>)"
      "queued f = [view_event example_book (ms_feed (md_init blank_event 1))]" "\<not> mf_snapshot_pending f"
      "mf_next_sequence f = 2"
    using example_publish [OF md_reachable.init, of blank_event 1 "\<lambda>e. e"] by auto
  obtain g where g: "md_reachable (\<lambda>e. e) blank_event 1 ((md_init blank_event 1)\<lparr>ms_feed := g\<rparr>)"
      "queued g = queued f @ [view_event example_book f]"
    using example_publish [OF f(1)] f(2-4) by auto
  have "length [view_event example_book f] \<le> unat (max 1 1 :: size_t)"
    by (rule updates_between_snapshots [OF g(1), where xs = "queued f" and ys = "[]"])
      (simp_all add: md_history_def g(2) f(2,3) view_event_def)
  moreover have "md_history ((md_init blank_event 1)\<lparr>ms_feed := g\<rparr>) =
      [view_event example_book (ms_feed (md_init blank_event 1)), view_event example_book f]"
    using g(2) f(2) by (simp add: md_history_def)
  ultimately show ?thesis by blast
qed

text \<open>
  Claim C23. Draining catches up: after a publication, with room in the queue, of a book whose levels
  hold less than \<open>2 ^ 64\<close> units each and before the sequence number wraps around,
  \<open>publish_available\<close> ends, applies every queued event, empties the queue and leaves the subscriber
  synchronised with exactly the top five levels of the published book.
\<close>

theorem drain_synchronizes:
  assumes "md_reachable moved dflt interval s" and "book_reachable b" and "no_overflow (abs_of b)"
    and "mf_next_sequence (ms_feed s) \<noteq> 0" and "mf_next_sequence (ms_feed s) \<noteq> - 1"
    and "length (queued (ms_feed s)) < 1024"
  shows "\<exists>f' q' mb'. publish b (ms_feed s) = Some f' \<and>
    publish_available moved (mf_queue f') (ms_subscriber s) 0 =
      Some (of_nat (length (queued (ms_feed s)) + 1), q', mb') \<and>
    ring_contents market_data_capacity q' = [] \<and> mb_synchronized mb' \<and>
    mb_bids mb' = depth_view (ab_bids (abs_of b)) \<and> mb_asks mb' = depth_view (ab_asks (abs_of b))"
proof -
  obtain f' where f': "publish b (ms_feed s) = Some f'" "md_reachable moved dflt interval (s\<lparr>ms_feed := f'\<rparr>)"
      "queued f' = queued (ms_feed s) @ [view_event b (ms_feed s)]"
    using md_publish_step [OF assms] by blast
  note inv = md_reachable_inv [OF f'(2)]
  have "stream_from None (ms_delivered s @ queued f')" using md_inv_parts(4) [OF inv] by (simp add: md_history_def)
  moreover have "ring_inv market_data_capacity (mf_queue f')" "follows (ms_subscriber s) (ms_delivered s)"
    using md_inv_parts(2,3) [OF inv] by simp_all
  ultimately obtain q' mb' where d: "publish_available moved (mf_queue f') (ms_subscriber s) 0 =
      Some (0 + of_nat (length (queued f')), q', mb')" "ring_contents market_data_capacity q' = []"
      "follows mb' (ms_delivered s @ queued f')"
    using publish_available_drains by blast
  have "length (queued f') = length (queued (ms_feed s)) + 1" by (subst f'(3)) simp
  then show ?thesis using d f'(1,3)
    by (auto simp: follows_def view_event_def abs_of_def entries_def levels_of_def simp del: length_ring_contents)
qed

theorem drain_synchronizes_witness:
  "\<exists>f' q' mb'. publish example_book (ms_feed (md_init blank_event 4)) = Some f' \<and>
     publish_available (\<lambda>e. e) (mf_queue f') empty_market_data_book 0 = Some (1, q', mb') \<and> mb_synchronized mb' \<and>
     mb_bids mb' = depth_view (ab_bids (abs_of example_book))"
  using drain_synchronizes [OF md_reachable.init [of "\<lambda>e. e" blank_event 4] example_book_reachable example_no_overflow]
  by (auto simp: md_init_def make_feed_def ring_inv_empty simp del: length_ring_contents)

end
