(* ===== verification/Observability.thy ===== *)
theory Observability
  imports Exchange_Prelude
begin

text \<open>
  The latency histogram of \<open>include/low_latency_exchange/observability.hpp\<close>: 64 logarithmic buckets,
  a count and the extremes. Floating-point arithmetic is not modelled: the rank that
  \<open>percentile_upper_bound\<close> computes from its \<open>double\<close> argument is a parameter
  (\<open>to_rank n\<close> stands for \<open>static_cast<std::uint64_t>(percentile * static_cast<double>(n))\<close>), and the
  results hold for any rank below the number of observations.
\<close>

definition kLatencyHistogramBuckets :: nat where "kLatencyHistogramBuckets = 64"

record latency_histogram_snapshot =
  ls_buckets :: "u64 list"
  ls_count :: u64
  ls_min_nanoseconds :: u64
  ls_max_nanoseconds :: u64

record latency_histogram =
  lh_buckets :: "u64 list"
  lh_count :: u64
  lh_min_nanoseconds :: u64
  lh_max_nanoseconds :: u64

definition empty_histogram :: latency_histogram where
  "empty_histogram = \<lparr>lh_buckets = replicate kLatencyHistogramBuckets 0, lh_count = 0,
     lh_min_nanoseconds = - 1, lh_max_nanoseconds = 0\<rparr>"

text \<open>\<open>std::bit_width\<close>: the number of bits needed to write the value.\<close>

fun bit_width :: "nat \<Rightarrow> nat" where
  "bit_width n = (if n = 0 then 0 else Suc (bit_width (n div 2)))"

declare bit_width.simps [simp del]

definition normalized :: "u64 \<Rightarrow> u64" where
  "normalized nanoseconds = (if nanoseconds = 0 then 1 else nanoseconds)"

definition bucket_index :: "u64 \<Rightarrow> nat" where
  "bucket_index v = min (bit_width (unat v) - 1) (kLatencyHistogramBuckets - 1)"

definition observe :: "u64 \<Rightarrow> latency_histogram \<Rightarrow> latency_histogram" where
  "observe nanoseconds h =
     (let v = normalized nanoseconds;
          bucket = bucket_index v;
          h1 = h\<lparr>lh_buckets := (lh_buckets h)[bucket := lh_buckets h ! bucket + 1], lh_count := lh_count h + 1\<rparr>;
          h2 = (if v < lh_min_nanoseconds h1 then h1\<lparr>lh_min_nanoseconds := v\<rparr> else h1)
      in if v > lh_max_nanoseconds h2 then h2\<lparr>lh_max_nanoseconds := v\<rparr> else h2)"

definition snapshot :: "latency_histogram \<Rightarrow> latency_histogram_snapshot" where
  "snapshot h = \<lparr>ls_buckets = lh_buckets h, ls_count = lh_count h,
     ls_min_nanoseconds = (if lh_count h = 0 then 0 else lh_min_nanoseconds h),
     ls_max_nanoseconds = lh_max_nanoseconds h\<rparr>"

fun percentile_loop :: "u64 \<Rightarrow> nat \<Rightarrow> u64 \<Rightarrow> u64 list \<Rightarrow> u64 option" where
  "percentile_loop rank index observed [] = None"
| "percentile_loop rank index observed (b # bs) =
     (let observed' = observed + b in
      if observed' > rank then Some (if index = 0 then 1 else push_bit index 1)
      else percentile_loop rank (Suc index) observed' bs)"

definition percentile_upper_bound :: "(u64 \<Rightarrow> u64) \<Rightarrow> latency_histogram_snapshot \<Rightarrow> u64" where
  "percentile_upper_bound to_rank s =
     (if ls_count s = 0 then 0
      else case percentile_loop (to_rank (ls_count s - 1)) 0 0 (ls_buckets s) of
             Some v \<Rightarrow> v
           | None \<Rightarrow> ls_max_nanoseconds s)"

section \<open>What the histogram stores\<close>

lemma bit_width_le: "bit_width n \<le> i \<longleftrightarrow> n < 2 ^ i"
proof (induction n arbitrary: i rule: bit_width.induct)
  case (1 n)
  show ?case
  proof (cases "n = 0 \<or> i = 0")
    case True
    then show ?thesis by (subst bit_width.simps) auto
  next
    case False
    then obtain j where i: "i = Suc j" by (cases i) auto
    have "bit_width n = Suc (bit_width (n div 2))" using False by (subst bit_width.simps) simp
    moreover have "n div 2 < 2 ^ j \<longleftrightarrow> n < 2 ^ i" by (auto simp: i)
    ultimately show ?thesis using 1 [of j] False by (simp add: i)
  qed
qed

lemma bucket_index_eq:
  assumes "v \<noteq> 0"
  shows "bucket_index v = i \<longleftrightarrow> 2 ^ i \<le> unat v \<and> unat v < 2 ^ Suc i"
proof -
  have "bit_width (unat v) \<le> 64" using unsigned_less [of v] by (simp add: bit_width_le)
  moreover have "bit_width (unat v) \<noteq> 0" using assms bit_width_le [of "unat v" 0] by (simp add: unat_eq_zero)
  ultimately have "bucket_index v = i \<longleftrightarrow> bit_width (unat v) = Suc i"
    by (auto simp: bucket_index_def kLatencyHistogramBuckets_def)
  also have "\<dots> \<longleftrightarrow> \<not> bit_width (unat v) \<le> i \<and> bit_width (unat v) \<le> Suc i" by auto
  finally show ?thesis by (simp only: bit_width_le not_less)
qed

text \<open>Observations below \<open>2 ^ i\<close>: the prefix sums of the buckets.\<close>

definition below :: "nat \<Rightarrow> u64 list \<Rightarrow> nat" where
  "below i vs = length (filter (\<lambda>v. unat v < 2 ^ i) vs)"

definition histogram_of :: "u64 list \<Rightarrow> latency_histogram \<Rightarrow> bool" where
  "histogram_of vs h \<longleftrightarrow>
     length (lh_buckets h) = 64 \<and>
     (\<forall>i < 64. lh_buckets h ! i = of_nat (below (Suc i) vs - below i vs)) \<and>
     lh_count h = of_nat (length vs) \<and>
     lh_min_nanoseconds h = fold min vs (- 1) \<and> lh_max_nanoseconds h = fold max vs 0"

lemma below_Nil [simp]: "below i [] = 0"
  by (simp add: below_def)

lemma below_snoc: "below i (vs @ [v]) = below i vs + (if unat v < 2 ^ i then 1 else 0)"
  by (simp add: below_def)

lemma below_mono:
  assumes "i \<le> j"
  shows "below i vs \<le> below j vs"
proof -
  have "n < 2 ^ i \<Longrightarrow> n < (2 :: nat) ^ j" for n
    using power_increasing [OF assms, of "2 :: nat"] by linarith
  then show ?thesis by (induction vs) (auto simp: below_def)
qed

lemma histogram_of_empty: "histogram_of [] empty_histogram"
  by (simp add: histogram_of_def empty_histogram_def kLatencyHistogramBuckets_def)

lemma histogram_of_observe:
  assumes "histogram_of vs h"
  shows "histogram_of (vs @ [normalized n]) (observe n h)"
proof -
  let ?v = "normalized n"
  have v: "?v \<noteq> 0" by (simp add: normalized_def)
  have "lh_buckets (observe n h) ! i = of_nat (below (Suc i) (vs @ [?v]) - below i (vs @ [?v]))"
    if "i < 64" for i
  proof -
    have "lh_buckets (observe n h) ! i = lh_buckets h ! i + (if bucket_index ?v = i then 1 else 0)"
      using assms that by (auto simp: histogram_of_def observe_def Let_def nth_list_update)
    moreover have "below (Suc i) (vs @ [?v]) - below i (vs @ [?v]) =
        below (Suc i) vs - below i vs + (if bucket_index ?v = i then 1 else 0)"
      using below_mono [of i "Suc i" vs] bucket_index_eq [OF v, of i] by (auto simp: below_snoc Suc_diff_le not_less)
    ultimately show ?thesis using assms that by (simp add: histogram_of_def)
  qed
  then show ?thesis using assms
    by (auto simp: histogram_of_def observe_def Let_def min_def max_def)
qed

lemma histogram_of_fold: "histogram_of (map normalized ns) (fold observe ns empty_histogram)"
  by (induction ns rule: rev_induct) (simp_all add: histogram_of_empty histogram_of_observe)

section \<open>Percentiles\<close>

lemma below_le_length: "below i vs \<le> length vs"
  by (simp add: below_def)

lemma below_all: "below 64 vs = length vs"
proof -
  have "filter (\<lambda>v. unat v < 2 ^ 64) vs = vs"
    by (intro filter_True ballI) (rule order_less_le_trans [OF unsigned_less], simp)
  then show ?thesis by (simp add: below_def)
qed

lemma percentile_loop_finds:
  assumes "\<forall>i < 64. bs ! i = of_nat (below (Suc i) vs - below i vs)" and "length bs = 64"
    and "length vs < 2 ^ 64" and "unat rank < length vs"
  shows "i \<le> 64 \<Longrightarrow> below i vs \<le> unat rank \<Longrightarrow>
    \<exists>j < 64. percentile_loop rank i (of_nat (below i vs)) (drop i bs) = Some (push_bit j 1) \<and>
      below j vs \<le> unat rank \<and> unat rank < below (Suc j) vs"
proof (induction "64 - i" arbitrary: i)
  case 0
  then show ?case using assms(4) below_all [of vs] by simp
next
  case (Suc n)
  then have i: "i < 64" by simp
  have bs: "drop i bs = bs ! i # drop (Suc i) bs" using i assms(2) by (simp add: Cons_nth_drop_Suc)
  have sum: "of_nat (below i vs) + bs ! i = of_nat (below (Suc i) vs)"
    using assms(1) i below_mono [of i "Suc i" vs] by (simp flip: of_nat_add)
  have "below (Suc i) vs < 2 ^ 64" using below_le_length [of "Suc i" vs] assms(3) by linarith
  then have gt: "rank < of_nat (below (Suc i) vs) \<longleftrightarrow> unat rank < below (Suc i) vs"
    by (simp add: word_less_nat_alt)
  show ?case
  proof (cases "unat rank < below (Suc i) vs")
    case True
    then show ?thesis using Suc.prems i gt by (auto simp: bs sum Let_def)
  next
    case False
    then show ?thesis using Suc.hyps i gt by (simp add: bs sum Let_def)
  qed
qed

lemma sorted_nth_less_iff:
  assumes "sorted xs" and "r < length xs"
  shows "xs ! r < t \<longleftrightarrow> r < length (filter (\<lambda>x. x < t) xs)"
  using assms
proof (induction xs arbitrary: r)
  case (Cons x xs)
  show ?case
  proof (cases "x < t")
    case True
    then show ?thesis using Cons by (cases r) auto
  next
    case False
    then have "filter (\<lambda>y. y < t) xs = []" using Cons.prems(1) by (auto simp: filter_empty_conv)
    moreover have "x \<le> (x # xs) ! r" using Cons.prems by (cases r) auto
    ultimately show ?thesis using False by auto
  qed
qed simp

lemma filter_sort_length: "length (filter P (sort xs)) = length (filter P xs)"
  by (metis mset_filter mset_sort size_mset)

lemma below_difference: "below (Suc i) vs - below i vs = length (filter (\<lambda>v. 2 ^ i \<le> unat v \<and> unat v < 2 ^ Suc i) vs)"
proof (induction vs)
  case (Cons v vs)
  have "below i vs \<le> below (Suc i) vs" by (rule below_mono) simp
  with Cons show ?case by (auto simp: below_def not_less)
qed simp

lemma unat_fold_min: "unat (fold min vs m) = Min (set (map unat (m # vs)))" for m :: u64
proof -
  have "unat (fold min vs m) = fold min (map unat vs) (unat m)"
    by (induction vs arbitrary: m) (auto simp: min_def word_le_nat_alt)
  then show ?thesis by (simp only: list.map Min.set_eq_fold)
qed

lemma unat_fold_max: "unat (fold max vs m) = Max (set (map unat (m # vs)))" for m :: u64
proof -
  have "unat (fold max vs m) = fold max (map unat vs) (unat m)"
    by (induction vs arbitrary: m) (auto simp: max_def word_le_nat_alt)
  then show ?thesis by (simp only: list.map Max.set_eq_fold)
qed

text \<open>
  Claim C38. The histogram is exact. After any sequence of fewer than \<open>2 ^ 64\<close> observations the snapshot
  has 64 buckets, bucket \<open>i\<close> counts exactly the observations from \<open>2 ^ i\<close> to \<open>2 ^ (i + 1) - 1\<close>
  nanoseconds, zero counting as one, the count is the number of observations, and minimum and maximum
  are the least and the greatest of them, both zero when there are none.
\<close>

theorem histogram_exact:
  assumes "length ns < 2 ^ 64"
  shows "let s = snapshot (fold observe ns empty_histogram); vs = map (unat \<circ> normalized) ns in
    length (ls_buckets s) = 64 \<and>
    (\<forall>i < 64. unat (ls_buckets s ! i) = length (filter (\<lambda>v. 2 ^ i \<le> v \<and> v < 2 ^ Suc i) vs)) \<and>
    unat (ls_count s) = length vs \<and>
    unat (ls_min_nanoseconds s) = (if vs = [] then 0 else Min (set vs)) \<and>
    unat (ls_max_nanoseconds s) = (if vs = [] then 0 else Max (set vs))"
proof -
  let ?h = "fold observe ns empty_histogram" and ?vs = "map normalized ns"
  have h: "histogram_of ?vs ?h" by (rule histogram_of_fold)
  have "unat (lh_buckets ?h ! i) = length (filter (\<lambda>v. 2 ^ i \<le> v \<and> v < 2 ^ Suc i) (map (unat \<circ> normalized) ns))" if "i < 64" for i
  proof -
    let ?n = "length (filter (\<lambda>v. 2 ^ i \<le> unat v \<and> unat v < 2 ^ Suc i) ?vs)"
    have "?n \<le> length ?vs" by (rule length_filter_le)
    also have "\<dots> < 2 ^ 64" using assms by simp
    finally have lt: "?n < 2 ^ 64" .
    have "lh_buckets ?h ! i = of_nat ?n" using h that by (simp only: histogram_of_def below_difference)
    then have "unat (lh_buckets ?h ! i) = ?n" using lt unat_of_nat_less [of ?n, where 'a = 64] by (simp only: len_num1 len_bit0 len_bit1) simp
    then show ?thesis by (simp add: filter_map comp_def)
  qed
  moreover have "length (lh_buckets ?h) = 64" "unat (lh_count ?h) = length ns" using h assms by (simp_all add: histogram_of_def unat_of_nat)
  moreover have "unat (lh_min_nanoseconds ?h) = Min (set (map unat ?vs))" if "ns \<noteq> []"
  proof -
    have "Min (set (map unat ?vs)) \<le> unat (normalized (hd ns))" using that by (intro Min_le) simp_all
    also have "\<dots> \<le> unat (- 1 :: u64)" by (simp flip: word_le_nat_alt)
    finally have "min (unat (- 1 :: u64)) (Min (set (map unat ?vs))) = Min (set (map unat ?vs))" by (rule min_absorb2)
    moreover have "unat (lh_min_nanoseconds ?h) = Min (insert (unat (- 1 :: u64)) (set (map unat ?vs)))"
      using h by (simp only: histogram_of_def unat_fold_min list.map list.set)
    ultimately show ?thesis using that by (simp add: Min_insert)
  qed
  moreover have "unat (lh_max_nanoseconds ?h) = (if ns = [] then 0 else Max (set (map unat ?vs)))"
    using h by (simp add: histogram_of_def unat_fold_max)
  moreover have "lh_count ?h = 0 \<longleftrightarrow> ns = []" using \<open>unat (lh_count ?h) = length ns\<close> unat_eq_zero [of "lh_count ?h"] by auto
  ultimately show ?thesis by (simp add: snapshot_def Let_def comp_def)
qed

theorem histogram_exact_witness:
  "let s = snapshot (fold observe [700, 3, 0, 2] empty_histogram) in
     unat (ls_buckets s ! 0) = 1 \<and> unat (ls_buckets s ! 1) = 2 \<and> unat (ls_count s) = 4 \<and>
     unat (ls_min_nanoseconds s) = 1 \<and> unat (ls_max_nanoseconds s) = 700"
  using histogram_exact [of "[700, 3, 0, 2]"] by (simp add: Let_def normalized_def)

text \<open>
  The percentile against its documentation: the comment on \<open>percentile_upper_bound\<close> promises the upper
  bound of the bucket, but the value is its lower end. For any observations and any rank below their
  number, the value returned for that rank is at most the observation of that rank in ascending order
  (zero counting as one), which in turn is below twice the value; so the value bounds the observation
  from above only if the two are equal.
\<close>

theorem percentile_brackets:
  assumes "length ns < 2 ^ 64" and "unat (to_rank (of_nat (length ns) - 1)) < length ns"
  shows "let v = sort (map (unat \<circ> normalized) ns) ! unat (to_rank (of_nat (length ns) - 1));
             p = percentile_upper_bound to_rank (snapshot (fold observe ns empty_histogram))
         in unat p \<le> v \<and> v < 2 * unat p \<and> (v \<le> unat p \<longleftrightarrow> v = unat p)"
proof -
  let ?h = "fold observe ns empty_histogram" and ?vs = "map normalized ns" and ?rank = "to_rank (of_nat (length ns) - 1)"
  let ?v = "sort (map unat ?vs) ! unat ?rank"
  have h: "histogram_of ?vs ?h" by (rule histogram_of_fold)
  have "below 0 ?vs = 0" by (simp add: below_def normalized_def unat_eq_zero)
  then obtain j where j: "j < 64" "percentile_loop ?rank 0 0 (lh_buckets ?h) = Some (push_bit j 1)"
      "below j ?vs \<le> unat ?rank" "unat ?rank < below (Suc j) ?vs"
    using percentile_loop_finds [of "lh_buckets ?h" ?vs ?rank 0] h assms by (auto simp: histogram_of_def)
  have iff: "?v < 2 ^ i \<longleftrightarrow> unat ?rank < below i ?vs" for i
    using sorted_nth_less_iff [of "sort (map unat ?vs)" "unat ?rank" "2 ^ i"] assms(2)
    by (simp add: filter_sort_length below_def filter_map comp_def)
  have "lh_count ?h \<noteq> 0" using h assms by (auto simp: histogram_of_def of_nat_eq_0_word_iff)
  then have "percentile_upper_bound to_rank (snapshot ?h) = push_bit j 1"
    using j(2) h by (simp add: percentile_upper_bound_def snapshot_def histogram_of_def)
  moreover have "unat (push_bit j 1 :: u64) = 2 ^ j"
    using unat_of_nat_less [of "2 ^ j", where 'a = 64] power_strict_increasing [OF j(1), of "2 :: nat"]
    by (simp add: push_bit_eq_mult)
  moreover have "2 ^ j \<le> ?v" "?v < 2 * 2 ^ j" using iff [of j] iff [of "Suc j"] j(3,4) by (simp_all add: not_less)
  ultimately show ?thesis by (auto simp: Let_def)
qed

theorem percentile_brackets_witness:
  "unat (percentile_upper_bound (\<lambda>n. n) (snapshot (fold observe [700, 3, 90] empty_histogram))) \<le> 700 \<and>
   700 < 2 * unat (percentile_upper_bound (\<lambda>n. n) (snapshot (fold observe [700, 3, 90] empty_histogram)))"
  using percentile_brackets [of "[700, 3, 90]" "\<lambda>n. n"] by (simp add: normalized_def Let_def)

lemma percentile_below_observation:
  "percentile_upper_bound (\<lambda>n. n) (snapshot (observe 3 empty_histogram)) = 2"
  by code_simp

end
