(* ===== verification/Matching_Engine.thy ===== *)
theory Matching_Engine
  imports Event_Log Market_Data_Properties Observability Protocol_Codec
begin

text \<open>
  The matching engine service of \<open>include/low_latency_exchange/tcp_gateway.hpp\<close> and
  \<open>src/tcp_gateway.cpp\<close>: it takes commands off the inbound queue, applies them to the book, sends the
  resulting events to the outbound queue, captures accepted commands and publishes the book.

  The gateway thread consumes the outbound queue while the engine runs. Its turns are an explicit
  schedule: before each push attempt the gateway takes as many messages as the next entry of
  \<open>en_turns\<close> says, and none once the schedule is used up; \<open>en_taken\<close> records what it took. The busy
  wait of \<open>push_outbound\<close> is a \<open>partial_function\<close>, so an attempt that spins forever has the value
  \<open>None\<close>. The message types are trivially copyable, so moving out of a slot leaves it as it was. The
  reading of the steady clock is an argument of \<open>process_one\<close>.
\<close>

section \<open>Messages\<close>

record inbound_message =
  im_session_id :: u64
  im_command :: command
  im_wire_bytes :: u32
  im_received_at :: i64

datatype outbound_payload = No_payload
  | Order_accepted order_accepted_event
  | Order_rejected order_rejected_event
  | Execution execution_event
  | Cancel_accepted cancel_accepted_event
  | Protocol_error protocol_error_event

record outbound_message =
  om_session_id :: u64
  om_type :: message_type
  om_flags :: u16
  om_payload :: outbound_payload

record matching_engine_metrics =
  em_accepted_commands :: u64
  em_rejected_commands :: u64
  em_accepted_cancels :: u64
  em_rejected_cancels :: u64
  em_executions :: u64
  em_inbound_bytes :: u64
  em_outbound_bytes :: u64
  em_inbound_queue_high_water :: size_t
  em_outbound_queue_high_water :: size_t
  em_command_to_ack_latency :: latency_histogram_snapshot

record engine =
  en_inbound :: "inbound_message ring"
  en_outbound :: "outbound_message ring"
  en_market_data_feed :: "market_data_feed option"
  en_event_capture_feed :: "event_capture_feed option"
  en_book :: order_book
  en_order_sessions :: "order_id \<rightharpoonup> u64"
  en_metrics :: matching_engine_metrics
  en_command_to_ack_latency :: latency_histogram
  en_turns :: "nat list"
  en_taken :: "outbound_message list"

definition zero_metrics :: matching_engine_metrics where
  "zero_metrics = \<lparr>em_accepted_commands = 0, em_rejected_commands = 0, em_accepted_cancels = 0,
     em_rejected_cancels = 0, em_executions = 0, em_inbound_bytes = 0, em_outbound_bytes = 0,
     em_inbound_queue_high_water = 0, em_outbound_queue_high_water = 0,
     em_command_to_ack_latency = \<lparr>ls_buckets = replicate kLatencyHistogramBuckets 0, ls_count = 0,
       ls_min_nanoseconds = 0, ls_max_nanoseconds = 0\<rparr>\<rparr>"

definition make_engine ::
    "inbound_message ring \<Rightarrow> outbound_message ring \<Rightarrow> market_data_feed option \<Rightarrow> event_capture_feed option \<Rightarrow>
     nat list \<Rightarrow> engine" where
  "make_engine inbound outbound feed capture_feed turns =
     \<lparr>en_inbound = inbound, en_outbound = outbound, en_market_data_feed = feed,
      en_event_capture_feed = capture_feed, en_book = empty_book, en_order_sessions = Map.empty,
      en_metrics = zero_metrics, en_command_to_ack_latency = empty_histogram, en_turns = turns, en_taken = []\<rparr>"

section \<open>The outbound queue and its consumer\<close>

primrec take_outbound :: "nat \<Rightarrow> outbound_message ring \<Rightarrow> outbound_message list \<times> outbound_message ring" where
  "take_outbound 0 q = ([], q)"
| "take_outbound (Suc n) q =
     (case try_pop message_capacity (\<lambda>m. m) q of
        (None, q') \<Rightarrow> ([], q')
      | (Some m, q') \<Rightarrow> let (ms, q'') = take_outbound n q' in (m # ms, q''))"

definition gateway_turn :: "engine \<Rightarrow> engine" where
  "gateway_turn e =
     (case en_turns e of
        [] \<Rightarrow> e
      | n # turns \<Rightarrow> let (ms, q) = take_outbound n (en_outbound e)
                    in e\<lparr>en_outbound := q, en_taken := en_taken e @ ms, en_turns := turns\<rparr>)"

definition record_outbound_message :: "outbound_message \<Rightarrow> engine \<Rightarrow> engine" where
  "record_outbound_message msg e =
     (case expected_payload_length (om_type msg) of
        None \<Rightarrow> e
      | Some payload_size \<Rightarrow>
          e\<lparr>en_metrics := (en_metrics e)\<lparr>em_outbound_bytes :=
              em_outbound_bytes (en_metrics e) + (of_nat kHeaderSize + ucast payload_size)\<rparr>\<rparr>)"

partial_function (option) push_loop :: "outbound_message \<Rightarrow> engine \<Rightarrow> engine ub" where
  "push_loop msg e =
     (let e1 = gateway_turn e;
          (ok, q) = try_push message_capacity msg (en_outbound e1);
          e2 = e1\<lparr>en_outbound := q\<rparr>
      in if ok then Some e2 else push_loop msg e2)"

definition push_outbound :: "outbound_message \<Rightarrow> engine \<Rightarrow> engine ub" where
  "push_outbound msg e = do {
     let e1 = record_outbound_message msg e;
     e2 \<leftarrow> push_loop msg e1;
     let occupancy = ring_size (en_outbound e2);
     Some (if occupancy > em_outbound_queue_high_water (en_metrics e2)
           then e2\<lparr>en_metrics := (en_metrics e2)\<lparr>em_outbound_queue_high_water := occupancy\<rparr>\<rparr>
           else e2)
   }"

section \<open>Handlers\<close>

definition record_command_result :: "i64 \<Rightarrow> inbound_message \<Rightarrow> bool \<Rightarrow> engine \<Rightarrow> engine" where
  "record_command_result now message accepted e =
     (let m1 = (if accepted then (en_metrics e)\<lparr>em_accepted_commands := em_accepted_commands (en_metrics e) + 1\<rparr>
                else (en_metrics e)\<lparr>em_rejected_commands := em_rejected_commands (en_metrics e) + 1\<rparr>);
          m2 = (case im_command message of
                  Cancel_order _ \<Rightarrow>
                    if accepted then m1\<lparr>em_accepted_cancels := em_accepted_cancels m1 + 1\<rparr>
                    else m1\<lparr>em_rejected_cancels := em_rejected_cancels m1 + 1\<rparr>
                | _ \<Rightarrow> m1);
          e1 = e\<lparr>en_metrics := m2\<rparr>
      in if im_received_at message \<noteq> 0 then
           let nanoseconds = now - im_received_at message
           in e1\<lparr>en_command_to_ack_latency :=
                  observe (if sint nanoseconds > 0 then nanoseconds else 0) (en_command_to_ack_latency e1)\<rparr>
         else e1)"

definition engine_metrics :: "engine \<Rightarrow> matching_engine_metrics" where
  "engine_metrics e = (en_metrics e)\<lparr>em_command_to_ack_latency := snapshot (en_command_to_ack_latency e)\<rparr>"

definition execution_message :: "u64 \<Rightarrow> u16 \<Rightarrow> sequence_number \<Rightarrow> execution \<Rightarrow> outbound_message" where
  "execution_message session_id flags sq exec =
     \<lparr>om_session_id = session_id, om_type = mt_execution, om_flags = flags,
      om_payload = Execution \<lparr>ee_sequence = sq, ee_resting_order_id = ex_resting_order_id exec,
        ee_incoming_order_id = ex_incoming_order_id exec, ee_price = ex_price exec, ee_quantity = ex_quantity exec\<rparr>\<rparr>"

definition rejected_message :: "message_type \<Rightarrow> u64 \<Rightarrow> sequence_number \<Rightarrow> order_id \<Rightarrow> error_code \<Rightarrow> outbound_message" where
  "rejected_message type session_id sq oid code =
     \<lparr>om_session_id = session_id, om_type = type, om_flags = 0,
      om_payload = Order_rejected \<lparr>or_sequence = sq, or_order_id = oid, or_error_code = code\<rparr>\<rparr>"

definition accepted_message :: "message_type \<Rightarrow> u64 \<Rightarrow> sequence_number \<Rightarrow> order_id \<Rightarrow> u64 \<Rightarrow> outbound_message" where
  "accepted_message type session_id sq oid remaining_units =
     \<lparr>om_session_id = session_id, om_type = type, om_flags = 0,
      om_payload = Order_accepted \<lparr>oa_sequence = sq, oa_order_id = oid, oa_remaining_quantity = remaining_units\<rparr>\<rparr>"

definition cancelled_message :: "u64 \<Rightarrow> sequence_number \<Rightarrow> order_id \<Rightarrow> quantity \<Rightarrow> outbound_message" where
  "cancelled_message session_id sq oid q =
     \<lparr>om_session_id = session_id, om_type = mt_cancel_accepted, om_flags = 0,
      om_payload = Cancel_accepted \<lparr>ca_sequence = sq, ca_order_id = oid, ca_cancelled_quantity = q\<rparr>\<rparr>"

definition emit_execution :: "u64 \<Rightarrow> sequence_number \<Rightarrow> execution \<Rightarrow> engine \<Rightarrow> engine ub" where
  "emit_execution session_id sq exec e = do {
     let e1 = e\<lparr>en_metrics := (en_metrics e)\<lparr>em_executions := em_executions (en_metrics e) + 1\<rparr>\<rparr>;
     let resting_session_id = (case en_order_sessions e1 (ex_resting_order_id exec) of Some s \<Rightarrow> s | None \<Rightarrow> 0);
     let e2 = (if \<not> contains (ex_resting_order_id exec) (en_book e1)
               then e1\<lparr>en_order_sessions := (en_order_sessions e1)(ex_resting_order_id exec := None)\<rparr> else e1);
     e3 \<leftarrow> push_outbound (execution_message session_id kFlagMore sq exec) e2;
     if resting_session_id \<noteq> 0 \<and> resting_session_id \<noteq> session_id
     then push_outbound (execution_message resting_session_id 0 sq exec) e3
     else Some e3
   }"

primrec emit_executions :: "u64 \<Rightarrow> sequence_number \<Rightarrow> execution list \<Rightarrow> engine \<Rightarrow> engine ub" where
  "emit_executions session_id sq [] e = Some e"
| "emit_executions session_id sq (exec # execs) e = do {
     e1 \<leftarrow> emit_execution session_id sq exec e;
     emit_executions session_id sq execs e1
   }"

definition remaining_units :: "quantity option \<Rightarrow> u64" where
  "remaining_units q = (case q of Some q' \<Rightarrow> units q' | None \<Rightarrow> 0)"

definition handle_new_order :: "u64 \<Rightarrow> new_order \<Rightarrow> engine \<Rightarrow> (bool \<times> engine) ub" where
  "handle_new_order session_id order e = do {
     (result, book) \<leftarrow> submit order (en_book e);
     let e1 = e\<lparr>en_book := book\<rparr>;
     case sr_rejection result of
       Some reason \<Rightarrow> do {
         e2 \<leftarrow> push_outbound (rejected_message mt_order_rejected session_id (no_sequence order) (no_order_id order)
                 (submit_error_code reason)) e1;
         Some (False, e2)
       }
     | None \<Rightarrow> do {
         e2 \<leftarrow> emit_executions session_id (no_sequence order) (sr_executions result) e1;
         let remaining = remaining_units (sr_remaining_quantity result);
         e3 \<leftarrow> push_outbound (accepted_message mt_order_accepted session_id (no_sequence order) (no_order_id order)
                 remaining) e2;
         Some (True, if remaining > 0 \<and> contains (no_order_id order) (en_book e3)
                     then e3\<lparr>en_order_sessions := (en_order_sessions e3)(no_order_id order \<mapsto> session_id)\<rparr> else e3)
       }
   }"

definition handle_cancel_order :: "u64 \<Rightarrow> cancel_order \<Rightarrow> engine \<Rightarrow> (bool \<times> engine) ub" where
  "handle_cancel_order session_id order e = do {
     (result, book) \<leftarrow> cancel order (en_book e);
     let e1 = e\<lparr>en_book := book\<rparr>;
     if cancel_accepted result then do {
       let e2 = e1\<lparr>en_order_sessions := (en_order_sessions e1)(co_order_id order := None)\<rparr>;
       q \<leftarrow> cr_cancelled_quantity result;
       e3 \<leftarrow> push_outbound (cancelled_message session_id (co_sequence order) (co_order_id order) q) e2;
       Some (True, e3)
     } else do {
       reason \<leftarrow> cr_rejection result;
       e2 \<leftarrow> push_outbound (rejected_message mt_cancel_rejected session_id (co_sequence order) (co_order_id order)
               (cancel_error_code reason)) e1;
       Some (False, e2)
     }
   }"

definition handle_replace_order :: "u64 \<Rightarrow> replace_order \<Rightarrow> engine \<Rightarrow> (bool \<times> engine) ub" where
  "handle_replace_order session_id order e = do {
     (result, book) \<leftarrow> replace order (en_book e);
     let e1 = e\<lparr>en_book := book\<rparr>;
     case rr_rejection result of
       Some reason \<Rightarrow> do {
         e2 \<leftarrow> push_outbound (rejected_message mt_replace_rejected session_id (rpo_sequence order) (rpo_order_id order)
                 (replace_error_code reason)) e1;
         Some (False, e2)
       }
     | None \<Rightarrow> do {
         e2 \<leftarrow> emit_executions session_id (rpo_sequence order) (rr_executions result) e1;
         let remaining = remaining_units (rr_remaining_quantity result);
         let e3 = (if remaining > 0 \<and> contains (rpo_order_id order) (en_book e2)
                   then e2\<lparr>en_order_sessions := (en_order_sessions e2)(rpo_order_id order \<mapsto> session_id)\<rparr>
                   else e2\<lparr>en_order_sessions := (en_order_sessions e2)(rpo_order_id order := None)\<rparr>);
         e4 \<leftarrow> push_outbound (accepted_message mt_replace_accepted session_id (rpo_sequence order) (rpo_order_id order)
                 remaining) e3;
         Some (True, e4)
       }
   }"

definition handle_command :: "u64 \<Rightarrow> command \<Rightarrow> engine \<Rightarrow> (bool \<times> engine) ub" where
  "handle_command session_id command e =
     (case command of
        New_order order \<Rightarrow> handle_new_order session_id order e
      | Cancel_order order \<Rightarrow> handle_cancel_order session_id order e
      | Replace_order order \<Rightarrow> handle_replace_order session_id order e
      | Monostate \<Rightarrow> Some (False, e))"

definition count_inbound_bytes :: "inbound_message \<Rightarrow> engine \<Rightarrow> engine" where
  "count_inbound_bytes msg e =
     (let payload_size = expected_payload_length
            (case im_command msg of New_order _ \<Rightarrow> mt_new_order | Cancel_order _ \<Rightarrow> mt_cancel_order | _ \<Rightarrow> mt_replace_order);
          wire = (if im_wire_bytes msg \<noteq> 0 then ucast (im_wire_bytes msg)
                  else of_nat kHeaderSize + (case payload_size of Some n \<Rightarrow> ucast n | None \<Rightarrow> 0))
      in e\<lparr>en_metrics := (en_metrics e)\<lparr>em_inbound_bytes := em_inbound_bytes (en_metrics e) + wire\<rparr>\<rparr>)"

text \<open>The part of \<open>process_one\<close> behind the dispatch: metrics, capture of accepted commands, market data.\<close>

definition conclude_command :: "i64 \<Rightarrow> inbound_message \<Rightarrow> bool \<Rightarrow> engine \<Rightarrow> (bool \<times> engine) ub" where
  "conclude_command now msg accepted e = do {
     let e1 = record_command_result now msg accepted (count_inbound_bytes msg e);
     let e2 = (case en_event_capture_feed e1 of
                 Some feed \<Rightarrow> if accepted then e1\<lparr>en_event_capture_feed := Some (capture (im_command msg) feed)\<rparr> else e1
               | None \<Rightarrow> e1);
     case en_market_data_feed e2 of
       Some feed \<Rightarrow> do {
         feed' \<leftarrow> publish (en_book e2) feed;
         Some (True, e2\<lparr>en_market_data_feed := Some feed'\<rparr>)
       }
     | None \<Rightarrow> Some (True, e2)
   }"

definition process_one :: "i64 \<Rightarrow> engine \<Rightarrow> (bool \<times> engine) ub" where
  "process_one now e = do {
     let inbound_occupancy = ring_size (en_inbound e);
     let e1 = (if inbound_occupancy > em_inbound_queue_high_water (en_metrics e)
               then e\<lparr>en_metrics := (en_metrics e)\<lparr>em_inbound_queue_high_water := inbound_occupancy\<rparr>\<rparr> else e);
     case try_pop message_capacity (\<lambda>m. m) (en_inbound e1) of
       (None, q) \<Rightarrow> Some (False, e1\<lparr>en_inbound := q\<rparr>)
     | (Some msg, q) \<Rightarrow> do {
         (accepted, e2) \<leftarrow> handle_command (im_session_id msg) (im_command msg) (e1\<lparr>en_inbound := q\<rparr>);
         conclude_command now msg accepted e2
       }
   }"

partial_function (option) process_available :: "(nat \<Rightarrow> i64) \<Rightarrow> size_t \<Rightarrow> engine \<Rightarrow> (size_t \<times> engine) ub" where
  "process_available clock n e = do {
     (more, e') \<leftarrow> process_one (clock (unat n)) e;
     if more then process_available clock (n + 1) e' else Some (n, e')
   }"

end
