(* ===== verification/Gateway.thy ===== *)
theory Gateway
  imports Matching_Engine
begin

text \<open>
  The TCP gateway of \<open>src/tcp_gateway.cpp\<close>: serialisation of outbound events, the session state
  machine and the gateway that owns the sessions. The sources drive Boost.Asio; what is modelled is
  the program's own part, the completion handlers, and Asio is the environment that decides which
  outstanding operation completes next, with an error or with the bytes it read. A session records
  its outstanding operations: at most one read, of a header or of the payload a header announced,
  and at most one write, of the front of its write queue.

  Sessions are shared objects: a handler keeps its session alive after the gateway has dropped it
  from its table. \<open>gw_objects\<close> is the store of session objects and \<open>gw_sessions\<close> the table's keys.
  \<open>ts_frames\<close>, \<open>ts_written\<close> and \<open>gw_enqueued\<close> are histories that no operation reads.
\<close>

section \<open>Serialisation\<close>

definition encode_payload :: "outbound_message \<Rightarrow> (bool \<times> bytes) ub" where
  "encode_payload msg =
     (case om_payload msg of
        Order_accepted ev \<Rightarrow> encode_order_accepted ev (replicate kOrderAcceptedSize 0)
      | Order_rejected ev \<Rightarrow> encode_order_rejected ev (replicate kOrderRejectedSize 0)
      | Execution ev \<Rightarrow> encode_execution ev (replicate kExecutionSize 0)
      | Cancel_accepted ev \<Rightarrow> encode_cancel_accepted ev (replicate kCancelAcceptedSize 0)
      | Protocol_error ev \<Rightarrow> encode_protocol_error ev (replicate kProtocolErrorSize 0)
      | No_payload \<Rightarrow> Some (False, []))"

definition serialize_outbound :: "outbound_message \<Rightarrow> bytes ub" where
  "serialize_outbound msg = do {
     (encoded, payload) \<leftarrow> encode_payload msg;
     if \<not> encoded then Some []
     else do {
       (ok, frame) \<leftarrow> encode_frame (om_type msg) payload (om_flags msg) (replicate (kHeaderSize + length payload) 0);
       Some (if ok then frame else [])
     }
   }"

definition make_error_frame :: "error_code \<Rightarrow> u8 \<Rightarrow> bytes ub" where
  "make_error_frame code offending_type = do {
     (ok, payload) \<leftarrow> encode_protocol_error \<lparr>pe_error_code = code, pe_offending_type = offending_type\<rparr>
       (replicate kProtocolErrorSize 0);
     if \<not> ok then Some []
     else do {
       (ok', frame) \<leftarrow> encode_frame mt_protocol_error payload 0 (replicate (kHeaderSize + length payload) 0);
       Some (if ok' then frame else [])
     }
   }"

section \<open>Sessions\<close>

datatype read_operation = No_read | Read_header | Read_payload wire_header

record tcp_session =
  ts_open :: bool
  ts_write_queue :: "bytes list"
  ts_last_sequence :: u64
  ts_close_after_write :: bool
  ts_reading :: read_operation
  ts_writing :: bool
  ts_frames :: "bytes list"
  ts_written :: "bytes list"

record gateway =
  gw_inbound :: "inbound_message ring"
  gw_outbound :: "outbound_message ring"
  gw_next_session_id :: u64
  gw_sessions :: "u64 list"
  gw_stopped :: bool
  gw_accepting :: bool
  gw_draining :: bool
  gw_objects :: "u64 \<rightharpoonup> tcp_session"
  gw_enqueued :: "inbound_message list"

definition make_gateway :: "inbound_message ring \<Rightarrow> outbound_message ring \<Rightarrow> gateway" where
  "make_gateway inbound outbound = \<lparr>gw_inbound = inbound, gw_outbound = outbound, gw_next_session_id = 1,
     gw_sessions = [], gw_stopped = True, gw_accepting = False, gw_draining = False,
     gw_objects = Map.empty, gw_enqueued = []\<rparr>"

definition make_session :: tcp_session where
  "make_session = \<lparr>ts_open = True, ts_write_queue = [], ts_last_sequence = 0, ts_close_after_write = False,
     ts_reading = No_read, ts_writing = False, ts_frames = [], ts_written = []\<rparr>"

definition do_read_header :: "tcp_session \<Rightarrow> tcp_session" where
  "do_read_header s = s\<lparr>ts_reading := Read_header\<rparr>"

definition do_read_payload :: "wire_header \<Rightarrow> tcp_session \<Rightarrow> tcp_session" where
  "do_read_payload h s = s\<lparr>ts_reading := Read_payload h\<rparr>"

definition do_write :: "tcp_session \<Rightarrow> tcp_session" where
  "do_write s = s\<lparr>ts_writing := True\<rparr>"

definition close_session :: "tcp_session \<Rightarrow> tcp_session" where
  "close_session s = s\<lparr>ts_open := False\<rparr>"

definition send_raw_frame :: "bytes \<Rightarrow> tcp_session \<Rightarrow> tcp_session" where
  "send_raw_frame frame s =
     (if frame = [] \<or> \<not> ts_open s then s
      else let write_in_progress = (ts_write_queue s \<noteq> []);
               s1 = s\<lparr>ts_write_queue := ts_write_queue s @ [frame], ts_frames := ts_frames s @ [frame]\<rparr>
           in if \<not> write_in_progress then do_write s1 else s1)"

text \<open>An operation on the session object \<open>sid\<close>, which a handler always holds alive.\<close>

definition on_session :: "u64 \<Rightarrow> (tcp_session \<Rightarrow> tcp_session) \<Rightarrow> gateway \<Rightarrow> gateway" where
  "on_session sid f g = g\<lparr>gw_objects := (gw_objects g)(sid := map_option f (gw_objects g sid))\<rparr>"

definition unregister_session :: "u64 \<Rightarrow> gateway \<Rightarrow> gateway" where
  "unregister_session sid g = g\<lparr>gw_sessions := removeAll sid (gw_sessions g)\<rparr>"

definition send_protocol_error :: "u64 \<Rightarrow> error_code \<Rightarrow> u8 \<Rightarrow> bool \<Rightarrow> gateway \<Rightarrow> gateway ub" where
  "send_protocol_error sid code offending_type fatal g = do {
     let g1 = (if fatal then on_session sid (\<lambda>s. s\<lparr>ts_close_after_write := True\<rparr>) g else g);
     frame \<leftarrow> make_error_frame code offending_type;
     Some (if frame = [] then unregister_session sid (on_session sid close_session g1)
           else on_session sid (send_raw_frame frame) g1)
   }"

definition enqueue_command :: "i64 \<Rightarrow> u64 \<Rightarrow> u64 \<Rightarrow> message_type \<Rightarrow> command \<Rightarrow> gateway \<Rightarrow> (bool \<times> gateway) ub" where
  "enqueue_command now sid sq type command g = do {
     s \<leftarrow> gw_objects g sid;
     if sq \<le> ts_last_sequence s then do {
       g' \<leftarrow> send_protocol_error sid sequence_out_of_order (mt_value type) True g;
       Some (False, g')
     }
     else do {
       let payload_size = (case expected_payload_length type of Some n \<Rightarrow> n | None \<Rightarrow> 0);
       let msg = \<lparr>im_session_id = sid, im_command = command,
                  im_wire_bytes = of_nat kHeaderSize + ucast payload_size, im_received_at = now\<rparr>;
       let (ok, q) = try_push message_capacity msg (gw_inbound g);
       let g1 = g\<lparr>gw_inbound := q\<rparr>;
       if \<not> ok then do {
         g' \<leftarrow> send_protocol_error sid session_overloaded (mt_value type) True g1;
         Some (False, g')
       }
       else Some (True, on_session sid (\<lambda>s. s\<lparr>ts_last_sequence := sq\<rparr>)
                          (g1\<lparr>gw_enqueued := gw_enqueued g1 @ [msg]\<rparr>))
     }
   }"

section \<open>Completion handlers\<close>

text \<open>A completed read delivers \<open>Some bytes\<close>, a failed one \<open>None\<close>; the operation is then no longer outstanding.\<close>

definition on_header :: "u64 \<Rightarrow> bytes option \<Rightarrow> gateway \<Rightarrow> gateway ub" where
  "on_header sid result g0 = do {
     let g = on_session sid (\<lambda>s. s\<lparr>ts_reading := No_read\<rparr>) g0;
     case result of
       None \<Rightarrow> Some (unregister_session sid g)
     | Some header_buf \<Rightarrow> do {
         header \<leftarrow> decode_header header_buf;
         case header of
           None \<Rightarrow> do {
             g1 \<leftarrow> send_protocol_error sid malformed_frame 0 True g;
             Some (unregister_session sid g1)
           }
         | Some h \<Rightarrow>
             (case validate_header h of
                Some err \<Rightarrow> send_protocol_error sid err (mt_value (wh_type h)) True g
              | None \<Rightarrow> Some (on_session sid (do_read_payload h) g))
       }
   }"

definition finish_payload ::
    "i64 \<Rightarrow> u64 \<Rightarrow> wire_header \<Rightarrow> (error_code + u64 \<times> command) \<Rightarrow> gateway \<Rightarrow> gateway ub" where
  "finish_payload now sid h decoded g =
     (case decoded of
        Inl err \<Rightarrow> send_protocol_error sid err (mt_value (wh_type h)) True g
      | Inr (sq, command) \<Rightarrow> do {
          (ok, g1) \<leftarrow> enqueue_command now sid sq (wh_type h) command g;
          Some (if ok then on_session sid do_read_header g1 else g1)
        })"

definition decode_payload :: "wire_header \<Rightarrow> bytes \<Rightarrow> (error_code + u64 \<times> command) ub" where
  "decode_payload h payload =
     (if wh_type h = mt_new_order then do {
        r \<leftarrow> decode_new_order payload;
        Some (map_sum (\<lambda>e. e) (\<lambda>order. (seq_value (no_sequence order), New_order order)) r) }
      else if wh_type h = mt_cancel_order then do {
        r \<leftarrow> decode_cancel_order payload;
        Some (map_sum (\<lambda>e. e) (\<lambda>order. (seq_value (co_sequence order), Cancel_order order)) r) }
      else if wh_type h = mt_replace_order then do {
        r \<leftarrow> decode_replace_order payload;
        Some (map_sum (\<lambda>e. e) (\<lambda>order. (seq_value (rpo_sequence order), Replace_order order)) r) }
      else Some (Inl unknown_message_type))"

definition on_payload :: "i64 \<Rightarrow> u64 \<Rightarrow> wire_header \<Rightarrow> bytes option \<Rightarrow> gateway \<Rightarrow> gateway ub" where
  "on_payload now sid h result g0 = do {
     let g = on_session sid (\<lambda>s. s\<lparr>ts_reading := No_read\<rparr>) g0;
     case result of
       None \<Rightarrow> Some (unregister_session sid g)
     | Some payload \<Rightarrow> do {
         decoded \<leftarrow> decode_payload h payload;
         finish_payload now sid h decoded g
       }
   }"

definition on_write :: "u64 \<Rightarrow> bool \<Rightarrow> gateway \<Rightarrow> gateway ub" where
  "on_write sid failed g0 = do {
     let g = on_session sid (\<lambda>s. s\<lparr>ts_writing := False\<rparr>) g0;
     if failed then Some (unregister_session sid g)
     else do {
       s \<leftarrow> gw_objects g sid;
       if ts_write_queue s = [] then None
       else do {
         let g1 = on_session sid (\<lambda>s. s\<lparr>ts_write_queue := tl (ts_write_queue s),
                    ts_written := ts_written s @ [hd (ts_write_queue s)]\<rparr>) g;
         if tl (ts_write_queue s) \<noteq> [] then Some (on_session sid do_write g1)
         else if ts_close_after_write s
         then Some (unregister_session sid
                (on_session sid (\<lambda>s. close_session (s\<lparr>ts_close_after_write := False\<rparr>)) g1))
         else Some g1
       }
     }
   }"

section \<open>The gateway\<close>

definition do_accept :: "gateway \<Rightarrow> gateway" where
  "do_accept g = g\<lparr>gw_accepting := True\<rparr>"

definition schedule_outbound_drain :: "gateway \<Rightarrow> gateway" where
  "schedule_outbound_drain g = g\<lparr>gw_draining := True\<rparr>"

definition start :: "gateway \<Rightarrow> gateway" where
  "start g = (if \<not> gw_stopped g then g
              else schedule_outbound_drain (do_accept (g\<lparr>gw_stopped := False\<rparr>)))"

definition on_accept :: "bool \<Rightarrow> gateway \<Rightarrow> gateway" where
  "on_accept failed g0 =
     (let g = g0\<lparr>gw_accepting := False\<rparr>;
          g1 = (if failed then g
                else let sid = gw_next_session_id g;
                         g' = g\<lparr>gw_next_session_id := gw_next_session_id g + 1,
                                gw_sessions := (if sid \<in> set (gw_sessions g) then gw_sessions g else gw_sessions g @ [sid]),
                                gw_objects := (gw_objects g)(sid \<mapsto> make_session)\<rparr>
                     in on_session sid do_read_header g')
      in if \<not> gw_stopped g1 then do_accept g1 else g1)"

definition deliver :: "outbound_message \<Rightarrow> bytes \<Rightarrow> gateway \<Rightarrow> gateway" where
  "deliver msg frame g =
     (if om_session_id msg = 0 then fold (\<lambda>sid. on_session sid (send_raw_frame frame)) (gw_sessions g) g
      else if om_session_id msg \<in> set (gw_sessions g)
      then on_session (om_session_id msg) (send_raw_frame frame) g
      else g)"

partial_function (option) poll_loop :: "size_t \<Rightarrow> gateway \<Rightarrow> (size_t \<times> gateway) ub" where
  "poll_loop n g =
     (case try_pop message_capacity (\<lambda>m. m) (gw_outbound g) of
        (None, q) \<Rightarrow> Some (n, g\<lparr>gw_outbound := q\<rparr>)
      | (Some msg, q) \<Rightarrow> do {
          frame \<leftarrow> serialize_outbound msg;
          poll_loop (n + 1) (deliver msg frame (g\<lparr>gw_outbound := q\<rparr>))
        })"

definition poll_outbound :: "gateway \<Rightarrow> (size_t \<times> gateway) ub" where
  "poll_outbound g = poll_loop 0 g"

definition on_timer :: "bool \<Rightarrow> gateway \<Rightarrow> gateway ub" where
  "on_timer failed g0 = do {
     let g = g0\<lparr>gw_draining := False\<rparr>;
     if \<not> failed \<and> \<not> gw_stopped g then do {
       (n, g1) \<leftarrow> poll_outbound g;
       Some (schedule_outbound_drain g1)
     } else Some g
   }"

definition stop :: "gateway \<Rightarrow> gateway" where
  "stop g = (if gw_stopped g then g
             else (fold (\<lambda>sid. on_session sid close_session) (gw_sessions g) (g\<lparr>gw_stopped := True\<rparr>))\<lparr>gw_sessions := []\<rparr>)"

definition active_session_count :: "gateway \<Rightarrow> size_t" where
  "active_session_count g = of_nat (length (gw_sessions g))"

end
