(* ===== verification/Engine_Outbound.thy ===== *)
theory Engine_Outbound
  imports Matching_Engine
begin

text \<open>
  Sending through the bounded outbound queue: with room in the queue, or with a gateway that still
  takes messages often enough, the busy wait of \<open>push_outbound\<close> ends and the message stands behind
  everything sent before; with a full queue and no further turn of the gateway it never ends. The
  handlers' loops over executions are put together from this once.
\<close>

declare length_ring_contents [simp del]

section \<open>Sending one message\<close>

definition sent :: "engine \<Rightarrow> outbound_message list" where
  "sent e = en_taken e @ ring_contents message_capacity (en_outbound e)"

text \<open>
  Whether \<open>k\<close> pushes in a row all return, from the queue's occupancy and the gateway's schedule: each
  attempt uses up one turn, and without further turns only the free slots are left.
\<close>

fun sendable :: "nat \<Rightarrow> nat \<Rightarrow> nat list \<Rightarrow> bool" where
  "sendable 0 occupied turns = True"
| "sendable (Suc k) occupied [] = (occupied < 4096 \<and> sendable k (Suc occupied) [])"
| "sendable (Suc k) occupied (n # turns) =
     (if occupied - n < 4096 then sendable k (Suc (occupied - n)) turns
      else sendable (Suc k) (occupied - n) turns)"

definition can_send :: "nat \<Rightarrow> engine \<Rightarrow> bool" where
  "can_send k e = sendable k (length (ring_contents message_capacity (en_outbound e))) (en_turns e)"

lemma sendable_room: "occupied + k \<le> 4096 \<Longrightarrow> sendable k occupied turns"
  by (induction k occupied turns rule: sendable.induct) auto

lemma sendable_turns:
  "occupied \<le> 4096 \<Longrightarrow> k \<le> length (filter (\<lambda>n. 0 < n) turns) \<Longrightarrow> sendable k occupied turns"
  by (induction k occupied turns rule: sendable.induct) (auto split: if_splits)

text \<open>Two situations in which \<open>k\<close> messages get through: room for all of them, or as many productive turns.\<close>

lemma can_sendI:
  "length (ring_contents message_capacity (en_outbound e)) + k \<le> 4096 \<Longrightarrow> can_send k e"
  "ring_inv message_capacity (en_outbound e) \<Longrightarrow> k \<le> length (filter (\<lambda>n. 0 < n) (en_turns e)) \<Longrightarrow> can_send k e"
  using sendable_room sendable_turns ring_contents_bound [of message_capacity "en_outbound e"]
  by (simp_all add: can_send_def message_capacity_def)

definition frame_bytes :: "outbound_message \<Rightarrow> u64" where
  "frame_bytes msg = (case expected_payload_length (om_type msg) of
     None \<Rightarrow> 0 | Some n \<Rightarrow> of_nat kHeaderSize + ucast n)"

definition metrics_frame :: "matching_engine_metrics \<Rightarrow> matching_engine_metrics \<Rightarrow> bool" where
  "metrics_frame m m' \<longleftrightarrow>
     em_accepted_commands m' = em_accepted_commands m \<and> em_rejected_commands m' = em_rejected_commands m \<and>
     em_accepted_cancels m' = em_accepted_cancels m \<and> em_rejected_cancels m' = em_rejected_cancels m \<and>
     em_executions m' = em_executions m \<and> em_inbound_bytes m' = em_inbound_bytes m \<and>
     em_inbound_queue_high_water m' = em_inbound_queue_high_water m \<and>
     em_command_to_ack_latency m' = em_command_to_ack_latency m"

definition outbound_frame :: "engine \<Rightarrow> engine \<Rightarrow> bool" where
  "outbound_frame e e' \<longleftrightarrow>
     en_inbound e' = en_inbound e \<and> en_market_data_feed e' = en_market_data_feed e \<and>
     en_event_capture_feed e' = en_event_capture_feed e \<and> en_book e' = en_book e \<and>
     en_order_sessions e' = en_order_sessions e \<and>
     en_command_to_ack_latency e' = en_command_to_ack_latency e \<and> metrics_frame (en_metrics e) (en_metrics e')"

definition pushed :: "outbound_message list \<Rightarrow> engine \<Rightarrow> engine \<Rightarrow> bool" where
  "pushed ms e e' \<longleftrightarrow>
     ring_inv message_capacity (en_outbound e') \<and> sent e' = sent e @ ms \<and> outbound_frame e e' \<and>
     em_outbound_bytes (en_metrics e') = em_outbound_bytes (en_metrics e) + sum_list (map frame_bytes ms)"

lemma outbound_frame_refl [simp]: "outbound_frame e e"
  by (simp add: outbound_frame_def metrics_frame_def)

lemma pushed_trans: "pushed ms e e1 \<Longrightarrow> pushed ns e1 e2 \<Longrightarrow> pushed (ms @ ns) e e2"
  by (auto simp: pushed_def outbound_frame_def metrics_frame_def)

lemma pushed_refl: "ring_inv message_capacity (en_outbound e) \<Longrightarrow> pushed [] e e"
  by (simp add: pushed_def)

lemma take_outbound_ok:
  "ring_inv message_capacity q \<Longrightarrow> take_outbound n q = (ms, q') \<Longrightarrow>
   ring_inv message_capacity q' \<and> ms @ ring_contents message_capacity q' = ring_contents message_capacity q \<and>
   length ms = min n (length (ring_contents message_capacity q))"
proof (induction n arbitrary: q ms)
  case (Suc n)
  obtain out q1 where pop: "try_pop message_capacity (\<lambda>m. m) q = (out, q1)" by fastforce
  note law = message_ring.fifo.pop_law [OF Suc.prems(1) pop]
  show ?case
  proof (cases "ring_contents message_capacity q")
    case Nil
    then show ?thesis using law Suc.prems(2) by (auto simp: pop)
  next
    case (Cons m ms1)
    then show ?thesis using law Suc.prems(2) Suc.IH [of q1]
      by (auto simp: pop split: prod.splits)
  qed
qed simp

lemma gateway_turn_ok:
  assumes "ring_inv message_capacity (en_outbound e)"
  shows "ring_inv message_capacity (en_outbound (gateway_turn e))" "sent (gateway_turn e) = sent e"
    "en_metrics (gateway_turn e) = en_metrics e" "outbound_frame e (gateway_turn e)"
    "en_turns (gateway_turn e) = tl (en_turns e)"
    "length (ring_contents message_capacity (en_outbound (gateway_turn e))) =
       length (ring_contents message_capacity (en_outbound e)) - (case en_turns e of [] \<Rightarrow> 0 | n # ns \<Rightarrow> n)"
proof -
  have len: "length xs = length ys - n" if "ms @ xs = ys" "length ms = min n (length ys)"
    for n and ms xs ys :: "outbound_message list"
    using arg_cong [OF that(1), of length] that(2) by simp
  show "ring_inv message_capacity (en_outbound (gateway_turn e))" "sent (gateway_turn e) = sent e"
    "en_metrics (gateway_turn e) = en_metrics e" "outbound_frame e (gateway_turn e)"
    "en_turns (gateway_turn e) = tl (en_turns e)"
    "length (ring_contents message_capacity (en_outbound (gateway_turn e))) =
       length (ring_contents message_capacity (en_outbound e)) - (case en_turns e of [] \<Rightarrow> 0 | n # ns \<Rightarrow> n)"
    using assms take_outbound_ok [OF assms]
    by (auto intro!: len simp: gateway_turn_def sent_def outbound_frame_def metrics_frame_def split: list.splits prod.splits)
qed

lemma push_loop_ok:
  assumes "ring_inv message_capacity (en_outbound e)" and "can_send (Suc k) e"
  shows "\<exists>e'. push_loop msg e = Some e' \<and> can_send k e' \<and> ring_inv message_capacity (en_outbound e') \<and>
    sent e' = sent e @ [msg] \<and> outbound_frame e e' \<and> en_metrics e' = en_metrics e"
  using assms
proof (induction "length (en_turns e)" arbitrary: e rule: less_induct)
  case less
  let ?g = "gateway_turn e"
  note g = gateway_turn_ok [OF less.prems(1)]
  obtain ok q where push: "try_push message_capacity msg (en_outbound ?g) = (ok, q)" by fastforce
  note law = message_ring.fifo.push_law [OF g(1) push]
  let ?e = "?g\<lparr>en_outbound := q\<rparr>"
  have len: "ok \<longleftrightarrow> length (ring_contents message_capacity (en_outbound ?g)) < 4096"
    using law by (simp add: message_capacity_def)
  show ?case
  proof (cases ok)
    case True
    have "can_send k ?e"
      using less.prems(2) law True len g(5,6) by (cases "en_turns e") (auto simp: can_send_def)
    then show ?thesis using law True g push
      by (subst push_loop.simps) (auto simp: Let_def sent_def outbound_frame_def metrics_frame_def)
  next
    case False
    then obtain n ns where ns: "en_turns e = n # ns"
      using len g(6) less.prems(2) by (cases "en_turns e") (auto simp: can_send_def)
    have "can_send (Suc k) ?e"
      using less.prems(2) law False len g(5,6) ns by (auto simp: can_send_def)
    then obtain e' where "push_loop msg ?e = Some e'" "can_send k e'"
        "ring_inv message_capacity (en_outbound e')" "sent e' = sent ?e @ [msg]" "outbound_frame ?e e'"
        "en_metrics e' = en_metrics ?e"
      using less.hyps [of ?e] law g(5) ns by auto
    then show ?thesis using law False g push
      by (subst push_loop.simps) (auto simp: Let_def sent_def outbound_frame_def metrics_frame_def)
  qed
qed

text \<open>A full queue and a gateway that takes no further turn: the wait never ends.\<close>

definition stuck :: "engine \<Rightarrow> bool" where
  "stuck e \<longleftrightarrow> ring_inv message_capacity (en_outbound e) \<and> en_turns e = [] \<and>
     length (ring_contents message_capacity (en_outbound e)) = 4096"

lemma stuck_attempt:
  assumes "stuck e" and "try_push message_capacity msg (en_outbound (gateway_turn e)) = (ok, q)"
  shows "\<not> ok \<and> stuck ((gateway_turn e)\<lparr>en_outbound := q\<rparr>)"
proof -
  have e: "gateway_turn e = e" using assms(1) by (simp add: stuck_def gateway_turn_def)
  have ring: "ring_inv message_capacity (en_outbound e)" using assms(1) by (simp add: stuck_def)
  show ?thesis using message_ring.fifo.push_law [OF ring assms(2) [unfolded e]] assms(1)
    by (auto simp: e stuck_def message_capacity_def)
qed

lemma push_loop_returns_unstuck: "push_loop msg e = Some e' \<Longrightarrow> \<not> stuck e"
  by (rule push_loop.raw_induct [where P = "\<lambda>msg e e'. \<not> stuck e"])
    (auto simp: Let_def dest: stuck_attempt split: prod.splits if_splits)

lemma push_loop_blocks: "stuck e \<Longrightarrow> push_loop msg e = None"
  using push_loop_returns_unstuck [of msg e] by (cases "push_loop msg e") auto

text \<open>More generally, if the schedule holds too little, the wait never ends.\<close>

lemma push_loop_starved:
  assumes "ring_inv message_capacity (en_outbound e)" and "\<not> can_send 1 e"
  shows "push_loop msg e = None"
  using assms
proof (induction "length (en_turns e)" arbitrary: e rule: less_induct)
  case less
  let ?g = "gateway_turn e"
  note g = gateway_turn_ok [OF less.prems(1)]
  obtain ok q where push: "try_push message_capacity msg (en_outbound ?g) = (ok, q)" by fastforce
  note law = message_ring.fifo.push_law [OF g(1) push]
  show ?case
  proof (cases "en_turns e")
    case Nil
    then have "stuck e" using less.prems ring_contents_bound [OF less.prems(1)]
      by (auto simp: stuck_def can_send_def message_capacity_def)
    then show ?thesis by (rule push_loop_blocks)
  next
    case (Cons n ns)
    let ?e = "?g\<lparr>en_outbound := q\<rparr>"
    have "\<not> ok" "\<not> can_send 1 ?e"
      using law g(5,6) less.prems(2) Cons by (auto simp: can_send_def message_capacity_def split: if_splits)
    then show ?thesis using less.hyps [of ?e] law g(5) Cons push
      by (subst push_loop.simps) (auto simp: Let_def)
  qed
qed

lemma record_outbound_message_bytes:
  "record_outbound_message msg e =
     e\<lparr>en_metrics := (en_metrics e)\<lparr>em_outbound_bytes := em_outbound_bytes (en_metrics e) + frame_bytes msg\<rparr>\<rparr>"
  by (simp add: record_outbound_message_def frame_bytes_def split: option.split)

lemma push_outbound_ok:
  assumes "ring_inv message_capacity (en_outbound e)" and "can_send (Suc k) e"
  shows "\<exists>e'. push_outbound msg e = Some e' \<and> can_send k e' \<and> pushed [msg] e e'"
proof -
  let ?e = "record_outbound_message msg e"
  have "can_send (Suc k) ?e" using assms(2) by (simp add: can_send_def record_outbound_message_bytes)
  then obtain e2 where "push_loop msg ?e = Some e2" "can_send k e2" "ring_inv message_capacity (en_outbound e2)"
      "sent e2 = sent ?e @ [msg]" "outbound_frame ?e e2" "en_metrics e2 = en_metrics ?e"
    using push_loop_ok [of ?e k msg] assms(1) by (auto simp: record_outbound_message_bytes)
  then show ?thesis
    by (auto simp: push_outbound_def Let_def pushed_def sent_def outbound_frame_def metrics_frame_def can_send_def
      record_outbound_message_bytes)
qed

lemma push_outbound_starved:
  assumes "ring_inv message_capacity (en_outbound e)" and "\<not> can_send 1 e"
  shows "push_outbound msg e = None"
  using push_loop_starved [of "record_outbound_message msg e" msg] assms
  by (simp add: push_outbound_def record_outbound_message_bytes can_send_def)

end
