(* ===== verification/Engine_Spec.thy ===== *)
theory Engine_Spec
  imports Engine_Outbound
begin

text \<open>
  What the engine promises for one command, stated over the price-time specification: which events
  go to which session in which order, and which session owns each resting order afterwards. The
  handlers of \<open>src/tcp_gateway.cpp\<close> are shown to implement it.
\<close>

section \<open>Specification\<close>

definition resting_ids :: "abs_book \<Rightarrow> order_id set" where
  "resting_ids a = entry_id ` (set (ab_bids a) \<union> set (ab_asks a))"

definition resting_copy :: "(order_id \<rightharpoonup> u64) \<Rightarrow> u64 \<Rightarrow> sequence_number \<Rightarrow> execution \<Rightarrow> outbound_message list" where
  "resting_copy owners session_id sq x =
     (case owners (ex_resting_order_id x) of
        None \<Rightarrow> []
      | Some owner \<Rightarrow> if owner \<noteq> 0 \<and> owner \<noteq> session_id then [execution_message owner 0 sq x] else [])"

definition execution_messages ::
    "(order_id \<rightharpoonup> u64) \<Rightarrow> u64 \<Rightarrow> sequence_number \<Rightarrow> execution list \<Rightarrow> outbound_message list" where
  "execution_messages owners session_id sq xs =
     concat (map (\<lambda>x. execution_message session_id kFlagMore sq x # resting_copy owners session_id sq x) xs)"

definition spec_response ::
    "(order_id \<rightharpoonup> u64) \<Rightarrow> u64 \<Rightarrow> command \<Rightarrow> abs_book \<Rightarrow> outbound_message list" where
  "spec_response owners session_id c a =
     (case c of
        New_order order \<Rightarrow>
          (let res = fst (spec_submit order a) in
           case sr_rejection res of
             Some reason \<Rightarrow> [rejected_message mt_order_rejected session_id (no_sequence order) (no_order_id order)
                              (submit_error_code reason)]
           | None \<Rightarrow> execution_messages owners session_id (no_sequence order) (sr_executions res) @
               [accepted_message mt_order_accepted session_id (no_sequence order) (no_order_id order)
                 (remaining_units (sr_remaining_quantity res))])
      | Cancel_order order \<Rightarrow>
          (case spec_find (co_order_id order) a of
             None \<Rightarrow> [rejected_message mt_cancel_rejected session_id (co_sequence order) (co_order_id order) order_not_found]
           | Some (_, e) \<Rightarrow> [cancelled_message session_id (co_sequence order) (co_order_id order)
                               (ro_remaining_quantity (snd e))])
      | Replace_order order \<Rightarrow>
          (let res = fst (spec_replace order a) in
           case rr_rejection res of
             Some reason \<Rightarrow> [rejected_message mt_replace_rejected session_id (rpo_sequence order) (rpo_order_id order)
                              order_not_found]
           | None \<Rightarrow> execution_messages owners session_id (rpo_sequence order) (rr_executions res) @
               [accepted_message mt_replace_accepted session_id (rpo_sequence order) (rpo_order_id order)
                 (remaining_units (rr_remaining_quantity res))])
      | Monostate \<Rightarrow> [])"

definition placed_id :: "command \<Rightarrow> order_id option" where
  "placed_id c = (case c of New_order order \<Rightarrow> Some (no_order_id order)
     | Replace_order order \<Rightarrow> Some (rpo_order_id order) | _ \<Rightarrow> None)"

definition spec_owners ::
    "(order_id \<rightharpoonup> u64) \<Rightarrow> u64 \<Rightarrow> command \<Rightarrow> bool \<Rightarrow> abs_book \<Rightarrow> order_id \<rightharpoonup> u64" where
  "spec_owners owners session_id c accepted a' i =
     (if i \<notin> resting_ids a' then None
      else if accepted \<and> placed_id c = Some i then Some session_id else owners i)"

section \<open>The execution loop\<close>

definition bookkeep :: "(order_id \<rightharpoonup> u64) \<Rightarrow> u64 \<Rightarrow> engine \<Rightarrow> engine" where
  "bookkeep owners n e = e\<lparr>en_metrics := (en_metrics e)\<lparr>em_executions := em_executions (en_metrics e) + n\<rparr>,
     en_order_sessions := owners\<rparr>"

lemma bookkeep_fields [simp]:
  "en_outbound (bookkeep m n e) = en_outbound e" "en_book (bookkeep m n e) = en_book e"
  "en_order_sessions (bookkeep m n e) = m" "sent (bookkeep m n e) = sent e"
  "can_send k (bookkeep m n e) = can_send k e" "bookkeep m' n' (bookkeep m n e) = bookkeep m' (n + n') e"
  "em_outbound_bytes (en_metrics (bookkeep m n e)) = em_outbound_bytes (en_metrics e)"
  by (simp_all add: bookkeep_def sent_def can_send_def add.assoc)

lemma pushed_bookkeep: "pushed ms e e' \<Longrightarrow> pushed ms (bookkeep m n e) (bookkeep m n e')"
  by (simp add: pushed_def outbound_frame_def metrics_frame_def bookkeep_def sent_def)

text \<open>Owners that stay after a list of executions: filled orders are forgotten.\<close>

definition forget_filled :: "order_book \<Rightarrow> execution list \<Rightarrow> (order_id \<rightharpoonup> u64) \<Rightarrow> order_id \<rightharpoonup> u64" where
  "forget_filled b xs owners i =
     (if i \<in> ex_resting_order_id ` set xs \<and> \<not> contains i b then None else owners i)"

lemma forget_filled_Nil [simp]: "forget_filled b [] owners = owners"
  by (simp add: forget_filled_def fun_eq_iff)

lemma forget_filled_single:
  "forget_filled b [x] owners =
     (if contains (ex_resting_order_id x) b then owners else owners(ex_resting_order_id x := None))"
  by (auto simp: forget_filled_def fun_eq_iff)

lemma forget_filled_Cons:
  "forget_filled b (x # xs) owners = forget_filled b xs (forget_filled b [x] owners)"
  by (auto simp: forget_filled_def fun_eq_iff)

lemma execution_messages_simps [simp]:
  "execution_messages owners sid sq [] = []"
  "execution_messages owners sid sq (x # xs) =
     execution_message sid kFlagMore sq x # resting_copy owners sid sq x @ execution_messages owners sid sq xs"
  by (simp_all add: execution_messages_def)

lemma execution_messages_cong:
  "(\<And>x. x \<in> set xs \<Longrightarrow> owners (ex_resting_order_id x) = owners' (ex_resting_order_id x)) \<Longrightarrow>
   execution_messages owners sid sq xs = execution_messages owners' sid sq xs"
  by (induction xs) (auto simp: resting_copy_def)

lemma pushed_outbound: "pushed ms e e' \<Longrightarrow> ring_inv message_capacity (en_outbound e')"
  "pushed ms e e' \<Longrightarrow> en_book e' = en_book e" "pushed ms e e' \<Longrightarrow> en_order_sessions e' = en_order_sessions e"
  by (simp_all add: pushed_def outbound_frame_def)

lemma emit_execution_ok:
  assumes ring: "ring_inv message_capacity (en_outbound e)"
    and send: "can_send (length (resting_copy (en_order_sessions e) sid sq x) + Suc k) e"
  shows "\<exists>e'. emit_execution sid sq x e = Some e' \<and> can_send k e' \<and>
    pushed (execution_message sid kFlagMore sq x # resting_copy (en_order_sessions e) sid sq x)
      (bookkeep (forget_filled (en_book e) [x] (en_order_sessions e)) 1 e) e'"
proof -
  let ?owners = "en_order_sessions e" and ?c = "resting_copy (en_order_sessions e) sid sq x"
  let ?e = "bookkeep (forget_filled (en_book e) [x] ?owners) 1 e"
  have start: "emit_execution sid sq x e = do {
      e3 \<leftarrow> push_outbound (execution_message sid kFlagMore sq x) ?e;
      (case ?c of [] \<Rightarrow> Some e3 | m # ms \<Rightarrow> push_outbound m e3) }"
    by (auto simp: emit_execution_def bookkeep_def forget_filled_single resting_copy_def Let_def split: option.splits)
  obtain e3 where e3: "push_outbound (execution_message sid kFlagMore sq x) ?e = Some e3"
      "can_send (length ?c + k) e3" "pushed [execution_message sid kFlagMore sq x] ?e e3"
    using push_outbound_ok [of ?e "length ?c + k"] ring send by auto
  show ?thesis
  proof (cases ?c)
    case Nil
    then show ?thesis using start e3 by auto
  next
    case (Cons m ms)
    then have "?c = [m]" by (auto simp: resting_copy_def split: option.splits if_splits)
    moreover obtain e4 where "push_outbound m e3 = Some e4" "can_send k e4" "pushed [m] e3 e4"
      using push_outbound_ok [of e3 k m] pushed_outbound(1) [OF e3(3)] e3(2) calculation by auto
    ultimately show ?thesis using start e3 pushed_trans [OF e3(3)] by auto
  qed
qed

lemma emit_executions_ok:
  assumes "ring_inv message_capacity (en_outbound e)"
    and "can_send (length (execution_messages (en_order_sessions e) sid sq xs) + k) e"
    and "distinct (map ex_resting_order_id xs)"
  shows "\<exists>e'. emit_executions sid sq xs e = Some e' \<and> can_send k e' \<and>
    pushed (execution_messages (en_order_sessions e) sid sq xs)
      (bookkeep (forget_filled (en_book e) xs (en_order_sessions e)) (of_nat (length xs)) e) e'"
  using assms
proof (induction xs arbitrary: e)
  case Nil
  then show ?case using pushed_refl [of e] by (simp add: bookkeep_def)
next
  case (Cons x xs)
  let ?o = "en_order_sessions e" and ?o1 = "forget_filled (en_book e) [x] (en_order_sessions e)"
  have same: "execution_messages ?o1 sid sq xs = execution_messages ?o sid sq xs"
    using Cons.prems(3) by (intro execution_messages_cong) (auto simp: forget_filled_def image_iff)
  obtain e1 where e1: "emit_execution sid sq x e = Some e1"
      "can_send (length (execution_messages ?o sid sq xs) + k) e1"
      "pushed (execution_message sid kFlagMore sq x # resting_copy ?o sid sq x) (bookkeep ?o1 1 e) e1"
    using emit_execution_ok [OF Cons.prems(1), of sid sq x "length (execution_messages ?o sid sq xs) + k"] Cons.prems(2)
    by (auto simp: ac_simps)
  have book: "en_book e1 = en_book e" "en_order_sessions e1 = ?o1" using pushed_outbound(2,3) [OF e1(3)] by simp_all
  obtain e2 where e2: "emit_executions sid sq xs e1 = Some e2" "can_send k e2"
      "pushed (execution_messages ?o sid sq xs)
        (bookkeep (forget_filled (en_book e) xs ?o1) (of_nat (length xs)) e1) e2"
    using Cons.IH [of e1] Cons.prems(3) e1(2) pushed_outbound(1) [OF e1(3)] by (auto simp: book same)
  have "pushed ((execution_message sid kFlagMore sq x # resting_copy ?o sid sq x) @ execution_messages ?o sid sq xs)
      (bookkeep (forget_filled (en_book e) xs ?o1) (of_nat (length xs)) (bookkeep ?o1 1 e)) e2"
    using pushed_trans [OF pushed_bookkeep [OF e1(3)] e2(3)] .
  then show ?case using e1(1) e2(1,2) by (simp add: forget_filled_Cons [of _ x xs])
qed

section \<open>Which orders rest\<close>

lemma resting_ids_sides: "resting_ids a = entry_id ` (set (ab_side s a) \<union> set (ab_side (opposite s) a))"
  by (cases s) (auto simp: resting_ids_def ab_side_def)

lemma spec_match_leavers:
  "spec_match c inc rem es = (xs, rem', es') \<Longrightarrow>
   entry_id ` set es \<subseteq> entry_id ` set es' \<union> ex_resting_order_id ` set xs"
  by (induction c inc rem es arbitrary: xs rem' es' rule: spec_match.induct)
    (auto simp: fill_def set_entry_quantity_def split: if_splits prod.splits)

lemma spec_take_ids:
  assumes "spec_take inc side type limit rem a = (xs, rem', a')"
    and "distinct (map entry_id (ab_side (opposite side) a))"
  shows "distinct (map ex_resting_order_id xs)" "resting_ids a' \<subseteq> resting_ids a"
    "resting_ids a \<subseteq> resting_ids a' \<union> ex_resting_order_id ` set xs"
proof -
  note m = spec_take_match [OF assms(1)]
  note match = m [THEN conjunct1] and own = m [THEN conjunct2, THEN conjunct1]
  show "distinct (map ex_resting_order_id xs)"
    using spec_match_priority [OF match] assms(2) by (simp add: take_map [symmetric])
  show "resting_ids a' \<subseteq> resting_ids a"
    using spec_match_ids [OF match] own by (auto simp: resting_ids_sides [of _ side])
  show "resting_ids a \<subseteq> resting_ids a' \<union> ex_resting_order_id ` set xs"
    using spec_match_leavers [OF match] own by (auto simp: resting_ids_sides [of _ side])
qed

lemma resting_ids_rest: "resting_ids (spec_rest side e a) = insert (entry_id e) (resting_ids a)"
  by (simp add: resting_ids_sides [of _ side] set_spec_insert)

lemma resting_ids_seen [simp]: "resting_ids (a\<lparr>ab_seen := S\<rparr>) = resting_ids a"
  by (simp add: resting_ids_def)

definition distinct_book :: "abs_book \<Rightarrow> bool" where
  "distinct_book a \<longleftrightarrow> (\<forall>s. distinct (map entry_id (ab_side s a)))"

text \<open>
  An accepted placement of order \<open>oid\<close> with executions \<open>xs\<close>: nothing but \<open>oid\<close> enters the book,
  nothing but filled orders and \<open>oid\<close> leaves it, and \<open>oid\<close> rests exactly if a remainder is reported.
\<close>

definition placement :: "order_id \<Rightarrow> execution list \<Rightarrow> u64 \<Rightarrow> abs_book \<Rightarrow> abs_book \<Rightarrow> bool" where
  "placement oid xs remaining a a' \<longleftrightarrow>
     distinct (map ex_resting_order_id xs) \<and>
     resting_ids a' \<subseteq> insert oid (resting_ids a) \<and>
     resting_ids a \<subseteq> insert oid (resting_ids a' \<union> ex_resting_order_id ` set xs) \<and>
     (oid \<in> resting_ids a' \<longleftrightarrow> remaining > 0)"

lemma spec_submit_placement:
  assumes "spec_submit order a = (res, a')" and "sr_rejection res = None"
    and "distinct_book a" and "resting_ids a \<subseteq> ab_seen a"
  shows "placement (no_order_id order) (sr_executions res) (remaining_units (sr_remaining_quantity res)) a a' \<and>
    no_order_id order \<notin> resting_ids a"
proof -
  let ?i = "no_order_id order" and ?a = "a\<lparr>ab_seen := insert (no_order_id order) (ab_seen a)\<rparr>"
  have acc: "validate order = None" "?i \<notin> ab_seen a"
    using assms(1,2) by (auto simp: spec_submit_def split: if_splits)
  obtain xs rem a1 where take: "spec_take ?i (no_side order) (no_type order) (no_limit_price order)
      (units (no_quantity order)) ?a = (xs, rem, a1)" by (metis prod_cases3)
  have dist: "distinct (map entry_id (ab_side (opposite (no_side order)) ?a))"
    using assms(3) by (simp add: distinct_book_def)
  note t = spec_take_ids [OF take dist]
  have fresh: "?i \<notin> resting_ids a" "?i \<notin> resting_ids a1" using acc(2) assms(4) t(2) by auto
  then show ?thesis using assms(1,2) acc take t
    by (auto simp: spec_submit_def placement_def remaining_units_def resting_ids_rest word_gt_0
      split: if_splits)
qed

lemma resting_ids_delete: "resting_ids (spec_delete oid a) = resting_ids a - {oid}"
  by (auto simp: resting_ids_sides [of _ Buy])

lemma resting_ids_requantify:
  "resting_ids (a\<lparr>ab_bids := spec_requantify oid q (ab_bids a), ab_asks := spec_requantify oid q (ab_asks a)\<rparr>) =
   resting_ids a"
proof -
  have "entry_id ` set (spec_requantify oid q es) = entry_id ` set es" for es
    by (induction es) (auto simp: spec_requantify_def set_entry_quantity_def)
  then show ?thesis by (simp add: resting_ids_def image_Un)
qed

lemma spec_find_ids: "spec_find oid a = Some (s, e) \<Longrightarrow> oid \<in> resting_ids a"
  "spec_find oid a = None \<Longrightarrow> oid \<notin> resting_ids a"
  using spec_find_eq_None [of oid a Buy] by (auto simp: resting_ids_sides [of _ Buy])

lemma spec_replace_placement:
  assumes "spec_replace order a = (res, a')" and "rr_rejection res = None"
    and "distinct_book a" and "quantity_ok (rpo_new_quantity order)"
  shows "placement (rpo_order_id order) (rr_executions res) (remaining_units (rr_remaining_quantity res)) a a'"
proof -
  let ?i = "rpo_order_id order"
  obtain s e where f: "spec_find ?i a = Some (s, e)"
    using assms(1,2) by (cases "spec_find ?i a") (auto simp: spec_replace_def)
  show ?thesis
  proof (cases "rpo_new_price order = fst e \<and> units (rpo_new_quantity order) \<le> entry_units e")
    case True
    then have "a' = a\<lparr>ab_bids := spec_requantify ?i (rpo_new_quantity order) (ab_bids a),
        ab_asks := spec_requantify ?i (rpo_new_quantity order) (ab_asks a)\<rparr>"
      "rr_executions res = []" "rr_remaining_quantity res = Some (rpo_new_quantity order)"
      using assms(1) f by (auto simp: spec_replace_def)
    then show ?thesis using spec_find_ids(1) [OF f] assms(4)
      by (auto simp: placement_def resting_ids_requantify remaining_units_def quantity_ok_def word_gt_0)
  next
    case False
    obtain xs rem a1 where take: "spec_take ?i s Limit (Some (rpo_new_price order))
        (units (rpo_new_quantity order)) (spec_delete ?i a) = (xs, rem, a1)" by (metis prod_cases3)
    have dist: "distinct (map entry_id (ab_side (opposite s) (spec_delete ?i a)))"
      using assms(3) by (simp add: distinct_book_def distinct_map_filter)
    note t = spec_take_ids [OF take dist, unfolded resting_ids_delete]
    have "?i \<notin> resting_ids a1" using t(2) by auto
    then show ?thesis using assms(1) f False take t
      by (auto simp: spec_replace_def placement_def remaining_units_def resting_ids_rest word_gt_0
        split: if_splits)
  qed
qed

section \<open>Handlers\<close>

lemma contains_resting: "book_reachable b \<Longrightarrow> contains i b \<longleftrightarrow> i \<in> resting_ids (abs_of b)"
  using contains_iff [OF reachable_core, of b i Buy] by (simp add: resting_ids_sides [of _ Buy] image_Un)

lemma reachable_distinct: "book_reachable b \<Longrightarrow> distinct_book (abs_of b)"
  using distinct_entry_ids(1) [OF reachable_core] by (simp add: distinct_book_def)

lemma reachable_seen: "book_reachable b \<Longrightarrow> resting_ids (abs_of b) \<subseteq> ab_seen (abs_of b)"
  using core_entry_seen [OF reachable_core] by (auto simp: resting_ids_sides [of _ Buy])

lemma placement_owners:
  assumes "placement oid xs remaining (abs_of b) (abs_of b')" and "dom owners = resting_ids (abs_of b)"
    and "book_reachable b'" and "placed_id c = Some oid"
  shows "(if remaining > 0 \<and> contains oid b' then (forget_filled b' xs owners)(oid \<mapsto> sid)
          else (forget_filled b' xs owners)(oid := None)) = spec_owners owners sid c True (abs_of b')"
proof
  fix i
  have "owners i = None \<longleftrightarrow> i \<notin> resting_ids (abs_of b)" using assms(2) by (auto simp: domIff)
  then show "(if remaining > 0 \<and> contains oid b' then (forget_filled b' xs owners)(oid \<mapsto> sid)
          else (forget_filled b' xs owners)(oid := None)) i = spec_owners owners sid c True (abs_of b') i"
    using assms(1,4) contains_resting [OF assms(3)] by (auto simp: placement_def forget_filled_def spec_owners_def)
qed

definition spec_executions :: "command \<Rightarrow> abs_book \<Rightarrow> execution list" where
  "spec_executions c a = (case c of New_order order \<Rightarrow> sr_executions (fst (spec_submit order a))
     | Replace_order order \<Rightarrow> rr_executions (fst (spec_replace order a)) | _ \<Rightarrow> [])"

abbreviation after_command :: "u64 \<Rightarrow> command \<Rightarrow> bool \<Rightarrow> order_book \<Rightarrow> engine \<Rightarrow> engine" where
  "after_command sid c accepted b' e \<equiv>
     bookkeep (spec_owners (en_order_sessions e) sid c accepted (abs_of b'))
       (of_nat (length (spec_executions c (abs_of (en_book e))))) (e\<lparr>en_book := b'\<rparr>)"

lemma set_book_fields [simp]:
  "sent (e\<lparr>en_book := b\<rparr>) = sent e" "can_send k (e\<lparr>en_book := b\<rparr>) = can_send k e"
  by (simp_all add: sent_def can_send_def)

lemma owners_rejected:
  "dom owners = resting_ids a \<Longrightarrow> spec_owners owners sid c False a = owners"
  using domIff [of _ owners] by (auto simp: spec_owners_def fun_eq_iff)

lemma bookkeep_none: "bookkeep (en_order_sessions e) 0 e = e"
  by (simp add: bookkeep_def)

lemma handle_new_order_ok:
  assumes b: "book_reachable (en_book e)" and ring: "ring_inv message_capacity (en_outbound e)"
    and owners: "dom (en_order_sessions e) = resting_ids (abs_of (en_book e))" and ok: "new_order_ok order"
    and send: "can_send (length (spec_response (en_order_sessions e) sid (New_order order) (abs_of (en_book e))) + k) e"
  shows "\<exists>accepted b' e'. handle_new_order sid order e = Some (accepted, e') \<and>
    apply_command (en_book e) (New_order order) = Some (accepted, b') \<and> can_send k e' \<and>
    pushed (spec_response (en_order_sessions e) sid (New_order order) (abs_of (en_book e)))
      (after_command sid (New_order order) accepted b' e) e'"
proof -
  let ?o = "en_order_sessions e" and ?a = "abs_of (en_book e)" and ?sq = "no_sequence order" and ?i = "no_order_id order"
  obtain res b' where sub: "submit order (en_book e) = Some (res, b')" and spec: "spec_submit order ?a = (res, abs_of b')"
    using submit_refines [OF reachable_inv [OF b], of order] ok by (auto simp: new_order_ok_def)
  note b' = reachable_submit(1) [OF b ok sub]
  have app: "apply_command (en_book e) (New_order order) = Some (submit_accepted res, b')"
    by (simp add: apply_command_def sub)
  let ?e = "e\<lparr>en_book := b'\<rparr>"
  show ?thesis
  proof (cases "sr_rejection res")
    case (Some reason)
    then have rej: "b' = en_book e" "sr_executions res = []"
      using spec rejected_unchanged [of "en_book e" "New_order order" b'] app
      by (auto simp: spec_submit_def submit_accepted_def split: if_splits prod.splits)
    let ?m = "rejected_message mt_order_rejected sid ?sq ?i (submit_error_code reason)"
    obtain e' where "push_outbound ?m e = Some e'" "can_send k e'" "pushed [?m] e e'"
      using push_outbound_ok [OF ring, of k ?m] send Some spec by (auto simp: spec_response_def)
    then show ?thesis using Some rej spec app sub owners
      by (auto simp: handle_new_order_def spec_response_def spec_executions_def submit_accepted_def
        owners_rejected bookkeep_none)
  next
    case None
    let ?xs = "sr_executions res" and ?r = "remaining_units (sr_remaining_quantity res)"
    let ?m = "accepted_message mt_order_accepted sid ?sq ?i ?r"
    have p: "placement ?i ?xs ?r ?a (abs_of b')" "?i \<notin> resting_ids ?a"
      using spec_submit_placement [OF spec None reachable_distinct [OF b] reachable_seen [OF b]] by simp_all
    have resp: "spec_response ?o sid (New_order order) ?a = execution_messages ?o sid ?sq ?xs @ [?m]"
      using None spec by (simp add: spec_response_def)
    let ?f = "forget_filled b' ?xs ?o"
    obtain e2 where e2: "emit_executions sid ?sq ?xs ?e = Some e2" "can_send (Suc k) e2"
        "pushed (execution_messages ?o sid ?sq ?xs) (bookkeep ?f (of_nat (length ?xs)) ?e) e2"
      using emit_executions_ok [of ?e sid ?sq ?xs "Suc k"] ring send p(1) by (auto simp: resp placement_def)
    obtain e3 where e3: "push_outbound ?m e2 = Some e3" "can_send k e3" "pushed [?m] e2 e3"
      using push_outbound_ok [OF pushed_outbound(1) [OF e2(3)] e2(2)] by blast
    note all = pushed_trans [OF e2(3) e3(3)]
    have book: "en_book e3 = b'" "en_order_sessions e3 = ?f" using pushed_outbound(2,3) [OF all] by simp_all
    let ?o' = "spec_owners ?o sid (New_order order) True (abs_of b')"
    have f: "?f ?i = None" using p(2) owners by (auto simp: forget_filled_def domIff)
    have o': "(if ?r > 0 \<and> contains ?i b' then ?f(?i \<mapsto> sid) else ?f) = ?o'"
      using placement_owners [OF p(1) owners b', of "New_order order" sid]
      unfolding fun_upd_idem [of ?f ?i, OF f] by (simp only: placed_id_def command.case)
    have "handle_new_order sid order e = Some (True, bookkeep ?o' 0 e3)"
      using None e2(1) e3(1) sub book o'
      by (auto simp: handle_new_order_def bookkeep_def Let_def split: if_splits)
    moreover have "pushed (execution_messages ?o sid ?sq ?xs @ [?m])
        (after_command sid (New_order order) True b' e) (bookkeep ?o' 0 e3)"
      using pushed_bookkeep [OF all, of ?o' 0] spec by (simp add: spec_executions_def)
    ultimately show ?thesis using app None e3(2) by (intro exI [of _ True]) (simp add: resp submit_accepted_def)
  qed
qed

lemma handle_cancel_order_ok:
  assumes b: "book_reachable (en_book e)" and ring: "ring_inv message_capacity (en_outbound e)"
    and owners: "dom (en_order_sessions e) = resting_ids (abs_of (en_book e))"
    and send: "can_send (length (spec_response (en_order_sessions e) sid (Cancel_order order) (abs_of (en_book e))) + k) e"
  shows "\<exists>accepted b' e'. handle_cancel_order sid order e = Some (accepted, e') \<and>
    apply_command (en_book e) (Cancel_order order) = Some (accepted, b') \<and> can_send k e' \<and>
    pushed (spec_response (en_order_sessions e) sid (Cancel_order order) (abs_of (en_book e)))
      (after_command sid (Cancel_order order) accepted b' e) e'"
proof -
  let ?o = "en_order_sessions e" and ?a = "abs_of (en_book e)" and ?i = "co_order_id order" and ?sq = "co_sequence order"
  obtain res b' where can: "cancel order (en_book e) = Some (res, b')" and spec: "spec_cancel order ?a = (res, abs_of b')"
    using cancel_refines [OF reachable_inv [OF b], of order] by auto
  have app: "apply_command (en_book e) (Cancel_order order) = Some (cancel_accepted res, b')"
    by (simp add: apply_command_def can)
  show ?thesis
  proof (cases "spec_find ?i ?a")
    case None
    then have res: "cr_rejection res = Some Cancel_order_not_found" "\<not> cancel_accepted res"
      using spec by (auto simp: spec_cancel_def cancel_accepted_def)
    then have b': "b' = en_book e" using rejected_unchanged [of "en_book e" "Cancel_order order" b'] app by simp
    let ?m = "rejected_message mt_cancel_rejected sid ?sq ?i order_not_found"
    obtain e' where "push_outbound ?m e = Some e'" "can_send k e'" "pushed [?m] e e'"
      using push_outbound_ok [OF ring, of k ?m] send None by (auto simp: spec_response_def)
    then show ?thesis using None res b' app can owners
      by (auto simp: handle_cancel_order_def spec_response_def spec_executions_def cancel_error_code_def
        owners_rejected bookkeep_none)
  next
    case (Some se)
    then obtain s r where r: "spec_find ?i ?a = Some (s, r)" by (cases se) auto
    then have res: "cr_cancelled_quantity res = Some (ro_remaining_quantity (snd r))" "cancel_accepted res"
      and a': "abs_of b' = spec_delete ?i ?a"
      using spec by (auto simp: spec_cancel_def cancel_accepted_def)
    have o': "spec_owners ?o sid (Cancel_order order) True (abs_of b') = ?o(?i := None)"
      using owners domIff [of _ ?o] by (auto simp: spec_owners_def placed_id_def a' resting_ids_delete fun_eq_iff)
    let ?m = "cancelled_message sid ?sq ?i (ro_remaining_quantity (snd r))"
    let ?e = "e\<lparr>en_book := b', en_order_sessions := ?o(?i := None)\<rparr>"
    have "can_send (Suc k) ?e" using send r by (simp add: spec_response_def can_send_def)
    then obtain e' where e': "push_outbound ?m ?e = Some e'" "can_send k e'" "pushed [?m] ?e e'"
      using push_outbound_ok [of ?e k ?m] ring by auto
    have "handle_cancel_order sid order e = Some (True, e')" using can res e'(1) by (simp add: handle_cancel_order_def)
    moreover have "after_command sid (Cancel_order order) True b' e = ?e"
      by (simp add: o' bookkeep_def spec_executions_def)
    moreover have "spec_response ?o sid (Cancel_order order) ?a = [?m]" using r by (simp add: spec_response_def)
    ultimately show ?thesis using app res(2) e'(2,3) by (intro exI [of _ True]) simp
  qed
qed

lemma handle_replace_order_ok:
  assumes b: "book_reachable (en_book e)" and ring: "ring_inv message_capacity (en_outbound e)"
    and owners: "dom (en_order_sessions e) = resting_ids (abs_of (en_book e))" and ok: "replace_order_ok order"
    and send: "can_send (length (spec_response (en_order_sessions e) sid (Replace_order order) (abs_of (en_book e))) + k) e"
  shows "\<exists>accepted b' e'. handle_replace_order sid order e = Some (accepted, e') \<and>
    apply_command (en_book e) (Replace_order order) = Some (accepted, b') \<and> can_send k e' \<and>
    pushed (spec_response (en_order_sessions e) sid (Replace_order order) (abs_of (en_book e)))
      (after_command sid (Replace_order order) accepted b' e) e'"
proof -
  let ?o = "en_order_sessions e" and ?a = "abs_of (en_book e)" and ?sq = "rpo_sequence order" and ?i = "rpo_order_id order"
  have q: "quantity_ok (rpo_new_quantity order)" using ok by (simp add: replace_order_ok_def)
  obtain res b' where rep: "replace order (en_book e) = Some (res, b')" and spec: "spec_replace order ?a = (res, abs_of b')"
    using replace_refines [OF reachable_inv [OF b], of order] ok by (auto simp: replace_order_ok_def)
  note b' = reachable_replace(1) [OF b ok rep]
  have app: "apply_command (en_book e) (Replace_order order) = Some (replace_accepted res, b')"
    by (simp add: apply_command_def rep)
  let ?e = "e\<lparr>en_book := b'\<rparr>"
  show ?thesis
  proof (cases "rr_rejection res")
    case (Some reason)
    then have rej: "b' = en_book e" "rr_executions res = []"
      using spec rejected_unchanged [of "en_book e" "Replace_order order" b'] app
      by (auto simp: spec_replace_def replace_accepted_def Let_def split: if_splits prod.splits option.splits)
    let ?m = "rejected_message mt_replace_rejected sid ?sq ?i order_not_found"
    obtain e' where "push_outbound ?m e = Some e'" "can_send k e'" "pushed [?m] e e'"
      using push_outbound_ok [OF ring, of k ?m] send Some spec by (auto simp: spec_response_def)
    then show ?thesis using Some rej spec app rep owners
      by (auto simp: handle_replace_order_def spec_response_def spec_executions_def replace_accepted_def
        replace_error_code_def owners_rejected bookkeep_none)
  next
    case None
    let ?xs = "rr_executions res" and ?r = "remaining_units (rr_remaining_quantity res)"
    let ?m = "accepted_message mt_replace_accepted sid ?sq ?i ?r"
    have p: "placement ?i ?xs ?r ?a (abs_of b')" by (rule spec_replace_placement [OF spec None reachable_distinct [OF b] q])
    have resp: "spec_response ?o sid (Replace_order order) ?a = execution_messages ?o sid ?sq ?xs @ [?m]"
      using None spec by (simp add: spec_response_def)
    let ?f = "forget_filled b' ?xs ?o" and ?o' = "spec_owners ?o sid (Replace_order order) True (abs_of b')"
    obtain e2 where e2: "emit_executions sid ?sq ?xs ?e = Some e2" "can_send (Suc k) e2"
        "pushed (execution_messages ?o sid ?sq ?xs) (bookkeep ?f (of_nat (length ?xs)) ?e) e2"
      using emit_executions_ok [of ?e sid ?sq ?xs "Suc k"] ring send p by (auto simp: resp placement_def)
    have book: "en_book e2 = b'" "en_order_sessions e2 = ?f" using pushed_outbound(2,3) [OF e2(3)] by simp_all
    have o': "(if ?r > 0 \<and> contains ?i b' then ?f(?i \<mapsto> sid) else ?f(?i := None)) = ?o'"
      by (rule placement_owners [OF p owners b']) (simp add: placed_id_def)
    obtain e3 where e3: "push_outbound ?m (bookkeep ?o' 0 e2) = Some e3" "can_send k e3"
        "pushed [?m] (bookkeep ?o' 0 e2) e3"
      using push_outbound_ok [of "bookkeep ?o' 0 e2" k ?m] pushed_outbound(1) [OF e2(3)] e2(2) by auto
    have "(if ?r > 0 \<and> contains ?i (en_book e2) then e2\<lparr>en_order_sessions := (en_order_sessions e2)(?i \<mapsto> sid)\<rparr>
        else e2\<lparr>en_order_sessions := (en_order_sessions e2)(?i := None)\<rparr>) = bookkeep ?o' 0 e2"
      unfolding book o' [symmetric] by (simp add: bookkeep_def)
    then have "handle_replace_order sid order e = Some (True, e3)"
      using None e2(1) e3(1) rep by (simp add: handle_replace_order_def Let_def)
    moreover have "pushed (execution_messages ?o sid ?sq ?xs @ [?m])
        (after_command sid (Replace_order order) True b' e) e3"
      using pushed_trans [OF pushed_bookkeep [OF e2(3), of ?o' 0] e3(3)] spec by (simp add: spec_executions_def)
    ultimately show ?thesis using app None e3(2) by (intro exI [of _ True]) (simp add: resp replace_accepted_def)
  qed
qed

lemma handle_command_ok:
  assumes "book_reachable (en_book e)" and "ring_inv message_capacity (en_outbound e)"
    and "dom (en_order_sessions e) = resting_ids (abs_of (en_book e))" and "command_ok c"
    and "can_send (length (spec_response (en_order_sessions e) sid c (abs_of (en_book e))) + k) e"
  shows "\<exists>accepted b' e'. handle_command sid c e = Some (accepted, e') \<and>
    apply_command (en_book e) c = Some (accepted, b') \<and> can_send k e' \<and>
    pushed (spec_response (en_order_sessions e) sid c (abs_of (en_book e))) (after_command sid c accepted b' e) e'"
proof (cases c)
  case Monostate
  then show ?thesis using assms pushed_refl [of e]
    by (intro exI [of _ False])
      (simp add: handle_command_def apply_command_def spec_response_def spec_executions_def owners_rejected bookkeep_none)
next
  case (New_order order)
  then show ?thesis using handle_new_order_ok [OF assms(1-3), of order sid k] assms(4,5)
    by (simp add: handle_command_def command_ok_def)
next
  case (Cancel_order order)
  then show ?thesis using handle_cancel_order_ok [OF assms(1-3), of sid order k] assms(5)
    by (simp add: handle_command_def)
next
  case (Replace_order order)
  then show ?thesis using handle_replace_order_ok [OF assms(1-3), of order sid k] assms(4,5)
    by (simp add: handle_command_def command_ok_def)
qed

end
