(* ===== verification/Engine_Properties.thy ===== *)
theory Engine_Properties
  imports Engine_Spec
begin

text \<open>
  The matching engine as a reachable system: the gateway enqueues well-formed commands and takes
  outbound messages, the recorder and the publisher take from their queues, the engine processes.
  Every reachable engine satisfies the invariant, and each processed command has exactly the effect
  the specification states.
\<close>

declare length_ring_contents [simp del]

section \<open>Invariant\<close>

abbreviation inbound_contents :: "engine \<Rightarrow> inbound_message list" where
  "inbound_contents e \<equiv> ring_contents message_capacity (en_inbound e)"

abbreviation feed_ring_ok :: "market_data_feed option \<Rightarrow> bool" where
  "feed_ring_ok f \<equiv> (case f of None \<Rightarrow> True | Some f' \<Rightarrow> ring_inv market_data_capacity (mf_queue f'))"

abbreviation capture_ring_ok :: "event_capture_feed option \<Rightarrow> bool" where
  "capture_ring_ok f \<equiv> (case f of None \<Rightarrow> True | Some f' \<Rightarrow> ring_inv message_capacity (ecf_queue f'))"

definition engine_inv :: "engine \<Rightarrow> bool" where
  "engine_inv e \<longleftrightarrow>
     book_reachable (en_book e) \<and>
     dom (en_order_sessions e) = resting_ids (abs_of (en_book e)) \<and>
     ring_inv message_capacity (en_inbound e) \<and> list_all (\<lambda>m. command_ok (im_command m)) (inbound_contents e) \<and>
     ring_inv message_capacity (en_outbound e) \<and>
     feed_ring_ok (en_market_data_feed e) \<and> capture_ring_ok (en_event_capture_feed e) \<and>
     em_outbound_bytes (en_metrics e) = sum_list (map frame_bytes (sent e))"

lemma unat_message_capacity [simp]: "unat message_capacity = 4096"
  by (simp add: message_capacity_def)

lemma capture_queue:
  assumes "ring_inv message_capacity (ecf_queue f)"
  shows "ring_inv message_capacity (ecf_queue (capture c f))"
    "ring_contents message_capacity (ecf_queue (capture c f)) = ring_contents message_capacity (ecf_queue f) @
       (if length (ring_contents message_capacity (ecf_queue f)) < 4096 then [c] else [])"
    "ecf_dropped_commands (capture c f) = ecf_dropped_commands f +
       (if length (ring_contents message_capacity (ecf_queue f)) < 4096 then 0 else 1)"
proof -
  obtain ok q where push: "try_push message_capacity c (ecf_queue f) = (ok, q)" by fastforce
  note law = message_ring.fifo.push_law [OF assms push]
  show "ring_inv message_capacity (ecf_queue (capture c f))"
    "ring_contents message_capacity (ecf_queue (capture c f)) = ring_contents message_capacity (ecf_queue f) @
       (if length (ring_contents message_capacity (ecf_queue f)) < 4096 then [c] else [])"
    "ecf_dropped_commands (capture c f) = ecf_dropped_commands f +
       (if length (ring_contents message_capacity (ecf_queue f)) < 4096 then 0 else 1)"
    using law by (auto simp: capture_def push capture_record_occupancy_def Let_def)
qed

lemma publish_ring:
  assumes "book_reachable b" and "no_overflow (abs_of b)" and "ring_inv market_data_capacity (mf_queue f)"
  shows "\<exists>f'. publish b f = Some f' \<and> ring_inv market_data_capacity (mf_queue f')"
  by (rule publish_cases [OF reachable_inv [OF assms(1)] assms(2,3)]) (use assms(3) in auto)

text \<open>Only an accepted placement brings a new order into the book.\<close>

lemma entering_orders:
  assumes b: "book_reachable b" and ok: "command_ok c" and app: "apply_command b c = Some (accepted, b')"
  shows "resting_ids (abs_of b') \<subseteq> resting_ids (abs_of b) \<union> (if accepted then set_option (placed_id c) else {})"
proof (cases c)
  case (New_order order)
  obtain res where res: "submit order b = Some (res, b')" "accepted = submit_accepted res"
    using app New_order by (auto simp: apply_command_def bind_ub_eq_Some)
  then show ?thesis using rejected_unchanged [of b c b'] app New_order ok
      spec_submit_placement [OF reachable_submit(2) [OF b _ res(1)] _ reachable_distinct [OF b] reachable_seen [OF b]]
    by (cases accepted) (auto simp: placement_def placed_id_def submit_accepted_def command_ok_def)
next
  case (Cancel_order order)
  then have "abs_of b' = snd (spec_cancel order (abs_of b))"
    using app cancel_refines [OF reachable_inv [OF b], of order] by (auto simp: apply_command_def bind_ub_eq_Some)
  then have "resting_ids (abs_of b') \<subseteq> resting_ids (abs_of b)"
    by (auto simp: spec_cancel_def resting_ids_delete split: option.splits)
  then show ?thesis by blast
next
  case (Replace_order order)
  obtain res where res: "replace order b = Some (res, b')" "accepted = replace_accepted res"
    using app Replace_order by (auto simp: apply_command_def bind_ub_eq_Some)
  then show ?thesis using rejected_unchanged [of b c b'] app Replace_order ok
      spec_replace_placement [OF reachable_replace(2) [OF b _ res(1)] _ reachable_distinct [OF b]]
    by (cases accepted) (auto simp: placement_def placed_id_def replace_accepted_def command_ok_def replace_order_ok_def)
qed (use app in \<open>auto simp: apply_command_def\<close>)

lemma spec_owners_dom:
  assumes "dom owners = resting_ids (abs_of b)" and "book_reachable b" and "command_ok c"
    and "apply_command b c = Some (accepted, b')"
  shows "dom (spec_owners owners sid c accepted (abs_of b')) = resting_ids (abs_of b')"
  using entering_orders [OF assms(2-4)] assms(1)
  by (auto simp: spec_owners_def dom_def split: if_splits)

section \<open>One command\<close>

lemma command_reachable:
  "book_reachable b \<Longrightarrow> command_ok c \<Longrightarrow> apply_command b c = Some (accepted, b') \<Longrightarrow> book_reachable b'"
  by (rule book_reachable.step) (auto simp: book_step_iff)

lemma command_spec:
  "book_reachable b \<Longrightarrow> command_ok c \<Longrightarrow> apply_command b c = Some (accepted, b') \<Longrightarrow>
   spec_apply c (abs_of b) = (accepted, abs_of b')"
  using book.step_spec [OF _ reachable_inv] .

text \<open>What recording the outcome leaves alone.\<close>

lemma record_fields [simp]:
  "en_inbound (record_command_result now m accepted (count_inbound_bytes m e)) = en_inbound e"
  "en_outbound (record_command_result now m accepted (count_inbound_bytes m e)) = en_outbound e"
  "en_market_data_feed (record_command_result now m accepted (count_inbound_bytes m e)) = en_market_data_feed e"
  "en_event_capture_feed (record_command_result now m accepted (count_inbound_bytes m e)) = en_event_capture_feed e"
  "en_book (record_command_result now m accepted (count_inbound_bytes m e)) = en_book e"
  "en_order_sessions (record_command_result now m accepted (count_inbound_bytes m e)) = en_order_sessions e"
  "en_turns (record_command_result now m accepted (count_inbound_bytes m e)) = en_turns e"
  "en_taken (record_command_result now m accepted (count_inbound_bytes m e)) = en_taken e"
  "em_outbound_bytes (en_metrics (record_command_result now m accepted (count_inbound_bytes m e))) =
     em_outbound_bytes (en_metrics e)"
  "em_executions (en_metrics (record_command_result now m accepted (count_inbound_bytes m e))) =
     em_executions (en_metrics e)"
  by (simp_all add: record_command_result_def count_inbound_bytes_def Let_def split: command.split)

abbreviation is_cancel_command :: "command \<Rightarrow> bool" where
  "is_cancel_command c \<equiv> (case c of Cancel_order _ \<Rightarrow> True | _ \<Rightarrow> False)"

text \<open>How the counters move by a command with \<open>n\<close> executions.\<close>

definition counted :: "command \<Rightarrow> bool \<Rightarrow> nat \<Rightarrow> matching_engine_metrics \<Rightarrow> matching_engine_metrics \<Rightarrow> bool" where
  "counted c accepted n m m' \<longleftrightarrow>
     em_accepted_commands m' = em_accepted_commands m + (if accepted then 1 else 0) \<and>
     em_rejected_commands m' = em_rejected_commands m + (if accepted then 0 else 1) \<and>
     em_accepted_cancels m' = em_accepted_cancels m + (if is_cancel_command c \<and> accepted then 1 else 0) \<and>
     em_rejected_cancels m' = em_rejected_cancels m + (if is_cancel_command c \<and> \<not> accepted then 1 else 0) \<and>
     em_executions m' = em_executions m + of_nat n"

lemma record_counts:
  "em_executions (en_metrics e) = em_executions m + of_nat n \<Longrightarrow>
   em_accepted_commands (en_metrics e) = em_accepted_commands m \<Longrightarrow> em_rejected_commands (en_metrics e) = em_rejected_commands m \<Longrightarrow>
   em_accepted_cancels (en_metrics e) = em_accepted_cancels m \<Longrightarrow> em_rejected_cancels (en_metrics e) = em_rejected_cancels m \<Longrightarrow>
   counted (im_command msg) accepted n m (en_metrics (record_command_result now msg accepted (count_inbound_bytes msg e)))"
  by (simp add: record_command_result_def count_inbound_bytes_def counted_def Let_def split: command.split)

text \<open>The engine that has taken the next command off its queue.\<close>

definition popped :: "inbound_message ring \<Rightarrow> engine \<Rightarrow> engine" where
  "popped q e = (if ring_size (en_inbound e) > em_inbound_queue_high_water (en_metrics e)
    then e\<lparr>en_metrics := (en_metrics e)\<lparr>em_inbound_queue_high_water := ring_size (en_inbound e)\<rparr>\<rparr> else e)\<lparr>en_inbound := q\<rparr>"

lemma popped_fields [simp]:
  "en_book (popped q e) = en_book e" "en_outbound (popped q e) = en_outbound e" "en_order_sessions (popped q e) = en_order_sessions e"
  "en_market_data_feed (popped q e) = en_market_data_feed e" "en_event_capture_feed (popped q e) = en_event_capture_feed e"
  "en_taken (popped q e) = en_taken e" "en_turns (popped q e) = en_turns e" "en_inbound (popped q e) = q"
  "em_outbound_bytes (en_metrics (popped q e)) = em_outbound_bytes (en_metrics e)"
  "em_executions (en_metrics (popped q e)) = em_executions (en_metrics e)"
  "em_accepted_commands (en_metrics (popped q e)) = em_accepted_commands (en_metrics e)"
  "em_rejected_commands (en_metrics (popped q e)) = em_rejected_commands (en_metrics e)"
  "em_accepted_cancels (en_metrics (popped q e)) = em_accepted_cancels (en_metrics e)"
  "em_rejected_cancels (en_metrics (popped q e)) = em_rejected_cancels (en_metrics e)"
  "sent (popped q e) = sent e" "can_send n (popped q e) = can_send n e"
  by (simp_all add: popped_def sent_def can_send_def)

lemma process_one_pops:
  assumes "engine_inv e" and "inbound_contents e = m # ms"
  obtains q where "ring_inv message_capacity q" "ring_contents message_capacity q = ms"
    "process_one now e = do { (accepted, e') \<leftarrow> handle_command (im_session_id m) (im_command m) (popped q e);
       conclude_command now m accepted e' }"
proof -
  have rin: "ring_inv message_capacity (en_inbound e)" using assms(1) by (simp add: engine_inv_def)
  obtain q where pop: "try_pop message_capacity (\<lambda>m. m) (en_inbound e) = (Some m, q)"
    and q: "ring_inv message_capacity q" "ring_contents message_capacity q = ms"
    using message_ring.fifo.pop_law [OF rin, of "\<lambda>m. m"] assms(2)
    by (cases "try_pop message_capacity (\<lambda>m. m) (en_inbound e)") auto
  show thesis by (rule that [OF q]) (auto simp: process_one_def popped_def pop Let_def)
qed

text \<open>Counting and capturing a command that has been handled; what is left is to publish the book.\<close>

definition noted :: "i64 \<Rightarrow> inbound_message \<Rightarrow> bool \<Rightarrow> engine \<Rightarrow> engine" where
  "noted now m accepted e =
     (let e' = record_command_result now m accepted (count_inbound_bytes m e) in
      case en_event_capture_feed e' of
        Some feed \<Rightarrow> if accepted then e'\<lparr>en_event_capture_feed := Some (capture (im_command m) feed)\<rparr> else e'
      | None \<Rightarrow> e')"

lemma conclude_command_noted:
  "conclude_command now m accepted e = (case en_market_data_feed (noted now m accepted e) of
      Some feed \<Rightarrow> do { feed' \<leftarrow> publish (en_book (noted now m accepted e)) feed;
        Some (True, (noted now m accepted e)\<lparr>en_market_data_feed := Some feed'\<rparr>) }
    | None \<Rightarrow> Some (True, noted now m accepted e))"
  by (simp only: conclude_command_def noted_def Let_def)

lemma process_one_ok:
  assumes inv: "engine_inv e" and msg: "inbound_contents e = m # ms"
    and send: "can_send (length (spec_response (en_order_sessions e) (im_session_id m) (im_command m) (abs_of (en_book e))) + k) e"
    and levels: "en_market_data_feed e \<noteq> None \<Longrightarrow> no_overflow (snd (spec_apply (im_command m) (abs_of (en_book e))))"
  shows "\<exists>accepted b' e'. process_one now e = Some (True, e') \<and>
    apply_command (en_book e) (im_command m) = Some (accepted, b') \<and> en_book e' = b' \<and> inbound_contents e' = ms \<and>
    sent e' = sent e @ spec_response (en_order_sessions e) (im_session_id m) (im_command m) (abs_of (en_book e)) \<and>
    en_order_sessions e' = spec_owners (en_order_sessions e) (im_session_id m) (im_command m) accepted (abs_of b') \<and>
    en_event_capture_feed e' = (if accepted then map_option (capture (im_command m)) (en_event_capture_feed e)
                                else en_event_capture_feed e) \<and>
    (en_market_data_feed e' = None \<longleftrightarrow> en_market_data_feed e = None) \<and>
    en_market_data_feed e' = Option.bind (en_market_data_feed e) (publish b') \<and>
    counted (im_command m) accepted (length (spec_executions (im_command m) (abs_of (en_book e)))) (en_metrics e) (en_metrics e') \<and>
    can_send k e' \<and> engine_inv e'"
proof -
  let ?c = "im_command m" and ?sid = "im_session_id m"
  obtain q where q: "ring_inv message_capacity q" "ring_contents message_capacity q = ms"
    and pops: "process_one now e = do { (accepted, e') \<leftarrow> handle_command ?sid ?c (popped q e); conclude_command now m accepted e' }"
    using process_one_pops [OF inv msg] .
  have ok: "command_ok ?c" using inv msg by (simp add: engine_inv_def)
  have b: "book_reachable (en_book e)" and dom: "dom (en_order_sessions e) = resting_ids (abs_of (en_book e))"
    using inv by (simp_all add: engine_inv_def)
  obtain accepted b' e2 where h: "handle_command ?sid ?c (popped q e) = Some (accepted, e2)"
      "apply_command (en_book e) ?c = Some (accepted, b')" "can_send k e2"
      "pushed (spec_response (en_order_sessions e) ?sid ?c (abs_of (en_book e))) (after_command ?sid ?c accepted b' (popped q e)) e2"
    using handle_command_ok [of "popped q e" ?c ?sid k] inv ok send by (auto simp: engine_inv_def)
  note b' = command_reachable [OF b ok h(2)]
  let ?e4 = "noted now m accepted e2"
  have e4: "en_book ?e4 = b'" "en_outbound ?e4 = en_outbound e2" "en_taken ?e4 = en_taken e2" "en_turns ?e4 = en_turns e2"
    "en_inbound ?e4 = q" "en_market_data_feed ?e4 = en_market_data_feed e"
    "en_order_sessions ?e4 = spec_owners (en_order_sessions e) ?sid ?c accepted (abs_of b')"
    "em_outbound_bytes (en_metrics ?e4) = em_outbound_bytes (en_metrics e2)"
    "counted ?c accepted (length (spec_executions ?c (abs_of (en_book e)))) (en_metrics e) (en_metrics ?e4)"
    "en_event_capture_feed ?e4 = (if accepted then map_option (capture ?c) (en_event_capture_feed e) else en_event_capture_feed e)"
    using h(4) by (auto simp: noted_def Let_def pushed_def outbound_frame_def metrics_frame_def bookkeep_def record_counts split: option.split)
  have sent4: "sent ?e4 = sent e @ spec_response (en_order_sessions e) ?sid ?c (abs_of (en_book e))" "can_send k ?e4"
    using h(3,4) by (auto simp: sent_def can_send_def e4 pushed_def bookkeep_def)
  have inv4: "engine_inv ?e4"
    using inv msg h(4) e4 q b' sent4(1) spec_owners_dom [OF dom b ok h(2)] capture_queue(1)
    by (auto simp: engine_inv_def pushed_def bookkeep_def split: option.splits)
  have one: "process_one now e = (case en_market_data_feed ?e4 of
      Some feed \<Rightarrow> do { feed' \<leftarrow> publish b' feed; Some (True, ?e4\<lparr>en_market_data_feed := Some feed'\<rparr>) } | None \<Rightarrow> Some (True, ?e4))"
    using pops h(1) conclude_command_noted [of now m accepted e2] unfolding e4(1) by simp
  show ?thesis
  proof (cases "en_market_data_feed e")
    case None
    then show ?thesis using one h(2) e4 sent4 inv4 q(2) by (intro exI [of _ accepted]) auto
  next
    case (Some f)
    have "no_overflow (abs_of b')" using levels Some command_spec [OF b ok h(2)] by simp
    moreover have "ring_inv market_data_capacity (mf_queue f)" using inv Some by (simp add: engine_inv_def)
    ultimately obtain f' where "publish b' f = Some f'" "ring_inv market_data_capacity (mf_queue f')"
      using publish_ring [OF b'] by blast
    moreover have "engine_inv (?e4\<lparr>en_market_data_feed := Some f'\<rparr>)" using inv4 calculation(2)
      by (simp add: engine_inv_def sent_def)
    ultimately show ?thesis using one h(2) e4 sent4 q(2) Some
      by (intro exI [of _ accepted]) (auto simp: sent_def can_send_def)
  qed
qed

section \<open>Reachable engines\<close>

definition response :: "inbound_message \<Rightarrow> engine \<Rightarrow> outbound_message list" where
  "response m e = spec_response (en_order_sessions e) (im_session_id m) (im_command m) (abs_of (en_book e))"

text \<open>The next command can be processed: its events get through, and no level overflows if it is published.\<close>

definition ready :: "engine \<Rightarrow> bool" where
  "ready e \<longleftrightarrow> (case inbound_contents e of
      [] \<Rightarrow> True
    | m # ms \<Rightarrow> can_send (length (response m e)) e \<and>
        (en_market_data_feed e \<noteq> None \<longrightarrow> no_overflow (snd (spec_apply (im_command m) (abs_of (en_book e))))))"

inductive engine_step :: "engine \<Rightarrow> engine \<Rightarrow> bool" where
  enqueue: "command_ok (im_command m) \<Longrightarrow> try_push message_capacity m (en_inbound e) = (ok, q) \<Longrightarrow>
     engine_step e (e\<lparr>en_inbound := q\<rparr>)"
| schedule: "engine_step e (e\<lparr>en_turns := turns\<rparr>)"
| take_messages: "engine_step e (gateway_turn e)"
| take_captured: "en_event_capture_feed e = Some f \<Longrightarrow> try_pop message_capacity (\<lambda>c. c) (ecf_queue f) = (out, q) \<Longrightarrow>
     engine_step e (e\<lparr>en_event_capture_feed := Some (f\<lparr>ecf_queue := q\<rparr>)\<rparr>)"
| take_market_data: "en_market_data_feed e = Some g \<Longrightarrow>
     try_pop market_data_capacity (\<lambda>d. d) (mf_queue g) = (event, r) \<Longrightarrow>
     engine_step e (e\<lparr>en_market_data_feed := Some (g\<lparr>mf_queue := r\<rparr>)\<rparr>)"
| process: "ready e \<Longrightarrow> process_one now e = Some (busy, e') \<Longrightarrow> engine_step e e'"

inductive engine_reachable :: "engine \<Rightarrow> bool" where
  init: "ring_inv message_capacity inbound \<Longrightarrow> ring_contents message_capacity inbound = [] \<Longrightarrow>
     ring_inv message_capacity outbound \<Longrightarrow> ring_contents message_capacity outbound = [] \<Longrightarrow>
     feed_ring_ok feed \<Longrightarrow> capture_ring_ok capture_feed \<Longrightarrow>
     engine_reachable (make_engine inbound outbound feed capture_feed turns)"
| step: "engine_reachable e \<Longrightarrow> engine_step e e' \<Longrightarrow> engine_reachable e'"

lemma resting_ids_empty: "resting_ids (abs_of empty_book) = {}"
  by (simp add: resting_ids_def abs_of_def empty_book_def)

lemma engine_inv_init:
  "ring_inv message_capacity inbound \<Longrightarrow> ring_contents message_capacity inbound = [] \<Longrightarrow>
   ring_inv message_capacity outbound \<Longrightarrow> ring_contents message_capacity outbound = [] \<Longrightarrow>
   feed_ring_ok feed \<Longrightarrow> capture_ring_ok capture_feed \<Longrightarrow>
   engine_inv (make_engine inbound outbound feed capture_feed turns)"
  by (simp add: engine_inv_def make_engine_def book_reachable.empty resting_ids_empty sent_def zero_metrics_def)

lemma engine_inv_enqueue:
  assumes "engine_inv e" and "command_ok (im_command m)" and "try_push message_capacity m (en_inbound e) = (ok, q)"
  shows "engine_inv (e\<lparr>en_inbound := q\<rparr>)"
proof -
  have "ring_inv message_capacity (en_inbound e)" using assms(1) by (simp add: engine_inv_def)
  from message_ring.fifo.push_law [OF this assms(3)] assms(1,2) show ?thesis
    by (auto simp: engine_inv_def sent_def)
qed

lemma process_one_idle:
  assumes "engine_inv e" and "inbound_contents e = []"
  shows "\<exists>e'. process_one now e = Some (False, e') \<and> engine_inv e' \<and> sent e' = sent e \<and> en_book e' = en_book e \<and>
    inbound_contents e' = [] \<and> en_order_sessions e' = en_order_sessions e \<and> en_taken e' = en_taken e \<and>
    en_market_data_feed e' = en_market_data_feed e \<and> en_event_capture_feed e' = en_event_capture_feed e"
proof -
  have rin: "ring_inv message_capacity (en_inbound e)" using assms(1) by (simp add: engine_inv_def)
  obtain q where pop: "try_pop message_capacity (\<lambda>m. m) (en_inbound e) = (None, q)"
    and q: "ring_inv message_capacity q" "ring_contents message_capacity q = []"
    using message_ring.fifo.pop_law [OF rin, of "\<lambda>m. m"] assms(2)
    by (cases "try_pop message_capacity (\<lambda>m. m) (en_inbound e)") auto
  then show ?thesis using assms by (auto simp: process_one_def Let_def engine_inv_def sent_def)
qed

lemma process_one_ready:
  assumes "engine_inv e" and "ready e" and "inbound_contents e = m # ms"
  shows "\<exists>accepted b' e'. process_one now e = Some (True, e') \<and>
    apply_command (en_book e) (im_command m) = Some (accepted, b') \<and> en_book e' = b' \<and> inbound_contents e' = ms \<and>
    sent e' = sent e @ response m e \<and>
    en_order_sessions e' = spec_owners (en_order_sessions e) (im_session_id m) (im_command m) accepted (abs_of b') \<and>
    en_event_capture_feed e' = (if accepted then map_option (capture (im_command m)) (en_event_capture_feed e)
                                else en_event_capture_feed e) \<and>
    counted (im_command m) accepted (length (spec_executions (im_command m) (abs_of (en_book e)))) (en_metrics e) (en_metrics e') \<and>
    (en_market_data_feed e' = None \<longleftrightarrow> en_market_data_feed e = None) \<and>
    en_market_data_feed e' = Option.bind (en_market_data_feed e) (publish b') \<and> engine_inv e'"
proof -
  have send: "can_send (length (spec_response (en_order_sessions e) (im_session_id m) (im_command m) (abs_of (en_book e))) + 0) e"
    and levels: "en_market_data_feed e \<noteq> None \<longrightarrow> no_overflow (snd (spec_apply (im_command m) (abs_of (en_book e))))"
    using assms(2,3) by (simp_all add: ready_def response_def)
  show ?thesis unfolding response_def
    by (rule exE [OF process_one_ok [OF assms(1,3) send levels [rule_format], of now]], assumption)
      (elim exE conjE, intro exI conjI; assumption)
qed

lemma engine_inv_step: "engine_step e e' \<Longrightarrow> engine_inv e \<Longrightarrow> engine_inv e'"
proof (induction rule: engine_step.induct)
  case (enqueue m e ok q)
  then show ?case using engine_inv_enqueue by blast
next
  case (take_messages e)
  then show ?case using gateway_turn_ok [of e] by (auto simp: engine_inv_def outbound_frame_def)
next
  case (take_captured e f out q)
  then show ?case using message_ring.fifo.pop_law [of "ecf_queue f"] by (auto simp: engine_inv_def sent_def)
next
  case (take_market_data e g event r)
  then show ?case using market_data_ring.fifo.pop_law [of "mf_queue g"] by (auto simp: engine_inv_def sent_def)
next
  case (process e now busy e')
  then show ?case using process_one_idle [of e now] process_one_ready [of e _ _ now]
    by (cases "inbound_contents e") auto
qed (simp add: engine_inv_def sent_def)

lemma engine_reachable_inv: "engine_reachable e \<Longrightarrow> engine_inv e"
  by (induction rule: engine_reachable.induct) (auto intro: engine_inv_init engine_inv_step)

section \<open>Properties\<close>

subsection \<open>A small engine for the examples\<close>

definition cancel_message :: inbound_message where
  "cancel_message = \<lparr>im_session_id = 7, im_command = Cancel_order \<lparr>co_sequence = SequenceNumber 1, co_order_id = OrderId 9\<rparr>,
     im_wire_bytes = 24, im_received_at = 0\<rparr>"

definition order_message :: "u64 \<Rightarrow> new_order \<Rightarrow> inbound_message" where
  "order_message sid order = \<lparr>im_session_id = sid, im_command = New_order order, im_wire_bytes = 48, im_received_at = 0\<rparr>"

definition blank_outbound :: outbound_message where
  "blank_outbound = \<lparr>om_session_id = 0, om_type = mt_order_accepted, om_flags = 0, om_payload = No_payload\<rparr>"

definition fresh_engine :: engine where
  "fresh_engine = make_engine (empty_ring message_capacity cancel_message) (empty_ring message_capacity blank_outbound)
     None None []"

lemma fresh_engine_reachable: "engine_reachable fresh_engine"
  unfolding fresh_engine_def by (rule engine_reachable.init) (simp_all add: ring_inv_empty)

lemma fresh_engine_fields [simp]:
  "inbound_contents fresh_engine = []" "sent fresh_engine = []" "en_book fresh_engine = empty_book"
  "en_order_sessions fresh_engine = Map.empty" "en_market_data_feed fresh_engine = None"
  "ring_contents message_capacity (en_outbound fresh_engine) = []" "en_event_capture_feed fresh_engine = None"
  by (simp_all add: fresh_engine_def make_engine_def ring_inv_empty sent_def)

text \<open>Enqueueing one command on a reachable engine without market data.\<close>

lemma enqueue_reachable:
  assumes e: "engine_reachable e" and ok: "command_ok (im_command m)" and empty: "inbound_contents e = []"
  obtains e' where "engine_reachable e'" "inbound_contents e' = [m]" "en_book e' = en_book e" "sent e' = sent e"
    "en_order_sessions e' = en_order_sessions e" "en_market_data_feed e' = en_market_data_feed e"
    "en_outbound e' = en_outbound e" "en_event_capture_feed e' = en_event_capture_feed e"
proof -
  obtain ok' q where push: "try_push message_capacity m (en_inbound e) = (ok', q)" by fastforce
  have "ring_inv message_capacity (en_inbound e)" using engine_reachable_inv [OF e] by (simp add: engine_inv_def)
  from message_ring.fifo.push_law [OF this push] have "ring_contents message_capacity q = [m]" using empty by simp
  then show thesis using that [of "e\<lparr>en_inbound := q\<rparr>"] engine_reachable.step [OF e engine_step.enqueue [OF ok push]]
    by (simp add: sent_def)
qed

text \<open>An engine with one cancellation of an unknown order queued, before and after processing it.\<close>

abbreviation unknown_order :: outbound_message where
  "unknown_order \<equiv> rejected_message mt_cancel_rejected 7 (SequenceNumber 1) (OrderId 9) order_not_found"

lemma cancel_engine:
  obtains e e' where "engine_reachable e" "ready e" "inbound_contents e = [cancel_message]" "sent e = []"
    "response cancel_message e = [unknown_order]" "process_one 5 e = Some (True, e')" "sent e' = [unknown_order]"
    "en_market_data_feed e = None" "en_outbound e = en_outbound fresh_engine" "en_book e = empty_book"
    "en_order_sessions e = Map.empty"
proof -
  have ok: "command_ok (im_command cancel_message)" by code_simp
  obtain e where e: "engine_reachable e" "inbound_contents e = [cancel_message]" "en_book e = empty_book" "sent e = []"
      "en_order_sessions e = Map.empty" "en_market_data_feed e = None" "en_outbound e = en_outbound fresh_engine"
    using enqueue_reachable [OF fresh_engine_reachable ok] by auto
  have resp: "response cancel_message e = [unknown_order]" unfolding response_def e(3,5) by code_simp
  have ready: "ready e" using e resp by (simp add: ready_def can_sendI(1))
  obtain e' where "process_one 5 e = Some (True, e')" "sent e' = response cancel_message e"
    using process_one_ready [OF engine_reachable_inv [OF e(1)] ready e(2), of 5] e(4) by auto
  then show thesis using that e resp ready by simp
qed

subsection \<open>The properties\<close>

text \<open>
  Claim C4. The engine implements the specification of one command: on a reachable engine whose
  next command can be answered, \<open>process_one\<close> returns, consumes exactly that command, moves the book
  as the price-time specification says, appends exactly the specified events, in order, to what was
  sent, updates the owners as specified, captures the command exactly if it was accepted, and counts
  it once, as accepted or as rejected, cancellations also separately, and each of its executions.
\<close>

theorem engine_implements_spec:
  assumes "engine_reachable e" and "ready e" and "ring_contents message_capacity (en_inbound e) = m # ms"
  shows "\<exists>accepted e'. process_one now e = Some (True, e') \<and> engine_reachable e' \<and>
    ring_contents message_capacity (en_inbound e') = ms \<and>
    spec_apply (im_command m) (abs_of (en_book e)) = (accepted, abs_of (en_book e')) \<and>
    sent e' = sent e @ spec_response (en_order_sessions e) (im_session_id m) (im_command m) (abs_of (en_book e)) \<and>
    en_order_sessions e' =
      spec_owners (en_order_sessions e) (im_session_id m) (im_command m) accepted (abs_of (en_book e')) \<and>
    en_event_capture_feed e' = (if accepted then map_option (capture (im_command m)) (en_event_capture_feed e)
                                else en_event_capture_feed e) \<and>
    counted (im_command m) accepted (length (spec_executions (im_command m) (abs_of (en_book e)))) (en_metrics e) (en_metrics e')"
proof -
  note inv = engine_reachable_inv [OF assms(1)]
  obtain accepted b' e' where one: "process_one now e = Some (True, e')"
      "apply_command (en_book e) (im_command m) = Some (accepted, b')" "en_book e' = b'" "inbound_contents e' = ms"
      "sent e' = sent e @ response m e"
      "en_order_sessions e' = spec_owners (en_order_sessions e) (im_session_id m) (im_command m) accepted (abs_of b')"
      "en_event_capture_feed e' = (if accepted then map_option (capture (im_command m)) (en_event_capture_feed e)
                                   else en_event_capture_feed e)"
      "counted (im_command m) accepted (length (spec_executions (im_command m) (abs_of (en_book e)))) (en_metrics e) (en_metrics e')"
    using process_one_ready [OF inv assms(2,3), of now] by blast
  have "command_ok (im_command m)" "book_reachable (en_book e)" using inv assms(3) by (simp_all add: engine_inv_def)
  then have "spec_apply (im_command m) (abs_of (en_book e)) = (accepted, abs_of (en_book e'))"
    using command_spec one(2,3) by blast
  moreover have "engine_reachable e'" by (rule engine_reachable.step [OF assms(1) engine_step.process [OF assms(2) one(1)]])
  ultimately show ?thesis using one by (auto simp: response_def)
qed

theorem engine_implements_spec_witness:
  "\<exists>e e'. process_one 5 e = Some (True, e') \<and> engine_reachable e' \<and> sent e' = [unknown_order]"
proof (rule cancel_engine)
  fix e e'
  assume e: "engine_reachable e" "ready e" "inbound_contents e = [cancel_message]" "sent e = []"
    "response cancel_message e = [unknown_order]"
  from engine_implements_spec [OF e(1-3), of 5] e(4,5) show ?thesis by (auto simp: response_def)
qed

text \<open>
  The engine knows the owner of exactly the resting orders: in every reachable state
  \<open>order_sessions_\<close> has an entry for an order identifier if and only if the order is in the book, so
  no entry of a filled or cancelled order is left behind and no fill goes unreported.
\<close>

theorem owners_are_resting:
  assumes "engine_reachable e"
  shows "en_order_sessions e i \<noteq> None \<longleftrightarrow> contains i (en_book e)"
  using engine_reachable_inv [OF assms] contains_resting [of "en_book e" i] domIff [of i "en_order_sessions e"]
  by (auto simp: engine_inv_def)

theorem owners_are_resting_witness:
  "en_order_sessions fresh_engine (OrderId 1) \<noteq> None \<longleftrightarrow> contains (OrderId 1) (en_book fresh_engine)"
  using owners_are_resting [OF fresh_engine_reachable, of "OrderId 1"] .

lemma mine_executions:
  "filter (\<lambda>x. om_session_id x = sid) (execution_messages owners sid sq xs) =
     map (execution_message sid kFlagMore sq) xs"
  by (induction xs) (auto simp: execution_message_def resting_copy_def split: option.splits)

lemma others_executions:
  "x \<in> set (execution_messages owners sid sq xs) \<Longrightarrow> om_session_id x \<noteq> sid \<Longrightarrow> om_flags x = 0 \<and> om_type x = mt_execution"
  by (induction xs) (auto simp: execution_message_def resting_copy_def split: option.splits if_splits)

definition answers :: "u64 \<Rightarrow> outbound_message list \<Rightarrow> bool" where
  "answers sid ms \<longleftrightarrow> (\<exists>ys t. filter (\<lambda>x. om_session_id x = sid) ms = ys @ [t] \<and>
     list_all (\<lambda>y. om_type y = mt_execution \<and> om_flags y = kFlagMore) ys \<and>
     om_flags t = 0 \<and> om_type t \<noteq> mt_execution) \<and>
   list_all (\<lambda>x. om_session_id x = sid \<or> (om_type x = mt_execution \<and> om_flags x = 0)) ms"

lemma answers_single: "om_session_id m = sid \<Longrightarrow> om_flags m = 0 \<Longrightarrow> om_type m \<noteq> mt_execution \<Longrightarrow> answers sid [m]"
  by (auto simp: answers_def)

lemma answers_executions:
  "om_session_id m = sid \<Longrightarrow> om_flags m = 0 \<Longrightarrow> om_type m \<noteq> mt_execution \<Longrightarrow>
   answers sid (execution_messages owners sid sq xs @ [m])"
  using others_executions [of _ owners sid sq xs]
  by (auto simp: answers_def mine_executions list_all_iff execution_message_def)

lemmas terminal_types = mt_execution_def mt_order_accepted_def mt_order_rejected_def mt_cancel_accepted_def
  mt_cancel_rejected_def mt_replace_accepted_def mt_replace_rejected_def

lemma response_answers: "c \<noteq> Monostate \<Longrightarrow> answers sid (spec_response owners sid c a)"
  by (cases c)
    (auto simp: spec_response_def Let_def rejected_message_def accepted_message_def cancelled_message_def terminal_types
      intro!: answers_single answers_executions split: option.split)

text \<open>
  Claim C24. Every command is answered as the protocol prescribes: among the events a command
  produces, those addressed to its session are executions with the \<open>more\<close> flag set followed by
  exactly one terminal event without it, and every other event is an execution, without the flag,
  for the owner of a resting order.
\<close>

theorem command_is_answered:
  assumes "engine_reachable e" and "ready e" and "ring_contents message_capacity (en_inbound e) = m # ms"
    and "im_command m \<noteq> Monostate" and "process_one now e = Some (busy, e')"
    and "news = drop (length (sent e)) (sent e')"
  shows "(\<exists>ys t. filter (\<lambda>x. om_session_id x = im_session_id m) news = ys @ [t] \<and>
       list_all (\<lambda>y. om_type y = mt_execution \<and> om_flags y = kFlagMore) ys \<and>
       om_flags t = 0 \<and> om_type t \<noteq> mt_execution) \<and>
     list_all (\<lambda>x. om_session_id x = im_session_id m \<or> (om_type x = mt_execution \<and> om_flags x = 0)) news"
proof -
  have "news = response m e"
    using process_one_ready [OF engine_reachable_inv [OF assms(1)] assms(2,3), of now] assms(5,6) by auto
  then show ?thesis
    using response_answers [OF assms(4), of "im_session_id m" "en_order_sessions e" "abs_of (en_book e)"]
    by (simp add: answers_def response_def)
qed

theorem command_is_answered_witness:
  "\<exists>e e' news t. process_one 5 e = Some (True, e') \<and> news = drop (length (sent e)) (sent e') \<and>
     filter (\<lambda>x. om_session_id x = 7) news = [t] \<and> om_flags t = 0"
proof (rule cancel_engine)
  fix e e'
  assume e: "engine_reachable e" "ready e" "inbound_contents e = [cancel_message]" "sent e = []"
    "process_one 5 e = Some (True, e')" "sent e' = [unknown_order]"
  have "im_command cancel_message \<noteq> Monostate" by (simp add: cancel_message_def)
  from command_is_answered [OF e(1-3) this e(5) refl] e(4,6)
  have "\<exists>t. filter (\<lambda>x. om_session_id x = 7) (sent e') = [t] \<and> om_flags t = 0"
    by (auto simp: cancel_message_def rejected_message_def Cons_eq_append_conv)
  then show ?thesis using e(4,5) by (intro exI [of _ e] exI [of _ e']) auto
qed

subsection \<open>Waiting for the gateway\<close>

lemma can_send_bookkeep_book [simp]: "can_send k (e\<lparr>en_book := b\<rparr>) = can_send k e"
  by (simp add: can_send_def)

lemma emit_execution_starved:
  assumes "ring_inv message_capacity (en_outbound e)" and "\<not> can_send 1 e"
  shows "emit_execution sid sq x e = None"
proof -
  have "push_outbound msg (e\<lparr>en_metrics := mt\<rparr>) = None" "push_outbound msg (e\<lparr>en_metrics := mt, en_order_sessions := o'\<rparr>) = None"
    for msg mt o'
    using assms by (simp_all add: push_outbound_starved can_send_def)
  then show ?thesis by (simp add: emit_execution_def Let_def)
qed

lemma handle_command_starved:
  assumes "ring_inv message_capacity (en_outbound e)" and "\<not> can_send 1 e" and "c \<noteq> Monostate"
  shows "handle_command sid c e = None"
proof -
  have "push_outbound msg (e\<lparr>en_book := b\<rparr>) = None" "push_outbound msg (e\<lparr>en_book := b, en_order_sessions := o'\<rparr>) = None"
    "emit_execution sid sq x (e\<lparr>en_book := b\<rparr>) = None" for msg b o' sq x
    using assms(1,2) by (simp_all add: push_outbound_starved emit_execution_starved can_send_def)
  note none = this
  have new: "handle_new_order sid order e = None" for order
  proof (cases "submit order (en_book e)")
    case (Some rb)
    then show ?thesis by (cases rb; cases "sr_executions (fst rb)")
        (auto simp: handle_new_order_def none Let_def split: option.split)
  qed (simp add: handle_new_order_def)
  have can: "handle_cancel_order sid order e = None" for order
    by (cases "cancel order (en_book e)") (auto simp: handle_cancel_order_def none Let_def split: bind_splits)
  have rep: "handle_replace_order sid order e = None" for order
  proof (cases "replace order (en_book e)")
    case (Some rb)
    then show ?thesis by (cases rb; cases "rr_executions (fst rb)")
        (auto simp: handle_replace_order_def none Let_def split: option.split)
  qed (simp add: handle_replace_order_def)
  show ?thesis using assms(3) by (cases c) (simp_all add: handle_command_def new can rep)
qed

lemma process_one_starved:
  assumes "ring_inv message_capacity (en_inbound e)" and "inbound_contents e = m # ms" and "im_command m \<noteq> Monostate"
    and "ring_inv message_capacity (en_outbound e)" and "\<not> can_send 1 e"
  shows "process_one now e = None"
proof -
  obtain q where pop: "try_pop message_capacity (\<lambda>m. m) (en_inbound e) = (Some m, q)"
    using message_ring.fifo.pop_law [OF assms(1), of "\<lambda>m. m"] assms(2)
    by (cases "try_pop message_capacity (\<lambda>m. m) (en_inbound e)") auto
  have "handle_command (im_session_id m) (im_command m) (e\<lparr>en_metrics := mt, en_inbound := q\<rparr>) = None"
    "handle_command (im_session_id m) (im_command m) (e\<lparr>en_inbound := q\<rparr>) = None" for mt
    using assms(3-5) by (simp_all add: handle_command_starved can_send_def)
  then show ?thesis using pop by (simp add: process_one_def Let_def)
qed

text \<open>
  Claim C26. The engine waits for the gateway without limit: with the outbound queue full and a
  gateway that takes nothing more, processing any command never returns, whatever the command and
  the book. (On shutdown the program stops the gateway's thread before it joins the engine's.)
\<close>

theorem engine_blocks_on_full_outbound:
  assumes "ring_inv message_capacity (en_inbound e)" and "ring_contents message_capacity (en_inbound e) = m # ms"
    and "im_command m \<noteq> Monostate"
    and "ring_inv message_capacity (en_outbound e)" and "length (ring_contents message_capacity (en_outbound e)) = 4096"
    and "en_turns e = []"
  shows "process_one now e = None"
  using process_one_starved [OF assms(1-4)] assms(5,6) by (simp add: can_send_def)

definition full_engine :: engine where
  "full_engine = fresh_engine\<lparr>
     en_inbound := \<lparr>rq_buffer = replicate 4096 cancel_message, rq_write_index = 1, rq_cached_read_index = 0,
                    rq_read_index = 0, rq_cached_write_index = 0\<rparr>,
     en_outbound := \<lparr>rq_buffer = replicate 4096 blank_outbound, rq_write_index = 4096, rq_cached_read_index = 0,
                     rq_read_index = 0, rq_cached_write_index = 0\<rparr>\<rparr>"

theorem engine_blocks_on_full_outbound_witness: "process_one 5 full_engine = None"
proof (rule engine_blocks_on_full_outbound)
  show "ring_contents message_capacity (en_inbound full_engine) = [cancel_message]"
    by (simp add: ring_contents_def full_engine_def message_capacity_def slot_def kMask_def)
qed (simp_all add: ring_inv_def full_engine_def message_capacity_def cancel_message_def length_ring_contents
    fresh_engine_def make_engine_def)

section \<open>A batch of commands\<close>

primrec spec_session :: "(order_id \<rightharpoonup> u64) \<Rightarrow> inbound_message list \<Rightarrow> abs_book \<Rightarrow> outbound_message list" where
  "spec_session owners [] a = []"
| "spec_session owners (m # ms) a =
     (let (accepted, a') = spec_apply (im_command m) a
      in spec_response owners (im_session_id m) (im_command m) a @
         spec_session (spec_owners owners (im_session_id m) (im_command m) accepted a') ms a')"

primrec levels_ok :: "inbound_message list \<Rightarrow> abs_book \<Rightarrow> bool" where
  "levels_ok [] a = True"
| "levels_ok (m # ms) a = (no_overflow (snd (spec_apply (im_command m) a)) \<and> levels_ok ms (snd (spec_apply (im_command m) a)))"

lemma process_available_ok:
  assumes "engine_inv e" and "can_send (length (spec_session (en_order_sessions e) (inbound_contents e) (abs_of (en_book e)))) e"
    and "en_market_data_feed e = None \<or> levels_ok (inbound_contents e) (abs_of (en_book e))"
  shows "\<exists>e'. process_available clock n e = Some (n + of_nat (length (inbound_contents e)), e') \<and>
    inbound_contents e' = [] \<and>
    sent e' = sent e @ spec_session (en_order_sessions e) (inbound_contents e) (abs_of (en_book e)) \<and>
    abs_of (en_book e') = snd (spec_run spec_apply (map im_command (inbound_contents e)) (abs_of (en_book e)))"
  using assms
proof (induction "inbound_contents e" arbitrary: e n)
  case Nil
  then obtain e' where "process_one (clock (unat n)) e = Some (False, e')" "sent e' = sent e" "en_book e' = en_book e"
      "inbound_contents e' = []"
    using process_one_idle [of e] by metis
  then show ?case using Nil.hyps by (subst process_available.simps) (auto simp flip: Nil.hyps)
next
  case (Cons m ms)
  let ?o = "en_order_sessions e" and ?a = "abs_of (en_book e)" and ?c = "im_command m"
  obtain acc a' where spec: "spec_apply ?c ?a = (acc, a')" by fastforce
  let ?rest = "spec_session (spec_owners ?o (im_session_id m) ?c acc a') ms a'"
  have whole: "spec_session ?o (inbound_contents e) ?a = spec_response ?o (im_session_id m) ?c ?a @ ?rest"
    by (simp add: spec flip: Cons.hyps(2))
  have ok: "command_ok ?c" "book_reachable (en_book e)"
    using Cons.prems(1) by (simp_all add: engine_inv_def flip: Cons.hyps(2))
  have send: "can_send (length (spec_response ?o (im_session_id m) ?c ?a) + length ?rest) e"
    using Cons.prems(2) unfolding whole by simp
  have lev: "no_overflow (snd (spec_apply ?c ?a))" if "en_market_data_feed e \<noteq> None"
    using Cons.prems(3) that by (simp flip: Cons.hyps(2))
  obtain accepted b' e1 where one: "process_one (clock (unat n)) e = Some (True, e1)"
      "apply_command (en_book e) ?c = Some (accepted, b')" "en_book e1 = b'" "inbound_contents e1 = ms"
      "sent e1 = sent e @ spec_response ?o (im_session_id m) ?c ?a"
      "en_order_sessions e1 = spec_owners ?o (im_session_id m) ?c accepted (abs_of b')"
      "en_market_data_feed e1 = None \<longleftrightarrow> en_market_data_feed e = None" "can_send (length ?rest) e1" "engine_inv e1"
    using process_one_ok [OF Cons.prems(1) Cons.hyps(2) [symmetric] send, of "clock (unat n)"] lev by metis
  have a': "accepted = acc" "abs_of b' = a'" using command_spec [OF ok(2,1) one(2)] spec by simp_all
  have levels: "en_market_data_feed e1 = None \<or> levels_ok ms a'"
    using Cons.prems(3) one(7) spec by (auto simp flip: Cons.hyps(2))
  obtain e2 where "process_available clock (n + 1) e1 = Some (n + 1 + of_nat (length ms), e2)"
      "inbound_contents e2 = []" "sent e2 = sent e1 @ ?rest" "abs_of (en_book e2) = snd (spec_run spec_apply (map im_command ms) a')"
    using Cons.hyps(1) [OF one(4) [symmetric] one(9), of "n + 1"] one(8) levels by (auto simp: one(3,4,6) a')
  then show ?case using one(1,5) whole spec
    by (subst process_available.simps) (auto simp: case_prod_unfold Let_def simp flip: Cons.hyps(2))
qed

text \<open>
  Claim C25. A batch terminates: on a reachable engine whose events get through (room in the
  outbound queue, or enough turns of the gateway), \<open>process_available\<close> ends, processes every queued
  command in order, sends exactly the specified events, and leaves the book the specification gives
  for that sequence of commands.
\<close>

theorem process_available_terminates:
  assumes "engine_reachable e"
    and "can_send (length (spec_session (en_order_sessions e) (inbound_contents e) (abs_of (en_book e)))) e"
    and "en_market_data_feed e = None \<or> levels_ok (inbound_contents e) (abs_of (en_book e))"
  shows "\<exists>e'. process_available clock 0 e = Some (of_nat (length (inbound_contents e)), e') \<and>
    inbound_contents e' = [] \<and>
    sent e' = sent e @ spec_session (en_order_sessions e) (inbound_contents e) (abs_of (en_book e)) \<and>
    abs_of (en_book e') = snd (spec_run spec_apply (map im_command (inbound_contents e)) (abs_of (en_book e)))"
  using process_available_ok [OF engine_reachable_inv [OF assms(1)] assms(2,3), of clock 0] by simp

theorem process_available_terminates_witness:
  "\<exists>e e'. inbound_contents e = [cancel_message] \<and> process_available (\<lambda>n. 5) 0 e = Some (1, e') \<and>
     inbound_contents e' = [] \<and> map om_type (sent e') = [mt_cancel_rejected]"
proof -
  have ok: "command_ok (im_command cancel_message)" by code_simp
  obtain e where e: "engine_reachable e" "inbound_contents e = [cancel_message]" "en_book e = empty_book" "sent e = []"
      "en_order_sessions e = Map.empty" "en_market_data_feed e = None" "en_outbound e = en_outbound fresh_engine"
    using enqueue_reachable [OF fresh_engine_reachable ok] by auto
  have session: "map om_type (spec_session (en_order_sessions e) (inbound_contents e) (abs_of (en_book e))) =
      [mt_cancel_rejected]" unfolding e(2,3,5) by code_simp
  then have len: "length (spec_session (en_order_sessions e) (inbound_contents e) (abs_of (en_book e))) = 1"
    by (metis length_map length_Cons list.size(3) One_nat_def)
  have "can_send (length (spec_session (en_order_sessions e) (inbound_contents e) (abs_of (en_book e)))) e"
    unfolding len by (rule can_sendI(1)) (simp add: e(7))
  from process_available_terminates [OF e(1) this, of "\<lambda>n. 5"] e(6)
  obtain e' where "process_available (\<lambda>n. 5) 0 e = Some (1, e')" "inbound_contents e' = []"
      "sent e' = spec_session (en_order_sessions e) (inbound_contents e) (abs_of (en_book e))"
    unfolding e(2,4) by auto
  then show ?thesis using e(2) session by metis
qed

end
