(* ===== verification/Gateway_Properties.thy ===== *)
theory Gateway_Properties
  imports Gateway Engine_Properties
begin

text \<open>
  The gateway under every order in which its asynchronous operations can complete: the step relation,
  the invariant of sessions, table and queues, and what it gives: handlers never run into undefined
  behaviour, only valid commands reach the engine, per session in increasing sequence, a session that
  violated the protocol is not read any further, frames are written in the order they were sent.
\<close>

section \<open>Steps\<close>

definition read_fills :: "nat \<Rightarrow> bytes option \<Rightarrow> bool" where
  "read_fills n result \<longleftrightarrow> (case result of None \<Rightarrow> True | Some bs \<Rightarrow> length bs = n)"

text \<open>
  Asio's part: an outstanding read completes with an error or having filled its buffer, an
  outstanding write, accept or timer with or without an error. Fewer than \<open>2 ^ 64 - 1\<close> connections
  are accepted, so session identifiers do not wrap around to the broadcast identifier 0.
\<close>

inductive gw_step :: "gateway \<Rightarrow> gateway \<Rightarrow> bool" where
  start: "gw_step g (start g)"
| accept: "gw_accepting g \<Longrightarrow> gw_next_session_id g \<noteq> - 1 \<Longrightarrow> gw_step g (on_accept failed g)"
| header: "gw_objects g sid = Some s \<Longrightarrow> ts_reading s = Read_header \<Longrightarrow> read_fills kHeaderSize result \<Longrightarrow>
    on_header sid result g = Some g' \<Longrightarrow> gw_step g g'"
| payload: "gw_objects g sid = Some s \<Longrightarrow> ts_reading s = Read_payload h \<Longrightarrow>
    read_fills (unat (wh_payload_length h)) result \<Longrightarrow> on_payload now sid h result g = Some g' \<Longrightarrow> gw_step g g'"
| written: "gw_objects g sid = Some s \<Longrightarrow> ts_writing s \<Longrightarrow> on_write sid failed g = Some g' \<Longrightarrow> gw_step g g'"
| timer: "gw_draining g \<Longrightarrow> on_timer failed g = Some g' \<Longrightarrow> gw_step g g'"
| stop: "gw_step g (stop g)"
| engine_takes: "try_pop message_capacity (\<lambda>m. m) (gw_inbound g) = (out, q) \<Longrightarrow> gw_step g (g\<lparr>gw_inbound := q\<rparr>)"
| engine_sends: "try_push message_capacity m (gw_outbound g) = (ok, q) \<Longrightarrow> gw_step g (g\<lparr>gw_outbound := q\<rparr>)"

inductive gw_reachable :: "gateway \<Rightarrow> bool" where
  init: "gw_reachable (make_gateway (empty_ring message_capacity blank_in) (empty_ring message_capacity blank_out))"
| step: "gw_reachable g \<Longrightarrow> gw_step g g' \<Longrightarrow> gw_reachable g'"

section \<open>Invariant\<close>

definition session_ok :: "tcp_session \<Rightarrow> bool" where
  "session_ok s \<longleftrightarrow>
     ts_frames s = ts_written s @ ts_write_queue s \<and> (ts_writing s \<longrightarrow> ts_write_queue s \<noteq> []) \<and>
     (ts_close_after_write s \<longrightarrow> ts_reading s = No_read) \<and>
     (case ts_reading s of Read_payload h \<Rightarrow> validate_header h = None | _ \<Rightarrow> True)"

definition session_stream :: "u64 \<Rightarrow> gateway \<Rightarrow> u64 list" where
  "session_stream sid g =
     map (command_sequence \<circ> im_command) (filter (\<lambda>m. im_session_id m = sid) (gw_enqueued g))"

definition gw_inv :: "gateway \<Rightarrow> bool" where
  "gw_inv g \<longleftrightarrow>
     ring_inv message_capacity (gw_inbound g) \<and> ring_inv message_capacity (gw_outbound g) \<and>
     (\<exists>taken. gw_enqueued g = taken @ ring_contents message_capacity (gw_inbound g)) \<and>
     list_all (\<lambda>m. loggable (im_command m) \<and> gw_objects g (im_session_id m) \<noteq> None) (gw_enqueued g) \<and>
     gw_next_session_id g \<noteq> 0 \<and> distinct (gw_sessions g) \<and>
     (\<forall>sid \<in> set (gw_sessions g). gw_objects g sid \<noteq> None) \<and>
     (\<forall>sid s. gw_objects g sid = Some s \<longrightarrow>
        session_ok s \<and> 0 < sid \<and> sid < gw_next_session_id g \<and>
        sorted_wrt (<) (session_stream sid g) \<and> list_all (\<lambda>n. n \<le> ts_last_sequence s) (session_stream sid g))"

lemma gw_invD:
  assumes "gw_inv g" and "gw_objects g sid = Some s"
  shows "session_ok s" "0 < sid" "sid < gw_next_session_id g" "sorted_wrt (<) (session_stream sid g)"
    "list_all (\<lambda>n. n \<le> ts_last_sequence s) (session_stream sid g)"
  using assms unfolding gw_inv_def by blast+

lemma on_session_fields [simp]:
  "gw_inbound (on_session sid f g) = gw_inbound g" "gw_outbound (on_session sid f g) = gw_outbound g"
  "gw_next_session_id (on_session sid f g) = gw_next_session_id g" "gw_sessions (on_session sid f g) = gw_sessions g"
  "gw_stopped (on_session sid f g) = gw_stopped g" "gw_enqueued (on_session sid f g) = gw_enqueued g"
  "gw_objects (on_session sid f g) i = (if i = sid then map_option f (gw_objects g sid) else gw_objects g i)"
  "session_stream i (on_session sid f g) = session_stream i g"
  by (simp_all add: on_session_def session_stream_def)

lemma on_session_twice [simp]: "on_session sid f (on_session sid h g) = on_session sid (f \<circ> h) g"
  by (simp add: on_session_def option.map_comp)

lemma unregister_fields [simp]:
  "gw_objects (unregister_session sid g) = gw_objects g" "gw_enqueued (unregister_session sid g) = gw_enqueued g"
  "gw_outbound (unregister_session sid g) = gw_outbound g"
  by (simp_all add: unregister_session_def)

lemma gw_inv_unregister: "gw_inv g \<Longrightarrow> gw_inv (unregister_session sid g)"
  by (auto simp: gw_inv_def unregister_session_def session_stream_def distinct_removeAll)

text \<open>Updating one session keeps the invariant if the session stays well-formed and its sequence is kept.\<close>

lemma gw_inv_session:
  assumes "gw_inv g" and "gw_objects g sid = Some s" and "session_ok (f s)" and "ts_last_sequence (f s) = ts_last_sequence s"
  shows "gw_inv (on_session sid f g)"
  using assms unfolding gw_inv_def by (auto simp: list_all_iff)

section \<open>Protocol errors\<close>

definition error_frame :: "error_code \<Rightarrow> u8 \<Rightarrow> bytes" where
  "error_frame code t =
     (let p = protocol_error_payload \<lparr>pe_error_code = code, pe_offending_type = t\<rparr>
      in header_bytes (frame_header mt_protocol_error p 0) @ p)"

lemma make_error_frame_eq: "make_error_frame code t = Some (error_frame code t)"
proof -
  let ?ev = "\<lparr>pe_error_code = code, pe_offending_type = t\<rparr>"
  have p: "encode_protocol_error ?ev (replicate kProtocolErrorSize 0) = Some (True, protocol_error_payload ?ev)"
    using protocol_error_codec.encode_fits [of "replicate kProtocolErrorSize 0" ?ev] by (simp add: kProtocolErrorSize_def)
  show ?thesis
    using encode_frame_fits [of "protocol_error_payload ?ev" "replicate (kHeaderSize + length (protocol_error_payload ?ev)) 0"
      mt_protocol_error 0]
    by (simp add: make_error_frame_def p error_frame_def Let_def)
qed

lemma error_frame_nonempty [simp]: "error_frame code t \<noteq> []"
  by (simp add: error_frame_def Let_def header_bytes_def)

definition fail_session :: "error_code \<Rightarrow> u8 \<Rightarrow> tcp_session \<Rightarrow> tcp_session" where
  "fail_session code t s = send_raw_frame (error_frame code t) (s\<lparr>ts_close_after_write := True\<rparr>)"

lemma send_protocol_error_eq:
  "send_protocol_error sid code t True g = Some (on_session sid (fail_session code t) g)"
  by (simp add: send_protocol_error_def make_error_frame_eq fail_session_def [abs_def] comp_def)

lemma send_raw_frame_fields [simp]:
  "ts_open (send_raw_frame frame s) = ts_open s" "ts_last_sequence (send_raw_frame frame s) = ts_last_sequence s"
  "ts_reading (send_raw_frame frame s) = ts_reading s" "ts_written (send_raw_frame frame s) = ts_written s"
  "ts_close_after_write (send_raw_frame frame s) = ts_close_after_write s"
  by (simp_all add: send_raw_frame_def do_write_def Let_def)

lemma session_ok_send: "session_ok s \<Longrightarrow> session_ok (send_raw_frame frame s)"
  by (auto simp: session_ok_def send_raw_frame_def do_write_def Let_def)

lemma session_ok_fail: "session_ok s \<Longrightarrow> ts_reading s = No_read \<Longrightarrow> session_ok (fail_session code t s)"
  unfolding fail_session_def by (rule session_ok_send) (simp add: session_ok_def)

lemma fail_session_last [simp]: "ts_last_sequence (fail_session code t s) = ts_last_sequence s"
  by (simp add: fail_session_def)

section \<open>Reading\<close>

abbreviation idle :: "tcp_session \<Rightarrow> tcp_session" where
  "idle s \<equiv> s\<lparr>ts_reading := No_read\<rparr>"

lemma session_ok_idle: "session_ok s \<Longrightarrow> session_ok (idle s)"
  by (simp add: session_ok_def)

lemma on_header_total:
  assumes "gw_inv g" and "gw_objects g sid = Some s" and "ts_reading s = Read_header" and "read_fills kHeaderSize result"
  shows "\<exists>g'. on_header sid result g = Some g' \<and> gw_inv g' \<and> gw_enqueued g' = gw_enqueued g"
proof -
  have s: "session_ok s" "\<not> ts_close_after_write s"
    using gw_invD(1) [OF assms(1,2)] assms(3) by (auto simp: session_ok_def)
  have idle_inv: "gw_inv (on_session sid idle g)"
    using gw_inv_session [OF assms(1,2), of idle] session_ok_idle [OF s(1)] by simp
  show ?thesis
  proof (cases result)
    case None
    then show ?thesis using gw_inv_unregister [OF idle_inv, of sid] by (simp add: on_header_def)
  next
    case (Some bs)
    then have "length bs = 8" using assms(4) by (simp add: read_fills_def kHeaderSize_def)
    then obtain h where h: "decode_header bs = Some (Some h)"
      by (simp add: decode_header_def kHeaderSize_def codec_simps)
    show ?thesis
    proof (cases "validate_header h")
      case None
      have "session_ok (do_read_payload h (idle s))" using s None by (simp add: session_ok_def do_read_payload_def)
      then have "gw_inv (on_session sid (do_read_payload h \<circ> idle) g)"
        using gw_inv_session [OF assms(1,2), of "do_read_payload h \<circ> idle"] by (simp add: do_read_payload_def)
      then show ?thesis using Some h None by (simp add: on_header_def)
    next
      case err: (Some err)
      have "session_ok (fail_session err (mt_value (wh_type h)) (idle s))"
        using session_ok_fail [OF session_ok_idle [OF s(1)]] by simp
      then have "gw_inv (on_session sid (fail_session err (mt_value (wh_type h)) \<circ> idle) g)"
        using gw_inv_session [OF assms(1,2), of "fail_session err (mt_value (wh_type h)) \<circ> idle"] by simp
      then show ?thesis using Some h err by (simp add: on_header_def send_protocol_error_eq)
    qed
  qed
qed

lemma decode_payload_total:
  "\<exists>r. decode_payload h bs = Some r \<and>
     (case r of Inl _ \<Rightarrow> True | Inr (sq, c) \<Rightarrow> loggable c \<and> command_sequence c = sq)"
proof -
  obtain n c r where d: "decode_new_order bs = Some n" "decode_cancel_order bs = Some c" "decode_replace_order bs = Some r"
    using new_order_codec.decode_defined cancel_codec.decode_defined replace_codec.decode_defined by blast
  moreover have "valid_new_order v" if "n = Inr v" for v using new_order_codec.decode_ok d(1) that by blast
  moreover have "cancel_order_ok v" if "c = Inr v" for v using cancel_codec.decode_ok d(2) that by blast
  moreover have "replace_order_ok v" if "r = Inr v" for v using replace_codec.decode_ok d(3) that by blast
  ultimately show ?thesis
    by (cases n; cases c; cases r) (auto simp: decode_payload_def loggable_def)
qed

text \<open>A command is enqueued or the session fails; nothing else can happen.\<close>

lemma enqueue_command_total:
  assumes inv: "gw_inv g" and obj: "gw_objects g sid = Some s" and "ts_reading s = No_read" and "loggable c"
    and sq: "command_sequence c = sq"
  shows "\<exists>ok g'. enqueue_command now sid sq t c g = Some (ok, g') \<and> gw_inv g' \<and>
    (if ok then ts_last_sequence s < sq \<and> gw_objects g' sid = Some (s\<lparr>ts_last_sequence := sq\<rparr>) \<and>
       (\<exists>m. gw_enqueued g' = gw_enqueued g @ [m] \<and> im_session_id m = sid \<and> im_command m = c)
     else gw_enqueued g' = gw_enqueued g)"
proof -
  have ok: "session_ok s" by (rule gw_invD(1) [OF inv obj])
  have fail: "gw_inv (on_session sid (fail_session code t') g')"
    if "gw_inv g'" "gw_objects g' sid = Some s" for code t' g'
    using gw_inv_session [OF that, of "fail_session code t'"] session_ok_fail [OF ok assms(3)] by simp
  show ?thesis
  proof (cases "sq \<le> ts_last_sequence s")
    case True
    then show ?thesis using obj fail [OF inv obj]
      by (intro exI [of _ False]) (simp add: enqueue_command_def send_protocol_error_eq)
  next
    case False
    define msg where "msg = \<lparr>im_session_id = sid, im_command = c, im_wire_bytes = of_nat kHeaderSize +
        ucast (case expected_payload_length t of Some n \<Rightarrow> n | None \<Rightarrow> 0), im_received_at = now\<rparr>"
    obtain pushed q where push: "try_push message_capacity msg (gw_inbound g) = (pushed, q)" by fastforce
    have ring: "ring_inv message_capacity (gw_inbound g)" using inv by (simp add: gw_inv_def)
    note law = message_ring.fifo.push_law [OF ring push]
    show ?thesis
    proof (cases pushed)
      case p: False
      have "gw_inv (g\<lparr>gw_inbound := q\<rparr>)" using inv law p by (auto simp: gw_inv_def session_stream_def)
      then show ?thesis using False p push obj fail [of "g\<lparr>gw_inbound := q\<rparr>"]
        by (intro exI [of _ False]) (simp add: enqueue_command_def send_protocol_error_eq msg_def [symmetric] Let_def)
    next
      case p: True
      let ?g = "g\<lparr>gw_inbound := q, gw_enqueued := gw_enqueued g @ [msg]\<rparr>"
      let ?g' = "on_session sid (\<lambda>s. s\<lparr>ts_last_sequence := sq\<rparr>) ?g"
      have stream: "session_stream i ?g' = session_stream i g @ (if i = sid then [sq] else [])" for i
        by (simp add: session_stream_def msg_def sq)
      have m: "im_command msg = c" "im_session_id msg = sid" by (simp_all add: msg_def)
      have "sorted_wrt (<) (session_stream sid g)" "\<forall>n \<in> set (session_stream sid g). n \<le> ts_last_sequence s"
        using gw_invD(4,5) [OF inv obj] by (auto simp: list_all_iff)
      then have last: "sorted_wrt (<) (session_stream sid g @ [sq])" "list_all (\<lambda>n. n \<le> sq) (session_stream sid g @ [sq])"
        using False by (fastforce simp: sorted_wrt_append list_all_iff)+
      have "gw_inv ?g'" unfolding gw_inv_def
      proof (intro conjI allI impI)
        show "\<exists>taken. gw_enqueued ?g' = taken @ ring_contents message_capacity (gw_inbound ?g')"
          using inv law p by (auto simp: gw_inv_def)
        show "list_all (\<lambda>m. loggable (im_command m) \<and> gw_objects ?g' (im_session_id m) \<noteq> None) (gw_enqueued ?g')"
          using inv assms(4) obj by (auto simp: gw_inv_def list_all_iff m)
        fix i s'
        assume s': "gw_objects ?g' i = Some s'"
        obtain s0 where s0: "gw_objects g i = Some s0" "session_ok s0 \<longrightarrow> session_ok s'"
            "i \<noteq> sid \<longrightarrow> s' = s0" "i = sid \<longrightarrow> ts_last_sequence s' = sq"
          using s' obj by (auto simp: session_ok_def split: if_splits)
        note d = gw_invD [OF inv s0(1)]
        show "session_ok s'" "0 < i" "i < gw_next_session_id ?g'" using d s0(2) by simp_all
        show "sorted_wrt (<) (session_stream i ?g')" unfolding stream using d(4) last(1) by simp
        show "list_all (\<lambda>n. n \<le> ts_last_sequence s') (session_stream i ?g')"
          unfolding stream using d(5) last(2) s0(3,4) by simp
      qed (use inv law p obj in \<open>auto simp: gw_inv_def\<close>)
      then show ?thesis using False p push obj m
        by (intro exI [of _ True]) (auto simp: enqueue_command_def msg_def [symmetric] Let_def)
    qed
  qed
qed

lemma on_payload_total:
  assumes inv: "gw_inv g" and obj: "gw_objects g sid = Some s" and "ts_reading s = Read_payload h"
  shows "\<exists>g'. on_payload now sid h result g = Some g' \<and> gw_inv g' \<and>
    (gw_enqueued g' = gw_enqueued g \<or> (\<exists>m. gw_enqueued g' = gw_enqueued g @ [m] \<and> im_session_id m = sid))"
proof -
  have s: "session_ok s" "\<not> ts_close_after_write s"
    using gw_invD(1) [OF inv obj] assms(3) by (auto simp: session_ok_def)
  let ?g = "on_session sid idle g"
  have idle_inv: "gw_inv ?g" using gw_inv_session [OF inv obj, of idle] session_ok_idle [OF s(1)] by simp
  have obj': "gw_objects ?g sid = Some (idle s)" using obj by simp
  show ?thesis
  proof (cases result)
    case None
    then show ?thesis using gw_inv_unregister [OF idle_inv, of sid] by (simp add: on_payload_def)
  next
    case (Some bs)
    obtain r where r: "decode_payload h bs = Some r"
        "case r of Inl _ \<Rightarrow> True | Inr (sq, c) \<Rightarrow> loggable c \<and> command_sequence c = sq"
      using decode_payload_total by blast
    show ?thesis
    proof (cases r)
      case (Inl err)
      have "gw_inv (on_session sid (fail_session err (mt_value (wh_type h))) ?g)"
        by (rule gw_inv_session [OF idle_inv obj']) (simp_all add: session_ok_fail session_ok_idle s(1))
      then show ?thesis using Some r Inl by (simp add: on_payload_def finish_payload_def send_protocol_error_eq)
    next
      case (Inr qc)
      then obtain sq c where qc: "r = Inr (sq, c)" by (cases qc) auto
      have ld: "loggable c" "command_sequence c = sq" using r(2) qc by simp_all
      have nr: "ts_reading (idle s) = No_read" by simp
      obtain ok g1 where e: "enqueue_command now sid sq (wh_type h) c ?g = Some (ok, g1)" "gw_inv g1"
          "if ok then ts_last_sequence (idle s) < sq \<and> gw_objects g1 sid = Some ((idle s)\<lparr>ts_last_sequence := sq\<rparr>) \<and>
             (\<exists>m. gw_enqueued g1 = gw_enqueued ?g @ [m] \<and> im_session_id m = sid \<and> im_command m = c)
           else gw_enqueued g1 = gw_enqueued ?g"
        using enqueue_command_total [OF idle_inv obj' nr ld, of now "wh_type h"] by blast
      show ?thesis
      proof (cases ok)
        case True
        then have g1: "gw_objects g1 sid = Some ((idle s)\<lparr>ts_last_sequence := sq\<rparr>)" using e(3) by simp
        have "gw_inv (on_session sid do_read_header g1)"
          by (rule gw_inv_session [OF e(2) g1]) (use s in \<open>simp_all add: session_ok_def do_read_header_def\<close>)
        then show ?thesis using Some r qc e True by (auto simp: on_payload_def finish_payload_def)
      next
        case False
        then show ?thesis using Some r qc e by (simp add: on_payload_def finish_payload_def)
      qed
    qed
  qed
qed

section \<open>Writing\<close>

definition pop_written :: "tcp_session \<Rightarrow> tcp_session" where
  "pop_written s = s\<lparr>ts_writing := False, ts_write_queue := tl (ts_write_queue s),
     ts_written := ts_written s @ [hd (ts_write_queue s)]\<rparr>"

definition after_write :: "tcp_session \<Rightarrow> tcp_session" where
  "after_write s =
     (if tl (ts_write_queue s) \<noteq> [] then do_write (pop_written s)
      else if ts_close_after_write s then close_session ((pop_written s)\<lparr>ts_close_after_write := False\<rparr>)
      else pop_written s)"

lemma session_ok_after_write: "session_ok s \<Longrightarrow> ts_write_queue s \<noteq> [] \<Longrightarrow> session_ok (after_write s)"
  by (cases "ts_write_queue s")
    (auto simp: session_ok_def after_write_def pop_written_def do_write_def close_session_def)

lemma on_write_eq:
  assumes "gw_objects g sid = Some s" and "ts_write_queue s \<noteq> []"
  shows "on_write sid False g =
    Some (if tl (ts_write_queue s) = [] \<and> ts_close_after_write s
          then unregister_session sid (on_session sid after_write g) else on_session sid after_write g)"
  using assms
  by (auto simp: on_write_def Let_def on_session_def unregister_session_def after_write_def pop_written_def
      do_write_def close_session_def)

lemma on_write_total:
  assumes inv: "gw_inv g" and obj: "gw_objects g sid = Some s" and "ts_writing s"
  shows "\<exists>g'. on_write sid failed g = Some g' \<and> gw_inv g' \<and> gw_enqueued g' = gw_enqueued g"
proof -
  have s: "session_ok s" "ts_write_queue s \<noteq> []"
    using gw_invD(1) [OF inv obj] assms(3) by (auto simp: session_ok_def)
  show ?thesis
  proof (cases failed)
    case True
    have "gw_inv (on_session sid (\<lambda>s. s\<lparr>ts_writing := False\<rparr>) g)"
      by (rule gw_inv_session [OF inv obj]) (use s in \<open>simp_all add: session_ok_def\<close>)
    then show ?thesis using True gw_inv_unregister by (simp add: on_write_def)
  next
    case False
    have "ts_last_sequence (after_write s) = ts_last_sequence s"
      by (simp add: after_write_def pop_written_def do_write_def close_session_def)
    then have "gw_inv (on_session sid after_write g)"
      using gw_inv_session [OF inv obj, of after_write] session_ok_after_write [OF s] by simp
    then show ?thesis using False on_write_eq [OF obj s(2)] gw_inv_unregister by simp
  qed
qed

section \<open>Polling\<close>

fun payload_bytes :: "outbound_payload \<Rightarrow> bytes" where
  "payload_bytes (Order_accepted ev) = order_accepted_payload ev"
| "payload_bytes (Order_rejected ev) = order_rejected_payload ev"
| "payload_bytes (Execution ev) = execution_payload ev"
| "payload_bytes (Cancel_accepted ev) = cancel_accepted_payload ev"
| "payload_bytes (Protocol_error ev) = protocol_error_payload ev"
| "payload_bytes No_payload = []"

definition wire_frame :: "outbound_message \<Rightarrow> bytes" where
  "wire_frame msg = (if om_payload msg = No_payload then [] else
     header_bytes (frame_header (om_type msg) (payload_bytes (om_payload msg)) (om_flags msg)) @ payload_bytes (om_payload msg))"

lemmas size_defs = kOrderAcceptedSize_def kOrderRejectedSize_def kExecutionSize_def kCancelAcceptedSize_def
  kProtocolErrorSize_def

lemmas encode_fits = order_accepted_codec.encode_fits order_rejected_codec.encode_fits execution_codec.encode_fits
  cancel_accepted_codec.encode_fits protocol_error_codec.encode_fits

lemma encode_payload_eq: "encode_payload msg = Some (om_payload msg \<noteq> No_payload, payload_bytes (om_payload msg))"
  by (cases "om_payload msg") (simp_all add: encode_payload_def encode_fits size_defs)

lemma serialize_outbound_eq: "serialize_outbound msg = Some (wire_frame msg)"
  by (simp add: serialize_outbound_def encode_payload_eq wire_frame_def encode_frame_fits)

definition frames_for :: "u64 \<Rightarrow> outbound_message list \<Rightarrow> bytes list" where
  "frames_for sid ms = map wire_frame (filter (\<lambda>m. om_session_id m = 0 \<or> om_session_id m = sid) ms)"

lemma frames_for_simps [simp]:
  "frames_for sid [] = []"
  "frames_for sid (m # ms) = (if om_session_id m = 0 \<or> om_session_id m = sid then [wire_frame m] else []) @ frames_for sid ms"
  by (simp_all add: frames_for_def)

text \<open>Gateways that differ only in their session objects and the outbound queue.\<close>

definition same_table :: "gateway \<Rightarrow> gateway \<Rightarrow> bool" where
  "same_table g g' \<longleftrightarrow> gw_inbound g' = gw_inbound g \<and> gw_next_session_id g' = gw_next_session_id g \<and>
     gw_sessions g' = gw_sessions g \<and> gw_stopped g' = gw_stopped g \<and> gw_enqueued g' = gw_enqueued g"

lemma fold_on_session:
  "distinct xs \<Longrightarrow> same_table g (fold (\<lambda>sid. on_session sid f) xs g) \<and>
     gw_outbound (fold (\<lambda>sid. on_session sid f) xs g) = gw_outbound g \<and>
     gw_objects (fold (\<lambda>sid. on_session sid f) xs g) i =
       (if i \<in> set xs then map_option f (gw_objects g i) else gw_objects g i)"
  by (induction xs arbitrary: g) (auto simp: same_table_def)

lemma deliver_effect:
  assumes "distinct (gw_sessions g)"
  shows "same_table g (deliver msg frame g)" "gw_outbound (deliver msg frame g) = gw_outbound g"
    "gw_objects (deliver msg frame g) i =
       (if i \<in> set (gw_sessions g) \<and> (om_session_id msg = 0 \<or> om_session_id msg = i)
        then map_option (send_raw_frame frame) (gw_objects g i) else gw_objects g i)"
  using fold_on_session [OF assms, of g "send_raw_frame frame"] by (auto simp: deliver_def same_table_def)

lemma poll_loop_delivers:
  assumes "ring_inv message_capacity (gw_outbound g)" and "distinct (gw_sessions g)"
  shows "\<exists>g'. poll_loop n g = Some (n + of_nat (length (ring_contents message_capacity (gw_outbound g))), g') \<and>
    same_table g g' \<and> ring_inv message_capacity (gw_outbound g') \<and> ring_contents message_capacity (gw_outbound g') = [] \<and>
    (\<forall>i. gw_objects g' i = (if i \<in> set (gw_sessions g)
       then map_option (fold send_raw_frame (frames_for i (ring_contents message_capacity (gw_outbound g)))) (gw_objects g i)
       else gw_objects g i))"
  using assms
proof (induction "ring_contents message_capacity (gw_outbound g)" arbitrary: g n)
  case Nil
  obtain out q where pop: "try_pop message_capacity (\<lambda>m. m) (gw_outbound g) = (out, q)" by fastforce
  have q: "out = None" "ring_inv message_capacity q" "ring_contents message_capacity q = []"
    using message_ring.fifo.pop_law [OF Nil.prems(1) pop] unfolding Nil.hyps [symmetric] by simp_all
  have polled: "poll_loop n g = Some (n, g\<lparr>gw_outbound := q\<rparr>)"
    by (subst poll_loop.simps) (simp add: pop q(1))
  have objects: "gw_objects (g\<lparr>gw_outbound := q\<rparr>) i = (if i \<in> set (gw_sessions g)
      then map_option (fold send_raw_frame (frames_for i [])) (gw_objects g i) else gw_objects g i)" for i
    by (cases "gw_objects g i") simp_all
  show ?case unfolding Nil.hyps [symmetric]
  proof (intro exI conjI allI)
    show "poll_loop n g = Some (n + of_nat (length ([] :: outbound_message list)), g\<lparr>gw_outbound := q\<rparr>)"
      using polled by simp
  qed (use q objects in \<open>simp_all add: same_table_def\<close>)
next
  case (Cons m ms)
  obtain out q where pop: "try_pop message_capacity (\<lambda>m. m) (gw_outbound g) = (out, q)" by fastforce
  have q: "out = Some m" "ring_inv message_capacity q" "ms = ring_contents message_capacity q"
    using message_ring.fifo.pop_law [OF Cons.prems(1) pop] unfolding Cons.hyps(2) [symmetric] by simp_all
  let ?g = "deliver m (wire_frame m) (g\<lparr>gw_outbound := q\<rparr>)"
  note d = deliver_effect [of "g\<lparr>gw_outbound := q\<rparr>" m "wire_frame m", simplified, OF Cons.prems(2)]
  have *: "ms = ring_contents message_capacity (gw_outbound ?g)" "ring_inv message_capacity (gw_outbound ?g)"
    "distinct (gw_sessions ?g)" "gw_sessions ?g = gw_sessions g"
    using d q Cons.prems(2) by (simp_all add: same_table_def)
  obtain g' where g': "poll_loop (n + 1) ?g = Some (n + 1 + of_nat (length ms), g')" "same_table ?g g'"
      "ring_inv message_capacity (gw_outbound g')" "ring_contents message_capacity (gw_outbound g') = []"
      "\<forall>i. gw_objects g' i = (if i \<in> set (gw_sessions ?g)
         then map_option (fold send_raw_frame (frames_for i ms)) (gw_objects ?g i) else gw_objects ?g i)"
    using Cons.hyps(1) [OF *(1-3), of "n + 1"] *(1) by auto
  have "poll_loop n g = poll_loop (n + 1) ?g"
    by (subst poll_loop.simps) (simp add: pop q(1) serialize_outbound_eq)
  moreover have "same_table g g'" using g'(2) d(1) by (simp add: same_table_def)
  moreover have "gw_objects g' i = (if i \<in> set (gw_sessions g)
      then map_option (fold send_raw_frame (frames_for i (m # ms))) (gw_objects g i) else gw_objects g i)" for i
    using g'(5) d(3) [of i] *(4) by (auto simp: option.map_comp comp_def)
  ultimately show ?case using g' by (simp add: add.assoc flip: Cons.hyps(2))
qed

section \<open>Reachable gateways\<close>

lemma gw_inv_objects:
  assumes "gw_inv g" and "same_table g g'" and "ring_inv message_capacity (gw_outbound g')"
    and "\<And>i. gw_objects g' i = map_option (F i) (gw_objects g i)"
    and "\<And>i s. session_ok s \<Longrightarrow> session_ok (F i s) \<and> ts_last_sequence (F i s) = ts_last_sequence s"
  shows "gw_inv g'"
proof -
  have "session_stream i g' = session_stream i g" for i using assms(2) by (simp add: session_stream_def same_table_def)
  then show ?thesis using assms unfolding gw_inv_def by (auto simp: same_table_def list_all_iff)
qed

lemma fold_send_ok:
  "session_ok s \<Longrightarrow> session_ok (fold send_raw_frame fs s) \<and> ts_last_sequence (fold send_raw_frame fs s) = ts_last_sequence s"
  by (induction fs arbitrary: s) (auto simp: session_ok_send)

lemma poll_outbound_inv:
  assumes "gw_inv g"
  shows "\<exists>n g'. poll_outbound g = Some (n, g') \<and> gw_inv g' \<and> gw_enqueued g' = gw_enqueued g"
proof -
  have r: "ring_inv message_capacity (gw_outbound g)" "distinct (gw_sessions g)" using assms by (simp_all add: gw_inv_def)
  let ?F = "\<lambda>i. if i \<in> set (gw_sessions g)
    then fold send_raw_frame (frames_for i (ring_contents message_capacity (gw_outbound g))) else (\<lambda>s. s)"
  obtain n g' where g': "poll_loop 0 g = Some (n, g')" "same_table g g'" "ring_inv message_capacity (gw_outbound g')"
      "\<And>i. gw_objects g' i = map_option (?F i) (gw_objects g i)"
    using poll_loop_delivers [OF r, of 0] by (auto simp: option.map_ident)
  have "gw_inv g'" by (rule gw_inv_objects [OF assms g'(2,3,4)]) (auto simp: fold_send_ok)
  then show ?thesis using g' by (auto simp: poll_outbound_def same_table_def)
qed

lemma gw_inv_flags [simp]:
  "gw_inv (g\<lparr>gw_accepting := a\<rparr>) = gw_inv g" "gw_inv (g\<lparr>gw_draining := d\<rparr>) = gw_inv g"
  "gw_inv (g\<lparr>gw_stopped := b\<rparr>) = gw_inv g"
  by (simp_all add: gw_inv_def session_stream_def)

lemma gw_inv_clear: "gw_inv g \<Longrightarrow> gw_inv (g\<lparr>gw_sessions := []\<rparr>)"
  by (simp add: gw_inv_def session_stream_def)

lemma gw_inv_stop: "gw_inv g \<Longrightarrow> gw_inv (stop g)"
proof -
  assume inv: "gw_inv g"
  let ?g = "fold (\<lambda>sid. on_session sid close_session) (gw_sessions g) (g\<lparr>gw_stopped := True\<rparr>)"
  note f = fold_on_session [of "gw_sessions g" "g\<lparr>gw_stopped := True\<rparr>" close_session]
  have d: "distinct (gw_sessions g)" using inv by (simp add: gw_inv_def)
  have "gw_inv ?g"
  proof (rule gw_inv_objects [where g = "g\<lparr>gw_stopped := True\<rparr>"])
    show "gw_objects ?g i = map_option (if i \<in> set (gw_sessions g) then close_session else (\<lambda>s. s))
        (gw_objects (g\<lparr>gw_stopped := True\<rparr>) i)" for i
      using f d by (simp add: option.map_ident)
    show "session_ok s \<Longrightarrow> session_ok ((if i \<in> set (gw_sessions g) then close_session else (\<lambda>s. s)) s) \<and>
        ts_last_sequence ((if i \<in> set (gw_sessions g) then close_session else (\<lambda>s. s)) s) = ts_last_sequence s" for i s
      by (simp add: close_session_def session_ok_def)
    show "gw_inv (g\<lparr>gw_stopped := True\<rparr>)" using inv by simp
    show "same_table (g\<lparr>gw_stopped := True\<rparr>) ?g" using f d by simp
    show "ring_inv message_capacity (gw_outbound ?g)" using f d inv by (simp add: gw_inv_def)
  qed
  then show "gw_inv (stop g)" using inv gw_inv_clear by (simp add: stop_def)
qed

lemma gw_inv_accept:
  assumes inv: "gw_inv g" and "gw_next_session_id g \<noteq> - 1"
  shows "gw_inv (on_accept failed g)" "gw_enqueued (on_accept failed g) = gw_enqueued g"
proof -
  let ?sid = "gw_next_session_id g" and ?s = "do_read_header make_session"
  let ?g = "g\<lparr>gw_next_session_id := ?sid + 1, gw_sessions := gw_sessions g @ [?sid], gw_objects := (gw_objects g)(?sid \<mapsto> ?s)\<rparr>"
  have old: "i < ?sid" if "gw_objects g i = Some s" for i s using gw_invD(3) [OF inv that] .
  then have new: "gw_objects g ?sid = None" by (cases "gw_objects g ?sid") auto
  then have fresh: "?sid \<notin> set (gw_sessions g)" using inv by (auto simp: gw_inv_def)
  have nz: "?sid \<noteq> 0" using inv by (simp add: gw_inv_def)
  have "1 + ?sid \<noteq> 0" using assms(2) by (simp add: add_eq_0_iff)
  then have lt: "?sid + 1 \<noteq> 0" "?sid < ?sid + 1"
    using unatSuc [of ?sid] by (simp_all add: word_less_nat_alt add.commute)
  have none: "session_stream ?sid g = []"
    using inv new by (auto simp: gw_inv_def session_stream_def list_all_iff filter_empty_conv)
  have stream: "session_stream i ?g = session_stream i g" for i by (simp add: session_stream_def)
  have ok: "session_ok ?s" by (simp add: session_ok_def do_read_header_def make_session_def)
  have "gw_inv ?g" unfolding gw_inv_def
  proof (intro conjI allI impI)
    fix i s
    assume s: "gw_objects ?g i = Some s"
    show "session_ok s" "0 < i" "i < gw_next_session_id ?g" "sorted_wrt (<) (session_stream i ?g)"
      "list_all (\<lambda>n. n \<le> ts_last_sequence s) (session_stream i ?g)"
      using gw_invD [OF inv, of i s] s ok none lt nz by (auto simp: stream word_gt_0 intro: order_less_trans split: if_splits)
  qed (use inv fresh lt in \<open>auto simp: gw_inv_def list_all_iff\<close>)
  moreover have "on_accept failed g = (if failed then g else ?g)\<lparr>gw_accepting := \<not> gw_stopped g\<rparr>"
    using fresh by (intro gateway.equality) (auto simp: on_accept_def do_accept_def on_session_def Let_def)
  ultimately show "gw_inv (on_accept failed g)" "gw_enqueued (on_accept failed g) = gw_enqueued g"
    using inv by simp_all
qed

lemma on_timer_total:
  assumes "gw_inv g"
  shows "\<exists>g'. on_timer failed g = Some g' \<and> gw_inv g' \<and> gw_enqueued g' = gw_enqueued g"
  using poll_outbound_inv [of "g\<lparr>gw_draining := False\<rparr>"] assms
  by (auto simp: on_timer_def schedule_outbound_drain_def Let_def)

lemma gw_inv_takes:
  assumes "gw_inv g" and "try_pop message_capacity (\<lambda>m. m) (gw_inbound g) = (out, q)"
  shows "gw_inv (g\<lparr>gw_inbound := q\<rparr>)"
proof -
  have r: "ring_inv message_capacity (gw_inbound g)" using assms(1) by (simp add: gw_inv_def)
  obtain taken where t: "gw_enqueued g = taken @ ring_contents message_capacity (gw_inbound g)"
    using assms(1) by (auto simp: gw_inv_def)
  have "\<exists>taken. gw_enqueued g = taken @ ring_contents message_capacity q"
    using message_ring.fifo.pop_law [OF r assms(2)] t
    by (cases "ring_contents message_capacity (gw_inbound g)") (auto intro: exI [of _ "taken @ [_]"])
  then show ?thesis using assms(1) message_ring.fifo.pop_law [OF r assms(2)]
    by (auto simp: gw_inv_def session_stream_def)
qed

lemma gw_inv_sends:
  assumes "gw_inv g" and "try_push message_capacity m (gw_outbound g) = (ok, q)"
  shows "gw_inv (g\<lparr>gw_outbound := q\<rparr>)"
proof -
  have r: "ring_inv message_capacity (gw_outbound g)" using assms(1) by (simp add: gw_inv_def)
  show ?thesis using message_ring.fifo.push_law [OF r assms(2)] assms(1) by (auto simp: gw_inv_def session_stream_def)
qed

lemma gw_inv_start: "gw_inv g \<Longrightarrow> gw_inv (start g)"
  by (simp add: start_def do_accept_def schedule_outbound_drain_def)

lemma gw_inv_step: "gw_step g g' \<Longrightarrow> gw_inv g \<Longrightarrow> gw_inv g'"
proof (induction rule: gw_step.induct)
  case (header g sid s result g')
  then show ?case using on_header_total [of g sid s result] by auto
next
  case (payload g sid s h result t g')
  then show ?case using on_payload_total [of g sid s h t result] by auto
next
  case (written g sid s failed g')
  then show ?case using on_write_total [of g sid s failed] by auto
next
  case (timer g failed g')
  then show ?case using on_timer_total [of g failed] by auto
qed (simp_all add: gw_inv_start gw_inv_accept gw_inv_stop gw_inv_takes gw_inv_sends)

lemma gw_reachable_inv: "gw_reachable g \<Longrightarrow> gw_inv g"
proof (induction rule: gw_reachable.induct)
  case (init blank_in blank_out)
  show ?case by (simp add: ring_inv_empty gw_inv_def make_gateway_def session_stream_def)
qed (rule gw_inv_step)

end
