(* ===== verification/Gateway_Guarantees.thy ===== *)
theory Gateway_Guarantees
  imports Gateway_Properties
begin

text \<open>
  What the gateway guarantees to the engine and to its clients: the commands it passes on, the end of
  input after a protocol violation, totality of the completion handlers, delivery of outbound events
  to the sessions they are addressed to, and completion of the writes.
\<close>

section \<open>Effect of a step on a session that is no longer read\<close>

lemma session_stream_enqueued: "gw_enqueued g' = gw_enqueued g \<Longrightarrow> session_stream i g' = session_stream i g"
  by (simp add: session_stream_def)

lemma on_header_effect:
  assumes "on_header sid result g = Some g'"
  shows "gw_enqueued g' = gw_enqueued g" "i \<noteq> sid \<Longrightarrow> gw_objects g' i = gw_objects g i"
  using assms
  by (auto simp: on_header_def send_protocol_error_eq Let_def split: option.splits Option.bind_splits)

lemma enqueue_command_effect:
  assumes "enqueue_command now sid sq t c g = Some (ok, g')" and "i \<noteq> sid"
  shows "session_stream i g' = session_stream i g" "gw_objects g' i = gw_objects g i"
  using assms
  by (auto simp: enqueue_command_def send_protocol_error_eq Let_def session_stream_def
      split: option.splits Option.bind_splits if_splits prod.splits)

lemma on_payload_effect:
  assumes "on_payload now sid h result g = Some g'" and "i \<noteq> sid"
  shows "session_stream i g' = session_stream i g" "gw_objects g' i = gw_objects g i"
  using assms
  by (auto simp: on_payload_def finish_payload_def send_protocol_error_eq Let_def
      split: option.splits Option.bind_splits sum.splits if_splits prod.splits
      dest: enqueue_command_effect [OF _ assms(2)] intro: session_stream_enqueued)

lemma on_write_effect:
  assumes "on_write sid failed g = Some g'"
  shows "gw_enqueued g' = gw_enqueued g" "map_option ts_reading (gw_objects g' i) = map_option ts_reading (gw_objects g i)"
  using assms
  by (auto simp: on_write_def Let_def do_write_def close_session_def option.map_comp comp_def
      split: option.splits Option.bind_splits if_splits)

lemma fold_send_reading [simp]: "ts_reading (fold send_raw_frame fs s) = ts_reading s"
  by (induction fs arbitrary: s) simp_all

lemma on_timer_effect:
  assumes "gw_inv g" and "on_timer failed g = Some g'"
  shows "gw_enqueued g' = gw_enqueued g" "map_option ts_reading (gw_objects g' i) = map_option ts_reading (gw_objects g i)"
proof -
  let ?g = "g\<lparr>gw_draining := False\<rparr>"
  have r: "ring_inv message_capacity (gw_outbound ?g)" "distinct (gw_sessions ?g)" using assms(1) by (simp_all add: gw_inv_def)
  note polled = poll_loop_delivers [OF r, of 0]
  from polled assms(2) show "gw_enqueued g' = gw_enqueued g"
    by (auto simp: on_timer_def poll_outbound_def Let_def schedule_outbound_drain_def same_table_def split: if_splits)
  from polled assms(2) show "map_option ts_reading (gw_objects g' i) = map_option ts_reading (gw_objects g i)"
    by (cases "i \<in> set (gw_sessions g)")
      (auto simp: on_timer_def poll_outbound_def Let_def schedule_outbound_drain_def option.map_comp comp_def split: if_splits)
qed

lemma stop_effect:
  assumes "gw_inv g"
  shows "gw_enqueued (stop g) = gw_enqueued g" "map_option ts_reading (gw_objects (stop g) i) = map_option ts_reading (gw_objects g i)"
  using fold_on_session [of "gw_sessions g" "g\<lparr>gw_stopped := True\<rparr>" close_session i] assms
  by (auto simp: stop_def gw_inv_def same_table_def close_session_def option.map_comp comp_def)

lemma on_accept_effect:
  assumes "gw_inv g" and "gw_objects g i = Some s"
  shows "gw_enqueued (on_accept failed g) = gw_enqueued g" "gw_objects (on_accept failed g) i = Some s"
  using gw_invD(3) [OF assms] assms(2) by (auto simp: on_accept_def do_accept_def Let_def)

lemma step_silent:
  assumes "gw_step g g'" and "gw_inv g" and "gw_objects g i = Some s" and "ts_reading s = No_read"
  shows "\<exists>s'. gw_objects g' i = Some s' \<and> ts_reading s' = No_read \<and> session_stream i g' = session_stream i g"
  using assms
proof (induction rule: gw_step.induct)
  case (start g)
  then show ?case by (auto simp: start_def do_accept_def schedule_outbound_drain_def session_stream_def)
next
  case (accept g failed)
  then show ?case using on_accept_effect [of g i s failed] by (auto intro: session_stream_enqueued)
next
  case (header g sid t result g')
  then have "i \<noteq> sid" by auto
  then show ?case using header on_header_effect [OF header.hyps(4)] by (auto intro: session_stream_enqueued)
next
  case (payload g sid t h result n g')
  then have "i \<noteq> sid" by auto
  then show ?case using payload on_payload_effect [OF payload.hyps(4)] by auto
next
  case (written g sid t failed g')
  then show ?case using on_write_effect(1) [OF written.hyps(3)] on_write_effect(2) [OF written.hyps(3), of i] by (auto intro: session_stream_enqueued)
next
  case (timer g failed g')
  then show ?case using on_timer_effect(1) [OF timer.prems(1) timer.hyps(2)]
      on_timer_effect(2) [OF timer.prems(1) timer.hyps(2), of i]
    by (auto intro: session_stream_enqueued)
next
  case (stop g)
  then show ?case using stop_effect(1) [OF stop.prems(1)] stop_effect(2) [OF stop.prems(1), of i]
    by (auto intro: session_stream_enqueued)
qed (auto simp: session_stream_def)

lemma steps_silent:
  assumes "gw_step\<^sup>*\<^sup>* g g'" and "gw_inv g" and "gw_objects g i = Some s" and "ts_reading s = No_read"
  shows "session_stream i g' = session_stream i g"
proof -
  from assms(1) have "gw_inv g' \<and> (\<exists>s'. gw_objects g' i = Some s' \<and> ts_reading s' = No_read) \<and>
      session_stream i g' = session_stream i g"
  proof induction
    case base
    show ?case using assms(2-4) by blast
  next
    case (step g1 g2)
    then show ?case using step_silent [OF step.hyps(2)] gw_inv_step [OF step.hyps(2)] by fastforce
  qed
  then show ?thesis by blast
qed

section \<open>Completions\<close>

text \<open>The completions that Asio can deliver, when they are due and what handles them.\<close>

datatype completion =
  Accepted bool
| Bytes_read i64 u64 "bytes option"
| Frame_written u64 bool
| Timer_expired bool

fun pending :: "completion \<Rightarrow> gateway \<Rightarrow> bool" where
  "pending (Accepted failed) g = (gw_accepting g \<and> gw_next_session_id g \<noteq> - 1)"
| "pending (Bytes_read now sid result) g =
     (case gw_objects g sid of
        None \<Rightarrow> False
      | Some s \<Rightarrow> (case ts_reading s of
            No_read \<Rightarrow> False
          | Read_header \<Rightarrow> read_fills kHeaderSize result
          | Read_payload h \<Rightarrow> read_fills (unat (wh_payload_length h)) result))"
| "pending (Frame_written sid failed) g = (case gw_objects g sid of None \<Rightarrow> False | Some s \<Rightarrow> ts_writing s)"
| "pending (Timer_expired failed) g = gw_draining g"

fun complete :: "completion \<Rightarrow> gateway \<Rightarrow> gateway ub" where
  "complete (Accepted failed) g = Some (on_accept failed g)"
| "complete (Bytes_read now sid result) g =
     (case gw_objects g sid of
        None \<Rightarrow> None
      | Some s \<Rightarrow> (case ts_reading s of
            No_read \<Rightarrow> None
          | Read_header \<Rightarrow> on_header sid result g
          | Read_payload h \<Rightarrow> on_payload now sid h result g))"
| "complete (Frame_written sid failed) g = on_write sid failed g"
| "complete (Timer_expired failed) g = on_timer failed g"

fun transferred :: "completion \<Rightarrow> nat" where
  "transferred (Bytes_read now sid (Some bs)) = length bs"
| "transferred _ = 0"

lemma complete_total:
  assumes inv: "gw_inv g" and due: "pending c g"
  shows "\<exists>g'. complete c g = Some g' \<and> gw_step g g'"
proof (cases c)
  case (Accepted failed)
  then show ?thesis using due by (auto intro: gw_step.accept)
next
  case (Bytes_read now sid result)
  then obtain s where s: "gw_objects g sid = Some s" using due by (auto split: option.splits)
  show ?thesis
  proof (cases "ts_reading s")
    case No_read
    then show ?thesis using Bytes_read due s by simp
  next
    case Read_header
    moreover have "read_fills kHeaderSize result" using Bytes_read due s Read_header by simp
    ultimately show ?thesis using Bytes_read s on_header_total [OF inv s, of result] by (auto intro: gw_step.header)
  next
    case (Read_payload h)
    moreover have "read_fills (unat (wh_payload_length h)) result" using Bytes_read due s Read_payload by simp
    ultimately show ?thesis using Bytes_read s on_payload_total [OF inv s, of h now result] by (auto intro: gw_step.payload)
  qed
next
  case (Frame_written sid failed)
  then obtain s where "gw_objects g sid = Some s" "ts_writing s" using due by (auto split: option.splits)
  then show ?thesis using Frame_written on_write_total [OF inv, of sid s failed] by (auto intro: gw_step.written)
next
  case (Timer_expired failed)
  then show ?thesis using due on_timer_total [OF inv, of failed] by (auto intro: gw_step.timer)
qed

lemma transferred_bound:
  assumes "gw_inv g" and "pending c g"
  shows "transferred c \<le> unat kMaxPayloadLength"
proof (cases c)
  case (Bytes_read now sid result)
  then obtain s where s: "gw_objects g sid = Some s" using assms by (auto split: option.splits)
  have "session_ok s" by (rule gw_invD(1) [OF assms(1) s])
  then show ?thesis using Bytes_read assms(2) s
    by (cases result)
      (auto simp: session_ok_def read_fills_def validate_header_None word_le_nat_alt kHeaderSize_def kMaxPayloadLength_def
        split: read_operation.splits)
qed simp_all

section \<open>Refused input\<close>

text \<open>The error that the bytes of a completed read deserve, and the message type it is reported for.\<close>

definition violation :: "tcp_session \<Rightarrow> bytes \<Rightarrow> (error_code \<times> u8) option" where
  "violation s bs =
     (case ts_reading s of
        No_read \<Rightarrow> None
      | Read_header \<Rightarrow> (case decode_header bs of
            Some (Some h) \<Rightarrow> map_option (\<lambda>err. (err, mt_value (wh_type h))) (validate_header h)
          | _ \<Rightarrow> None)
      | Read_payload h \<Rightarrow> (case decode_payload h bs of
            Some (Inl err) \<Rightarrow> Some (err, mt_value (wh_type h))
          | Some (Inr (sq, c)) \<Rightarrow>
              if sq \<le> ts_last_sequence s then Some (sequence_out_of_order, mt_value (wh_type h)) else None
          | None \<Rightarrow> None))"

lemma violation_fails_session:
  assumes "gw_objects g sid = Some s" and "violation s bs = Some (err, t)"
    and "complete (Bytes_read now sid (Some bs)) g = Some g'"
  shows "gw_objects g' sid = Some (fail_session err t (idle s)) \<and> session_stream sid g' = session_stream sid g"
proof (cases "ts_reading s")
  case No_read
  then show ?thesis using assms by (simp add: violation_def)
next
  case Read_header
  then obtain h where "decode_header bs = Some (Some h)" "validate_header h = Some err" "t = mt_value (wh_type h)"
    using assms(2) by (auto simp: violation_def split: option.splits)
  then show ?thesis using assms(1,3) Read_header
    by (auto simp: on_header_def send_protocol_error_eq)
next
  case (Read_payload h)
  then obtain r where r: "decode_payload h bs = Some r" using decode_payload_total by blast
  show ?thesis
  proof (cases r)
    case (Inl err')
    then show ?thesis using assms Read_payload r
      by (auto simp: violation_def on_payload_def finish_payload_def send_protocol_error_eq)
  next
    case (Inr qc)
    then show ?thesis using assms Read_payload r
      by (auto simp: violation_def on_payload_def finish_payload_def enqueue_command_def send_protocol_error_eq
          split: prod.splits if_splits)
  qed
qed

section \<open>Completing the writes of a session\<close>

fun finish_writes :: "nat \<Rightarrow> u64 \<Rightarrow> gateway \<Rightarrow> gateway ub" where
  "finish_writes 0 sid g = Some g"
| "finish_writes (Suc n) sid g = do { g' \<leftarrow> on_write sid False g; finish_writes n sid g' }"

lemma finish_writes_done:
  assumes "gw_objects g sid = Some s" and "ts_write_queue s \<noteq> []"
  shows "\<exists>g' s'. finish_writes (length (ts_write_queue s)) sid g = Some g' \<and> gw_objects g' sid = Some s' \<and>
    ts_written s' = ts_written s @ ts_write_queue s \<and> ts_write_queue s' = [] \<and>
    (ts_open s' \<longleftrightarrow> ts_open s \<and> \<not> ts_close_after_write s) \<and>
    set (gw_sessions g') = set (gw_sessions g) - (if ts_close_after_write s then {sid} else {})"
  using assms
proof (induction "ts_write_queue s" arbitrary: g s)
  case (Cons f fs)
  have s: "ts_write_queue s = f # fs" using Cons.hyps(2) by simp
  note w = on_write_eq [OF Cons.prems]
  show ?case
  proof (cases fs)
    case Nil
    then show ?thesis using s w Cons.prems
      by (auto simp: after_write_def pop_written_def close_session_def unregister_session_def)
  next
    case more: (Cons f' fs')
    let ?s = "after_write s" and ?g = "on_session sid after_write g"
    have a: "fs = ts_write_queue ?s" "ts_written ?s = ts_written s @ [f]" "ts_open ?s = ts_open s"
      "ts_close_after_write ?s = ts_close_after_write s"
      using s more by (simp_all add: after_write_def pop_written_def do_write_def)
    have "gw_objects ?g sid = Some ?s" using Cons.prems by simp
    from Cons.hyps(1) [OF a(1) this] have ih: "\<exists>g' s'. finish_writes (length fs) sid ?g = Some g' \<and>
        gw_objects g' sid = Some s' \<and> ts_written s' = ts_written s @ ts_write_queue s \<and> ts_write_queue s' = [] \<and>
        (ts_open s' \<longleftrightarrow> ts_open s \<and> \<not> ts_close_after_write s) \<and>
        set (gw_sessions g') = set (gw_sessions g) - (if ts_close_after_write s then {sid} else {})"
      unfolding a(1) [symmetric] a(2-4) using more s by auto
    have "on_write sid False g = Some ?g" using w s more by simp
    then have "finish_writes (length (ts_write_queue s)) sid g = finish_writes (length fs) sid ?g" using s by simp
    then show ?thesis using ih by simp
  qed
qed simp

section \<open>A small gateway for the examples\<close>

definition idle_gateway :: gateway where
  "idle_gateway = make_gateway (empty_ring message_capacity cancel_message) (empty_ring message_capacity blank_outbound)"

definition connected_gateway :: gateway where
  "connected_gateway = on_accept False (start idle_gateway)"

definition cancel_header :: wire_header where
  "cancel_header = \<lparr>wh_magic = kMagic, wh_version = kVersion, wh_type = mt_cancel_order, wh_flags = 0, wh_payload_length = 16\<rparr>"

definition reading_gateway :: gateway where
  "reading_gateway = on_session 1 (do_read_payload cancel_header \<circ> idle) connected_gateway"

definition failing_gateway :: gateway where
  "failing_gateway = on_session 1 (fail_session malformed_frame 0 \<circ> idle) connected_gateway"

lemmas example_defs = connected_gateway_def idle_gateway_def make_gateway_def start_def do_accept_def
  schedule_outbound_drain_def on_accept_def Let_def

lemma connected_gateway_fields [simp]:
  "gw_objects connected_gateway = [1 \<mapsto> do_read_header make_session]" "gw_sessions connected_gateway = [1]"
  "gw_enqueued connected_gateway = []" "gw_outbound connected_gateway = empty_ring message_capacity blank_outbound"
  "gw_draining connected_gateway" "\<not> gw_stopped connected_gateway"
  by (auto simp: example_defs on_session_def)

lemma connected_reachable: "gw_reachable connected_gateway"
proof -
  have "gw_reachable (start idle_gateway)"
    unfolding idle_gateway_def by (rule gw_reachable.step [OF gw_reachable.init gw_step.start])
  moreover have "gw_step (start idle_gateway) connected_gateway"
    unfolding connected_gateway_def
    by (rule gw_step.accept) (simp_all add: start_def do_accept_def schedule_outbound_drain_def idle_gateway_def make_gateway_def)
  ultimately show ?thesis by (rule gw_reachable.step)
qed

lemma reading_reachable: "gw_reachable reading_gateway"
proof (rule gw_reachable.step [OF connected_reachable gw_step.header])
  show "gw_objects connected_gateway 1 = Some (do_read_header make_session)" by simp
  show "read_fills kHeaderSize (Some (header_bytes cancel_header))" by (simp add: read_fills_def kHeaderSize_def)
  have "decode_header (header_bytes cancel_header) = Some (Some cancel_header)"
    using decode_header_bytes [of cancel_header "[]"] by simp
  moreover have "validate_header cancel_header = None" by code_simp
  ultimately show "on_header 1 (Some (header_bytes cancel_header)) connected_gateway = Some reading_gateway"
    by (simp add: on_header_def reading_gateway_def)
qed (simp add: do_read_header_def)

lemma zero_header: "decode_header (replicate 8 0) = Some (Some \<lparr>wh_magic = 0, wh_version = 0, wh_type = MessageType 0,
    wh_flags = 0, wh_payload_length = 0\<rparr>)"
  by code_simp

lemma failing_reachable: "gw_reachable failing_gateway"
proof (rule gw_reachable.step [OF connected_reachable gw_step.header])
  show "gw_objects connected_gateway 1 = Some (do_read_header make_session)" by simp
  show "read_fills kHeaderSize (Some (replicate 8 0))" by (simp add: read_fills_def kHeaderSize_def)
  show "on_header 1 (Some (replicate 8 0)) connected_gateway = Some failing_gateway"
    by (simp add: on_header_def zero_header validate_header_def kMagic_def send_protocol_error_eq failing_gateway_def)
qed (simp add: do_read_header_def)

definition broadcast_error :: outbound_message where
  "broadcast_error = \<lparr>om_session_id = 0, om_type = mt_protocol_error, om_flags = 0,
     om_payload = Protocol_error \<lparr>pe_error_code = session_overloaded, pe_offending_type = 0\<rparr>\<rparr>"

definition busy_gateway :: gateway where
  "busy_gateway = connected_gateway\<lparr>gw_outbound :=
     snd (try_push message_capacity broadcast_error (gw_outbound connected_gateway))\<rparr>"

lemma busy_reachable: "gw_reachable busy_gateway"
  unfolding busy_gateway_def
  by (rule gw_reachable.step [OF connected_reachable gw_step.engine_sends [OF prod.collapse [symmetric]]])

lemma busy_contents:
  "ring_contents message_capacity (gw_outbound busy_gateway) = [broadcast_error]"
  "gw_sessions busy_gateway = [1]" "gw_objects busy_gateway = [1 \<mapsto> do_read_header make_session]"
  using message_ring.fifo.push_law [OF ring_inv_empty(1) prod.collapse [symmetric], of broadcast_error blank_outbound]
  by (simp_all add: busy_gateway_def ring_inv_empty)

section \<open>Properties\<close>

text \<open>
  Claim C15. Whatever clients send and in whatever order the gateway's asynchronous operations
  complete, the engine's inbound queue holds only well-formed commands, in the order in which they
  were accepted, each taken once: the accepted messages are those taken by the engine followed by
  those queued. The accepted commands of one session carry strictly increasing sequence numbers.
\<close>

theorem inbound_stream_valid:
  assumes "gw_reachable g"
  shows "(\<exists>taken. gw_enqueued g = taken @ ring_contents message_capacity (gw_inbound g)) \<and>
    list_all (\<lambda>m. loggable (im_command m)) (gw_enqueued g) \<and> sorted_wrt (<) (session_stream sid g)"
proof -
  note inv = gw_reachable_inv [OF assms]
  have "session_stream sid g = []" if "gw_objects g sid = None"
    using inv that by (auto simp: gw_inv_def session_stream_def list_all_iff filter_empty_conv)
  then have "sorted_wrt (<) (session_stream sid g)"
    using gw_invD(4) [OF inv, of sid] by (cases "gw_objects g sid") auto
  then show ?thesis using inv by (auto simp: gw_inv_def list_all_iff)
qed

theorem inbound_stream_valid_witness:
  "gw_reachable reading_gateway \<and> sorted_wrt (<) (session_stream 1 reading_gateway)"
  using inbound_stream_valid [OF reading_reachable, of 1] reading_reachable by blast

text \<open>
  Claim C21. In a reachable gateway every completion that Asio can deliver is handled without
  undefined behaviour, and leads to a reachable gateway again: a header or payload read, with an
  error or with the bytes asked for, a write, whose queue then is not empty, an accepted connection,
  the timer, whose poll loop ends. A payload read never asks for more bytes than the session's
  buffer of \<open>kMaxPayloadLength\<close> bytes holds.
\<close>

theorem completions_are_handled:
  assumes "gw_reachable g" and "pending c g"
  shows "transferred c \<le> unat kMaxPayloadLength \<and> (\<exists>g'. complete c g = Some g' \<and> gw_reachable g')"
  using complete_total [OF gw_reachable_inv [OF assms(1)] assms(2)]
    transferred_bound [OF gw_reachable_inv [OF assms(1)] assms(2)] gw_reachable.step [OF assms(1)] by blast

theorem completions_are_handled_witness:
  "pending (Bytes_read 5 1 (Some (replicate 16 0))) reading_gateway \<and>
   (\<exists>g'. complete (Bytes_read 5 1 (Some (replicate 16 0))) reading_gateway = Some g' \<and> gw_reachable g')"
proof -
  have "pending (Bytes_read 5 1 (Some (replicate 16 0))) reading_gateway"
    by (simp add: reading_gateway_def do_read_payload_def read_fills_def cancel_header_def)
  with completions_are_handled [OF reading_reachable this] show ?thesis by blast
qed

text \<open>
  Claim C20. Input that violates the protocol ends a session's input. When a completed read delivers
  a header that does not validate, a payload that does not decode, or a command whose sequence number
  does not exceed the last accepted one, the session is sent the error frame for exactly that error
  and message type, is marked to be closed after its writes, and nothing it sends is passed to the
  engine in any later state of the gateway.
\<close>

theorem violation_ends_input:
  assumes "gw_reachable g" and "gw_objects g sid = Some s" and "violation s bs = Some (err, t)"
    and "pending (Bytes_read now sid (Some bs)) g" and "complete (Bytes_read now sid (Some bs)) g = Some g'"
    and "gw_step\<^sup>*\<^sup>* g' g''"
  shows "gw_objects g' sid = Some (send_raw_frame (error_frame err t) (s\<lparr>ts_reading := No_read, ts_close_after_write := True\<rparr>)) \<and>
    session_stream sid g'' = session_stream sid g"
proof -
  have f: "gw_objects g' sid = Some (fail_session err t (idle s))" "session_stream sid g' = session_stream sid g"
    using violation_fails_session [OF assms(2,3,5)] by blast+
  have "gw_inv g'"
    using complete_total [OF gw_reachable_inv [OF assms(1)] assms(4)] assms(5) gw_inv_step gw_reachable_inv [OF assms(1)] by auto
  then have "session_stream sid g'' = session_stream sid g'"
    using steps_silent [OF assms(6) _ f(1)] by (simp add: fail_session_def)
  then show ?thesis using f by (simp add: fail_session_def)
qed

theorem violation_ends_input_witness:
  "\<exists>g'. complete (Bytes_read 5 1 (Some (replicate 16 0))) reading_gateway = Some g' \<and>
     gw_objects g' 1 = Some (send_raw_frame (error_frame invalid_field (mt_value mt_cancel_order))
       (make_session\<lparr>ts_close_after_write := True\<rparr>)) \<and> session_stream 1 (stop g') = []"
proof -
  let ?bs = "replicate 16 (0 :: u8)"
  have pending: "pending (Bytes_read 5 1 (Some ?bs)) reading_gateway"
    by (simp add: reading_gateway_def do_read_payload_def read_fills_def cancel_header_def)
  obtain s where s: "gw_objects reading_gateway 1 = Some s" "s = do_read_payload cancel_header (idle (do_read_header make_session))"
    by (simp add: reading_gateway_def)
  have "decode_payload cancel_header ?bs = Some (Inl invalid_field)" by code_simp
  then have v: "violation s ?bs = Some (invalid_field, mt_value mt_cancel_order)"
    by (simp add: violation_def s(2) do_read_payload_def cancel_header_def)
  obtain g' where g': "complete (Bytes_read 5 1 (Some ?bs)) reading_gateway = Some g'"
    using complete_total [OF gw_reachable_inv [OF reading_reachable] pending] by blast
  have "gw_step\<^sup>*\<^sup>* g' (stop g')" using gw_step.stop by blast
  from violation_ends_input [OF reading_reachable s(1) v pending g' this] g' show ?thesis
    by (simp add: s(2) do_read_payload_def do_read_header_def make_session_def session_stream_def reading_gateway_def)
qed

text \<open>
  Polling delivers: \<open>poll_outbound\<close> returns, reports the number of messages taken and
  leaves the outbound queue empty. Every registered session with an open socket has been sent
  exactly the frames of the messages addressed to it or to all sessions, in queue order, and nothing
  else about the sessions changes except that a write is started when none is in progress.
\<close>

theorem poll_outbound_delivers:
  assumes "gw_reachable g" and "sid \<in> set (gw_sessions g)" and "gw_objects g sid = Some s" and "ts_open s"
    and "ring_contents message_capacity (gw_outbound g) = ms" and "list_all (\<lambda>m. om_payload m \<noteq> No_payload) ms"
  shows "\<exists>g' s'. poll_outbound g = Some (of_nat (length ms), g') \<and>
    ring_contents message_capacity (gw_outbound g') = [] \<and> gw_sessions g' = gw_sessions g \<and>
    gw_objects g' sid = Some s' \<and> ts_written s' = ts_written s \<and>
    ts_write_queue s' = ts_write_queue s @ frames_for sid ms \<and> ts_frames s' = ts_frames s @ frames_for sid ms"
proof -
  note inv = gw_reachable_inv [OF assms(1)]
  have r: "ring_inv message_capacity (gw_outbound g)" "distinct (gw_sessions g)" using inv by (simp_all add: gw_inv_def)
  have send: "ts_open u \<Longrightarrow> list_all (\<lambda>f. f \<noteq> []) fs \<Longrightarrow>
      ts_write_queue (fold send_raw_frame fs u) = ts_write_queue u @ fs \<and>
      ts_frames (fold send_raw_frame fs u) = ts_frames u @ fs \<and>
      ts_written (fold send_raw_frame fs u) = ts_written u" for fs u
    by (induction fs arbitrary: u) (simp_all add: send_raw_frame_def do_write_def Let_def)
  have "list_all (\<lambda>f. f \<noteq> []) (frames_for sid ms)"
    using assms(6) by (auto simp: frames_for_def list_all_iff wire_frame_def header_bytes_def)
  then show ?thesis using poll_loop_delivers [OF r, of 0] assms(2-5) send [OF assms(4)]
    by (auto simp: poll_outbound_def same_table_def)
qed

theorem poll_outbound_delivers_witness:
  "\<exists>g' s'. poll_outbound busy_gateway = Some (1, g') \<and> gw_objects g' 1 = Some s' \<and> ts_frames s' = [wire_frame broadcast_error]"
  using poll_outbound_delivers [OF busy_reachable, of 1 "do_read_header make_session" "[broadcast_error]"]
  by (auto simp: busy_contents do_read_header_def make_session_def broadcast_error_def)

text \<open>
  Frames reach the socket in the order in which they were sent, none lost or repeated: when
  a session's writes succeed, as many write completions as it has queued frames leave it with
  everything that was ever sent to it written, in order. A session marked to be closed after its
  writes is then closed and no longer in the gateway's table; any other stays as it was.
\<close>

theorem writes_complete:
  assumes "gw_reachable g" and "gw_objects g sid = Some s" and "ts_writing s"
  shows "\<exists>g' s'. finish_writes (length (ts_write_queue s)) sid g = Some g' \<and> gw_objects g' sid = Some s' \<and>
    ts_written s' = ts_frames s \<and> ts_write_queue s' = [] \<and>
    (ts_open s' \<longleftrightarrow> ts_open s \<and> \<not> ts_close_after_write s) \<and>
    set (gw_sessions g') = set (gw_sessions g) - (if ts_close_after_write s then {sid} else {})"
proof -
  have "session_ok s" by (rule gw_invD(1) [OF gw_reachable_inv [OF assms(1)] assms(2)])
  then show ?thesis using finish_writes_done [OF assms(2)] assms(3) by (simp add: session_ok_def)
qed

end
