(* ===== verification/Engine_Events.thy ===== *)
theory Engine_Events
  imports Gateway_Guarantees
begin

text \<open>
  From the engine to the wire and back. Every value in a reachable book is one its C++ class admits,
  hence every event that the engine sends is well-formed: its frame validates and decodes to the event.
\<close>

declare length_ring_contents [simp del]

section \<open>Values in the book\<close>

definition entry_ok :: "entry \<Rightarrow> bool" where
  "entry_ok e \<longleftrightarrow> order_id_ok (entry_id e) \<and> price_ok (fst e) \<and> quantity_ok (ro_remaining_quantity (snd e))"

definition values_ok :: "abs_book \<Rightarrow> bool" where
  "values_ok a \<longleftrightarrow> list_all entry_ok (ab_bids a) \<and> list_all entry_ok (ab_asks a)"

definition fill_ok :: "execution \<Rightarrow> bool" where
  "fill_ok x \<longleftrightarrow> order_id_ok (ex_resting_order_id x) \<and> order_id_ok (ex_incoming_order_id x) \<and>
     price_ok (ex_price x) \<and> quantity_ok (ex_quantity x)"

lemma spec_match_values:
  "spec_match crosses inc rem es = (xs, rem', es') \<Longrightarrow> order_id_ok inc \<Longrightarrow> list_all entry_ok es \<Longrightarrow>
   list_all fill_ok xs \<and> list_all entry_ok es'"
  by (induction crosses inc rem es arbitrary: xs rem' es' rule: spec_match.induct)
    (auto simp: fill_def fill_ok_def entry_ok_def quantity_ok_def set_entry_quantity_def split: if_splits prod.splits)

lemma spec_take_values:
  "spec_take inc side t limit rem a = (xs, rem', a') \<Longrightarrow> order_id_ok inc \<Longrightarrow> values_ok a \<Longrightarrow>
   list_all fill_ok xs \<and> values_ok a'"
  by (cases side) (auto simp: spec_take_def values_ok_def split: prod.splits dest: spec_match_values)

lemma spec_insert_values: "entry_ok e \<Longrightarrow> list_all entry_ok es \<Longrightarrow> list_all entry_ok (spec_insert first e es)"
  by (auto simp: spec_insert_def list_all_iff dest: set_takeWhileD set_dropWhileD)

lemma spec_rest_values: "entry_ok e \<Longrightarrow> values_ok a \<Longrightarrow> values_ok (spec_rest side e a)"
  by (cases side) (simp_all add: spec_rest_def values_ok_def spec_insert_values)

lemma spec_find_values: "spec_find oid a = Some (side, e) \<Longrightarrow> values_ok a \<Longrightarrow> entry_ok e"
  by (auto simp: spec_find_def values_ok_def list_all_iff find_Some_iff split: option.splits)

lemma spec_delete_values: "values_ok a \<Longrightarrow> values_ok (spec_delete oid a)"
  by (auto simp: spec_delete_def values_ok_def list_all_iff)

lemma spec_requantify_values: "quantity_ok q \<Longrightarrow> list_all entry_ok es \<Longrightarrow> list_all entry_ok (spec_requantify oid q es)"
  by (auto simp: spec_requantify_def list_all_iff entry_ok_def set_entry_quantity_def)

lemma values_ok_seen [simp]: "values_ok (a\<lparr>ab_seen := s\<rparr>) = values_ok a"
  by (simp add: values_ok_def)

lemma spec_submit_values:
  assumes "new_order_ok order" and "values_ok a" and "spec_submit order a = (res, a')"
  shows "list_all fill_ok (sr_executions res) \<and> values_ok a'"
proof (cases "validate order \<noteq> None \<or> no_order_id order \<in> ab_seen a")
  case True
  then show ?thesis using assms by (auto simp: spec_submit_def split: if_splits)
next
  case False
  obtain xs rem a1 where take: "spec_take (no_order_id order) (no_side order) (no_type order) (no_limit_price order)
      (units (no_quantity order)) (a\<lparr>ab_seen := insert (no_order_id order) (ab_seen a)\<rparr>) = (xs, rem, a1)"
    by (metis prod_cases3)
  have id: "order_id_ok (no_order_id order)" using assms(1) by (simp add: new_order_ok_def)
  note v = spec_take_values [OF take id, simplified, OF assms(2)]
  have "entry_ok (the (no_limit_price order), \<lparr>ro_order_id = no_order_id order, ro_sequence = no_sequence order,
      ro_remaining_quantity = Quantity rem\<rparr>)" if "no_type order = Limit" "rem \<noteq> 0"
    using False that assms(1) by (auto simp: entry_ok_def new_order_ok_def validate_None_iff quantity_ok_def)
  then show ?thesis using False take assms(3) v spec_rest_values
    by (auto simp: spec_submit_def split: if_splits)
qed

lemma spec_replace_values:
  assumes "replace_order_ok order" and "values_ok a" and "spec_replace order a = (res, a')"
  shows "list_all fill_ok (rr_executions res) \<and> values_ok a'"
proof (cases "spec_find (rpo_order_id order) a")
  case None
  then show ?thesis using assms by (auto simp: spec_replace_def)
next
  case (Some se)
  then obtain side e where f: "spec_find (rpo_order_id order) a = Some (side, e)" by (cases se) auto
  obtain xs rem a1 where take: "spec_take (rpo_order_id order) side Limit (Some (rpo_new_price order))
      (units (rpo_new_quantity order)) (spec_delete (rpo_order_id order) a) = (xs, rem, a1)"
    by (metis prod_cases3)
  have ok: "order_id_ok (rpo_order_id order)" "quantity_ok (rpo_new_quantity order)" "price_ok (rpo_new_price order)"
    using assms(1) by (simp_all add: replace_order_ok_def)
  note v = spec_take_values [OF take ok(1) spec_delete_values [OF assms(2)]]
  have "entry_ok (rpo_new_price order, \<lparr>ro_order_id = rpo_order_id order, ro_sequence = rpo_sequence order,
      ro_remaining_quantity = Quantity rem\<rparr>)" if "rem \<noteq> 0"
    using that ok by (simp add: entry_ok_def quantity_ok_def)
  moreover have "values_ok (a\<lparr>ab_bids := spec_requantify (rpo_order_id order) (rpo_new_quantity order) (ab_bids a),
      ab_asks := spec_requantify (rpo_order_id order) (rpo_new_quantity order) (ab_asks a)\<rparr>)"
    using assms(2) spec_requantify_values [OF ok(2)] by (simp add: values_ok_def)
  ultimately show ?thesis using f take assms(3) v spec_rest_values
    by (auto simp: spec_replace_def split: if_splits)
qed

lemma spec_apply_values:
  assumes "command_ok c" and "values_ok a"
  shows "values_ok (snd (spec_apply c a))"
proof (cases c)
  case (New_order order)
  then show ?thesis using spec_submit_values [OF _ assms(2), of order] assms(1)
    by (cases "spec_submit order a") (simp add: spec_apply_def command_ok_def)
next
  case (Cancel_order order)
  then show ?thesis using assms(2) spec_delete_values
    by (auto simp: spec_apply_def spec_cancel_def split: option.splits prod.splits)
next
  case (Replace_order order)
  then show ?thesis using spec_replace_values [OF _ assms(2), of order] assms(1)
    by (cases "spec_replace order a") (simp add: spec_apply_def command_ok_def)
qed (simp add: spec_apply_def assms)

section \<open>Well-formed events\<close>

text \<open>The payload that an event of each type carries, and how a client reads it.\<close>

fun payload_ok :: "outbound_payload \<Rightarrow> message_type \<Rightarrow> bool" where
  "payload_ok (Order_accepted ev) t = (order_accepted_ok ev \<and> t \<in> {mt_order_accepted, mt_replace_accepted})"
| "payload_ok (Order_rejected ev) t =
     (order_rejected_ok ev \<and> t \<in> {mt_order_rejected, mt_cancel_rejected, mt_replace_rejected})"
| "payload_ok (Execution ev) t = (execution_ok ev \<and> t = mt_execution)"
| "payload_ok (Cancel_accepted ev) t = (cancel_accepted_ok ev \<and> t = mt_cancel_accepted)"
| "payload_ok (Protocol_error ev) t = (t = mt_protocol_error)"
| "payload_ok No_payload t = False"

definition event_ok :: "outbound_message \<Rightarrow> bool" where
  "event_ok m \<longleftrightarrow> payload_ok (om_payload m) (om_type m) \<and> om_flags m \<in> {0, kFlagMore}"

definition decode_event :: "message_type \<Rightarrow> bytes \<Rightarrow> outbound_payload ub" where
  "decode_event t bs =
     (if t = mt_order_accepted \<or> t = mt_replace_accepted
      then do { r \<leftarrow> decode_order_accepted bs; case r of Inr ev \<Rightarrow> Some (Order_accepted ev) | Inl _ \<Rightarrow> None }
      else if t = mt_order_rejected \<or> t = mt_cancel_rejected \<or> t = mt_replace_rejected
      then do { r \<leftarrow> decode_order_rejected bs; case r of Inr ev \<Rightarrow> Some (Order_rejected ev) | Inl _ \<Rightarrow> None }
      else if t = mt_execution
      then do { r \<leftarrow> decode_execution bs; case r of Inr ev \<Rightarrow> Some (Execution ev) | Inl _ \<Rightarrow> None }
      else if t = mt_cancel_accepted
      then do { r \<leftarrow> decode_cancel_accepted bs; case r of Inr ev \<Rightarrow> Some (Cancel_accepted ev) | Inl _ \<Rightarrow> None }
      else if t = mt_protocol_error
      then do { r \<leftarrow> decode_protocol_error bs; case r of Inr ev \<Rightarrow> Some (Protocol_error ev) | Inl _ \<Rightarrow> None }
      else None)"

lemmas type_defs = mt_order_accepted_def mt_order_rejected_def mt_execution_def mt_cancel_accepted_def
  mt_cancel_rejected_def mt_replace_accepted_def mt_replace_rejected_def mt_protocol_error_def
  mt_new_order_def mt_cancel_order_def mt_replace_order_def

lemmas payload_decoders = order_accepted_codec.decode_payload order_rejected_codec.decode_payload
  execution_codec.decode_payload cancel_accepted_codec.decode_payload protocol_error_codec.decode_payload

lemma decode_event_payload: "payload_ok p t \<Longrightarrow> decode_event t (payload_bytes p) = Some p"
  by (cases p) (auto simp: decode_event_def type_defs payload_decoders protocol_error_ok_def)

lemmas payload_lengths = order_accepted_codec.payload_length order_rejected_codec.payload_length
  execution_codec.payload_length cancel_accepted_codec.payload_length protocol_error_codec.payload_length

lemma payload_ok_length:
  "payload_ok p t \<Longrightarrow> expected_payload_length t = Some (of_nat (length (payload_bytes p))) \<and> length (payload_bytes p) \<le> 40"
  by (cases p) (auto simp: expected_payload_length_def type_defs payload_lengths size_defs kCancelRejectedSize_def
      kReplaceAcceptedSize_def kReplaceRejectedSize_def)

lemma event_frame:
  assumes "event_ok m"
  shows "\<exists>frame h. serialize_outbound m = Some frame \<and> decode_header frame = Some (Some h) \<and> validate_header h = None \<and>
    wh_type h = om_type m \<and> wh_flags h = om_flags m \<and> decode_event (wh_type h) (drop kHeaderSize frame) = Some (om_payload m) \<and>
    of_nat (length frame) = frame_bytes m"
proof -
  let ?p = "payload_bytes (om_payload m)"
  let ?h = "frame_header (om_type m) ?p (om_flags m)"
  have ok: "payload_ok (om_payload m) (om_type m)" using assms by (simp add: event_ok_def)
  then have n: "om_payload m \<noteq> No_payload" by (cases "om_payload m") auto
  note len = payload_ok_length [OF ok]
  have "flags_reserved_bits_clear (om_flags m)"
    using assms by (auto simp: event_ok_def flags_reserved_bits_clear_def kFlagMore_def kFlagReservedMask_def)
  then have "validate_header ?h = None"
    using len unfolding validate_header_None
    by (simp add: frame_header_def kMaxPayloadLength_def word_le_nat_alt unat_of_nat)
  moreover have "serialize_outbound m = Some (header_bytes ?h @ ?p)" using n by (simp add: serialize_outbound_eq wire_frame_def)
  moreover have "of_nat (length (header_bytes ?h @ ?p)) = frame_bytes m"
    using len by (simp add: frame_bytes_def kHeaderSize_def unsigned_of_nat take_bit_nat_eq_self)
  ultimately show ?thesis
    using decode_header_bytes [of ?h ?p] decode_event_payload [OF ok]
    by (intro exI [of _ "header_bytes ?h @ ?p"] exI [of _ ?h]) (simp add: frame_header_def kHeaderSize_def)
qed

section \<open>Events of the engine\<close>

lemma execution_messages_ok:
  "sequence_ok sq \<Longrightarrow> list_all fill_ok xs \<Longrightarrow> list_all event_ok (execution_messages owners sid sq xs)"
  by (induction xs)
    (auto simp: event_ok_def execution_message_def resting_copy_def fill_ok_def execution_ok_def split: option.split)

lemma response_ok:
  assumes "command_ok c" and "values_ok a"
  shows "list_all event_ok (spec_response owners sid c a)"
proof (cases c)
  case (New_order order)
  have "list_all fill_ok (sr_executions (fst (spec_submit order a)))"
    using spec_submit_values [OF _ assms(2), of order] assms(1) New_order
    by (cases "spec_submit order a") (simp add: command_ok_def)
  then show ?thesis using New_order assms(1) execution_messages_ok
    by (auto simp: spec_response_def Let_def event_ok_def rejected_message_def accepted_message_def order_rejected_ok_def
        order_accepted_ok_def command_ok_def new_order_ok_def split: option.split)
next
  case (Cancel_order order)
  have "quantity_ok (ro_remaining_quantity (snd e))" if "spec_find (co_order_id order) a = Some (side, e)" for side e
    using spec_find_values [OF that assms(2)] by (simp add: entry_ok_def)
  then show ?thesis using Cancel_order assms(1)
    by (auto simp: spec_response_def event_ok_def rejected_message_def cancelled_message_def order_rejected_ok_def
        cancel_accepted_ok_def command_ok_def cancel_order_ok_def split: option.split)
next
  case (Replace_order order)
  have "list_all fill_ok (rr_executions (fst (spec_replace order a)))"
    using spec_replace_values [OF _ assms(2), of order] assms(1) Replace_order
    by (cases "spec_replace order a") (simp add: command_ok_def)
  then show ?thesis using Replace_order assms(1) execution_messages_ok
    by (auto simp: spec_response_def Let_def event_ok_def rejected_message_def accepted_message_def order_rejected_ok_def
        order_accepted_ok_def command_ok_def replace_order_ok_def split: option.split)
qed (simp add: spec_response_def)

definition engine_values_ok :: "engine \<Rightarrow> bool" where
  "engine_values_ok e \<longleftrightarrow> values_ok (abs_of (en_book e)) \<and> list_all event_ok (sent e)"

lemma engine_values_step:
  assumes "engine_step e e'" and "engine_inv e" and "engine_values_ok e"
  shows "engine_values_ok e'"
  using assms
proof (induction rule: engine_step.induct)
  case (take_messages e)
  then show ?case using gateway_turn_ok [of e] by (auto simp: engine_values_ok_def engine_inv_def outbound_frame_def)
next
  case (process e now busy e')
  show ?case
  proof (cases "inbound_contents e")
    case Nil
    then show ?thesis using process_one_idle [OF process.prems(1) Nil, of now] process
      by (auto simp: engine_values_ok_def)
  next
    case (Cons m ms)
    obtain accepted b' where p: "apply_command (en_book e) (im_command m) = Some (accepted, b')" "en_book e' = b'"
        "sent e' = sent e @ response m e"
      using process_one_ready [OF process.prems(1) process.hyps(1) Cons, of now] process.hyps(2) by auto
    have ok: "command_ok (im_command m)" "book_reachable (en_book e)"
      using process.prems(1) Cons by (simp_all add: engine_inv_def)
    have v: "values_ok (abs_of (en_book e))" using process.prems(2) by (simp add: engine_values_ok_def)
    show ?thesis using p command_spec [OF ok(2,1) p(1)] spec_apply_values [OF ok(1) v] response_ok [OF ok(1) v] process.prems(2)
      by (simp add: engine_values_ok_def response_def)
  qed
qed (simp_all add: engine_values_ok_def sent_def)

lemma engine_reachable_values: "engine_reachable e \<Longrightarrow> engine_values_ok e"
proof (induction rule: engine_reachable.induct)
  case (init inbound outbound feed capture_feed turns)
  then show ?case
    by (simp add: engine_values_ok_def values_ok_def make_engine_def sent_def abs_of_def empty_book_def)
qed (use engine_values_step engine_reachable_inv in blast)

section \<open>Properties\<close>

text \<open>
  Claim C19. Every event that the engine ever sends reaches its client intact: it serialises to a
  frame whose header decodes, validates and carries the event's type and flags, whose payload the
  decoder for that type turns back into exactly the event, executions included, and whose length is
  the number of bytes the engine's metrics count for it. In particular \<open>serialize_outbound\<close> never
  falls back to the empty frame, which the gateway would silently drop.
\<close>

theorem events_reach_the_wire:
  assumes "engine_reachable e" and "m \<in> set (sent e)"
  shows "\<exists>frame h. serialize_outbound m = Some frame \<and> decode_header frame = Some (Some h) \<and> validate_header h = None \<and>
    wh_type h = om_type m \<and> wh_flags h = om_flags m \<and> decode_event (wh_type h) (drop kHeaderSize frame) = Some (om_payload m) \<and>
    of_nat (length frame) = frame_bytes m"
  using event_frame engine_reachable_values [OF assms(1)] assms(2) by (auto simp: engine_values_ok_def list_all_iff)

theorem events_reach_the_wire_witness:
  "\<exists>frame h. serialize_outbound unknown_order = Some frame \<and>
     decode_header frame = Some (Some h) \<and> wh_type h = mt_cancel_rejected \<and>
     decode_event mt_cancel_rejected (drop kHeaderSize frame) =
       Some (Order_rejected \<lparr>or_sequence = SequenceNumber 1, or_order_id = OrderId 9, or_error_code = order_not_found\<rparr>)"
proof (rule cancel_engine)
  fix e e'
  assume e: "engine_reachable e" "ready e" "process_one 5 e = Some (True, e')" "sent e' = [unknown_order]"
  have "engine_reachable e'" by (rule engine_reachable.step [OF e(1) engine_step.process [OF e(2,3)]])
  from events_reach_the_wire [OF this, of unknown_order] e(4) show ?thesis by (auto simp: rejected_message_def)
qed

end
