(* ===== verification/Exchange_System.thy ===== *)
theory Exchange_System
  imports Engine_Events
begin

text \<open>
  The exchange as a whole: gateway and engine share the two message queues. A command that arrives
  at the gateway goes through the inbound queue to the engine, its events through the outbound queue
  back to the sessions; the commands the engine accepts go through the capture queue to the log.
\<close>

declare length_ring_contents [simp del]

section \<open>The consumer while the engine sends\<close>

text \<open>Messages are only ever taken, and none while no turn of the consumer is scheduled.\<close>

definition undisturbed :: "engine \<Rightarrow> engine \<Rightarrow> bool" where
  "undisturbed e e' \<longleftrightarrow> (\<exists>ms. en_taken e' = en_taken e @ ms) \<and> (en_turns e = [] \<longrightarrow> en_turns e' = [] \<and> en_taken e' = en_taken e)"

lemma undisturbed_refl: "en_turns e' = en_turns e \<Longrightarrow> en_taken e' = en_taken e \<Longrightarrow> undisturbed e e'"
  by (simp add: undisturbed_def)

lemma undisturbed_trans: "undisturbed e e1 \<Longrightarrow> undisturbed e1 e2 \<Longrightarrow> undisturbed e e2"
  by (auto simp: undisturbed_def)

lemma push_loop_undisturbed:
  assumes ret: "push_loop msg e = Some e'"
  shows "undisturbed e e'"
proof (rule push_loop.raw_induct [where P = "\<lambda>msg e e'. undisturbed e e'", OF _ ret])
  fix loop :: "outbound_message \<Rightarrow> engine \<Rightarrow> engine ub" and msg e e'
  assume ih: "\<And>msg e e'. loop msg e = Some e' \<Longrightarrow> undisturbed e e'"
    and body: "(let e1 = gateway_turn e; (ok, q) = try_push message_capacity msg (en_outbound e1); e2 = e1\<lparr>en_outbound := q\<rparr>
       in if ok then Some e2 else loop msg e2) = Some e'"
  have turn: "undisturbed e ((gateway_turn e)\<lparr>en_outbound := q\<rparr>)" for q
    by (cases "en_turns e") (auto simp: undisturbed_def gateway_turn_def split: prod.split)
  from body show "undisturbed e e'"
    by (auto simp: Let_def turn split: prod.splits if_splits intro: undisturbed_trans [OF turn] ih)
qed

lemma push_outbound_undisturbed: "push_outbound msg e = Some e' \<Longrightarrow> undisturbed e e'"
proof -
  assume "push_outbound msg e = Some e'"
  then obtain e1 where "push_loop msg (record_outbound_message msg e) = Some e1"
      "en_turns e' = en_turns e1" "en_taken e' = en_taken e1"
    by (auto simp: push_outbound_def bind_ub_eq_Some Let_def split: if_splits)
  moreover have "en_turns (record_outbound_message msg e) = en_turns e" "en_taken (record_outbound_message msg e) = en_taken e"
    by (simp_all add: record_outbound_message_def split: option.split)
  ultimately show ?thesis using push_loop_undisturbed by (fastforce simp: undisturbed_def)
qed

lemma emit_execution_undisturbed: "emit_execution sid sq x e = Some e' \<Longrightarrow> undisturbed e e'"
  by (auto simp: emit_execution_def Let_def bind_ub_eq_Some undisturbed_def split: if_splits
      dest!: push_outbound_undisturbed)

lemma emit_executions_undisturbed: "emit_executions sid sq xs e = Some e' \<Longrightarrow> undisturbed e e'"
  by (induction xs arbitrary: e)
    (auto simp: bind_ub_eq_Some intro: undisturbed_refl undisturbed_trans emit_execution_undisturbed)

lemma handle_command_undisturbed: "handle_command sid c e = Some (accepted, e') \<Longrightarrow> undisturbed e e'"
  by (cases c)
    (auto simp: handle_command_def handle_new_order_def handle_cancel_order_def handle_replace_order_def Let_def
      bind_ub_eq_Some undisturbed_def split: option.splits if_splits
      dest!: push_outbound_undisturbed emit_executions_undisturbed)

lemma process_one_undisturbed: "process_one now e = Some (busy, e') \<Longrightarrow> undisturbed e e'"
  by (auto simp: process_one_def conclude_command_def Let_def bind_ub_eq_Some undisturbed_def
      split: option.splits if_splits prod.splits dest!: handle_command_undisturbed)

section \<open>From a payload to the answer\<close>

lemma on_payload_accepts:
  assumes inv: "gw_inv g" and s: "gw_objects g sid = Some s" and h: "ts_reading s = Read_payload h"
    and d: "decode_payload h bs = Some (Inr (sq, c))" and lt: "ts_last_sequence s < sq"
    and empty: "ring_contents message_capacity (gw_inbound g) = []"
  shows "\<exists>g1 m. on_payload now sid h (Some bs) g = Some g1 \<and> gw_inv g1 \<and> im_session_id m = sid \<and> im_command m = c \<and>
    try_push message_capacity m (gw_inbound g) = (True, gw_inbound g1) \<and> ring_contents message_capacity (gw_inbound g1) = [m] \<and>
    gw_sessions g1 = gw_sessions g \<and> gw_outbound g1 = gw_outbound g \<and>
    gw_objects g1 = (gw_objects g)(sid \<mapsto> s\<lparr>ts_last_sequence := sq, ts_reading := Read_header\<rparr>)"
proof -
  define m where "m = \<lparr>im_session_id = sid, im_command = c, im_wire_bytes = of_nat kHeaderSize +
      ucast (case expected_payload_length (wh_type h) of Some n \<Rightarrow> n | None \<Rightarrow> 0), im_received_at = now\<rparr>"
  obtain ok q where push: "try_push message_capacity m (gw_inbound g) = (ok, q)" by fastforce
  have "ring_inv message_capacity (gw_inbound g)" using inv by (simp add: gw_inv_def)
  from message_ring.fifo.push_law [OF this push] have q: "ok" "ring_contents message_capacity q = [m]"
    using empty by simp_all
  let ?g1 = "on_session sid do_read_header (on_session sid (\<lambda>s. s\<lparr>ts_last_sequence := sq\<rparr>)
      ((on_session sid idle g)\<lparr>gw_inbound := q, gw_enqueued := gw_enqueued g @ [m]\<rparr>))"
  have enq: "enqueue_command now sid sq (wh_type h) c (on_session sid idle g) = Some (True,
      on_session sid (\<lambda>s. s\<lparr>ts_last_sequence := sq\<rparr>) ((on_session sid idle g)\<lparr>gw_inbound := q, gw_enqueued := gw_enqueued g @ [m]\<rparr>))"
    using s lt [unfolded not_le [symmetric]] push q(1) by (simp add: enqueue_command_def Let_def m_def [symmetric])
  have "on_payload now sid h (Some bs) g = Some ?g1"
    by (simp add: on_payload_def d finish_payload_def enq del: on_session_twice)
  moreover have "gw_inv ?g1" using on_payload_total [OF inv s h, of now "Some bs"] calculation by auto
  moreover have "gw_objects ?g1 = (gw_objects g)(sid \<mapsto> s\<lparr>ts_last_sequence := sq, ts_reading := Read_header\<rparr>)"
    using s by (auto simp: on_session_def do_read_header_def)
  moreover have "im_session_id m = sid" "im_command m = c" by (simp_all add: m_def)
  ultimately show ?thesis using q push
    by (intro exI [of _ ?g1] exI [of _ m] conjI) (simp_all del: on_session_twice)
qed

lemma decoded_ok: "decode_payload h bs = Some (Inr (sq, c)) \<Longrightarrow> command_ok c \<and> c \<noteq> Monostate"
  using decode_payload_total [of h bs] loggable_ok by (auto simp: loggable_def)

lemma wire_frames_nonempty:
  assumes "list_all event_ok ms"
  shows "list_all (\<lambda>f. f \<noteq> []) (frames_for r ms)"
proof -
  have "om_payload m \<noteq> No_payload" if "event_ok m" for m using that by (cases "om_payload m") (auto simp: event_ok_def)
  then show ?thesis using assms by (auto simp: frames_for_def list_all_iff wire_frame_def header_bytes_def)
qed

lemma fold_send_open:
  assumes "ts_open s" and "list_all (\<lambda>f. f \<noteq> []) fs"
  shows "ts_write_queue (fold send_raw_frame fs s) = ts_write_queue s @ fs"
    "ts_frames (fold send_raw_frame fs s) = ts_frames s @ fs" "ts_open (fold send_raw_frame fs s)"
    "ts_written (fold send_raw_frame fs s) = ts_written s" "ts_reading (fold send_raw_frame fs s) = ts_reading s"
    "ts_last_sequence (fold send_raw_frame fs s) = ts_last_sequence s"
    "ts_close_after_write (fold send_raw_frame fs s) = ts_close_after_write s"
  using assms by (induction fs arbitrary: s) (simp_all add: send_raw_frame_def do_write_def Let_def)

text \<open>
  One request between drained queues: the payload is handled, the engine takes one step, the gateway
  polls. Queues and invariants are ready for the next request, every registered session has been
  sent its frames.
\<close>

lemma request_served:
  assumes inv: "gw_inv g" "engine_inv e" "engine_values_ok e"
    and shared: "en_inbound e = gw_inbound g" "en_outbound e = gw_outbound g"
    and drained: "ring_contents message_capacity (gw_inbound g) = []" "ring_contents message_capacity (gw_outbound g) = []"
    and alone: "en_turns e = []" "en_market_data_feed e = None"
    and reading: "gw_objects g sid = Some s" "ts_reading s = Read_payload h"
    and input: "decode_payload h bs = Some (Inr (sq, c))" "ts_last_sequence s < sq"
    and resp: "spec_response (en_order_sessions e) sid c (abs_of (en_book e)) = ms" "length ms \<le> 4096"
  obtains g1 e1 g2 accepted where "on_payload now sid h (Some bs) g = Some g1"
    "process_one now' (e\<lparr>en_inbound := gw_inbound g1\<rparr>) = Some (True, e1)"
    "poll_outbound (g1\<lparr>gw_inbound := en_inbound e1, gw_outbound := en_outbound e1\<rparr>) = Some (of_nat (length ms), g2)"
    "spec_apply c (abs_of (en_book e)) = (accepted, abs_of (en_book e1))"
    "en_order_sessions e1 = spec_owners (en_order_sessions e) sid c accepted (abs_of (en_book e1))"
    "counted c accepted (length (spec_executions c (abs_of (en_book e)))) (en_metrics e) (en_metrics e1)"
    "list_all event_ok ms" "engine_inv e1" "engine_values_ok e1" "gw_inv g2" "gw_sessions g2 = gw_sessions g"
    "gw_inbound g2 = en_inbound e1" "ring_contents message_capacity (en_inbound e1) = []"
    "ring_contents message_capacity (gw_outbound g2) = []" "ring_contents message_capacity (en_outbound e1) = ms"
    "en_turns e1 = []" "en_market_data_feed e1 = None"
    "\<And>r t. r \<in> set (gw_sessions g) \<Longrightarrow> gw_objects g r = Some t \<Longrightarrow>
       gw_objects g2 r = Some (fold send_raw_frame (frames_for r ms)
         (if r = sid then t\<lparr>ts_last_sequence := sq, ts_reading := Read_header\<rparr> else t))"
proof -
  obtain g1 m where g1: "on_payload now sid h (Some bs) g = Some g1" "gw_inv g1" "im_session_id m = sid" "im_command m = c"
      "try_push message_capacity m (en_inbound e) = (True, gw_inbound g1)" "ring_contents message_capacity (gw_inbound g1) = [m]"
      "gw_sessions g1 = gw_sessions g"
      "gw_objects g1 = (gw_objects g)(sid \<mapsto> s\<lparr>ts_last_sequence := sq, ts_reading := Read_header\<rparr>)"
    using on_payload_accepts [OF inv(1) reading input drained(1), of now] unfolding shared by blast
  let ?e = "e\<lparr>en_inbound := gw_inbound g1\<rparr>"
  have ok: "command_ok c" using decoded_ok [OF input(1)] by blast
  have step: "engine_step e ?e" using engine_step.enqueue [OF _ g1(5)] ok g1(4) by simp
  have e': "engine_inv ?e" "engine_values_ok ?e"
    using engine_inv_step [OF step inv(2)] engine_values_step [OF step inv(2,3)] .
  have same: "response m ?e = ms" "inbound_contents ?e = [m]" using g1 resp(1) by (simp_all add: response_def)
  have ready: "ready ?e" using same can_sendI(1) [of ?e "length ms"] resp(2) drained(2) alone(2) by (simp add: ready_def shared(2))
  obtain accepted b' e1 where e1: "process_one now' ?e = Some (True, e1)" "apply_command (en_book e) c = Some (accepted, b')"
      "en_book e1 = b'" "inbound_contents e1 = []" "sent e1 = sent e @ ms"
      "en_order_sessions e1 = spec_owners (en_order_sessions e) sid c accepted (abs_of b')"
      "counted c accepted (length (spec_executions c (abs_of (en_book e)))) (en_metrics e) (en_metrics e1)" "engine_inv e1"
      "en_market_data_feed e1 = None"
    using process_one_ready [OF e'(1) ready same(2), of now'] g1(3,4) same(1) alone(2) by (auto simp: sent_def)
  have wf: "engine_values_ok e1" by (rule engine_values_step [OF engine_step.process [OF ready e1(1)] e'])
  have quiet: "en_turns e1 = []" "en_taken e1 = en_taken e"
    using process_one_undisturbed [OF e1(1)] alone(1) by (simp_all add: undisturbed_def)
  have out: "ring_contents message_capacity (en_outbound e1) = ms"
    using e1(5) drained(2) quiet(2) by (simp add: sent_def shared(2))
  have spec: "spec_apply c (abs_of (en_book e)) = (accepted, abs_of (en_book e1))"
    using inv(2) command_spec [OF _ ok e1(2)] e1(3) by (simp add: engine_inv_def)
  let ?g = "g1\<lparr>gw_inbound := en_inbound e1, gw_outbound := en_outbound e1\<rparr>"
  have r: "ring_inv message_capacity (gw_outbound ?g)" "distinct (gw_sessions ?g)"
    using e1(8) g1(2) by (simp_all add: engine_inv_def gw_inv_def)
  obtain g2 where g2: "poll_loop 0 ?g = Some (0 + of_nat (length ms), g2)" "same_table ?g g2"
      "ring_contents message_capacity (gw_outbound g2) = []"
      "\<forall>i. gw_objects g2 i = (if i \<in> set (gw_sessions ?g)
         then map_option (fold send_raw_frame (frames_for i ms)) (gw_objects ?g i) else gw_objects ?g i)"
    using poll_loop_delivers [OF r, of 0] by (auto simp: out)
  have "gw_inv ?g"
    using g1(2) e1(4,8) unfolding gw_inv_def engine_inv_def session_stream_def by simp
  then have inv2: "gw_inv g2" using poll_outbound_inv [of ?g] g2(1) by (auto simp: poll_outbound_def)
  have vals: "values_ok (abs_of (en_book e))" using inv(3) by (simp add: engine_values_ok_def)
  show thesis
  proof (rule that [OF g1(1) e1(1) _ spec])
    show "poll_outbound ?g = Some (of_nat (length ms), g2)" using g2(1) by (simp add: poll_outbound_def)
    show "list_all event_ok ms" using response_ok [OF ok vals] resp(1) by blast
  qed (use e1 wf inv2 g1(7,8) g2(2-4) quiet(1) out reading(1) in \<open>auto simp: same_table_def\<close>)
qed

text \<open>
  A request is answered end to end. The gateway has read the payload of a well-formed
  command whose sequence number is the session's next, queues are drained and the response fits the
  outbound queue. Then handling the payload, one step of the engine and one poll of the gateway all
  return; the book changes as the specification of the command says; and every registered session
  with an open socket, the requester as well as the owners of orders that were hit, has been sent
  exactly the frames of the events that the specification addresses to it, in order.
\<close>

theorem request_is_answered:
  assumes g: "gw_reachable g" and e: "engine_reachable e"
    and shared: "en_inbound e = gw_inbound g" "en_outbound e = gw_outbound g"
    and drained: "ring_contents message_capacity (gw_inbound g) = []" "ring_contents message_capacity (gw_outbound g) = []"
    and alone: "en_turns e = []" "en_market_data_feed e = None"
    and reading: "gw_objects g sid = Some s" "ts_reading s = Read_payload h"
    and input: "decode_payload h bs = Some (Inr (sq, c))" "ts_last_sequence s < sq"
    and resp: "spec_response (en_order_sessions e) sid c (abs_of (en_book e)) = ms" "length ms \<le> 4096"
    and recipient: "r \<in> set (gw_sessions g)" "gw_objects g r = Some t" "ts_open t"
  shows "\<exists>g1 e1 g2 t'. on_payload now sid h (Some bs) g = Some g1 \<and>
    process_one now' (e\<lparr>en_inbound := gw_inbound g1\<rparr>) = Some (True, e1) \<and>
    abs_of (en_book e1) = snd (spec_apply c (abs_of (en_book e))) \<and>
    poll_outbound (g1\<lparr>gw_inbound := en_inbound e1, gw_outbound := en_outbound e1\<rparr>) = Some (of_nat (length ms), g2) \<and>
    gw_objects g2 r = Some t' \<and> ts_frames t' = ts_frames t @ frames_for r ms"
proof -
  have inv: "gw_inv g" "engine_inv e" "engine_values_ok e"
    using gw_reachable_inv [OF g] engine_reachable_inv [OF e] engine_reachable_values [OF e] .
  obtain g1 e1 g2 accepted where served: "on_payload now sid h (Some bs) g = Some g1"
      "process_one now' (e\<lparr>en_inbound := gw_inbound g1\<rparr>) = Some (True, e1)"
      "poll_outbound (g1\<lparr>gw_inbound := en_inbound e1, gw_outbound := en_outbound e1\<rparr>) = Some (of_nat (length ms), g2)"
      "spec_apply c (abs_of (en_book e)) = (accepted, abs_of (en_book e1))" "list_all event_ok ms"
      "\<And>r t. r \<in> set (gw_sessions g) \<Longrightarrow> gw_objects g r = Some t \<Longrightarrow>
         gw_objects g2 r = Some (fold send_raw_frame (frames_for r ms)
           (if r = sid then t\<lparr>ts_last_sequence := sq, ts_reading := Read_header\<rparr> else t))"
    by (rule request_served [OF inv shared drained alone reading input resp, of now now']) (rule that)
  let ?t = "if r = sid then t\<lparr>ts_last_sequence := sq, ts_reading := Read_header\<rparr> else t"
  have "ts_open ?t" "ts_frames ?t = ts_frames t" using recipient(3) by simp_all
  then show ?thesis using served(1-4) served(6) [OF recipient(1,2)] fold_send_open(2) [OF _ wire_frames_nonempty [OF served(5)], of ?t r] by auto
qed

theorem request_is_answered_witness:
  "\<exists>g1 e1 g2 t'. on_payload 4 1 cancel_header
       (Some (cancel_order_payload \<lparr>co_sequence = SequenceNumber 1, co_order_id = OrderId 9\<rparr>)) reading_gateway = Some g1 \<and>
     process_one 5 (fresh_engine\<lparr>en_inbound := gw_inbound g1\<rparr>) = Some (True, e1) \<and>
     poll_outbound (g1\<lparr>gw_inbound := en_inbound e1, gw_outbound := en_outbound e1\<rparr>) = Some (1, g2) \<and>
     gw_objects g2 1 = Some t' \<and>
     ts_frames t' = [wire_frame (rejected_message mt_cancel_rejected 1 (SequenceNumber 1) (OrderId 9) order_not_found)]"
proof -
  let ?c = "\<lparr>co_sequence = SequenceNumber 1, co_order_id = OrderId 9\<rparr>"
  let ?s = "do_read_payload cancel_header (idle (do_read_header make_session))"
  have q: "en_inbound fresh_engine = gw_inbound reading_gateway" "en_outbound fresh_engine = gw_outbound reading_gateway"
    "ring_contents message_capacity (gw_inbound reading_gateway) = []" "ring_contents message_capacity (gw_outbound reading_gateway) = []"
    "en_turns fresh_engine = []"
    by (simp_all add: fresh_engine_def make_engine_def reading_gateway_def example_defs ring_inv_empty)
  have s: "gw_objects reading_gateway 1 = Some ?s" "ts_reading ?s = Read_payload cancel_header" "gw_sessions reading_gateway = [1]"
    "ts_last_sequence ?s = 0" "ts_open ?s" "ts_frames ?s = []"
    by (simp_all add: reading_gateway_def do_read_payload_def do_read_header_def make_session_def)
  have "decode_cancel_order (cancel_order_payload ?c) = Some (Inr ?c)"
    by (rule cancel_codec.decode_payload) (simp add: cancel_order_ok_def sequence_ok_def order_id_ok_def)
  then have d: "decode_payload cancel_header (cancel_order_payload ?c) = Some (Inr (1, Cancel_order ?c))"
    by (simp add: decode_payload_def cancel_header_def mt_cancel_order_def mt_new_order_def)
  have r: "spec_response (en_order_sessions fresh_engine) 1 (Cancel_order ?c) (abs_of (en_book fresh_engine)) =
      [rejected_message mt_cancel_rejected 1 (SequenceNumber 1) (OrderId 9) order_not_found]"
    by (simp add: spec_response_def spec_find_def abs_of_def empty_book_def)
  have seq: "ts_last_sequence ?s < 1" by (simp add: s(4))
  have listed: "1 \<in> set (gw_sessions reading_gateway)" by (simp add: s(3))
  from request_is_answered [OF reading_reachable fresh_engine_reachable q fresh_engine_fields(5) s(1,2) d seq r _ listed s(1,5), of 4 5]
  show ?thesis by (auto simp: s(6) rejected_message_def frames_for_def)
qed

section \<open>The recorder\<close>

text \<open>
  The engine with the recorder that drains its capture queue into the log. The third component is
  the history of the commands that the engine accepted, which no operation reads.
\<close>

inductive recorded :: "engine \<Rightarrow> log_writer \<Rightarrow> command list \<Rightarrow> bool" where
  init: "engine_reachable e \<Longrightarrow> en_book e = empty_book \<Longrightarrow>
     en_event_capture_feed e = Some (make_capture_feed (empty_ring message_capacity blank)) \<Longrightarrow>
     recorded e (make_log_writer opened space) []"
| process: "recorded e w cs \<Longrightarrow> ready e \<Longrightarrow> inbound_contents e = m # ms \<Longrightarrow> process_one now e = Some (busy, e') \<Longrightarrow>
     apply_command (en_book e) (im_command m) = Some (accepted, b') \<Longrightarrow>
     recorded e' w (if accepted then cs @ [im_command m] else cs)"
| other: "recorded e w cs \<Longrightarrow> engine_step e e' \<Longrightarrow> en_book e' = en_book e \<Longrightarrow>
     en_event_capture_feed e' = en_event_capture_feed e \<Longrightarrow> recorded e' w cs"
| drain: "recorded e w cs \<Longrightarrow> en_event_capture_feed e = Some f \<Longrightarrow>
     drain_event_capture_one (\<lambda>c. c) (ecf_queue f) (w\<lparr>lw_spills := spills\<rparr>) = Some (ok, q, w') \<Longrightarrow>
     recorded (e\<lparr>en_event_capture_feed := Some (f\<lparr>ecf_queue := q\<rparr>)\<rparr>) w' cs"

abbreviation captured :: "event_capture_feed \<Rightarrow> command list" where
  "captured f \<equiv> ring_contents message_capacity (ecf_queue f)"

text \<open>
  \<open>d\<close> commands were dropped and \<open>drained\<close> are those the recorder took. What was written to the stream
  are their records, up to the write that failed.
\<close>

definition capture_account ::
    "event_capture_feed \<Rightarrow> log_writer \<Rightarrow> command list \<Rightarrow> command list \<Rightarrow> nat \<Rightarrow> bool" where
  "capture_account f w cs drained d \<longleftrightarrow> ring_inv message_capacity (ecf_queue f) \<and>
     ecf_dropped_commands f = of_nat d \<and> length cs = length drained + length (captured f) + d \<and>
     (d = 0 \<longrightarrow> cs = drained @ captured f) \<and> set (drained @ captured f) \<subseteq> set cs \<and>
     prefix (written w) (log_bytes drained) \<and> (lw_good w \<longrightarrow> written w = log_bytes drained)"

definition recorder_inv :: "engine \<Rightarrow> log_writer \<Rightarrow> command list \<Rightarrow> bool" where
  "recorder_inv e w cs \<longleftrightarrow> engine_reachable e \<and> list_all loggable cs \<and>
     run book_op cs empty_book = Some (replicate (length cs) True, en_book e) \<and>
     (\<exists>f drained d. en_event_capture_feed e = Some f \<and> capture_account f w cs drained d)"

lemma capture_accounted:
  assumes "capture_account f w cs drained d"
  shows "capture_account (capture c f) w (cs @ [c]) drained (d + (if length (captured f) < 4096 then 0 else 1))"
  using assms capture_queue [of f c] by (auto simp: capture_account_def)

lemma accepted_loggable:
  assumes "command_ok c" and "apply_command b c = Some (True, b')"
  shows "loggable c"
  using assms
  by (cases c)
    (auto simp: loggable_def command_ok_def valid_new_order_def apply_command_def submit_def submit_accepted_def
      bind_ub_eq_Some split: if_splits)

lemma recorder_inv_spills [simp]: "recorder_inv e (w\<lparr>lw_spills := spills\<rparr>) cs = recorder_inv e w cs"
  by (simp add: recorder_inv_def capture_account_def)

lemma recorder_process:
  assumes inv: "recorder_inv e w cs" and ready: "ready e" and msg: "inbound_contents e = m # ms"
    and one: "process_one now e = Some (busy, e')" and app: "apply_command (en_book e) (im_command m) = Some (accepted, b')"
  shows "recorder_inv e' w (if accepted then cs @ [im_command m] else cs)"
proof -
  have e: "engine_reachable e" and run: "run book_op cs empty_book = Some (replicate (length cs) True, en_book e)"
    using inv by (simp_all add: recorder_inv_def)
  have e': "engine_reachable e'" by (rule engine_reachable.step [OF e engine_step.process [OF ready one]])
  have p: "en_book e' = b'" "en_event_capture_feed e' =
      (if accepted then map_option (capture (im_command m)) (en_event_capture_feed e) else en_event_capture_feed e)"
    using process_one_ready [OF engine_reachable_inv [OF e] ready msg, of now] one app by auto
  have ok: "command_ok (im_command m)" using engine_reachable_inv [OF e] msg by (simp add: engine_inv_def)
  show ?thesis
  proof (cases accepted)
    case False
    then have "b' = en_book e" using app rejected_unchanged by simp
    then show ?thesis using inv e' p False by (auto simp: recorder_inv_def)
  next
    case True
    obtain f drained d where f: "en_event_capture_feed e = Some f" "capture_account f w cs drained d"
      using inv by (auto simp: recorder_inv_def)
    have "run book_op (cs @ [im_command m]) empty_book = Some (replicate (length (cs @ [im_command m])) True, b')"
      using run app True by (simp add: run_append replicate_append_same)
    moreover have "list_all loggable (cs @ [im_command m])"
      using inv accepted_loggable [OF ok] app True by (simp add: recorder_inv_def)
    ultimately show ?thesis using True e' p f(1) capture_accounted [OF f(2), of "im_command m"]
      unfolding recorder_inv_def by auto
  qed
qed

lemma recorder_drain:
  assumes inv: "recorder_inv e w cs" and feed: "en_event_capture_feed e = Some f"
    and drain: "drain_event_capture_one (\<lambda>c. c) (ecf_queue f) w = Some (ok, q, w')"
  shows "recorder_inv (e\<lparr>en_event_capture_feed := Some (f\<lparr>ecf_queue := q\<rparr>)\<rparr>) w' cs"
proof -
  obtain drained d where account: "capture_account f w cs drained d" using inv feed by (auto simp: recorder_inv_def)
  note f = account [unfolded capture_account_def]
  obtain out where pop: "try_pop message_capacity (\<lambda>c. c) (ecf_queue f) = (out, q)"
    using drain by (auto simp: drain_event_capture_one_def bind_ub_eq_Some split: prod.splits option.splits)
  note law = message_ring.fifo.pop_law [OF conjunct1 [OF f] pop]
  have e: "engine_reachable (e\<lparr>en_event_capture_feed := Some (f\<lparr>ecf_queue := q\<rparr>)\<rparr>)"
    using inv engine_reachable.step [OF _ engine_step.take_captured [OF feed pop]] by (simp add: recorder_inv_def)
  have "\<exists>done. capture_account (f\<lparr>ecf_queue := q\<rparr>) w' cs done d"
  proof (cases "captured f")
    case Nil
    then show ?thesis using law drain f pop
      by (intro exI [of _ drained]) (auto simp: drain_event_capture_one_def capture_account_def)
  next
    case (Cons c rest)
    then have q: "out = Some c" "ring_contents message_capacity q = rest" using law by simp_all
    then have app: "append_record c w = Some (ok, w')" using drain pop by (auto simp: drain_event_capture_one_def bind_ub_eq_Some)
    have "loggable c" using f Cons inv by (auto simp: recorder_inv_def list_all_iff)
    note app = append_record_written [OF this app]
    have "lw_good w' \<longrightarrow> written w' = log_bytes (drained @ [c])" using app(1) f by (auto simp: log_bytes_def)
    moreover have "prefix (written w') (log_bytes (drained @ [c]))"
    proof (cases "lw_good w")
      case True
      then show ?thesis using app(2) f by (simp add: log_bytes_def)
    next
      case False
      then show ?thesis using app(3) f by (simp add: log_bytes_def prefix_order.order_trans [OF _ prefixI])
    qed
    ultimately show ?thesis using f Cons q(2) law by (intro exI [of _ "drained @ [c]"]) (auto simp: capture_account_def)
  qed
  then show ?thesis using inv e unfolding recorder_inv_def by auto
qed

lemma recorded_inv: "recorded e w cs \<Longrightarrow> recorder_inv e w cs"
proof (induction rule: recorded.induct)
  case (init e blank opened space)
  then show ?case
    by (auto simp: recorder_inv_def capture_account_def make_capture_feed_def ring_inv_empty log_bytes_def)
next
  case (other e w cs e')
  then show ?case using engine_reachable.step by (auto simp: recorder_inv_def)
next
  case (drain e w cs f spills ok q w')
  then show ?case using recorder_drain [of e "w\<lparr>lw_spills := spills\<rparr>" cs] by simp
qed (rule recorder_process; assumption)

lemma complete_log_replays:
  assumes inv: "recorder_inv e w cs" and "length cs < 2 ^ 64" and "en_event_capture_feed e = Some f"
    and "ecf_dropped_commands f = 0" and "ring_contents message_capacity (ecf_queue f) = []" and "lw_good w"
  shows "\<exists>digest. state_digest (en_book e) = Some digest \<and>
    replay_event_log (Some (written w)) =
      Some \<lparr>rp_error = None, rp_replayed_commands = of_nat (length cs), rp_state_digest = digest\<rparr>"
proof -
  obtain drained d where f: "ecf_dropped_commands f = of_nat d" "length cs = length drained + length (captured f) + d"
      "d = 0 \<longrightarrow> cs = drained @ captured f" "lw_good w \<longrightarrow> written w = log_bytes drained"
    using inv assms(3) by (auto simp: recorder_inv_def capture_account_def)
  have "unat (of_nat d :: u64) = d" using f(2) assms(2) by (simp add: unat_of_nat)
  then have "d = 0" using f(1) assms(4) by simp
  then have stored: "written w = log_bytes cs" using f assms(5,6) by simp
  have run: "run book_op cs empty_book = Some (replicate (length cs) True, en_book e)" "list_all loggable cs"
    using inv by (simp_all add: recorder_inv_def)
  then show ?thesis using replay_log_end [OF run(2,1)] state_digest_book [OF replayed_book_inv [OF run(2,1)]] stored
    by (simp add: list_all_iff)
qed

definition first_order :: inbound_message where
  "first_order = order_message 7 (limit_order 1 Buy 100 10)"

end
