(* ===== verification/Benchmark.thy ===== *)
theory Benchmark
  imports Engine_Properties
begin

unbundle bit_operations_syntax

text \<open>
  The benchmark library of \<open>src/benchmark.cpp\<close>: the generator of synthetic workloads, over the
  Mersenne Twister of the C++ standard library, and the harness that runs a workload on one order
  book per symbol. Clock readings and the floating-point throughput are parameters of the harness.
\<close>

section \<open>The random number engine\<close>

text \<open>
  \<open>std::mt19937_64\<close> as the standard defines it: the state is the window of the last 312 words, each
  step appends one word and returns it tempered.
\<close>

fun mt_fill :: "nat \<Rightarrow> u64 \<Rightarrow> u64 \<Rightarrow> u64 list" where
  "mt_fill 0 i x = []"
| "mt_fill (Suc n) i x =
     (let y = 6364136223846793005 * (x XOR drop_bit 62 x) + i in y # mt_fill n (i + 1) y)"

definition mt_seed :: "u64 \<Rightarrow> u64 list" where
  "mt_seed seed = seed # mt_fill 311 1 seed"

definition mt_twist :: "u64 \<Rightarrow> u64 \<Rightarrow> u64" where
  "mt_twist upper lower =
     (let y = (upper AND 0xFFFFFFFF80000000) OR (lower AND 0x7FFFFFFF)
      in drop_bit 1 y XOR (if bit y 0 then 0xB5026F5AA96619E9 else 0))"

definition mt_temper :: "u64 \<Rightarrow> u64" where
  "mt_temper x =
     (let z1 = x XOR (drop_bit 29 x AND 0x5555555555555555);
          z2 = z1 XOR (push_bit 17 z1 AND 0x71D67FFFEDA60000);
          z3 = z2 XOR (push_bit 37 z2 AND 0xFFF7EEE000000000)
      in z3 XOR drop_bit 43 z3)"

definition mt_next :: "u64 list \<Rightarrow> u64 \<times> u64 list" where
  "mt_next xs =
     (let x = xs ! 156 XOR mt_twist (xs ! 0) (xs ! 1)
      in (mt_temper x, tl xs @ [x]))"

section \<open>Workloads\<close>

record workload_config =
  wc_command_count :: size_t
  wc_symbol_count :: size_t
  wc_book_levels :: size_t
  wc_cancel_rate_percent :: u32
  wc_crossing_rate_percent :: u32
  wc_seed :: u64

definition default_workload_config :: workload_config where
  "default_workload_config = \<lparr>wc_command_count = 100000, wc_symbol_count = 1, wc_book_levels = 32,
     wc_cancel_rate_percent = 20, wc_crossing_rate_percent = 10, wc_seed = 0x5EED0006\<rparr>"

record workload_command =
  wl_symbol_index :: size_t
  wl_command :: command

record active_order =
  ao_symbol_index :: size_t
  ao_order_id :: order_id

record workload_state =
  ws_random :: "u64 list"
  ws_workload :: "workload_command list"
  ws_active_orders :: "active_order list"
  ws_next_order_id :: u64
  ws_next_sequence :: u64

text \<open>Signed 64-bit arithmetic, whose overflow is undefined.\<close>

definition signed_result :: "int \<Rightarrow> i64 ub" where
  "signed_result v = (if - (2 ^ 63) \<le> v \<and> v < 2 ^ 63 then Some (word_of_int v) else None)"

definition order_price :: "bool \<Rightarrow> bool \<Rightarrow> i64 \<Rightarrow> i64 ub" where
  "order_price crossing buy level =
     (if crossing
      then (if buy then signed_result (100002 + sint level) else signed_result (100000 - sint level))
      else (if buy then signed_result (100000 - sint level) else signed_result (100002 + sint level)))"

definition push_cancel :: "u64 \<Rightarrow> workload_state \<Rightarrow> workload_state ub" where
  "push_cancel draw st = do {
     let active_index = unat (draw mod of_nat (length (ws_active_orders st)));
     let active = ws_active_orders st ! active_index;
     sq \<leftarrow> sequence_from_value (ws_next_sequence st);
     Some (st\<lparr>ws_workload := ws_workload st @ [\<lparr>wl_symbol_index = ao_symbol_index active,
                wl_command = Cancel_order \<lparr>co_sequence = sq, co_order_id = ao_order_id active\<rparr>\<rparr>],
              ws_next_sequence := ws_next_sequence st + 1,
              ws_active_orders := butlast ((ws_active_orders st)[active_index := last (ws_active_orders st)])\<rparr>)
   }"

definition push_order ::
    "workload_config \<Rightarrow> u64 \<Rightarrow> u64 \<Rightarrow> u64 \<Rightarrow> u64 \<Rightarrow> u64 \<Rightarrow> workload_state \<Rightarrow> workload_state ub" where
  "push_order config d1 d2 d3 d4 d5 st = do {
     let symbol_index = d1 mod wc_symbol_count config;
     let buy = (d2 AND 1 = 0);
     let crossing = (d3 mod 100 < ucast (wc_crossing_rate_percent config));
     let level = d4 mod wc_book_levels config;
     price \<leftarrow> order_price crossing buy level;
     order_id \<leftarrow> order_id_from_value (ws_next_order_id st);
     sq \<leftarrow> sequence_from_value (ws_next_sequence st);
     quantity \<leftarrow> from_units (1 + d5 mod 100);
     Some (st\<lparr>ws_workload := ws_workload st @ [\<lparr>wl_symbol_index = symbol_index,
                wl_command = New_order \<lparr>no_sequence = sq, no_order_id = order_id, no_side = (if buy then Buy else Sell),
                  no_type = Limit, no_quantity = quantity, no_limit_price = from_ticks price\<rparr>\<rparr>],
              ws_next_order_id := ws_next_order_id st + 1, ws_next_sequence := ws_next_sequence st + 1,
              ws_active_orders := ws_active_orders st @ [\<lparr>ao_symbol_index = symbol_index, ao_order_id = order_id\<rparr>]\<rparr>)
   }"

definition draw :: "workload_state \<Rightarrow> u64 \<times> workload_state" where
  "draw st = (let (v, r) = mt_next (ws_random st) in (v, st\<lparr>ws_random := r\<rparr>))"

definition workload_step :: "workload_config \<Rightarrow> workload_state \<Rightarrow> workload_state ub" where
  "workload_step config st =
     (let (create_cancel, st1) =
            (if ws_active_orders st = [] then (False, st)
             else let (v, st') = draw st in (v mod 100 < ucast (wc_cancel_rate_percent config), st'))
      in if create_cancel then let (v, st2) = draw st1 in push_cancel v st2
         else let (d1, s1) = draw st1; (d2, s2) = draw s1; (d3, s3) = draw s2; (d4, s4) = draw s3; (d5, s5) = draw s4
              in push_order config d1 d2 d3 d4 d5 s5)"

primrec workload_loop :: "nat \<Rightarrow> workload_config \<Rightarrow> workload_state \<Rightarrow> workload_state ub" where
  "workload_loop 0 config st = Some st"
| "workload_loop (Suc n) config st = do { st' \<leftarrow> workload_step config st; workload_loop n config st' }"

definition config_rejected :: "workload_config \<Rightarrow> bool" where
  "config_rejected config \<longleftrightarrow> wc_command_count config = 0 \<or> wc_symbol_count config = 0 \<or> wc_book_levels config = 0 \<or>
     wc_cancel_rate_percent config > 100 \<or> wc_crossing_rate_percent config > 100"

definition make_workload :: "workload_config \<Rightarrow> workload_command list ub" where
  "make_workload config =
     (if config_rejected config then Some []
      else do {
        st \<leftarrow> workload_loop (unat (wc_command_count config)) config
          \<lparr>ws_random = mt_seed (wc_seed config), ws_workload = [], ws_active_orders = [],
           ws_next_order_id = 1, ws_next_sequence = 1\<rparr>;
        Some (ws_workload st)
      })"

section \<open>The harness\<close>

record 'd benchmark_result =
  br_commands :: size_t
  br_accepted_commands :: u64
  br_rejected_commands :: u64
  br_accepted_cancels :: u64
  br_rejected_cancels :: u64
  br_executions :: u64
  br_inbound_bytes :: u64
  br_outbound_bytes :: u64
  br_inbound_queue_high_water :: size_t
  br_outbound_queue_high_water :: size_t
  br_elapsed_nanoseconds :: u64
  br_throughput_per_second :: 'd
  br_latency :: latency_histogram_snapshot

definition empty_result :: "'d \<Rightarrow> 'd benchmark_result" where
  "empty_result zero = \<lparr>br_commands = 0, br_accepted_commands = 0, br_rejected_commands = 0, br_accepted_cancels = 0,
     br_rejected_cancels = 0, br_executions = 0, br_inbound_bytes = 0, br_outbound_bytes = 0,
     br_inbound_queue_high_water = 0, br_outbound_queue_high_water = 0, br_elapsed_nanoseconds = 0,
     br_throughput_per_second = zero,
     br_latency = \<lparr>ls_buckets = replicate kLatencyHistogramBuckets 0, ls_count = 0, ls_min_nanoseconds = 0,
       ls_max_nanoseconds = 0\<rparr>\<rparr>"

definition bench_apply ::
    "order_book \<Rightarrow> command \<Rightarrow> 'd benchmark_result \<Rightarrow> (bool \<times> order_book \<times> 'd benchmark_result) ub" where
  "bench_apply book command result =
     (case command of
        New_order order \<Rightarrow> do {
          (submission, book') \<leftarrow> submit order book;
          Some (submit_accepted submission, book',
            result\<lparr>br_executions := br_executions result + of_nat (length (sr_executions submission))\<rparr>) }
      | Cancel_order order \<Rightarrow> do {
          (cancellation, book') \<leftarrow> cancel order book;
          Some (cancel_accepted cancellation, book',
            if cancel_accepted cancellation then result\<lparr>br_accepted_cancels := br_accepted_cancels result + 1\<rparr>
            else result\<lparr>br_rejected_cancels := br_rejected_cancels result + 1\<rparr>) }
      | Replace_order order \<Rightarrow> do {
          (replacement, book') \<leftarrow> replace order book;
          Some (replace_accepted replacement, book',
            result\<lparr>br_executions := br_executions result + of_nat (length (rr_executions replacement))\<rparr>) }
      | Monostate \<Rightarrow> Some (False, book, result))"

definition bench_item ::
    "workload_command \<Rightarrow> order_book list \<Rightarrow> 'd benchmark_result \<Rightarrow> (bool \<times> order_book list \<times> 'd benchmark_result) ub" where
  "bench_item item books result =
     (let s = unat (wl_symbol_index item) in
      if \<not> s < length books then None
      else do {
        (accepted, book, result') \<leftarrow> bench_apply (books ! s) (wl_command item) result;
        Some (accepted, books[s := book], result')
      })"

primrec warmup_loop :: "workload_command list \<Rightarrow> order_book list \<Rightarrow> 'd benchmark_result \<Rightarrow> unit ub" where
  "warmup_loop [] books ignored = Some ()"
| "warmup_loop (item # items) books ignored = do {
     (accepted, books', ignored') \<leftarrow> bench_item item books ignored;
     warmup_loop items books' ignored'
   }"

definition run_warmup :: "'d \<Rightarrow> workload_command list \<Rightarrow> size_t \<Rightarrow> size_t \<Rightarrow> unit ub" where
  "run_warmup zero workload symbol_count n =
     (let limit = min (unat n) (length workload)
      in warmup_loop (take limit workload) (replicate (unat symbol_count) empty_book) (empty_result zero))"

definition elapsed_observation :: "i64 \<Rightarrow> i64 \<Rightarrow> u64" where
  "elapsed_observation before after = (if sint (after - before) > 0 then after - before else 0)"

primrec bench_loop ::
    "(nat \<Rightarrow> i64) \<Rightarrow> nat \<Rightarrow> workload_command list \<Rightarrow> order_book list \<Rightarrow> latency_histogram \<Rightarrow> 'd benchmark_result \<Rightarrow>
     (order_book list \<times> latency_histogram \<times> 'd benchmark_result) ub" where
  "bench_loop clock i [] books histogram result = Some (books, histogram, result)"
| "bench_loop clock i (item # items) books histogram result = do {
     (accepted, books', result') \<leftarrow> bench_item item books result;
     let histogram' = observe (elapsed_observation (clock (2 * i + 1)) (clock (2 * i + 2))) histogram;
     bench_loop clock (Suc i) items books' histogram'
       (if accepted then result'\<lparr>br_accepted_commands := br_accepted_commands result' + 1\<rparr>
        else result'\<lparr>br_rejected_commands := br_rejected_commands result' + 1\<rparr>)
   }"

definition run_core_benchmark ::
    "(nat \<Rightarrow> i64) \<Rightarrow> 'd \<Rightarrow> (size_t \<Rightarrow> u64 \<Rightarrow> 'd) \<Rightarrow> workload_command list \<Rightarrow> size_t \<Rightarrow> size_t \<Rightarrow> 'd benchmark_result ub" where
  "run_core_benchmark clock zero per_second workload symbol_count warmup_commands =
     (if workload = [] \<or> symbol_count = 0 then Some (empty_result zero)
      else do {
        _ \<leftarrow> run_warmup zero workload symbol_count warmup_commands;
        (books, histogram, result) \<leftarrow> bench_loop clock 0 workload (replicate (unat symbol_count) empty_book)
          empty_histogram (empty_result zero);
        let elapsed = clock (2 * length workload + 1) - clock 0;
        let commands = of_nat (length workload);
        Some (result\<lparr>br_elapsed_nanoseconds := elapsed, br_commands := commands,
          br_throughput_per_second := (if elapsed = 0 then zero else per_second commands elapsed),
          br_latency := snapshot histogram\<rparr>)
      })"

section \<open>What a workload looks like\<close>

text \<open>
  \<open>targeted live ws\<close>: every cancellation in \<open>ws\<close> names a symbol and an order that were live, in
  \<open>live\<close> or placed earlier in \<open>ws\<close> and not cancelled since. \<open>live_after\<close> is what is live at the end.
\<close>

primrec live_after :: "(size_t \<times> order_id) set \<Rightarrow> workload_command list \<Rightarrow> (size_t \<times> order_id) set" where
  "live_after live [] = live"
| "live_after live (w # ws) =
     live_after (case wl_command w of
        New_order order \<Rightarrow> insert (wl_symbol_index w, no_order_id order) live
      | Cancel_order order \<Rightarrow> live - {(wl_symbol_index w, co_order_id order)}
      | _ \<Rightarrow> live) ws"

primrec targeted :: "(size_t \<times> order_id) set \<Rightarrow> workload_command list \<Rightarrow> bool" where
  "targeted live [] = True"
| "targeted live (w # ws) =
     ((case wl_command w of Cancel_order order \<Rightarrow> (wl_symbol_index w, co_order_id order) \<in> live | _ \<Rightarrow> True) \<and>
      targeted (live_after live [w]) ws)"

definition new_ids :: "workload_command list \<Rightarrow> order_id list" where
  "new_ids ws = concat (map (\<lambda>w. case wl_command w of New_order order \<Rightarrow> [no_order_id order] | _ \<Rightarrow> []) ws)"

fun item_sequence :: "workload_command \<Rightarrow> u64" where
  "item_sequence w = (case wl_command w of New_order order \<Rightarrow> seq_value (no_sequence order)
     | Cancel_order order \<Rightarrow> seq_value (co_sequence order) | Replace_order order \<Rightarrow> seq_value (rpo_sequence order)
     | Monostate \<Rightarrow> 0)"

lemma live_after_append: "live_after live (xs @ ys) = live_after (live_after live xs) ys"
  by (induction xs arbitrary: live) simp_all

lemma targeted_append: "targeted live (xs @ ys) \<longleftrightarrow> targeted live xs \<and> targeted (live_after live xs) ys"
  by (induction xs arbitrary: live) (auto split: command.splits)

lemma new_ids_append [simp]: "new_ids (xs @ ys) = new_ids xs @ new_ids ys"
  by (simp add: new_ids_def)

text \<open>The state after \<open>k\<close> iterations.\<close>

definition item_ok :: "workload_config \<Rightarrow> workload_command \<Rightarrow> bool" where
  "item_ok config w \<longleftrightarrow> loggable (wl_command w) \<and> wl_symbol_index w < wc_symbol_count config \<and>
     (case wl_command w of New_order order \<Rightarrow> no_type order = Limit | Cancel_order _ \<Rightarrow> True | _ \<Rightarrow> False)"

definition count_up :: "nat \<Rightarrow> u64 list" where
  "count_up n = map of_nat [1..<Suc n]"

lemma count_up_0 [simp]: "count_up 0 = []" and length_count_up [simp]: "length (count_up n) = n"
  and count_up_Suc: "count_up (Suc n) = count_up n @ [of_nat (Suc n)]"
  by (simp_all add: count_up_def)

lemma of_nat_nonzero: "0 < n \<Longrightarrow> n < 2 ^ 64 \<Longrightarrow> (of_nat n :: u64) \<noteq> 0"
proof
  assume n: "0 < n" "n < 2 ^ 64" and z: "(of_nat n :: u64) = 0"
  have "unat (of_nat n :: u64) = n" using n by (simp add: unat_of_nat)
  then show False using n z by simp
qed

lemma count_up_nonzero: "n < 2 ^ 64 \<Longrightarrow> v \<in> set (count_up n) \<Longrightarrow> v \<noteq> 0"
  using of_nat_nonzero by (auto simp: count_up_def simp del: upt_Suc)

lemma distinct_count_up: "n < 2 ^ 64 \<Longrightarrow> distinct (count_up n)"
  unfolding count_up_def distinct_map
proof (intro conjI inj_onI)
  fix i j
  assume n: "n < 2 ^ 64" and ij: "i \<in> set [1..<Suc n]" "j \<in> set [1..<Suc n]" and eq: "(of_nat i :: u64) = of_nat j"
  have "i < 2 ^ 64" "j < 2 ^ 64" using n ij by (simp_all del: upt_Suc)
  then have "unat (of_nat i :: u64) = i" "unat (of_nat j :: u64) = j" by (simp_all add: unat_of_nat)
  then show "i = j" unfolding eq by simp
qed (rule distinct_upt)

text \<open>The state after \<open>k\<close> iterations, \<open>m\<close> of which placed an order.\<close>

abbreviation order_key :: "active_order \<Rightarrow> size_t \<times> order_id" where
  "order_key a \<equiv> (ao_symbol_index a, ao_order_id a)"

definition workload_inv :: "workload_config \<Rightarrow> nat \<Rightarrow> nat \<Rightarrow> workload_state \<Rightarrow> bool" where
  "workload_inv config k m st \<longleftrightarrow>
     length (ws_workload st) = k \<and> list_all (item_ok config) (ws_workload st) \<and>
     map item_sequence (ws_workload st) = count_up k \<and> ws_next_sequence st = of_nat (Suc k) \<and>
     new_ids (ws_workload st) = map OrderId (count_up m) \<and> m \<le> k \<and> ws_next_order_id st = of_nat (Suc m) \<and>
     distinct (map ao_order_id (ws_active_orders st)) \<and> length (ws_active_orders st) \<le> k \<and>
     live_after {} (ws_workload st) = order_key ` set (ws_active_orders st) \<and> targeted {} (ws_workload st) \<and>
     (\<forall>a \<in> set (ws_active_orders st). ao_symbol_index a < wc_symbol_count config \<and>
        oid_value (ao_order_id a) \<in> set (count_up m))"

text \<open>Removing an element by moving the last one into its place.\<close>

lemma swap_remove:
  assumes "i < length xs" and "distinct (map f xs)"
  shows "set (butlast (xs[i := last xs])) = set xs - {xs ! i}" "distinct (map f (butlast (xs[i := last xs])))"
proof -
  obtain ys y where xs: "xs = ys @ [y]" using assms(1) by (cases xs rule: rev_cases) auto
  have d: "distinct (map f ys)" "f y \<notin> f ` set ys" "distinct ys" "y \<notin> set ys" using assms(2) xs by (auto simp: distinct_map)
  have "set (butlast (xs[i := last xs])) = set xs - {xs ! i} \<and> distinct (map f (butlast (xs[i := last xs])))"
  proof (cases "i < length ys")
    case True
    have "distinct ((map f ys)[i := f y])" using d by (intro distinct_list_update) auto
    moreover have "set (ys[i := y]) = insert y (set ys - {ys ! i})" using d(3) True by (rule set_update_distinct)
    ultimately show ?thesis using True d(4) by (auto simp: xs list_update_append1 nth_append map_update)
  next
    case False
    then have "i = length ys" using assms(1) xs by simp
    then show ?thesis using d by (simp add: xs)
  qed
  then show "set (butlast (xs[i := last xs])) = set xs - {xs ! i}" "distinct (map f (butlast (xs[i := last xs])))" by blast+
qed

lemma push_cancel_inv:
  assumes inv: "workload_inv config k m st" and k: "Suc k < 2 ^ 64" and active: "ws_active_orders st \<noteq> []"
  shows "\<exists>st'. push_cancel v st = Some st' \<and> workload_inv config (Suc k) m st'"
proof -
  let ?as = "ws_active_orders st" and ?i = "unat (v mod of_nat (length (ws_active_orders st)))"
  let ?a = "?as ! ?i"
  have len: "length ?as < 2 ^ 64" "0 < length ?as" using inv k active by (auto simp: workload_inv_def)
  then have i: "?i < length ?as" by (simp add: unat_mod unat_of_nat)
  have d: "distinct (map ao_order_id ?as)" using inv by (simp add: workload_inv_def)
  note rm = swap_remove [OF i d]
  have a: "?a \<in> set ?as" "ao_symbol_index ?a < wc_symbol_count config" "oid_value (ao_order_id ?a) \<in> set (count_up m)"
    using inv i by (simp_all add: workload_inv_def)
  have "inj_on ao_order_id (set ?as)" using d by (simp add: distinct_map)
  then have live: "order_key ` (set ?as - {?a}) = order_key ` set ?as - {order_key ?a}"
    using a(1) by (auto simp: inj_on_def)
  have "m < 2 ^ 64" using inv k by (simp add: workload_inv_def)
  then have "order_id_ok (ao_order_id ?a)" using a(3) count_up_nonzero unfolding order_id_ok_def by blast
  moreover have n: "(of_nat (Suc k) :: u64) \<noteq> 0" by (rule of_nat_nonzero) (use k in simp_all)
  ultimately have ok: "item_ok config \<lparr>wl_symbol_index = ao_symbol_index ?a, wl_command = Cancel_order
      \<lparr>co_sequence = SequenceNumber (of_nat (Suc k)), co_order_id = ao_order_id ?a\<rparr>\<rparr>"
    using a(2) by (simp add: item_ok_def loggable_def cancel_order_ok_def sequence_ok_def del: of_nat_Suc)
  have "sequence_from_value (ws_next_sequence st) = Some (SequenceNumber (of_nat (Suc k)))"
    using inv n by (simp add: workload_inv_def sequence_from_value_def del: of_nat_Suc)
  then show ?thesis using inv ok rm live a(1)
    by (auto simp: push_cancel_def workload_inv_def live_after_append targeted_append new_ids_def count_up_Suc Let_def)
qed

lemma signed_level:
  assumes "levels \<noteq> 0" and "levels \<le> (100000 :: u64)"
  shows "0 \<le> sint (v mod levels) \<and> sint (v mod levels) < 100000"
proof -
  have "v mod levels < levels" using assms(1) by (simp add: word_mod_less_divisor word_gt_0)
  then have "uint (v mod levels) < 100000" using assms(2) by (simp add: word_less_def word_le_def)
  moreover have "sint (v mod levels) = uint (v mod levels)"
    unfolding sint_uint by (rule signed_take_bit_int_eq_self)
      (use calculation uint_ge_0 [of "v mod levels"] in \<open>simp_all add: order_trans [of _ 0]\<close>)
  ultimately show ?thesis by simp
qed

lemma order_price_ok:
  assumes "0 \<le> sint level" and "sint level < 100000"
  shows "\<exists>p. order_price crossing buy level = Some p \<and> from_ticks p = Some (Price p) \<and> price_ok (Price p)"
proof -
  have s: "sint (word_of_int v :: i64) = v" if "0 < v" "v < 2 ^ 63" for v
    using that by (simp add: signed_take_bit_int_eq_self sint_word_ariths sint_sbintrunc')
  have pos: "\<exists>p. signed_result v = Some p \<and> from_ticks p = Some (Price p) \<and> price_ok (Price p)" if "0 < v" "v < 2 ^ 63" for v
    using that s [OF that] by (simp add: signed_result_def from_ticks_def price_ok_def)
  show ?thesis using pos assms by (simp add: order_price_def)
qed

lemma push_order_inv:
  assumes inv: "workload_inv config k m st" and k: "Suc k < 2 ^ 64"
    and config: "wc_symbol_count config \<noteq> 0" "wc_book_levels config \<noteq> 0" "wc_book_levels config \<le> 100000"
  shows "\<exists>st'. push_order config d1 d2 d3 d4 d5 st = Some st' \<and> workload_inv config (Suc k) (Suc m) st'"
proof -
  let ?sym = "d1 mod wc_symbol_count config" and ?buy = "d2 AND 1 = 0"
  let ?id = "OrderId (of_nat (Suc m))" and ?sq = "SequenceNumber (of_nat (Suc k))" and ?q = "Quantity (1 + d5 mod 100)"
  obtain p where p: "order_price (d3 mod 100 < ucast (wc_crossing_rate_percent config)) ?buy (d4 mod wc_book_levels config) = Some p"
      "from_ticks p = Some (Price p)" "price_ok (Price p)"
    using order_price_ok signed_level [OF config(2,3), of d4] by blast
  have n: "(of_nat (Suc k) :: u64) \<noteq> 0" "(of_nat (Suc m) :: u64) \<noteq> 0"
    by (rule of_nat_nonzero; use inv k in \<open>simp add: workload_inv_def\<close>)+
  have "unat (d5 mod 100) < 100" by (simp add: unat_mod)
  then have "unat (1 + d5 mod 100) = 1 + unat (d5 mod 100)" by (simp add: unat_word_ariths(1))
  then have q: "1 + d5 mod 100 \<noteq> 0" by (metis add_is_0 one_neq_zero unat_0)
  have factories: "order_id_from_value (ws_next_order_id st) = Some ?id" "sequence_from_value (ws_next_sequence st) = Some ?sq"
    "from_units (1 + d5 mod 100) = Some ?q"
    using inv n q by (simp_all add: workload_inv_def order_id_from_value_def sequence_from_value_def from_units_def del: of_nat_Suc)
  let ?w = "\<lparr>wl_symbol_index = ?sym, wl_command = New_order \<lparr>no_sequence = ?sq, no_order_id = ?id,
      no_side = (if ?buy then Buy else Sell), no_type = Limit, no_quantity = ?q, no_limit_price = Some (Price p)\<rparr>\<rparr>"
  have sym: "?sym < wc_symbol_count config" using config(1) by (simp add: word_mod_less_divisor word_gt_0)
  then have ok: "item_ok config ?w"
    using n q p(3) by (simp add: item_ok_def loggable_def valid_new_order_def new_order_ok_def validate_None_iff
        sequence_ok_def order_id_ok_def quantity_ok_def del: of_nat_Suc)
  have fresh: "?id \<notin> ao_order_id ` set (ws_active_orders st)"
  proof -
    have "Suc m < 2 ^ 64" using inv k by (simp add: workload_inv_def)
    then have "of_nat (Suc m) \<notin> set (count_up m)"
      using distinct_count_up [of "Suc m"] by (simp add: count_up_Suc del: of_nat_Suc)
    moreover have "\<forall>a \<in> set (ws_active_orders st). oid_value (ao_order_id a) \<in> set (count_up m)"
      using inv by (simp add: workload_inv_def)
    ultimately show ?thesis by (metis imageE order_id.sel)
  qed
  let ?st = "st\<lparr>ws_workload := ws_workload st @ [?w], ws_next_order_id := ws_next_order_id st + 1,
      ws_next_sequence := ws_next_sequence st + 1,
      ws_active_orders := ws_active_orders st @ [\<lparr>ao_symbol_index = ?sym, ao_order_id = ?id\<rparr>]\<rparr>"
  have "push_order config d1 d2 d3 d4 d5 st = Some ?st" by (simp add: push_order_def p factories Let_def)
  moreover have "workload_inv config (Suc k) (Suc m) ?st"
    using inv ok sym fresh
    by (auto simp: workload_inv_def live_after_append targeted_append new_ids_def count_up_Suc)
  ultimately show ?thesis by blast
qed

lemma draw_fields [simp]:
  "ws_active_orders (snd (draw st)) = ws_active_orders st" "workload_inv config k m (snd (draw st)) = workload_inv config k m st"
  by (simp_all add: draw_def case_prod_unfold Let_def workload_inv_def)

lemma workload_step_inv:
  assumes inv: "workload_inv config k m st" and k: "Suc k < 2 ^ 64"
    and config: "wc_symbol_count config \<noteq> 0" "wc_book_levels config \<noteq> 0" "wc_book_levels config \<le> 100000"
  shows "\<exists>st' m'. workload_step config st = Some st' \<and> workload_inv config (Suc k) m' st'"
proof -
  define pick where "pick = (if ws_active_orders st = [] then (False, st)
    else (fst (draw st) mod 100 < ucast (wc_cancel_rate_percent config), snd (draw st)))"
  have pick: "workload_inv config k m (snd pick)" "fst pick \<Longrightarrow> ws_active_orders (snd pick) \<noteq> []"
    using inv by (auto simp: pick_def split: if_splits)
  have step: "workload_step config st =
      (if fst pick then push_cancel (fst (draw (snd pick))) (snd (draw (snd pick)))
       else let s1 = snd (draw (snd pick)); s2 = snd (draw s1); s3 = snd (draw s2); s4 = snd (draw s3)
            in push_order config (fst (draw (snd pick))) (fst (draw s1)) (fst (draw s2)) (fst (draw s3)) (fst (draw s4)) (snd (draw s4)))"
    by (simp add: workload_step_def pick_def case_prod_unfold Let_def)
  show ?thesis
  proof (cases "fst pick")
    case True
    then show ?thesis using push_cancel_inv [of config k m "snd (draw (snd pick))"] pick k by (simp add: step) blast
  next
    case False
    let ?s = "snd (draw (snd (draw (snd (draw (snd (draw (snd (draw (snd pick))))))))))"
    have "workload_inv config k m ?s" using pick(1) by simp
    from push_order_inv [OF this k config] False show ?thesis by (simp add: step Let_def) blast
  qed
qed

lemma workload_loop_inv:
  assumes "workload_inv config k m st" and "k + n < 2 ^ 64"
    and "wc_symbol_count config \<noteq> 0" "wc_book_levels config \<noteq> 0" "wc_book_levels config \<le> 100000"
  shows "\<exists>st' m'. workload_loop n config st = Some st' \<and> workload_inv config (k + n) m' st'"
  using assms
proof (induction n arbitrary: k m st)
  case (Suc n)
  then obtain st1 m1 where st1: "workload_step config st = Some st1" "workload_inv config (Suc k) m1 st1"
    using workload_step_inv [of config k m st] by auto
  have "Suc k + n < 2 ^ 64" using Suc.prems(2) by simp
  from Suc.IH [OF st1(2) this Suc.prems(3-5)] st1(1) show ?case by simp
qed auto

lemma make_workload_inv:
  assumes "\<not> config_rejected config" and "wc_book_levels config \<le> 100000"
  shows "\<exists>st m. make_workload config = Some (ws_workload st) \<and> workload_inv config (unat (wc_command_count config)) m st"
proof -
  let ?st = "\<lparr>ws_random = mt_seed (wc_seed config), ws_workload = [], ws_active_orders = [],
      ws_next_order_id = 1, ws_next_sequence = 1\<rparr>"
  have "workload_inv config 0 0 ?st" by (simp add: workload_inv_def new_ids_def)
  moreover have "0 + unat (wc_command_count config) < 2 ^ 64" using unsigned_less [where 'a = nat, of "wc_command_count config"] by simp
  ultimately obtain st m where "workload_loop (unat (wc_command_count config)) config ?st = Some st"
      "workload_inv config (0 + unat (wc_command_count config)) m st"
    using workload_loop_inv [of config 0 0 ?st "unat (wc_command_count config)"] assms by (auto simp: config_rejected_def)
  then show ?thesis using assms(1) by (auto simp: make_workload_def)
qed

section \<open>Running a workload\<close>

abbreviation is_cancel :: "workload_command \<Rightarrow> bool" where
  "is_cancel w \<equiv> (case wl_command w of Cancel_order _ \<Rightarrow> True | _ \<Rightarrow> False)"

lemma spec_seen_upper:
  "ab_seen (snd (spec_apply c a)) \<subseteq> ab_seen a \<union> (case c of New_order order \<Rightarrow> {no_order_id order} | _ \<Rightarrow> {})"
proof (cases c)
  case (New_order order)
  then show ?thesis
    by (auto simp: spec_apply_def spec_submit_def Let_def split: prod.splits if_splits dest!: spec_take_seen)
next
  case (Cancel_order order)
  then show ?thesis by (auto simp: spec_apply_def spec_cancel_def spec_delete_def Let_def split: option.splits prod.splits)
next
  case (Replace_order order)
  then show ?thesis
    by (auto simp: spec_apply_def spec_replace_def spec_delete_def Let_def split: option.splits prod.splits if_splits
        dest!: spec_take_seen)
qed (simp add: spec_apply_def)

lemma fresh_order_accepted:
  "loggable (New_order order) \<Longrightarrow> no_order_id order \<notin> ab_seen a \<Longrightarrow> fst (spec_apply (New_order order) a)"
  by (auto simp: spec_apply_def spec_submit_def loggable_def valid_new_order_def submit_accepted_def Let_def
      split: prod.splits if_splits)

text \<open>One command of a workload: what it does to its book and to the counters.\<close>

lemma bench_apply_ok:
  assumes b: "book_reachable b" and c: "loggable c" and new: "\<And>order. c = New_order order \<Longrightarrow> no_order_id order \<notin> ob_seen_order_ids b"
    and placed: "\<not> (\<exists>order. c = Replace_order order)"
  shows "\<exists>accepted b' r'. bench_apply b c r = Some (accepted, b', r') \<and> apply_command b c = Some (accepted, b') \<and>
    br_accepted_commands r' = br_accepted_commands r \<and> br_rejected_commands r' = br_rejected_commands r \<and>
    br_accepted_cancels r' = br_accepted_cancels r + (case c of Cancel_order _ \<Rightarrow> if accepted then 1 else 0 | _ \<Rightarrow> 0) \<and>
    br_rejected_cancels r' = br_rejected_cancels r + (if accepted then 0 else 1) \<and>
    (accepted \<or> (\<exists>order. c = Cancel_order order))"
proof -
  have ok: "command_ok c" by (rule loggable_ok [OF c])
  then obtain accepted b' where app: "apply_command b c = Some (accepted, b')"
    using book.step_simulates [OF ok reachable_inv [OF b]] by auto
  show ?thesis
  proof (cases c)
    case (New_order order)
    have "accepted"
      using fresh_order_accepted [of order "abs_of b"] command_spec [OF b ok app] c new [OF New_order] unfolding New_order by simp
    moreover obtain res where "submit order b = Some (res, b')" "accepted = submit_accepted res"
      using app New_order by (auto simp: apply_command_def bind_ub_eq_Some)
    ultimately show ?thesis using app New_order by (intro exI [of _ True]) (simp add: bench_apply_def)
  next
    case (Cancel_order order)
    moreover obtain res where "cancel order b = Some (res, b')" "accepted = cancel_accepted res"
      using app Cancel_order by (auto simp: apply_command_def bind_ub_eq_Some)
    ultimately show ?thesis using app by (simp add: bench_apply_def)
  qed (use placed c in \<open>auto simp: loggable_def\<close>)
qed

definition books_ok :: "nat \<Rightarrow> order_id set \<Rightarrow> order_book list \<Rightarrow> bool" where
  "books_ok n ids books \<longleftrightarrow> length books = n \<and> (\<forall>b \<in> set books. book_reachable b \<and> ob_seen_order_ids b \<subseteq> ids)"

lemma bench_item_ok:
  assumes ok: "item_ok config w" and books: "books_ok (unat (wc_symbol_count config)) ids books"
    and new: "set (new_ids [w]) \<inter> ids = {}"
  shows "\<exists>accepted books' r'. bench_item w books r = Some (accepted, books', r') \<and>
    books_ok (unat (wc_symbol_count config)) (ids \<union> set (new_ids [w])) books' \<and>
    br_accepted_commands r' = br_accepted_commands r \<and> br_rejected_commands r' = br_rejected_commands r \<and>
    br_accepted_cancels r' + br_rejected_cancels r' = br_accepted_cancels r + br_rejected_cancels r + (if is_cancel w then 1 else 0) \<and>
    br_rejected_cancels r' = br_rejected_cancels r + (if accepted then 0 else 1)"
proof -
  let ?s = "unat (wl_symbol_index w)" and ?c = "wl_command w"
  have s: "?s < length books" using ok books by (simp add: item_ok_def books_ok_def word_less_nat_alt)
  then have b: "book_reachable (books ! ?s)" "ob_seen_order_ids (books ! ?s) \<subseteq> ids" using books by (simp_all add: books_ok_def)
  have c: "loggable ?c" "\<not> (\<exists>order. ?c = Replace_order order)" using ok by (auto simp: item_ok_def)
  have fresh: "no_order_id order \<notin> ob_seen_order_ids (books ! ?s)" if "?c = New_order order" for order
    using that new b(2) by (auto simp: new_ids_def)
  obtain accepted b' r' where a: "bench_apply (books ! ?s) ?c r = Some (accepted, b', r')"
      "apply_command (books ! ?s) ?c = Some (accepted, b')"
      "br_accepted_commands r' = br_accepted_commands r" "br_rejected_commands r' = br_rejected_commands r"
      "br_accepted_cancels r' = br_accepted_cancels r + (case ?c of Cancel_order _ \<Rightarrow> if accepted then 1 else 0 | _ \<Rightarrow> 0)"
      "br_rejected_cancels r' = br_rejected_cancels r + (if accepted then 0 else 1)"
      "accepted \<or> (\<exists>order. ?c = Cancel_order order)"
    using bench_apply_ok [OF b(1) c(1) fresh c(2), of r] by blast
  have spec: "spec_apply ?c (abs_of (books ! ?s)) = (accepted, abs_of b')" "book_reachable b'"
    using command_spec [OF b(1) loggable_ok [OF c(1)] a(2)] command_reachable [OF b(1) loggable_ok [OF c(1)] a(2)] by simp_all
  have "ob_seen_order_ids b' \<subseteq> ids \<union> set (new_ids [w])"
    using spec_seen_upper [of ?c "abs_of (books ! ?s)"] spec(1) b(2) by (auto simp: new_ids_def split: command.splits)
  then have "books_ok (unat (wc_symbol_count config)) (ids \<union> set (new_ids [w])) (books[?s := b'])"
    using books spec(2) by (auto simp: books_ok_def dest!: set_update_subset_insert [THEN subsetD])
  then show ?thesis using a s by (auto simp: bench_item_def Let_def split: command.splits)
qed

lemma warmup_loop_ok:
  assumes "list_all (item_ok config) ws" and "books_ok (unat (wc_symbol_count config)) ids books"
    and "distinct (new_ids ws)" and "set (new_ids ws) \<inter> ids = {}"
  shows "warmup_loop ws books r = Some ()"
  using assms
proof (induction ws arbitrary: ids books r)
  case (Cons w ws)
  have ids: "new_ids (w # ws) = new_ids [w] @ new_ids ws" by (simp add: new_ids_def)
  then obtain accepted books' r' where w: "bench_item w books r = Some (accepted, books', r')"
      "books_ok (unat (wc_symbol_count config)) (ids \<union> set (new_ids [w])) books'"
    using bench_item_ok [of config w ids books r] Cons.prems by auto
  have "set (new_ids ws) \<inter> (ids \<union> set (new_ids [w])) = {}" using Cons.prems(3,4) unfolding ids by auto
  then show ?case using Cons.IH [OF _ w(2)] Cons.prems(1,3) w(1) ids by simp
qed simp

definition accounted :: "workload_command list \<Rightarrow> 'd benchmark_result \<Rightarrow> 'd benchmark_result \<Rightarrow> bool" where
  "accounted ws r r' \<longleftrightarrow>
     br_accepted_commands r' + br_rejected_commands r' = br_accepted_commands r + br_rejected_commands r + of_nat (length ws) \<and>
     br_accepted_cancels r' + br_rejected_cancels r' =
       br_accepted_cancels r + br_rejected_cancels r + of_nat (length (filter is_cancel ws)) \<and>
     br_rejected_commands r' - br_rejected_cancels r' = br_rejected_commands r - br_rejected_cancels r"

lemma bench_loop_ok:
  assumes "list_all (item_ok config) ws" and "books_ok (unat (wc_symbol_count config)) ids books"
    and "distinct (new_ids ws)" and "set (new_ids ws) \<inter> ids = {}"
  shows "\<exists>books' h' r'. bench_loop clock i ws books h r = Some (books', h', r') \<and>
    lh_count h' = lh_count h + of_nat (length ws) \<and> accounted ws r r'"
  using assms
proof (induction ws arbitrary: i ids books h r)
  case Nil
  then show ?case by (simp add: accounted_def)
next
  case (Cons w ws)
  have ids: "new_ids (w # ws) = new_ids [w] @ new_ids ws" by (simp add: new_ids_def)
  have dis: "set (new_ids [w]) \<inter> ids = {}" using Cons.prems(4) unfolding ids by auto
  obtain accepted books1 r1 where w: "bench_item w books r = Some (accepted, books1, r1)"
      "books_ok (unat (wc_symbol_count config)) (ids \<union> set (new_ids [w])) books1"
      "br_accepted_commands r1 = br_accepted_commands r" "br_rejected_commands r1 = br_rejected_commands r"
      "br_accepted_cancels r1 + br_rejected_cancels r1 = br_accepted_cancels r + br_rejected_cancels r + (if is_cancel w then 1 else 0)"
      "br_rejected_cancels r1 = br_rejected_cancels r + (if accepted then 0 else 1)"
    using bench_item_ok [OF _ Cons.prems(2) dis, of r] Cons.prems(1) by auto
  let ?h = "observe (elapsed_observation (clock (2 * i + 1)) (clock (2 * i + 2))) h"
  let ?r = "if accepted then r1\<lparr>br_accepted_commands := br_accepted_commands r1 + 1\<rparr>
    else r1\<lparr>br_rejected_commands := br_rejected_commands r1 + 1\<rparr>"
  have "set (new_ids ws) \<inter> (ids \<union> set (new_ids [w])) = {}" using Cons.prems(3,4) unfolding ids by auto
  then obtain books' h' r' where rest: "bench_loop clock (Suc i) ws books1 ?h ?r = Some (books', h', r')"
      "lh_count h' = lh_count ?h + of_nat (length ws)" "accounted ws ?r r'"
    using Cons.IH [OF _ w(2), of "Suc i" ?h ?r] Cons.prems(1,3) ids by auto
  have "lh_count ?h = lh_count h + 1" by (simp add: observe_def Let_def)
  moreover have "accounted (w # ws) r r'"
    using rest(3) w(3-6) by (auto simp: accounted_def algebra_simps)
  ultimately show ?case using w(1) rest(1,2) by (simp add: Let_def)
qed

lemma fresh_books: "books_ok n {} (replicate n empty_book)"
  by (simp add: books_ok_def book_reachable.empty) (simp add: empty_book_def)

lemma generated_workload:
  assumes "\<not> config_rejected config" and "wc_book_levels config \<le> 100000"
  obtains ws where "make_workload config = Some ws" "length ws = unat (wc_command_count config)" "ws \<noteq> []"
    "list_all (item_ok config) ws" "distinct (new_ids ws)" "map item_sequence ws = count_up (length ws)"
    "run_warmup zero ws (wc_symbol_count config) warmup = Some ()"
proof -
  let ?n = "wc_command_count config"
  obtain st m where st: "make_workload config = Some (ws_workload st)" "workload_inv config (unat ?n) m st"
    using make_workload_inv [OF assms] by blast
  define ws where "ws = ws_workload st"
  have ws: "length ws = unat ?n" "list_all (item_ok config) ws" "m \<le> unat ?n" "new_ids ws = map OrderId (count_up m)"
    "map item_sequence ws = count_up (length ws)"
    using st(2) by (simp_all add: workload_inv_def ws_def)
  have "m < 2 ^ 64" using ws(3) unsigned_less [where 'a = nat, of ?n] by simp
  then have d: "distinct (new_ids ws)" unfolding ws(4) by (simp add: distinct_map distinct_count_up inj_on_def)
  have nonempty: "ws \<noteq> []" using assms(1) ws(1) by (auto simp: config_rejected_def unat_eq_zero)
  let ?k = "min (unat warmup) (length ws)"
  have "new_ids (take ?k ws) @ new_ids (drop ?k ws) = new_ids ws" by (metis append_take_drop_id new_ids_append)
  then have "distinct (new_ids (take ?k ws) @ new_ids (drop ?k ws))" using d by (rule ssubst)
  then have "distinct (new_ids (take ?k ws))" unfolding distinct_append by blast
  moreover have "list_all (item_ok config) (take ?k ws)" using ws(2) by (auto simp: list_all_iff dest: in_set_takeD)
  ultimately have "run_warmup zero ws (wc_symbol_count config) warmup = Some ()"
    unfolding run_warmup_def Let_def by (intro warmup_loop_ok [OF _ fresh_books]) simp_all
  then show thesis using that [OF st(1)] ws nonempty d by (simp add: ws_def)
qed

text \<open>
  Claim C39. The workload generator keeps its word. For any configuration it does not refuse, with at
  most 100000 price levels, \<open>make_workload\<close> returns, whatever the random engine draws: exactly the
  requested number of commands, numbered 1, 2, 3 and so on, each well-formed and for an existing
  symbol, only limit orders and cancellations; new orders carry the identifiers 1, 2, 3 and so on,
  and every cancellation names an order placed earlier for that symbol and not yet cancelled.
\<close>

theorem workload_is_valid:
  assumes "\<not> config_rejected config" and "wc_book_levels config \<le> 100000"
  shows "\<exists>ws m. make_workload config = Some ws \<and> length ws = unat (wc_command_count config) \<and>
    list_all (item_ok config) ws \<and> map item_sequence ws = count_up (length ws) \<and>
    new_ids ws = map OrderId (count_up m) \<and> targeted {} ws"
  using make_workload_inv [OF assms] by (auto simp: workload_inv_def)

text \<open>The configurations of the examples: a handful of commands with the default seed and rates.\<close>

definition small_config :: workload_config where
  "small_config = default_workload_config\<lparr>wc_command_count := 5\<rparr>"

lemma small_config_ok: "\<not> config_rejected small_config" "wc_book_levels small_config \<le> 100000"
  "wc_command_count small_config = 5"
  by (simp_all add: small_config_def default_workload_config_def config_rejected_def)

theorem workload_is_valid_witness:
  "\<exists>ws. make_workload small_config = Some ws \<and> length ws = 5 \<and> map item_sequence ws = count_up 5 \<and> targeted {} ws"
  using workload_is_valid [OF small_config_ok(1,2)] by (auto simp: small_config_ok(3))

text \<open>
  The benchmark counts what it runs: for such a configuration, any warm-up and any clock,
  generating the workload and running it return; accepted and rejected commands add up to the number
  of commands, which is the requested one and the number of latency observations; accepted and
  rejected cancels add up to the cancellations in the workload; and every rejected command is a
  cancellation of an order that had been filled: no new order is ever refused.
\<close>

theorem benchmark_accounts:
  assumes "\<not> config_rejected config" and "wc_book_levels config \<le> 100000"
  shows "\<exists>ws r. make_workload config = Some ws \<and>
    run_core_benchmark clock zero per_second ws (wc_symbol_count config) warmup = Some r \<and>
    br_commands r = wc_command_count config \<and> ls_count (br_latency r) = wc_command_count config \<and>
    br_accepted_commands r + br_rejected_commands r = wc_command_count config \<and>
    br_accepted_cancels r + br_rejected_cancels r = of_nat (length (filter is_cancel ws)) \<and>
    br_rejected_commands r = br_rejected_cancels r"
proof -
  let ?n = "wc_command_count config"
  obtain ws where ws: "make_workload config = Some ws" "length ws = unat ?n" "ws \<noteq> []" "list_all (item_ok config) ws"
      "distinct (new_ids ws)" "run_warmup zero ws (wc_symbol_count config) warmup = Some ()"
    by (rule generated_workload [OF assms, of zero warmup])
  obtain books h r where r: "bench_loop clock 0 ws (replicate (unat (wc_symbol_count config)) empty_book) empty_histogram
        (empty_result zero) = Some (books, h, r)" "lh_count h = lh_count empty_histogram + of_nat (length ws)"
      "accounted ws (empty_result zero) r"
    using bench_loop_ok [OF ws(4) fresh_books ws(5), of clock 0 empty_histogram "empty_result zero"] by auto
  have totals: "br_accepted_commands r + br_rejected_commands r = ?n" "lh_count h = ?n"
    "br_accepted_cancels r + br_rejected_cancels r = of_nat (length (filter is_cancel ws))"
    "br_rejected_commands r = br_rejected_cancels r"
    using r(2,3) ws(2) by (auto simp: accounted_def empty_result_def empty_histogram_def)
  let ?t = "clock (2 * length ws + 1) - clock 0"
  have "run_core_benchmark clock zero per_second ws (wc_symbol_count config) warmup = Some (r\<lparr>br_elapsed_nanoseconds := ?t,
      br_commands := ?n, br_throughput_per_second := (if ?t = 0 then zero else per_second ?n ?t), br_latency := snapshot h\<rparr>)"
    using ws r(1) assms(1) by (simp add: run_core_benchmark_def config_rejected_def Let_def)
  then show ?thesis using ws(1) totals by (auto simp: snapshot_def)
qed

theorem benchmark_accounts_witness:
  "\<exists>ws r. make_workload small_config = Some ws \<and>
     run_core_benchmark (\<lambda>n. of_nat n) (0 :: nat) (\<lambda>n t. unat n * 1000000000 div unat t) ws 1 2 = Some r \<and>
     br_commands r = 5 \<and> br_rejected_commands r = br_rejected_cancels r"
  using benchmark_accounts [OF small_config_ok(1,2), of "\<lambda>n. of_nat n" "0 :: nat" "\<lambda>n t. unat n * 1000000000 div unat t" 2]
  by (auto simp: small_config_def default_workload_config_def)

end
