(* ===== verification/Command_Line.thy ===== *)
theory Command_Line
  imports Benchmark
begin

text \<open>
  Argument handling of the three programs under \<open>apps/\<close>: decimal numbers through
  \<open>std::from_chars\<close>, the gateway's port, the benchmark's options and what each \<open>main\<close> then does.
  Printing is the constructor that names it.
\<close>

section \<open>Numbers\<close>

datatype errc = Invalid_argument | Result_out_of_range

record from_chars_result =
  fc_end :: nat
  fc_ec :: "errc option"
  fc_value :: "nat option"

definition is_digit :: "char \<Rightarrow> bool" where
  "is_digit c \<longleftrightarrow> 48 \<le> (of_char c :: nat) \<and> (of_char c :: nat) \<le> 57"

definition decimal :: "string \<Rightarrow> nat" where
  "decimal ds = foldl (\<lambda>n c. 10 * n + (of_char c - 48)) 0 ds"

text \<open>
  \<open>std::from_chars\<close> for an unsigned type with values below \<open>bound\<close>: the longest run of digits is
  read; on an error the value is left untouched.
\<close>

definition from_chars :: "nat \<Rightarrow> string \<Rightarrow> from_chars_result" where
  "from_chars bound text =
     (let ds = takeWhile is_digit text in
      if ds = [] then \<lparr>fc_end = 0, fc_ec = Some Invalid_argument, fc_value = None\<rparr>
      else if decimal ds < bound then \<lparr>fc_end = length ds, fc_ec = None, fc_value = Some (decimal ds)\<rparr>
      else \<lparr>fc_end = length ds, fc_ec = Some Result_out_of_range, fc_value = None\<rparr>)"

definition kDefaultGatewayPort :: u16 where "kDefaultGatewayPort = 9000"

definition parse_port :: "string \<Rightarrow> u16 option" where
  "parse_port text =
     (let r = from_chars (2 ^ 32) text; value = (case fc_value r of Some v \<Rightarrow> v | None \<Rightarrow> 0) in
      if fc_ec r \<noteq> None \<or> fc_end r \<noteq> length text \<or> value = 0 \<or> value > 65535 then None
      else Some (of_nat value))"

definition parse_size :: "string \<Rightarrow> size_t option" where
  "parse_size text =
     (let r = from_chars (2 ^ 64) text in
      if fc_ec r \<noteq> None \<or> fc_end r \<noteq> length text then None else map_option of_nat (fc_value r))"

definition parse_u32 :: "string \<Rightarrow> u32 option" where
  "parse_u32 text =
     (let r = from_chars (2 ^ 32) text in
      if fc_ec r \<noteq> None \<or> fc_end r \<noteq> length text then None else map_option of_nat (fc_value r))"

definition parse_u64 :: "string \<Rightarrow> u64 option" where
  "parse_u64 text =
     (let r = from_chars (2 ^ 64) text in
      if fc_ec r \<noteq> None \<or> fc_end r \<noteq> length text then None else map_option of_nat (fc_value r))"

section \<open>Options of the benchmark\<close>

datatype mode = Core_mode | Gateway_mode

record options =
  op_mode :: mode
  op_workload :: workload_config
  op_warmup_commands :: size_t

definition default_options :: options where
  "default_options = \<lparr>op_mode = Core_mode, op_workload = default_workload_config, op_warmup_commands = 10000\<rparr>"

definition parse_option :: "string \<Rightarrow> string \<Rightarrow> options \<Rightarrow> options option" where
  "parse_option argument value opts =
     (if argument = ''--mode'' then
        (if value = ''core'' then Some (opts\<lparr>op_mode := Core_mode\<rparr>)
         else if value = ''gateway'' then Some (opts\<lparr>op_mode := Gateway_mode\<rparr>) else None)
      else if argument = ''--commands'' then
        map_option (\<lambda>n. opts\<lparr>op_workload := (op_workload opts)\<lparr>wc_command_count := n\<rparr>\<rparr>) (parse_size value)
      else if argument = ''--warmup'' then map_option (\<lambda>n. opts\<lparr>op_warmup_commands := n\<rparr>) (parse_size value)
      else if argument = ''--symbols'' then
        map_option (\<lambda>n. opts\<lparr>op_workload := (op_workload opts)\<lparr>wc_symbol_count := n\<rparr>\<rparr>) (parse_size value)
      else if argument = ''--levels'' then
        map_option (\<lambda>n. opts\<lparr>op_workload := (op_workload opts)\<lparr>wc_book_levels := n\<rparr>\<rparr>) (parse_size value)
      else if argument = ''--cancel-rate'' then
        map_option (\<lambda>n. opts\<lparr>op_workload := (op_workload opts)\<lparr>wc_cancel_rate_percent := n\<rparr>\<rparr>) (parse_u32 value)
      else if argument = ''--cross-rate'' then
        map_option (\<lambda>n. opts\<lparr>op_workload := (op_workload opts)\<lparr>wc_crossing_rate_percent := n\<rparr>\<rparr>) (parse_u32 value)
      else if argument = ''--seed'' then
        map_option (\<lambda>n. opts\<lparr>op_workload := (op_workload opts)\<lparr>wc_seed := n\<rparr>\<rparr>) (parse_u64 value)
      else None)"

fun parse_options :: "string list \<Rightarrow> options \<Rightarrow> options option" where
  "parse_options [] opts =
     (if wc_command_count (op_workload opts) > 0 \<and> wc_symbol_count (op_workload opts) > 0 \<and>
         wc_book_levels (op_workload opts) > 0 \<and> wc_cancel_rate_percent (op_workload opts) \<le> 100 \<and>
         wc_crossing_rate_percent (op_workload opts) \<le> 100
      then Some opts else None)"
| "parse_options [argument] opts = None"
| "parse_options (argument # value # rest) opts =
     (if argument = ''--help'' then None
      else case parse_option argument value opts of None \<Rightarrow> None | Some opts' \<Rightarrow> parse_options rest opts')"

datatype benchmark_action =
  Benchmark_usage
| Invalid_workload
| Needs_one_symbol
| Run_core_benchmark "workload_command list" size_t size_t
| Run_gateway_benchmark "workload_command list"

text \<open>What the benchmark does and its exit status.\<close>

definition benchmark_main :: "string list \<Rightarrow> (benchmark_action \<times> nat) ub" where
  "benchmark_main args =
     (case parse_options args default_options of
        None \<Rightarrow> Some (Benchmark_usage, 2)
      | Some opts \<Rightarrow> do {
          workload \<leftarrow> make_workload (op_workload opts);
          if workload = [] then Some (Invalid_workload, 2)
          else if op_mode opts = Gateway_mode \<and> wc_symbol_count (op_workload opts) \<noteq> 1 then Some (Needs_one_symbol, 2)
          else if op_mode opts = Core_mode
          then Some (Run_core_benchmark workload (wc_symbol_count (op_workload opts)) (op_warmup_commands opts), 0)
          else Some (Run_gateway_benchmark workload, 0)
        })"

section \<open>The exchange and the replay tool\<close>

datatype exchange_action =
  Version_and_usage
| Exchange_help
| Exchange_usage_error
| Exchange_port_error
| Run_gateway u16 "string option"

text \<open>
  What the exchange does and its exit status. \<open>run_gateway\<close> is a parameter that gives the status of a
  run, \<open>None\<close> when it throws.
\<close>

definition exchange_main :: "(u16 \<Rightarrow> string option \<Rightarrow> nat option) \<Rightarrow> string list \<Rightarrow> exchange_action \<times> nat" where
  "exchange_main run_gateway args =
     (case args of
        [] \<Rightarrow> (Version_and_usage, 0)
      | first # rest \<Rightarrow>
          if first = ''--help'' then (Exchange_help, 0)
          else if first \<noteq> ''--gateway'' \<or> length args > 3 then (Exchange_usage_error, 2)
          else case (case rest of [] \<Rightarrow> Some kDefaultGatewayPort | text # _ \<Rightarrow> parse_port text) of
                 None \<Rightarrow> (Exchange_port_error, 2)
               | Some port \<Rightarrow>
                   let event_log_path = (case rest of [_, path] \<Rightarrow> Some path | _ \<Rightarrow> None)
                   in (Run_gateway port event_log_path,
                       case run_gateway port event_log_path of Some status \<Rightarrow> status | None \<Rightarrow> 1))"

datatype replay_action = Replay_usage | Replay_failed size_t string | Replayed size_t u64

text \<open>What the replay tool prints and its exit status, for the contents of the named file.\<close>

definition replay_main :: "bytes option list \<Rightarrow> (replay_action \<times> nat) ub" where
  "replay_main args =
     (case args of
        [file] \<Rightarrow> do {
          result \<leftarrow> replay_event_log file;
          Some (case rp_error result of
            Some e \<Rightarrow> (Replay_failed (rp_replayed_commands result) (event_log_error_name e), 1)
          | None \<Rightarrow> (Replayed (rp_replayed_commands result) (rp_state_digest result), 0))
        }
      | _ \<Rightarrow> Some (Replay_usage, 2))"

section \<open>What the parsers accept\<close>

lemma takeWhile_whole: "length (takeWhile P xs) = length xs \<longleftrightarrow> list_all P xs"
  by (induction xs) auto

lemma takeWhile_all: "list_all P xs \<Longrightarrow> takeWhile P xs = xs"
  by (induction xs) auto

lemma from_chars_whole:
  "fc_ec (from_chars bound str) = None \<and> fc_end (from_chars bound str) = length str \<longleftrightarrow>
     str \<noteq> [] \<and> list_all is_digit str \<and> decimal str < bound"
  by (auto simp: from_chars_def Let_def takeWhile_whole takeWhile_all)

lemma from_chars_value:
  "str \<noteq> [] \<Longrightarrow> list_all is_digit str \<Longrightarrow> decimal str < bound \<Longrightarrow>
   fc_value (from_chars bound str) = Some (decimal str)"
  by (simp add: from_chars_def takeWhile_all)

text \<open>
  A port is accepted exactly when the whole argument is a decimal number from 1 to 65535; then it is
  that number. Signs, blanks, an empty argument and numbers that overflow are refused.
\<close>

theorem parse_port_exact:
  "parse_port str = Some port \<longleftrightarrow> str \<noteq> [] \<and> list_all is_digit str \<and> decimal str = unat port \<and> port \<noteq> 0"
proof (cases "str \<noteq> [] \<and> list_all is_digit str \<and> decimal str < 2 ^ 32")
  case True
  then have "parse_port str = (if decimal str = 0 \<or> decimal str > 65535 then None else Some (of_nat (decimal str)))"
    using from_chars_whole [of "2 ^ 32" str] from_chars_value [of str "2 ^ 32"] by (simp add: parse_port_def Let_def)
  moreover have "(of_nat (decimal str) = port) = (decimal str = unat port)" if "decimal str \<le> 65535"
    using that by (auto simp: unat_of_nat)
  moreover have "unat port \<le> 65535" using unsigned_less [where 'a = nat, of port] by simp
  ultimately show ?thesis using True by (auto simp: unat_eq_zero)
next
  case False
  then have "parse_port str = None" using from_chars_whole [of "2 ^ 32" str] by (auto simp: parse_port_def Let_def)
  moreover have "unat port < 2 ^ 32" using unsigned_less [where 'a = nat, of port] by simp
  ultimately show ?thesis using False by auto
qed

lemma gateway_port: "exchange_main run_gateway args = (Run_gateway port path, status) \<Longrightarrow> port \<noteq> 0"
  by (auto simp: exchange_main_def kDefaultGatewayPort_def parse_port_exact Let_def split: list.splits if_splits option.splits)

lemma parse_options_config: "parse_options args opts = Some opts' \<Longrightarrow> \<not> config_rejected (op_workload opts')"
  by (induction args opts rule: parse_options.induct)
    (auto simp: config_rejected_def not_less split: if_splits option.splits)

text \<open>
  The benchmark never refuses a workload it let its options pass for: with at most 100000 price
  levels, \<open>main\<close> prints its usage, asks for a single symbol or runs the requested number of commands.
\<close>

theorem benchmark_options_checked:
  assumes "parse_options args default_options = Some opts" and "wc_book_levels (op_workload opts) \<le> 100000"
  shows "\<exists>action status. benchmark_main args = Some (action, status) \<and> action \<noteq> Benchmark_usage \<and> action \<noteq> Invalid_workload"
proof -
  obtain st m where st: "make_workload (op_workload opts) = Some (ws_workload st)"
      "workload_inv (op_workload opts) (unat (wc_command_count (op_workload opts))) m st"
    using make_workload_inv [OF parse_options_config [OF assms(1)] assms(2)] by blast
  have "ws_workload st \<noteq> []"
    using st(2) parse_options_config [OF assms(1)] by (auto simp: workload_inv_def config_rejected_def unat_eq_zero)
  let ?needs = "op_mode opts = Gateway_mode \<and> wc_symbol_count (op_workload opts) \<noteq> 1"
  let ?action = "if op_mode opts = Gateway_mode \<and> wc_symbol_count (op_workload opts) \<noteq> 1 then Needs_one_symbol
       else if op_mode opts = Core_mode
       then Run_core_benchmark (ws_workload st) (wc_symbol_count (op_workload opts)) (op_warmup_commands opts)
       else Run_gateway_benchmark (ws_workload st)"
  have "benchmark_main args = Some (?action, if ?needs then 2 else 0)"
    using assms(1) st(1) \<open>ws_workload st \<noteq> []\<close> by (simp add: benchmark_main_def)
  moreover have "?action \<noteq> Benchmark_usage" "?action \<noteq> Invalid_workload" by simp_all
  ultimately show ?thesis by blast
qed

theorem benchmark_options_checked_witness:
  "\<exists>action status. benchmark_main [''--commands'', ''25'', ''--mode'', ''gateway''] = Some (action, status) \<and> action \<noteq> Invalid_workload"
proof -
  have "parse_options [''--commands'', ''25'', ''--mode'', ''gateway''] default_options = Some
      (default_options\<lparr>op_workload := default_workload_config\<lparr>wc_command_count := 25\<rparr>, op_mode := Gateway_mode\<rparr>)"
    by (simp add: parse_option_def parse_size_def from_chars_def is_digit_def decimal_def default_options_def
        default_workload_config_def)
  from benchmark_options_checked [OF this] show ?thesis by (auto simp: default_workload_config_def)
qed

end
