(* ===== verification/Applications.thy ===== *)
theory Applications
  imports Exchange_System Command_Line
begin

text \<open>
  The programs around the library: the client of the gateway benchmark, which encodes a command and
  reads frames up to the terminal event, and the end of the recorder's thread of \<open>run_gateway\<close>, which
  drains the capture queue into the log, with the exit status that says whether the log is complete.
\<close>

declare length_ring_contents [simp del]

section \<open>The benchmark's client\<close>

definition client_encode_frame :: "message_type \<Rightarrow> bytes \<Rightarrow> (bool \<times> bytes) ub" where
  "client_encode_frame type payload = encode_frame type payload 0 (replicate (kHeaderSize + length payload) 0)"

definition client_encode_command :: "command \<Rightarrow> (bool \<times> bytes) ub" where
  "client_encode_command command =
     (case command of
        New_order order \<Rightarrow> do {
          (ok, payload) \<leftarrow> encode_new_order order (replicate kNewOrderSize 0);
          if ok then client_encode_frame mt_new_order payload else Some (False, []) }
      | Cancel_order order \<Rightarrow> do {
          (ok, payload) \<leftarrow> encode_cancel_order order (replicate kCancelOrderSize 0);
          if ok then client_encode_frame mt_cancel_order payload else Some (False, []) }
      | Replace_order order \<Rightarrow> do {
          (ok, payload) \<leftarrow> encode_replace_order order (replicate kReplaceOrderSize 0);
          if ok then client_encode_frame mt_replace_order payload else Some (False, []) }
      | Monostate \<Rightarrow> Some (False, []))"

text \<open>
  The socket is the sequence of bytes the server sends before it closes the connection. The payload
  is read into an array of \<open>kMaxPayloadLength\<close> bytes without a check of the announced length: reading
  more bytes than that is undefined.
\<close>

definition read_frame :: "bytes \<Rightarrow> (wire_header option \<times> bytes) ub" where
  "read_frame stream =
     (if length stream < kHeaderSize then Some (None, [])
      else do {
        decoded \<leftarrow> decode_header (take kHeaderSize stream);
        let rest = drop kHeaderSize stream;
        case decoded of
          None \<Rightarrow> Some (None, rest)
        | Some header \<Rightarrow>
            if min (unat (wh_payload_length header)) (length rest) > unat kMaxPayloadLength then None
            else if length rest < unat (wh_payload_length header) then Some (None, [])
            else Some (Some header, drop (unat (wh_payload_length header)) rest)
      })"

definition is_terminal :: "message_type \<Rightarrow> bool" where
  "is_terminal type \<longleftrightarrow> type = mt_order_accepted \<or> type = mt_order_rejected \<or> type = mt_cancel_accepted \<or>
     type = mt_cancel_rejected \<or> type = mt_replace_accepted \<or> type = mt_replace_rejected"

lemma read_frame_consumes:
  assumes "read_frame stream = Some (Some header, rest)"
  shows "length rest < length stream"
proof (cases "length stream < kHeaderSize")
  case False
  then obtain n where "rest = drop n (drop kHeaderSize stream)"
    using assms by (auto simp: read_frame_def Let_def bind_ub_eq_Some split: option.splits if_splits)
  then show ?thesis using False by (simp add: kHeaderSize_def)
qed (use assms in \<open>simp add: read_frame_def\<close>)

function (sequential) await_terminal :: "bytes \<Rightarrow> (wire_header option \<times> bytes) ub" where
  "await_terminal stream =
     (case read_frame stream of
        None \<Rightarrow> None
      | Some (None, rest) \<Rightarrow> Some (None, rest)
      | Some (Some header, rest) \<Rightarrow>
          if is_terminal (wh_type header) then Some (Some header, rest) else await_terminal rest)"
  by pat_completeness auto
termination
  by (relation "measure length") (auto simp: read_frame_consumes)

declare await_terminal.simps [simp del]

lemma read_frame_wire:
  assumes "event_ok m"
  shows "\<exists>h. read_frame (wire_frame m @ rest) = Some (Some h, rest) \<and> wh_type h = om_type m"
proof -
  let ?p = "payload_bytes (om_payload m)"
  let ?h = "frame_header (om_type m) ?p (om_flags m)"
  have ok: "payload_ok (om_payload m) (om_type m)" using assms by (simp add: event_ok_def)
  then have "om_payload m \<noteq> No_payload" by (cases "om_payload m") auto
  then have w: "wire_frame m = header_bytes ?h @ ?p" by (simp add: wire_frame_def)
  have len: "unat (wh_payload_length ?h) = length ?p" "length ?p \<le> unat kMaxPayloadLength"
    using payload_ok_length [OF ok] by (simp_all add: frame_header_def unat_of_nat kMaxPayloadLength_def)
  have "decode_header (header_bytes ?h) = Some (Some ?h)" using decode_header_bytes [of ?h "[]"] by simp
  then have "read_frame (wire_frame m @ rest) = Some (Some ?h, rest)"
    using len by (simp add: read_frame_def w kHeaderSize_def Let_def)
  then show ?thesis by (auto simp: frame_header_def)
qed

lemma await_terminal_frames:
  assumes "list_all event_ok (ys @ [t])" and "list_all (\<lambda>y. om_type y = mt_execution) ys" and "is_terminal (om_type t)"
  shows "\<exists>h. await_terminal (concat (map wire_frame (ys @ [t])) @ rest) = Some (Some h, rest) \<and> wh_type h = om_type t"
  using assms
proof (induction ys)
  case Nil
  then obtain h where "read_frame (wire_frame t @ rest) = Some (Some h, rest)" "wh_type h = om_type t"
    using read_frame_wire [of t rest] by auto
  then show ?case using Nil.prems(3) by (subst await_terminal.simps) simp
next
  case (Cons y ys)
  let ?s = "concat (map wire_frame (ys @ [t])) @ rest"
  obtain h where h: "read_frame (wire_frame y @ ?s) = Some (Some h, ?s)" "wh_type h = om_type y"
    using read_frame_wire [of y ?s] Cons.prems(1) by auto
  have "\<not> is_terminal (wh_type h)" using h(2) Cons.prems(2) by (simp add: is_terminal_def type_defs)
  then have "await_terminal (wire_frame y @ ?s) = await_terminal ?s" using h(1) by (subst await_terminal.simps) simp
  then show ?case using Cons by simp
qed

lemma client_frame:
  assumes "loggable c"
  obtains frame h where "client_encode_command c = Some (True, frame)"
    "decode_header (take kHeaderSize frame) = Some (Some h)" "validate_header h = None"
    "length (drop kHeaderSize frame) = unat (wh_payload_length h)"
    "decode_payload h (drop kHeaderSize frame) = Some (Inr (command_sequence c, c))"
proof -
  let ?t = "command_type c" and ?p = "command_payload c"
  let ?h = "frame_header ?t ?p 0"
  have enc: "client_encode_command c = client_encode_frame ?t ?p"
    using assms by (cases c) (auto simp: client_encode_command_def loggable_def command_type_def command_payload_def
        new_order_codec.encode_fits cancel_codec.encode_fits replace_codec.encode_fits valid_new_order_def)
  have len: "expected_payload_length ?t = Some (of_nat (length ?p))" "length ?p \<le> 40"
    using command_type_inbound [OF assms] by (simp_all add: kRecordPayloadMax_def kNewOrderSize_def)
  have frame: "client_encode_frame ?t ?p = Some (True, header_bytes ?h @ ?p)"
    by (simp add: client_encode_frame_def encode_frame_fits)
  have valid: "validate_header ?h = None" unfolding validate_header_None
    using len by (simp add: frame_header_def kMaxPayloadLength_def word_le_nat_alt unat_of_nat flags_reserved_bits_clear_def)
  have "decode_payload ?h ?p = Some (Inr (command_sequence c, c))"
    using assms by (cases c)
      (auto simp: decode_payload_def loggable_def command_type_def command_payload_def frame_header_def type_defs
        new_order_codec.decode_payload cancel_codec.decode_payload replace_codec.decode_payload)
  then show thesis
    using enc frame valid decode_header_bytes [of ?h "[]"] len
    by (intro that [of "header_bytes ?h @ ?p" ?h]) (simp_all add: kHeaderSize_def frame_header_def unat_of_nat)
qed

text \<open>What a session hears of the events of a command are the events addressed to it.\<close>

lemma response_types:
  "m \<in> set (spec_response owners sid c a) \<Longrightarrow> om_type m = mt_execution \<or> is_terminal (om_type m)"
  by (auto simp: spec_response_def Let_def execution_messages_def resting_copy_def execution_message_def is_terminal_def
      rejected_message_def accepted_message_def cancelled_message_def
      split: command.splits option.splits if_splits)

lemma response_sessions:
  "m \<in> set (spec_response owners sid c a) \<Longrightarrow> om_session_id m = sid \<or> om_session_id m \<noteq> 0"
  by (auto simp: spec_response_def Let_def execution_messages_def resting_copy_def execution_message_def
      rejected_message_def accepted_message_def cancelled_message_def
      split: command.splits option.splits if_splits)

lemma frames_for_response:
  assumes "sid \<noteq> 0"
  shows "frames_for sid (spec_response owners sid c a) =
    map wire_frame (filter (\<lambda>m. om_session_id m = sid) (spec_response owners sid c a))"
  unfolding frames_for_def
  by (rule arg_cong [where f = "map wire_frame"], rule filter_cong) (use assms in \<open>auto dest: response_sessions\<close>)

lemma answer_awaited:
  assumes "command_ok c" and "c \<noteq> Monostate" and "values_ok a" and "sid \<noteq> 0"
  shows "\<exists>h. await_terminal (concat (frames_for sid (spec_response owners sid c a)) @ rest) = Some (Some h, rest) \<and>
    is_terminal (wh_type h)"
proof -
  let ?r = "spec_response owners sid c a"
  have "answers sid ?r" by (rule response_answers [OF assms(2)])
  then obtain ys t where ys: "filter (\<lambda>x. om_session_id x = sid) ?r = ys @ [t]" "om_type t \<noteq> mt_execution"
      "list_all (\<lambda>y. om_type y = mt_execution) ys" by (auto simp: answers_def list_all_iff)
  have mine: "set (ys @ [t]) \<subseteq> set ?r" unfolding ys(1) [symmetric] by auto
  then have "is_terminal (om_type t)" using response_types [of t] ys(2) by auto
  moreover have "list_all event_ok (ys @ [t])"
    using mine response_ok [OF assms(1,3), of owners sid] unfolding list_all_iff by blast
  ultimately obtain h where "await_terminal (concat (map wire_frame (ys @ [t])) @ rest) = Some (Some h, rest)" "wh_type h = om_type t"
    using await_terminal_frames [OF _ ys(3)] by blast
  then show ?thesis using \<open>is_terminal (om_type t)\<close> unfolding frames_for_response [OF assms(4)] ys(1) by auto
qed

section \<open>Shutting down the exchange\<close>

text \<open>
  The recorder's last loop, after the engine's thread has ended: drain while the stream is good and
  draining succeeds. Then the stream is flushed and the exit status computed.
\<close>

partial_function (option) drain_remaining :: "command ring \<Rightarrow> log_writer \<Rightarrow> (command ring \<times> log_writer) ub" where
  "drain_remaining q w =
     (if lw_good w then do {
        (ok, q', w') \<leftarrow> drain_event_capture_one (\<lambda>c. c) q w;
        if ok then drain_remaining q' w' else Some (q', w')
      } else Some (q, w))"

definition gateway_exit_status :: "event_capture_feed \<Rightarrow> log_writer \<Rightarrow> nat" where
  "gateway_exit_status f w =
     (if ecm_dropped_commands (capture_metrics f) \<noteq> 0 \<or> \<not> lw_good w then 1 else 0)"

lemma append_record_defined:
  assumes "loggable c"
  shows "\<exists>w'. append_record c w = Some (lw_good w', w')"
  using append_record_loggable [OF assms, of w] by (cases "lw_good w") (auto simp: append_record_def Let_def)

lemma drain_one_defined:
  assumes "ring_inv message_capacity q" and "list_all loggable (ring_contents message_capacity q)"
  shows "\<exists>ok q' w'. drain_event_capture_one (\<lambda>c. c) q w = Some (ok, q', w')"
proof -
  obtain out q1 where pop: "try_pop message_capacity (\<lambda>c. c) q = (out, q1)" by fastforce
  note law = message_ring.fifo.pop_law [OF assms(1) pop]
  show ?thesis
  proof (cases "ring_contents message_capacity q")
    case Nil
    then show ?thesis using law by (auto simp: drain_event_capture_one_def pop)
  next
    case (Cons c rest)
    then obtain w1 where "append_record c w = Some (lw_good w1, w1)" using append_record_defined assms(2) by fastforce
    then show ?thesis using law Cons by (simp add: drain_event_capture_one_def pop)
  qed
qed

lemma drain_remaining_done:
  assumes "recorder_inv e w cs" and "en_event_capture_feed e = Some f"
  shows "\<exists>q' w'. drain_remaining (ecf_queue f) w = Some (q', w') \<and>
    recorder_inv (e\<lparr>en_event_capture_feed := Some (f\<lparr>ecf_queue := q'\<rparr>)\<rparr>) w' cs \<and>
    (lw_good w' \<longrightarrow> ring_contents message_capacity q' = [])"
  using assms
proof (induction "captured f" arbitrary: e f w)
  case Nil
  have r: "ring_inv message_capacity (ecf_queue f)" using Nil.prems by (auto simp: recorder_inv_def capture_account_def)
  obtain out q where pop: "try_pop message_capacity (\<lambda>c. c) (ecf_queue f) = (out, q)" by fastforce
  have q: "out = None" "ring_contents message_capacity q = []"
    using message_ring.fifo.pop_law [OF r pop] unfolding Nil.hyps [symmetric] by simp_all
  have d: "drain_event_capture_one (\<lambda>c. c) (ecf_queue f) w = Some (False, q, w)"
    by (simp add: drain_event_capture_one_def pop q(1))
  show ?case
  proof (cases "lw_good w")
    case True
    then have "drain_remaining (ecf_queue f) w = Some (q, w)" using d by (subst drain_remaining.simps) simp
    then show ?thesis using recorder_drain [OF Nil.prems d] q(2) by blast
  next
    case False
    then have "drain_remaining (ecf_queue f) w = Some (ecf_queue f, w)" by (subst drain_remaining.simps) simp
    moreover have "e\<lparr>en_event_capture_feed := Some (f\<lparr>ecf_queue := ecf_queue f\<rparr>)\<rparr> = e" using Nil.prems(2) by simp
    ultimately show ?thesis using Nil.prems(1) False by auto
  qed
next
  case (Cons c rest)
  have r: "ring_inv message_capacity (ecf_queue f)" using Cons.prems by (auto simp: recorder_inv_def capture_account_def)
  obtain out q where pop: "try_pop message_capacity (\<lambda>c. c) (ecf_queue f) = (out, q)" by fastforce
  have q: "out = Some c" "rest = ring_contents message_capacity q"
    using message_ring.fifo.pop_law [OF r pop] unfolding Cons.hyps(2) [symmetric] by simp_all
  have "c \<in> set (captured f)" unfolding Cons.hyps(2) [symmetric] by simp
  then have "loggable c" using Cons.prems by (auto simp: recorder_inv_def capture_account_def list_all_iff)
  then obtain w1 where w1: "append_record c w = Some (lw_good w1, w1)" using append_record_defined by blast
  have d: "drain_event_capture_one (\<lambda>c. c) (ecf_queue f) w = Some (lw_good w1, q, w1)"
    by (simp add: drain_event_capture_one_def pop q(1) w1)
  let ?f = "f\<lparr>ecf_queue := q\<rparr>" and ?e = "e\<lparr>en_event_capture_feed := Some (f\<lparr>ecf_queue := q\<rparr>)\<rparr>"
  note inv1 = recorder_drain [OF Cons.prems d]
  show ?case
  proof (cases "lw_good w \<and> lw_good w1")
    case True
    then have step: "drain_remaining (ecf_queue f) w = drain_remaining q w1" using d by (subst drain_remaining.simps) simp
    have "rest = captured ?f" "en_event_capture_feed ?e = Some ?f" using q(2) by simp_all
    from Cons.hyps(1) [OF this(1) inv1 this(2)] show ?thesis unfolding step by simp
  next
    case False
    show ?thesis
    proof (cases "lw_good w")
      case good: True
      then have "drain_remaining (ecf_queue f) w = Some (q, w1)" using d False by (subst drain_remaining.simps) simp
      then show ?thesis using inv1 False good by blast
    next
      case bad: False
      then have "drain_remaining (ecf_queue f) w = Some (ecf_queue f, w)" by (subst drain_remaining.simps) simp
      moreover have "e\<lparr>en_event_capture_feed := Some (f\<lparr>ecf_queue := ecf_queue f\<rparr>)\<rparr> = e" using Cons.prems(2) by simp
      ultimately show ?thesis using Cons.prems(1) bad by auto
    qed
  qed
qed

section \<open>Properties\<close>

text \<open>
  What the benchmark's client sends, the gateway accepts: every well-formed command is
  encoded into a frame whose header the gateway decodes and validates, announcing exactly the payload
  that follows, and the payload decodes to the command and its sequence number.
\<close>

theorem client_frames_accepted:
  assumes "loggable c"
  shows "\<exists>frame h. client_encode_command c = Some (True, frame) \<and>
    decode_header (take kHeaderSize frame) = Some (Some h) \<and> validate_header h = None \<and>
    length (drop kHeaderSize frame) = unat (wh_payload_length h) \<and>
    decode_payload h (drop kHeaderSize frame) = Some (Inr (command_sequence c, c))"
  using client_frame [OF assms] by blast

theorem client_frames_accepted_witness:
  "\<exists>frame h. client_encode_command (im_command cancel_message) = Some (True, frame) \<and>
     decode_payload h (drop kHeaderSize frame) = Some (Inr (1, im_command cancel_message))"
proof -
  have "loggable (im_command cancel_message)" by code_simp
  from client_frames_accepted [OF this] show ?thesis by (auto simp: cancel_message_def)
qed

text \<open>
  The client's wait ends with the answer: when the engine has processed a command of a
  session, reading the frames that the session was sent, whatever follows them on the socket, stops
  exactly behind the terminal event of that command, without undefined behaviour and without
  touching what follows.
\<close>

theorem client_awaits_answer:
  assumes "engine_reachable e" and "ready e" and "ring_contents message_capacity (en_inbound e) = m # ms"
    and "im_command m \<noteq> Monostate" and "im_session_id m \<noteq> 0" and "process_one now e = Some (busy, e')"
    and "news = drop (length (sent e)) (sent e')"
  shows "\<exists>h. await_terminal (concat (frames_for (im_session_id m) news) @ rest) = Some (Some h, rest) \<and> is_terminal (wh_type h)"
proof -
  have inv: "engine_inv e" "engine_values_ok e" using engine_reachable_inv [OF assms(1)] engine_reachable_values [OF assms(1)] .
  have "news = response m e" using process_one_ready [OF inv(1) assms(2,3), of now] assms(6,7) by auto
  moreover have "command_ok (im_command m)" "values_ok (abs_of (en_book e))"
    using inv assms(3) by (simp_all add: engine_inv_def engine_values_ok_def)
  ultimately show ?thesis using answer_awaited [OF _ assms(4) _ assms(5)] by (simp add: response_def)
qed

theorem client_awaits_answer_witness:
  "\<exists>h. await_terminal (wire_frame unknown_order @ [1, 2, 3]) = Some (Some h, [1, 2, 3]) \<and> is_terminal (wh_type h)"
proof (rule cancel_engine)
  fix e e'
  assume e: "engine_reachable e" "ready e" "inbound_contents e = [cancel_message]" "sent e = []"
    "process_one 5 e = Some (True, e')" "sent e' = [unknown_order]"
  have m: "im_command cancel_message \<noteq> Monostate" "im_session_id cancel_message \<noteq> 0" by (simp_all add: cancel_message_def)
  have "frames_for (im_session_id cancel_message) (drop (length (sent e)) (sent e')) = [wire_frame unknown_order]"
    using e(4,6) by (simp add: frames_for_def cancel_message_def rejected_message_def)
  with client_awaits_answer [OF e(1-3) m e(5) refl, of "[1, 2, 3]"] show ?thesis by simp
qed

text \<open>
  A clean exit means a complete log: the recorder's last loop ends, and if flushing the stream then
  gives exit status 0, the replay tool replays every accepted command from the file and reports the
  digest of the engine's book.
\<close>

lemma clean_exit_complete_log:
  assumes "recorded e w cs" and "en_event_capture_feed e = Some f"
  shows "\<exists>q' w'. drain_remaining (ecf_queue f) (w\<lparr>lw_spills := spills\<rparr>) = Some (q', w') \<and>
    (length cs < 2 ^ 64 \<and> gateway_exit_status (f\<lparr>ecf_queue := q'\<rparr>) (snd (log_flush w')) = 0 \<longrightarrow>
      (\<exists>digest. state_digest (en_book e) = Some digest \<and>
        replay_main [Some (lw_file (snd (log_flush w')))] = Some (Replayed (of_nat (length cs)) digest, 0)))"
proof -
  obtain q' w' where d: "drain_remaining (ecf_queue f) (w\<lparr>lw_spills := spills\<rparr>) = Some (q', w')"
      "recorder_inv (e\<lparr>en_event_capture_feed := Some (f\<lparr>ecf_queue := q'\<rparr>)\<rparr>) w' cs"
      "lw_good w' \<longrightarrow> ring_contents message_capacity q' = []"
    using drain_remaining_done [of e "w\<lparr>lw_spills := spills\<rparr>" cs f] recorded_inv [OF assms(1)] assms(2) by auto
  have "\<exists>digest. state_digest (en_book e) = Some digest \<and>
      replay_main [Some (lw_file (snd (log_flush w')))] = Some (Replayed (of_nat (length cs)) digest, 0)"
    if "length cs < 2 ^ 64 \<and> gateway_exit_status (f\<lparr>ecf_queue := q'\<rparr>) (snd (log_flush w')) = 0"
  proof -
    have z: "ecf_dropped_commands f = 0" "lw_good (snd (log_flush w'))"
      using that by (auto simp: gateway_exit_status_def capture_metrics_def split: if_splits)
    show ?thesis using complete_log_replays [OF d(2) conjunct1 [OF that], of "f\<lparr>ecf_queue := q'\<rparr>"] z(1) log_flush_complete [OF z(2)] d(3)
      by (auto simp: replay_main_def)
  qed
  then show ?thesis using d(1) by (intro exI [of _ q'] exI [of _ w'] conjI impI)
qed

lemma single_record_taken:
  assumes r: "ring_inv message_capacity q" and c: "ring_contents message_capacity q = [c]"
    and "loggable c" and "room_for (length (record_bytes c)) w"
  shows "\<exists>q' w'. drain_event_capture_one (\<lambda>c. c) q w = Some (True, q', w') \<and> room_for 0 w' \<and>
    ring_inv message_capacity q' \<and> ring_contents message_capacity q' = []"
proof -
  obtain q1 where pop: "try_pop message_capacity (\<lambda>c. c) q = (Some c, q1)"
    and q1: "ring_inv message_capacity q1" "ring_contents message_capacity q1 = []"
    using message_ring.fifo.pop_law [OF r, of "\<lambda>c. c"] c by (cases "try_pop message_capacity (\<lambda>c. c) q") auto
  obtain w' where "append_record c w = Some (True, w')" "room_for 0 w'"
    using append_record_room [of c 0 w] assms(3,4) by auto
  then show ?thesis using pop q1 by (simp add: drain_event_capture_one_def)
qed

lemma single_record_drained:
  assumes "ring_inv message_capacity q" and "ring_contents message_capacity q = [c]"
    and "loggable c" and "room_for (length (record_bytes c)) w"
  shows "\<exists>q' w'. drain_remaining q w = Some (q', w') \<and> room_for 0 w'"
proof -
  obtain q1 w1 where w: "drain_event_capture_one (\<lambda>c. c) q w = Some (True, q1, w1)" "room_for 0 w1"
      "ring_inv message_capacity q1" "ring_contents message_capacity q1 = []"
    using single_record_taken [OF assms] by blast
  obtain q2 where pop: "try_pop message_capacity (\<lambda>c. c) q1 = (None, q2)"
    using message_ring.fifo.pop_law [OF w(3), of "\<lambda>c. c"] w(4) by (cases "try_pop message_capacity (\<lambda>c. c) q1") auto
  have "drain_remaining q1 w1 = Some (q2, w1)"
    using w(2) by (subst drain_remaining.simps) (simp add: drain_event_capture_one_def pop room_for_def)
  moreover have "drain_remaining q w = drain_remaining q1 w1"
    using w(1) assms(4) by (subst drain_remaining.simps) (simp add: room_for_def)
  ultimately show ?thesis using w(2) by simp
qed

end
