(* ===== verification/Loopback.thy ===== *)
theory Loopback
  imports Applications
begin

text \<open>
  The gateway mode of the benchmark, \<open>run_gateway_benchmark\<close> of \<open>apps/benchmark/main.cpp\<close>: a client
  sends one command after the other over a socket and waits for its answer. The server behind the
  socket is a parameter. It is then instantiated by the models of gateway and engine, and the run is
  shown to answer every command and to count the same work as the core mode on the same workload.
\<close>

declare length_ring_contents [simp del]

section \<open>The client's run\<close>

text \<open>
  \<open>server s frame\<close> is \<open>None\<close> when writing the frame fails, otherwise the bytes that arrive at the
  client from then on until it sends its next command; a wait for more bytes than that ends with an
  error of the connection. \<open>n\<close> counts the readings of the clock.
\<close>

primrec client_loop ::
    "(nat \<Rightarrow> i64) \<Rightarrow> ('s \<Rightarrow> bytes \<Rightarrow> (bytes \<times> 's) option ub) \<Rightarrow> workload_command list \<Rightarrow> nat \<Rightarrow> bytes \<Rightarrow> 's \<Rightarrow>
     latency_histogram \<Rightarrow> 'd benchmark_result \<Rightarrow> (nat \<times> 's \<times> latency_histogram \<times> 'd benchmark_result) ub" where
  "client_loop clock server [] n unread s latency result = Some (n, s, latency, result)"
| "client_loop clock server (item # items) n unread s latency result = do {
     (encoded, frame) \<leftarrow> client_encode_command (wl_command item);
     if \<not> encoded then Some (n, s, latency, result)
     else do {
       written \<leftarrow> server s frame;
       case written of
         None \<Rightarrow> Some (Suc n, s, latency, result)
       | Some (arrived, s') \<Rightarrow> do {
           (header, unread') \<leftarrow> await_terminal (unread @ arrived);
           if header = None then Some (Suc n, s', latency, result)
           else client_loop clock server items (n + 2) unread' s'
             (observe (elapsed_observation (clock n) (clock (Suc n))) latency)
             (result\<lparr>br_commands := br_commands result + 1\<rparr>)
         }
     }
   }"

definition run_gateway_benchmark ::
    "(nat \<Rightarrow> i64) \<Rightarrow> 'd \<Rightarrow> (size_t \<Rightarrow> u64 \<Rightarrow> 'd) \<Rightarrow> bool \<Rightarrow> ('s \<Rightarrow> bytes \<Rightarrow> (bytes \<times> 's) option ub) \<Rightarrow> ('s \<Rightarrow> engine) \<Rightarrow>
     's \<Rightarrow> workload_command list \<Rightarrow> 'd benchmark_result ub" where
  "run_gateway_benchmark clock zero per_second connected server engine_of s0 workload =
     (if workload = [] \<or> \<not> connected then Some (empty_result zero)
      else do {
        (n, s, latency, result) \<leftarrow> client_loop clock server workload 1 [] s0 empty_histogram (empty_result zero);
        let elapsed = clock n - clock 0;
        let metrics = engine_metrics (engine_of s);
        Some (result\<lparr>br_elapsed_nanoseconds := elapsed,
          br_throughput_per_second := (if elapsed = 0 then zero else per_second (br_commands result) elapsed),
          br_latency := snapshot latency,
          br_accepted_commands := em_accepted_commands metrics, br_rejected_commands := em_rejected_commands metrics,
          br_accepted_cancels := em_accepted_cancels metrics, br_rejected_cancels := em_rejected_cancels metrics,
          br_executions := em_executions metrics, br_inbound_bytes := em_inbound_bytes metrics,
          br_outbound_bytes := em_outbound_bytes metrics,
          br_inbound_queue_high_water := em_inbound_queue_high_water metrics,
          br_outbound_queue_high_water := em_outbound_queue_high_water metrics\<rparr>)
      })"

section \<open>Gateway and engine as the server\<close>

text \<open>
  The session's header and payload reads complete with the client's frame, the engine takes a step,
  the gateway polls and the session's writes complete; \<open>now\<close> and \<open>now'\<close> are the clock of the gateway and of the engine. What the engine sent is moved to its history
  of taken messages.
\<close>

definition serve ::
    "(gateway \<times> engine \<Rightarrow> i64) \<Rightarrow> (gateway \<times> engine \<Rightarrow> i64) \<Rightarrow> u64 \<Rightarrow> gateway \<times> engine \<Rightarrow> bytes \<Rightarrow>
     (bytes \<times> gateway \<times> engine) option ub" where
  "serve now now' sid ge frame = do {
     let (g, e) = ge;
     s \<leftarrow> gw_objects g sid;
     g1 \<leftarrow> on_header sid (Some (take kHeaderSize frame)) g;
     s1 \<leftarrow> gw_objects g1 sid;
     case ts_reading s1 of
       Read_payload h \<Rightarrow> do {
         g2 \<leftarrow> on_payload (now ge) sid h (Some (drop kHeaderSize frame)) g1;
         (busy, e1) \<leftarrow> process_one (now' ge) (e\<lparr>en_inbound := gw_inbound g2\<rparr>);
         (n, g3) \<leftarrow> poll_outbound (g2\<lparr>gw_inbound := en_inbound e1, gw_outbound := en_outbound e1\<rparr>);
         s3 \<leftarrow> gw_objects g3 sid;
         g4 \<leftarrow> finish_writes (length (ts_write_queue s3)) sid g3;
         s4 \<leftarrow> gw_objects g4 sid;
         Some (Some (concat (drop (length (ts_written s)) (ts_written s4)), g4,
           e1\<lparr>en_outbound := gw_outbound g4, en_taken := sent e1\<rparr>))
       }
     | _ \<Rightarrow> Some None
   }"

text \<open>An exchange between two requests of session \<open>sid\<close>, whose last sequence number was \<open>sq\<close>.\<close>

definition idle_exchange :: "u64 \<Rightarrow> u64 \<Rightarrow> gateway \<times> engine \<Rightarrow> bool" where
  "idle_exchange sid sq ge \<longleftrightarrow> (case ge of (g, e) \<Rightarrow>
     gw_inv g \<and> engine_inv e \<and> engine_values_ok e \<and> en_inbound e = gw_inbound g \<and> en_outbound e = gw_outbound g \<and>
     ring_contents message_capacity (gw_inbound g) = [] \<and> ring_contents message_capacity (gw_outbound g) = [] \<and>
     en_turns e = [] \<and> en_market_data_feed e = None \<and> sid \<in> set (gw_sessions g) \<and>
     (\<exists>s. gw_objects g sid = Some s \<and> ts_open s \<and> ts_reading s = Read_header \<and> ts_write_queue s = [] \<and>
        ts_last_sequence s = sq))"

text \<open>Completing all writes of a session that stays open.\<close>

definition all_written :: "tcp_session \<Rightarrow> tcp_session" where
  "all_written s = s\<lparr>ts_writing := False, ts_write_queue := [], ts_written := ts_written s @ ts_write_queue s\<rparr>"

lemma finish_writes_open:
  assumes "gw_objects g sid = Some s" and "ts_write_queue s \<noteq> []" and "\<not> ts_close_after_write s"
  shows "finish_writes (length (ts_write_queue s)) sid g = Some (on_session sid all_written g)"
  using assms
proof (induction "ts_write_queue s" arbitrary: g s)
  case (Cons f fs)
  have q: "ts_write_queue s = f # fs" using Cons.hyps(2) by simp
  let ?s = "after_write s" and ?g = "on_session sid after_write g"
  have w: "on_write sid False g = Some ?g" using on_write_eq [OF Cons.prems(1,2)] Cons.prems(3) by simp
  show ?case
  proof (cases fs)
    case Nil
    have "after_write s = all_written s"
      using q Nil Cons.prems(3) by (simp add: after_write_def pop_written_def all_written_def)
    then show ?thesis using q Nil w Cons.prems(1) by (simp add: on_session_def)
  next
    case more: (Cons f' fs')
    have a: "fs = ts_write_queue ?s" "\<not> ts_close_after_write ?s" "all_written ?s = all_written s"
      using q more Cons.prems(3) by (simp_all add: after_write_def pop_written_def do_write_def all_written_def)
    have g: "gw_objects ?g sid = Some ?s" using Cons.prems(1) by simp
    have "ts_write_queue ?s \<noteq> []" unfolding a(1) [symmetric] using more by simp
    from Cons.hyps(1) [OF a(1) g this a(2)] have "finish_writes (length fs) sid ?g = Some (on_session sid all_written ?g)"
      unfolding a(1) [symmetric] .
    then show ?thesis using q w a(3) Cons.prems(1) by (simp add: on_session_def)
  qed
qed simp

lemma session_ok_all_written: "session_ok s \<Longrightarrow> session_ok (all_written s)"
  by (auto simp: session_ok_def all_written_def)

lemma on_header_accepts:
  assumes "gw_inv g" and "gw_objects g sid = Some s" and "ts_reading s = Read_header"
    and "decode_header bs = Some (Some h)" and "validate_header h = None"
  shows "on_header sid (Some bs) g = Some (on_session sid (do_read_payload h \<circ> idle) g)"
    "gw_inv (on_session sid (do_read_payload h \<circ> idle) g)"
proof -
  show "on_header sid (Some bs) g = Some (on_session sid (do_read_payload h \<circ> idle) g)"
    using assms(4,5) by (simp add: on_header_def)
  have "\<not> ts_close_after_write s" "session_ok s" using gw_invD(1) [OF assms(1,2)] assms(3) by (auto simp: session_ok_def)
  then have "session_ok ((do_read_payload h \<circ> idle) s)" using assms(5) by (simp add: session_ok_def do_read_payload_def)
  then show "gw_inv (on_session sid (do_read_payload h \<circ> idle) g)"
    by (rule gw_inv_session [OF assms(1,2)]) (simp add: do_read_payload_def)
qed

section \<open>One request\<close>

lemma serve_answers:
  assumes idle: "idle_exchange sid sq0 (g, e)" and c: "loggable c" and sq: "sq0 < command_sequence c"
    and fits: "length (spec_response (en_order_sessions e) sid c (abs_of (en_book e))) \<le> 4096"
  obtains frame g' e' accepted where "client_encode_command c = Some (True, frame)"
    "serve now now' sid (g, e) frame =
       Some (Some (concat (frames_for sid (spec_response (en_order_sessions e) sid c (abs_of (en_book e)))), g', e'))"
    "idle_exchange sid (command_sequence c) (g', e')" "spec_apply c (abs_of (en_book e)) = (accepted, abs_of (en_book e'))"
    "en_order_sessions e' = spec_owners (en_order_sessions e) sid c accepted (abs_of (en_book e'))"
    "counted c accepted (length (spec_executions c (abs_of (en_book e)))) (en_metrics e) (en_metrics e')"
proof -
  define ms where "ms = spec_response (en_order_sessions e) sid c (abs_of (en_book e))"
  note i = idle [unfolded idle_exchange_def prod.case]
  obtain s where s: "gw_objects g sid = Some s" "ts_open s" "ts_reading s = Read_header" "ts_write_queue s = []"
      "ts_last_sequence s = sq0" using i by blast
  have inv: "gw_inv g" "engine_inv e" "engine_values_ok e" and shared: "en_inbound e = gw_inbound g" "en_outbound e = gw_outbound g"
    and alone: "en_turns e = []" "en_market_data_feed e = None" and mem: "sid \<in> set (gw_sessions g)"
    and drained: "ring_contents message_capacity (gw_inbound g) = []" "ring_contents message_capacity (gw_outbound g) = []"
    using i by blast+
  have open_end: "\<not> ts_close_after_write s" and sid: "sid \<noteq> 0"
    using gw_invD(1,2) [OF inv(1) s(1)] s(3) by (auto simp: session_ok_def)
  obtain frame h where f: "client_encode_command c = Some (True, frame)"
      "decode_header (take kHeaderSize frame) = Some (Some h)" "validate_header h = None"
      "decode_payload h (drop kHeaderSize frame) = Some (Inr (command_sequence c, c))"
    using client_frame [OF c] by blast
  let ?g1 = "on_session sid (do_read_payload h \<circ> idle) g" and ?s1 = "do_read_payload h (idle s)"
  note h1 = on_header_accepts [OF inv(1) s(1,3) f(2,3)]
  have s1: "gw_objects ?g1 sid = Some ?s1" "ts_reading ?s1 = Read_payload h" "ts_last_sequence ?s1 < command_sequence c"
    "ts_open ?s1" "ts_write_queue ?s1 = []" "ts_written ?s1 = ts_written s" "\<not> ts_close_after_write ?s1"
    using s sq open_end by (simp_all add: do_read_payload_def)
  have q1: "en_inbound e = gw_inbound ?g1" "en_outbound e = gw_outbound ?g1"
    "ring_contents message_capacity (gw_inbound ?g1) = []" "ring_contents message_capacity (gw_outbound ?g1) = []"
    using shared drained by simp_all
  have fits': "length ms \<le> 4096" using fits by (simp add: ms_def)
  obtain g2 e1 g3 accepted where served: "on_payload (now (g, e)) sid h (Some (drop kHeaderSize frame)) ?g1 = Some g2"
      "process_one (now' (g, e)) (e\<lparr>en_inbound := gw_inbound g2\<rparr>) = Some (True, e1)"
      "poll_outbound (g2\<lparr>gw_inbound := en_inbound e1, gw_outbound := en_outbound e1\<rparr>) = Some (of_nat (length ms), g3)"
      "spec_apply c (abs_of (en_book e)) = (accepted, abs_of (en_book e1))"
      "en_order_sessions e1 = spec_owners (en_order_sessions e) sid c accepted (abs_of (en_book e1))"
      "counted c accepted (length (spec_executions c (abs_of (en_book e)))) (en_metrics e) (en_metrics e1)"
      "list_all event_ok ms" "engine_inv e1" "engine_values_ok e1" "gw_inv g3" "gw_sessions g3 = gw_sessions ?g1"
      "gw_inbound g3 = en_inbound e1" "ring_contents message_capacity (en_inbound e1) = []"
      "ring_contents message_capacity (gw_outbound g3) = []" "en_turns e1 = []" "en_market_data_feed e1 = None"
      "gw_objects g3 sid = Some (fold send_raw_frame (frames_for sid ms) (?s1\<lparr>ts_last_sequence := command_sequence c, ts_reading := Read_header\<rparr>))"
    by (rule request_served [OF h1(2) inv(2,3) q1 alone s1(1,2) f(4) s1(3) ms_def [symmetric] fits', of "now (g, e)" "now' (g, e)"])
      (rule that, use s1(1) mem in auto)
  let ?t = "?s1\<lparr>ts_last_sequence := command_sequence c, ts_reading := Read_header\<rparr>" and ?fs = "frames_for sid ms"
  define s3 where "s3 = fold send_raw_frame ?fs ?t"
  have "c \<noteq> Monostate" using c by (auto simp: loggable_def)
  then have "answers sid ms" unfolding ms_def by (rule response_answers)
  then have "frames_for sid ms \<noteq> []" using frames_for_response [OF sid] by (auto simp: ms_def answers_def)
  moreover note fold_send_open [OF _ wire_frames_nonempty [OF served(7)], of ?t sid, folded s3_def]
  ultimately have s3: "ts_write_queue s3 = ?fs" "ts_write_queue s3 \<noteq> []" "ts_written s3 = ts_written s" "ts_open s3"
      "ts_reading s3 = Read_header" "ts_last_sequence s3 = command_sequence c" "\<not> ts_close_after_write s3"
    using s1(4-7) by simp_all
  have g3: "gw_objects g3 sid = Some s3" using served(17) by (simp add: s3_def)
  let ?g4 = "on_session sid all_written g3" and ?e' = "e1\<lparr>en_outbound := gw_outbound g3, en_taken := sent e1\<rparr>"
  have w: "finish_writes (length (ts_write_queue s3)) sid g3 = Some ?g4" by (rule finish_writes_open [OF g3 s3(2,7)])
  have "serve now now' sid (g, e) frame = Some (Some (concat ?fs, ?g4, ?e'))"
    using s(1) h1(1) s1(1,2) served(1-3) g3 w s3(1,3) by (simp add: serve_def all_written_def)
  moreover have "gw_inv ?g4"
    by (rule gw_inv_session [OF served(10) g3])
      (simp_all add: session_ok_all_written gw_invD(1) [OF served(10) g3], simp add: all_written_def)
  moreover have "engine_inv ?e'" "engine_values_ok ?e'"
    using served(8-10,14) by (simp_all add: engine_inv_def engine_values_ok_def gw_inv_def sent_def)
  ultimately show thesis
    using that [of frame ?g4 ?e' accepted] f(1) served(4-6,11-16) mem s3 g3
    by (simp add: idle_exchange_def ms_def all_written_def)
qed

section \<open>The whole run\<close>

text \<open>No command of \<open>cs\<close> has more events than the outbound queue holds, by the specification.\<close>

primrec answers_fit :: "(order_id \<rightharpoonup> u64) \<Rightarrow> u64 \<Rightarrow> abs_book \<Rightarrow> command list \<Rightarrow> bool" where
  "answers_fit owners sid a [] = True"
| "answers_fit owners sid a (c # cs) =
     (length (spec_response owners sid c a) \<le> 4096 \<and>
      (let (accepted, a') = spec_apply c a in answers_fit (spec_owners owners sid c accepted a') sid a' cs))"

text \<open>A command trades at most with every resting order, so short runs always fit.\<close>

abbreviation depth :: "abs_book \<Rightarrow> nat" where
  "depth a \<equiv> length (ab_bids a) + length (ab_asks a)"

lemma spec_match_length:
  "spec_match crosses inc rem es = (xs, rem', es') \<Longrightarrow> length xs \<le> length es \<and> length es' \<le> length es"
  by (induction es arbitrary: rem xs rem' es') (auto simp: Let_def split: if_splits prod.splits, fastforce+)

lemma spec_take_depth:
  "spec_take inc side type limit rem a = (xs, rem', a') \<Longrightarrow> length xs \<le> depth a \<and> depth a' \<le> depth a"
  by (cases side) (auto simp: spec_take_def Let_def split: prod.splits dest!: spec_match_length)

lemma spec_rest_depth [simp]: "depth (spec_rest side x a) = Suc (depth a)"
proof -
  have "length (spec_insert better x es) = Suc (length es)" for better and es :: "entry list"
    unfolding spec_insert_def by (metis add_Suc_right length_Cons length_append takeWhile_dropWhile_id)
  then show ?thesis by (cases side) (simp_all add: spec_rest_def)
qed

lemma spec_delete_depth: "depth (spec_delete oid a) \<le> depth a"
  unfolding spec_delete_def by simp (meson add_mono length_filter_le)

lemma spec_apply_depth: "depth (snd (spec_apply c a)) \<le> Suc (depth a)"
proof (cases c)
  case (New_order order)
  then show ?thesis
    by (auto simp: spec_apply_def spec_submit_def Let_def split: prod.splits if_splits dest!: spec_take_depth)
next
  case (Cancel_order order)
  then show ?thesis using spec_delete_depth [of "co_order_id order" a]
    by (auto simp: spec_apply_def spec_cancel_def split: option.splits)
next
  case (Replace_order order)
  then show ?thesis using spec_delete_depth [of "rpo_order_id order" a]
    by (auto simp: spec_apply_def spec_replace_def spec_requantify_def Let_def split: option.splits prod.splits if_splits
        dest!: spec_take_depth)
qed (simp add: spec_apply_def)

lemma spec_executions_length: "length (spec_executions c a) \<le> depth a"
proof (cases c)
  case (New_order order)
  then show ?thesis
    by (auto simp: spec_executions_def spec_submit_def Let_def split: prod.splits dest!: spec_take_depth)
next
  case (Replace_order order)
  then show ?thesis using spec_delete_depth [of "rpo_order_id order" a]
    by (auto simp: spec_executions_def spec_replace_def Let_def split: option.splits prod.splits dest!: spec_take_depth)
qed (simp_all add: spec_executions_def)

lemma response_length: "length (spec_response owners sid c a) \<le> 2 * depth a + 1"
proof -
  have "length (execution_messages owners sid sq xs) \<le> 2 * length xs" for sq xs
    by (induction xs) (auto simp: resting_copy_def Let_def split: option.splits)
  then have "length (execution_messages owners sid sq (spec_executions c a)) \<le> 2 * depth a" for sq
    using spec_executions_length [of c a] by (meson le_trans mult_le_mono2)
  then show ?thesis
    by (cases c) (auto simp: spec_response_def spec_executions_def Let_def split: option.split)
qed

lemma short_runs_fit: "depth a + length cs \<le> 2048 \<Longrightarrow> answers_fit owners sid a cs"
proof (induction cs arbitrary: owners a)
  case (Cons c cs)
  have "depth (snd (spec_apply c a)) + length cs \<le> 2048" using spec_apply_depth [of c a] Cons.prems by simp
  then show ?case using response_length [of owners sid c a] Cons by (simp add: case_prod_unfold)
qed simp

text \<open>The counters that both modes of the benchmark report.\<close>

definition same_counts :: "'d benchmark_result \<Rightarrow> matching_engine_metrics \<Rightarrow> bool" where
  "same_counts r m \<longleftrightarrow> br_accepted_commands r = em_accepted_commands m \<and> br_rejected_commands r = em_rejected_commands m \<and>
     br_accepted_cancels r = em_accepted_cancels m \<and> br_rejected_cancels r = em_rejected_cancels m \<and>
     br_executions r = em_executions m"

lemma core_step:
  assumes b: "book_reachable b" and ok: "command_ok c" and eq: "same_counts r m"
    and spec: "spec_apply c (abs_of b) = (accepted, a')"
    and counted: "counted c accepted (length (spec_executions c (abs_of b))) m m'"
  obtains b' r' where "bench_apply b c r = Some (accepted, b', r')" "book_reachable b'" "abs_of b' = a'"
    "same_counts (if accepted then r'\<lparr>br_accepted_commands := br_accepted_commands r' + 1\<rparr>
       else r'\<lparr>br_rejected_commands := br_rejected_commands r' + 1\<rparr>) m'"
proof -
  obtain accepted' b' where "apply_command b c = Some (accepted', b')"
    using book.step_simulates [OF ok reachable_inv [OF b]] by auto
  with command_spec [OF b ok this] spec have app: "apply_command b c = Some (accepted, b')" "abs_of b' = a'" by simp_all
  note b' = command_reachable [OF b ok app(1)]
  show thesis
  proof (cases c)
    case (New_order order)
    then obtain res where res: "submit order b = Some (res, b')" "accepted = submit_accepted res"
      using app(1) by (auto simp: apply_command_def bind_ub_eq_Some)
    have "spec_submit order (abs_of b) = (res, abs_of b')"
      using reachable_submit(2) [OF b _ res(1)] ok New_order by (simp add: command_ok_def)
    then show ?thesis using that [of b'] res b' app(2) counted eq New_order
      by (auto simp: bench_apply_def same_counts_def counted_def spec_executions_def)
  next
    case (Cancel_order order)
    then obtain res where "cancel order b = Some (res, b')" "accepted = cancel_accepted res"
      using app(1) by (auto simp: apply_command_def bind_ub_eq_Some)
    then show ?thesis using that [of b'] b' app(2) counted eq Cancel_order
      by (auto simp: bench_apply_def same_counts_def counted_def spec_executions_def)
  next
    case (Replace_order order)
    then obtain res where res: "replace order b = Some (res, b')" "accepted = replace_accepted res"
      using app(1) by (auto simp: apply_command_def bind_ub_eq_Some)
    have "spec_replace order (abs_of b) = (res, abs_of b')"
      using reachable_replace(2) [OF b _ res(1)] ok Replace_order by (simp add: command_ok_def)
    then show ?thesis using that [of b'] res b' app(2) counted eq Replace_order
      by (auto simp: bench_apply_def same_counts_def counted_def spec_executions_def)
  next
    case Monostate
    then show ?thesis using that [of b'] b' app counted eq
      by (auto simp: bench_apply_def apply_command_def same_counts_def counted_def spec_executions_def)
  qed
qed

text \<open>Both modes side by side: the core loop on one book and the client's loop on gateway and engine.\<close>

lemma modes_in_step:
  assumes "list_all (\<lambda>w. wl_symbol_index w = 0 \<and> loggable (wl_command w)) ws"
    and "sorted_wrt (<) (sq0 # map item_sequence ws)" and "book_reachable b" and "idle_exchange sid sq0 (g, e)"
    and "abs_of b = abs_of (en_book e)" and "same_counts r (en_metrics e)"
    and "answers_fit (en_order_sessions e) sid (abs_of (en_book e)) (map wl_command ws)"
  shows "\<exists>books h' r' n' ge' latency' result'. bench_loop clock i ws [b] h r = Some (books, h', r') \<and>
    client_loop clock' (serve now now' sid) ws n [] (g, e) latency result = Some (n', ge', latency', result') \<and>
    same_counts r' (en_metrics (snd ge')) \<and> br_commands result' = br_commands result + of_nat (length ws) \<and>
    lh_count h' = lh_count h + of_nat (length ws) \<and> lh_count latency' = lh_count latency + of_nat (length ws)"
  using assms
proof (induction ws arbitrary: sq0 b g e i h r n latency result)
  case Nil
  then show ?case by simp
next
  case (Cons w ws)
  let ?c = "wl_command w" and ?a = "abs_of (en_book e)"
  have c: "loggable ?c" "command_ok ?c" "wl_symbol_index w = 0" using Cons.prems(1) loggable_ok by auto
  have seq: "item_sequence w = command_sequence ?c" by (cases ?c) simp_all
  have "length (spec_response (en_order_sessions e) sid ?c ?a) \<le> 4096" "sq0 < command_sequence ?c"
    using Cons.prems(2,7) seq by (auto simp del: item_sequence.simps)
  then obtain frame g1 e1 accepted where s: "client_encode_command ?c = Some (True, frame)"
      "serve now now' sid (g, e) frame = Some (Some (concat (frames_for sid (spec_response (en_order_sessions e) sid ?c ?a)), g1, e1))"
      "idle_exchange sid (command_sequence ?c) (g1, e1)" "spec_apply ?c ?a = (accepted, abs_of (en_book e1))"
      "en_order_sessions e1 = spec_owners (en_order_sessions e) sid ?c accepted (abs_of (en_book e1))"
      "counted ?c accepted (length (spec_executions ?c ?a)) (en_metrics e) (en_metrics e1)"
    using serve_answers [OF Cons.prems(4) c(1), of now now'] by blast
  obtain b1 r1 where b1: "bench_apply b ?c r = Some (accepted, b1, r1)" "book_reachable b1" "abs_of b1 = abs_of (en_book e1)"
      "same_counts (if accepted then r1\<lparr>br_accepted_commands := br_accepted_commands r1 + 1\<rparr>
         else r1\<lparr>br_rejected_commands := br_rejected_commands r1 + 1\<rparr>) (en_metrics e1)"
    using core_step [OF Cons.prems(3) c(2) Cons.prems(6)] s(4,6) unfolding Cons.prems(5) by blast
  have i: "engine_values_ok e" "sid \<noteq> 0"
    using Cons.prems(4) gw_invD(2) by (fastforce simp: idle_exchange_def)+
  have "?c \<noteq> Monostate" using c(1) by (auto simp: loggable_def)
  then obtain hd where w: "await_terminal (concat (frames_for sid (spec_response (en_order_sessions e) sid ?c ?a))) = Some (Some hd, [])"
    using answer_awaited [OF c(2) _ _ i(2), of ?a "en_order_sessions e" "[]"] i(1) by (auto simp: engine_values_ok_def)
  have sorted: "sorted_wrt (<) (command_sequence ?c # map item_sequence ws)"
    using Cons.prems(2) seq by (simp del: item_sequence.simps)
  have fit: "answers_fit (en_order_sessions e1) sid (abs_of (en_book e1)) (map wl_command ws)"
    using Cons.prems(7) s(4,5) by simp
  let ?h = "observe (elapsed_observation (clock (2 * i + 1)) (clock (2 * i + 2))) h"
  let ?l = "observe (elapsed_observation (clock' n) (clock' (Suc n))) latency"
  have all: "list_all (\<lambda>w. wl_symbol_index w = 0 \<and> loggable (wl_command w)) ws" using Cons.prems(1) by simp
  obtain books h' r' n' ge' latency' result' where ih:
      "bench_loop clock (Suc i) ws [b1] ?h (if accepted then r1\<lparr>br_accepted_commands := br_accepted_commands r1 + 1\<rparr>
         else r1\<lparr>br_rejected_commands := br_rejected_commands r1 + 1\<rparr>) = Some (books, h', r')"
      "client_loop clock' (serve now now' sid) ws (n + 2) [] (g1, e1) ?l (result\<lparr>br_commands := br_commands result + 1\<rparr>) =
         Some (n', ge', latency', result')"
      "same_counts r' (en_metrics (snd ge'))" "br_commands result' = br_commands result + 1 + of_nat (length ws)"
      "lh_count h' = lh_count ?h + of_nat (length ws)" "lh_count latency' = lh_count ?l + of_nat (length ws)"
    using Cons.IH [OF all sorted b1(2) s(3) b1(3,4) fit, of "Suc i" ?h "n + 2" ?l "result\<lparr>br_commands := br_commands result + 1\<rparr>"]
    by auto
  have "bench_item w [b] r = Some (accepted, [b1], r1)" using b1(1) c(3) by (simp add: bench_item_def)
  then have "bench_loop clock i (w # ws) [b] h r = Some (books, h', r')" using ih(1) by (simp add: Let_def)
  moreover have "client_loop clock' (serve now now' sid) (w # ws) n [] (g, e) latency result = Some (n', ge', latency', result')"
    using s(1,2) w ih(2) by simp
  moreover have "lh_count ?h = lh_count h + 1" "lh_count ?l = lh_count latency + 1" by (simp_all add: observe_def Let_def)
  ultimately show ?case using ih(3-6) by (intro exI conjI) (assumption | simp add: algebra_simps)+
qed

lemma sorted_count_up: "n < 2 ^ 64 \<Longrightarrow> sorted_wrt (<) (0 # count_up n)"
proof (induction n)
  case (Suc n)
  have "v < of_nat (Suc n)" if "v \<in> set (0 # count_up n)" for v
  proof -
    have "\<exists>i \<le> n. v = of_nat i"
    proof (cases "v = 0")
      case True
      then show ?thesis by (intro exI [of _ 0]) simp
    qed (use that in \<open>auto simp: count_up_def intro: less_imp_le\<close>)
    then show ?thesis using Suc.prems by (auto simp: word_less_nat_alt unat_of_nat simp del: of_nat_Suc)
  qed
  then show ?case using Suc unfolding count_up_Suc by (simp add: sorted_wrt_append del: of_nat_Suc)
qed simp

section \<open>Properties\<close>

lemma connected_idle: "idle_exchange 1 0 (connected_gateway, fresh_engine)"
proof -
  have "gw_inv connected_gateway" by (rule gw_reachable_inv [OF connected_reachable])
  moreover have "engine_inv fresh_engine" "engine_values_ok fresh_engine"
    using engine_reachable_inv engine_reachable_values fresh_engine_reachable by blast+
  moreover have "en_inbound fresh_engine = gw_inbound connected_gateway" "en_outbound fresh_engine = gw_outbound connected_gateway"
    "ring_contents message_capacity (gw_inbound connected_gateway) = []" "en_turns fresh_engine = []"
    by (simp_all add: fresh_engine_def make_engine_def example_defs ring_inv_empty)
  ultimately show ?thesis by (simp add: idle_exchange_def do_read_header_def make_session_def ring_inv_empty)
qed

text \<open>
  Claim C34. Both modes of the benchmark do the same work. Take a generated workload on one symbol with
  at most 100000 price levels, in which no command has more events than the outbound queue holds. (With
  more levels, which the command line accepts, an order may be generated without a price: the core mode
  counts it as rejected, while the gateway answers it with a protocol error and ends the session.) With a
  server in which gateway and engine handle one request after the other, the gateway mode returns: the
  client's frames go through the session, the inbound queue, the engine, the outbound queue and the
  session's writes, and the client reads the answer of every command. It completes as many commands
  as the core mode and reports the same numbers of accepted and rejected commands, accepted and
  rejected cancels and executions, whatever the clocks show.
\<close>

theorem benchmark_modes_agree:
  assumes "\<not> config_rejected config" and "wc_book_levels config \<le> 100000" and "wc_symbol_count config = 1"
    and "make_workload config = Some ws" and "answers_fit Map.empty 1 (abs_of empty_book) (map wl_command ws)"
  shows "\<exists>r r'. run_core_benchmark clock zero per_second ws (wc_symbol_count config) warmup = Some r \<and>
    run_gateway_benchmark clock' zero per_second True (serve now now' 1) snd (connected_gateway, fresh_engine) ws = Some r' \<and>
    br_commands r' = br_commands r \<and> ls_count (br_latency r') = ls_count (br_latency r) \<and>
    br_accepted_commands r' = br_accepted_commands r \<and> br_rejected_commands r' = br_rejected_commands r \<and>
    br_accepted_cancels r' = br_accepted_cancels r \<and> br_rejected_cancels r' = br_rejected_cancels r \<and>
    br_executions r' = br_executions r"
proof -
  obtain ws' where ws: "make_workload config = Some ws'" "length ws' = unat (wc_command_count config)" "ws' \<noteq> []"
      "list_all (item_ok config) ws'" "map item_sequence ws' = count_up (length ws')"
      "run_warmup zero ws' (wc_symbol_count config) warmup = Some ()"
    by (rule generated_workload [OF assms(1,2), of zero warmup])
  have [simp]: "ws' = ws" using assms(4) ws(1) by simp
  have items: "list_all (\<lambda>w. wl_symbol_index w = 0 \<and> loggable (wl_command w)) ws"
    using ws(4) assms(3) by (auto simp: list_all_iff item_ok_def word_less_nat_alt unat_eq_zero)
  have sorted: "sorted_wrt (<) (0 # map item_sequence ws)"
    using sorted_count_up [of "length ws"] ws(2,5) unsigned_less [where 'a = nat, of "wc_command_count config"] by simp
  have start: "same_counts (empty_result zero) (en_metrics fresh_engine)"
    by (simp add: same_counts_def empty_result_def fresh_engine_def make_engine_def zero_metrics_def)
  have fit: "answers_fit (en_order_sessions fresh_engine) 1 (abs_of (en_book fresh_engine)) (map wl_command ws)"
    using assms(5) by simp
  have same: "abs_of empty_book = abs_of (en_book fresh_engine)" by simp
  obtain books h r n ge latency result where run:
      "bench_loop clock 0 ws [empty_book] empty_histogram (empty_result zero) = Some (books, h, r)"
      "client_loop clock' (serve now now' 1) ws 1 [] (connected_gateway, fresh_engine) empty_histogram (empty_result zero) =
         Some (n, ge, latency, result)"
      "same_counts r (en_metrics (snd ge))" "br_commands result = br_commands (empty_result zero) + of_nat (length ws)"
      "lh_count h = lh_count empty_histogram + of_nat (length ws)" "lh_count latency = lh_count empty_histogram + of_nat (length ws)"
    using modes_in_step [OF items sorted book_reachable.empty connected_idle same start fit,
        where clock = clock and i = 0 and h = empty_histogram and clock' = clock' and now = now and now' = now' and n = 1
          and latency = empty_histogram and result = "empty_result zero"] by blast
  show ?thesis using ws run assms(3)
    by (simp add: run_core_benchmark_def run_gateway_benchmark_def Let_def snapshot_def same_counts_def engine_metrics_def empty_result_def)
qed

theorem benchmark_modes_agree_witness:
  "\<exists>ws r r'. make_workload small_config = Some ws \<and>
     run_core_benchmark (\<lambda>n. of_nat n) (0 :: nat) (\<lambda>n t. unat n) ws 1 2 = Some r \<and>
     run_gateway_benchmark (\<lambda>n. of_nat n) (0 :: nat) (\<lambda>n t. unat n) True (serve (\<lambda>_. 4) (\<lambda>_. 5) 1) snd
       (connected_gateway, fresh_engine) ws = Some r' \<and>
     br_commands r' = br_commands r \<and> br_executions r' = br_executions r"
proof -
  obtain ws where ws: "make_workload small_config = Some ws" "length ws = 5"
    by (rule generated_workload [OF small_config_ok(1,2)]) (simp add: small_config_ok(3))
  have one: "wc_symbol_count small_config = 1" by (simp add: small_config_def default_workload_config_def)
  have "answers_fit Map.empty 1 (abs_of empty_book) (map wl_command ws)"
    by (rule short_runs_fit) (simp add: ws(2) abs_of_def empty_book_def)
  from benchmark_modes_agree [OF small_config_ok(1,2) one ws(1) this, where clock = "\<lambda>n. of_nat n" and clock' = "\<lambda>n. of_nat n"
      and zero = "0 :: nat" and per_second = "\<lambda>n t. unat n" and warmup = 2 and now = "\<lambda>_. 4" and now' = "\<lambda>_. 5"]
  show ?thesis using ws(1) one by auto
qed

end
