(* ===== verification/Exchange_Run.thy ===== *)
theory Exchange_Run
  imports Applications "HOL-Library.Sublist"
begin

text \<open>
  The running exchange: \<open>run_gateway\<close> of \<open>apps/low_latency_exchange/main.cpp\<close>. The parts are
  constructed and wired as there; then the threads interleave: the network thread completes
  operations of the gateway, the engine's thread processes commands, the publisher and the recorder
  take from their queues, and a signal ends the network thread. The queues are shared: both ends hold
  the same ring in every state.

  Messages that the gateway takes off the outbound queue while the engine waits in \<open>push_outbound\<close> are
  in flight until they are delivered, in the order in which they were taken. Other completions of the
  gateway may run in between, which covers every order in which the gateway's thread can run during
  the engine's wait.
\<close>

declare length_ring_contents [simp del]

section \<open>Construction\<close>

definition default_inbound_message :: inbound_message where
  "default_inbound_message = \<lparr>im_session_id = 0, im_command = Monostate, im_wire_bytes = 0, im_received_at = 0\<rparr>"

definition default_outbound_message :: outbound_message where
  "default_outbound_message = \<lparr>om_session_id = 0, om_type = mt_order_accepted, om_flags = 0, om_payload = No_payload\<rparr>"

definition default_market_data_event :: market_data_event where
  "default_market_data_event = \<lparr>me_sequence = None, me_kind = Snapshot,
     me_bids = replicate kMarketDataDepth None, me_asks = replicate kMarketDataDepth None\<rparr>"

record exchange =
  ex_gateway :: gateway
  ex_engine :: engine
  ex_in_flight :: "outbound_message list"
  ex_published_book :: market_data_book
  ex_event_log_writer :: "log_writer option"
  ex_serving :: bool

text \<open>
  \<open>log\<close> is \<open>None\<close> without a log path, otherwise whether the file can be opened and how many bytes its
  device takes. A log that cannot be opened throws: no exchange is started.
\<close>

definition start_exchange :: "(bool \<times> nat) option \<Rightarrow> exchange option" where
  "start_exchange log =
     (let inbound = empty_ring message_capacity default_inbound_message;
          outbound = empty_ring message_capacity default_outbound_message;
          market_data_feed = make_feed (empty_ring market_data_capacity default_market_data_event) 64;
          event_capture_feed = make_capture_feed (empty_ring message_capacity Monostate);
          event_log_writer = map_option (\<lambda>(opened, space). make_log_writer opened space) log
      in if (case event_log_writer of Some w \<Rightarrow> \<not> lw_good w | None \<Rightarrow> False) then None
         else Some \<lparr>ex_gateway = start (make_gateway inbound outbound),
           ex_engine = make_engine inbound outbound (Some market_data_feed)
             (if event_log_writer = None then None else Some event_capture_feed) [],
           ex_in_flight = [], ex_published_book = empty_market_data_book,
           ex_event_log_writer = event_log_writer, ex_serving = True\<rparr>)"

section \<open>Threads\<close>

definition with_gateway :: "gateway \<Rightarrow> exchange \<Rightarrow> exchange" where
  "with_gateway g x = x\<lparr>ex_gateway := g, ex_engine := (ex_engine x)\<lparr>en_inbound := gw_inbound g\<rparr>\<rparr>"

text \<open>The gateway has taken every message but those left in \<open>q\<close>.\<close>

definition taken_to :: "outbound_message ring \<Rightarrow> engine \<Rightarrow> engine" where
  "taken_to q e = e\<lparr>en_outbound := q,
     en_taken := take (length (sent e) - length (ring_contents message_capacity q)) (sent e)\<rparr>"

fun is_timer :: "completion \<Rightarrow> bool" where
  "is_timer (Timer_expired failed) = True"
| "is_timer _ = False"

text \<open>
  \<open>exchange_step\<close> is one step of one thread. The log's stream may pass any part of its buffer on while
  the recorder writes. The engine's thread stays inside \<open>push_outbound\<close> as long as its messages do not
  get through, and a level that holds \<open>2 ^ 64\<close> units or more makes publishing the book undefined: the
  engine's step is that of a command whose processing ends (\<open>ready\<close>).
\<close>

inductive exchange_step :: "exchange \<Rightarrow> exchange \<Rightarrow> bool" where
  network: "ex_serving x \<Longrightarrow> pending c (ex_gateway x) \<Longrightarrow> \<not> is_timer c \<Longrightarrow> complete c (ex_gateway x) = Some g \<Longrightarrow>
     exchange_step x (with_gateway g x)"
| timer: "ex_serving x \<Longrightarrow> ex_in_flight x = [] \<Longrightarrow> pending (Timer_expired failed) (ex_gateway x) \<Longrightarrow>
     complete (Timer_expired failed) (ex_gateway x) = Some g \<Longrightarrow>
     exchange_step x (x\<lparr>ex_gateway := g, ex_engine := taken_to (gw_outbound g) (ex_engine x)\<rparr>)"
| delivery: "ex_serving x \<Longrightarrow> ex_in_flight x = m # ms \<Longrightarrow> serialize_outbound m = Some frame \<Longrightarrow>
     exchange_step x (x\<lparr>ex_gateway := deliver m frame (ex_gateway x), ex_in_flight := ms\<rparr>)"
| engine: "e = (ex_engine x)\<lparr>en_turns := turns\<rparr> \<Longrightarrow> ex_serving x \<or> turns = [] \<Longrightarrow> ready e \<Longrightarrow>
     process_one now e = Some (busy, e') \<Longrightarrow>
     exchange_step x (x\<lparr>ex_engine := e'\<lparr>en_turns := []\<rparr>,
       ex_gateway := (ex_gateway x)\<lparr>gw_inbound := en_inbound e', gw_outbound := en_outbound e'\<rparr>,
       ex_in_flight := ex_in_flight x @ drop (length (en_taken e)) (en_taken e')\<rparr>)"
| publisher: "en_market_data_feed (ex_engine x) = Some f \<Longrightarrow>
     publish_one (\<lambda>d. d) (mf_queue f) (ex_published_book x) = Some (ok, q, mb) \<Longrightarrow>
     exchange_step x (x\<lparr>ex_engine := (ex_engine x)\<lparr>en_market_data_feed := Some (f\<lparr>mf_queue := q\<rparr>)\<rparr>,
       ex_published_book := mb\<rparr>)"
| recorder: "ex_event_log_writer x = Some w \<Longrightarrow> lw_good w \<Longrightarrow> en_event_capture_feed (ex_engine x) = Some f \<Longrightarrow>
     drain_event_capture_one (\<lambda>c. c) (ecf_queue f) (w\<lparr>lw_spills := spills\<rparr>) = Some (ok, q, w') \<Longrightarrow>
     exchange_step x (x\<lparr>ex_engine := (ex_engine x)\<lparr>en_event_capture_feed := Some (f\<lparr>ecf_queue := q\<rparr>)\<rparr>,
       ex_event_log_writer := Some w'\<rparr>)"
| signal: "ex_serving x \<Longrightarrow> exchange_step x (x\<lparr>ex_gateway := stop (ex_gateway x), ex_serving := False\<rparr>)"

inductive exchange_reachable :: "(bool \<times> nat) option \<Rightarrow> exchange \<Rightarrow> bool" for log where
  init: "start_exchange log = Some x \<Longrightarrow> exchange_reachable log x"
| step: "exchange_reachable log x \<Longrightarrow> exchange_step x x' \<Longrightarrow> exchange_reachable log x'"

section \<open>What the exchange should have done\<close>

primrec spec_serve ::
    "inbound_message list \<Rightarrow> (order_id \<rightharpoonup> u64) \<Rightarrow> abs_book \<Rightarrow> outbound_message list \<times> (order_id \<rightharpoonup> u64) \<times> abs_book" where
  "spec_serve [] owners a = ([], owners, a)"
| "spec_serve (m # ms) owners a =
     (let (accepted, a') = spec_apply (im_command m) a;
          (events, result) = spec_serve ms (spec_owners owners (im_session_id m) (im_command m) accepted a') a'
      in (spec_response owners (im_session_id m) (im_command m) a @ events, result))"

lemma spec_serve_snoc:
  "spec_serve xs owners a = (events, owners', a') \<Longrightarrow> spec_apply (im_command m) a' = (accepted, a'') \<Longrightarrow>
   spec_serve (xs @ [m]) owners a =
     (events @ spec_response owners' (im_session_id m) (im_command m) a',
      spec_owners owners' (im_session_id m) (im_command m) accepted a'', a'')"
  by (induction xs arbitrary: owners a events) (auto simp: Let_def split: prod.splits)

section \<open>The effect of a completion\<close>

text \<open>Frames that carry events, as opposed to protocol errors, by the type byte of their header.\<close>

definition event_frames :: "tcp_session \<Rightarrow> bytes list" where
  "event_frames s = filter (\<lambda>f. f ! 3 \<noteq> mt_value mt_protocol_error) (ts_frames s)"

lemma frame_type_byte: "(header_bytes h @ rest) ! 3 = mt_value (wh_type h)"
  by (simp add: header_bytes_def nth_append)

lemma event_frames_send:
  "event_frames (send_raw_frame frame s) =
     event_frames s @ (if frame \<noteq> [] \<and> ts_open s \<and> frame ! 3 \<noteq> mt_value mt_protocol_error then [frame] else [])"
  by (simp add: event_frames_def send_raw_frame_def do_write_def Let_def)

lemma event_frames_fields [simp]:
  "event_frames (s\<lparr>ts_open := b\<rparr>) = event_frames s" "event_frames (s\<lparr>ts_reading := r\<rparr>) = event_frames s"
  "event_frames (s\<lparr>ts_writing := b\<rparr>) = event_frames s" "event_frames (s\<lparr>ts_write_queue := fs\<rparr>) = event_frames s"
  "event_frames (s\<lparr>ts_written := fs\<rparr>) = event_frames s" "event_frames (s\<lparr>ts_last_sequence := sq\<rparr>) = event_frames s"
  "event_frames (s\<lparr>ts_close_after_write := b\<rparr>) = event_frames s"
  by (simp_all add: event_frames_def)

text \<open>What the handlers of a session may do to it besides sending events: histories only grow.\<close>

definition quiet :: "(tcp_session \<Rightarrow> tcp_session) \<Rightarrow> bool" where
  "quiet f \<longleftrightarrow> (\<forall>s. (ts_open (f s) \<longrightarrow> ts_open s) \<and> event_frames (f s) = event_frames s \<and>
     prefix (ts_written s) (ts_written (f s)) \<and> prefix (ts_frames s) (ts_frames (f s)))"

text \<open>A queued frame is being written.\<close>

definition writing_ok :: "tcp_session \<Rightarrow> bool" where
  "writing_ok s \<longleftrightarrow> (ts_write_queue s \<noteq> [] \<longrightarrow> ts_writing s)"

definition keeps_writing :: "(tcp_session \<Rightarrow> tcp_session) \<Rightarrow> bool" where
  "keeps_writing f \<longleftrightarrow> (\<forall>s. writing_ok s \<longrightarrow> writing_ok (f s))"

lemma send_raw_frame_histories:
  "ts_written (send_raw_frame frame s) = ts_written s" "prefix (ts_frames s) (ts_frames (send_raw_frame frame s))"
  by (simp_all add: send_raw_frame_def do_write_def Let_def)

lemma quiet_fail: "quiet (fail_session err t)"
  by (simp add: quiet_def fail_session_def event_frames_send error_frame_def Let_def frame_type_byte frame_header_def
      send_raw_frame_histories prefix_order.order_trans [OF _ send_raw_frame_histories(2)])

lemma quiet_comp: "quiet f \<Longrightarrow> quiet h \<Longrightarrow> quiet (f \<circ> h)"
  unfolding quiet_def comp_apply by (metis prefix_order.order_trans)

lemma keeps_writing_comp: "keeps_writing f \<Longrightarrow> keeps_writing h \<Longrightarrow> keeps_writing (f \<circ> h)"
  by (simp add: keeps_writing_def)

lemma keeps_writing_updates [simp]:
  "keeps_writing idle" "keeps_writing do_read_header" "keeps_writing (do_read_payload h)" "keeps_writing close_session"
  "keeps_writing (send_raw_frame frame)" "keeps_writing (fail_session err t)" "keeps_writing after_write"
  "keeps_writing (\<lambda>s. s\<lparr>ts_last_sequence := sq\<rparr>)"
  by (simp_all add: keeps_writing_def writing_ok_def do_read_header_def do_read_payload_def close_session_def send_raw_frame_def
      fail_session_def do_write_def after_write_def pop_written_def Let_def)

lemma quiet_updates [simp]:
  "quiet idle" "quiet do_read_header" "quiet (do_read_payload h)" "quiet do_write" "quiet close_session" "quiet pop_written"
  "quiet (\<lambda>s. s\<lparr>ts_last_sequence := sq\<rparr>)" "quiet (\<lambda>s. s\<lparr>ts_close_after_write := b\<rparr>)"
  by (simp_all add: quiet_def do_read_header_def do_read_payload_def do_write_def close_session_def pop_written_def)

text \<open>
  A handler of session \<open>sid\<close> changes that session quietly, may push one command into the inbound queue
  and may drop the session from the table; a session that stays in the table keeps writing.
\<close>

definition pushes :: "u64 \<Rightarrow> gateway \<Rightarrow> gateway \<Rightarrow> bool" where
  "pushes sid g g' \<longleftrightarrow> g' = g \<or>
     (\<exists>m pushed q. command_ok (im_command m) \<and> im_session_id m = sid \<and>
        try_push message_capacity m (gw_inbound g) = (pushed, q) \<and>
        g' = g\<lparr>gw_inbound := q, gw_enqueued := gw_enqueued g @ (if pushed then [m] else [])\<rparr>)"

definition handled :: "u64 \<Rightarrow> gateway \<Rightarrow> gateway \<Rightarrow> bool" where
  "handled sid g g' \<longleftrightarrow> (\<exists>f g1. quiet f \<and> pushes sid g g1 \<and>
     (keeps_writing f \<and> g' = on_session sid f g1 \<or> g' = unregister_session sid (on_session sid f g1)))"

lemma pushesI:
  "command_ok (im_command m) \<Longrightarrow> im_session_id m = sid \<Longrightarrow> try_push message_capacity m (gw_inbound g) = (ok, q) \<Longrightarrow>
   pushes sid g (g\<lparr>gw_inbound := q, gw_enqueued := gw_enqueued g @ (if ok then [m] else [])\<rparr>)"
  unfolding pushes_def by blast

lemma handledI:
  "quiet f \<Longrightarrow> keeps_writing f \<Longrightarrow> handled sid g (on_session sid f g)"
  "quiet f \<Longrightarrow> handled sid g (unregister_session sid (on_session sid f g))"
  by (auto simp: handled_def pushes_def)

lemma on_header_handled: "on_header sid result g = Some g' \<Longrightarrow> handled sid g g'"
proof (cases result)
  case (Some bs)
  assume on: "on_header sid result g = Some g'"
  obtain h where h: "decode_header bs = Some h" using decode_header_defined [of bs] by auto
  show ?thesis
  proof (cases h)
    case None
    have "g' = unregister_session sid (on_session sid (fail_session malformed_frame 0 \<circ> idle) g)"
      using on Some h None by (simp add: on_header_def send_protocol_error_eq)
    then show ?thesis by (simp add: handledI quiet_comp quiet_fail)
  next
    case hd: (Some hd)
    then show ?thesis using on Some h
      by (cases "validate_header hd") (auto simp: on_header_def send_protocol_error_eq intro!: handledI quiet_comp quiet_fail keeps_writing_comp)
  qed
qed (auto simp: on_header_def intro!: handledI)

lemma enqueue_command_handled:
  assumes "enqueue_command now sid sq t c (on_session sid idle g) = Some (ok, g')" and "command_ok c"
  shows "\<exists>f g1. quiet f \<and> keeps_writing f \<and> pushes sid g g1 \<and> g' = on_session sid f g1"
proof -
  let ?g = "on_session sid idle g"
  obtain s where s: "gw_objects ?g sid = Some s" using assms(1) by (auto simp: enqueue_command_def bind_ub_eq_Some)
  define m where "m = \<lparr>im_session_id = sid, im_command = c, im_wire_bytes = of_nat kHeaderSize +
      ucast (case expected_payload_length t of Some n \<Rightarrow> n | None \<Rightarrow> 0), im_received_at = now\<rparr>"
  obtain pushed q where q: "try_push message_capacity m (gw_inbound g) = (pushed, q)" by fastforce
  show ?thesis
  proof (cases "sq \<le> ts_last_sequence s")
    case True
    then have "g' = on_session sid (fail_session sequence_out_of_order (mt_value t) \<circ> idle) g"
      using assms(1) s by (auto simp: enqueue_command_def send_protocol_error_eq)
    then show ?thesis using quiet_comp [OF quiet_fail quiet_updates(1)] keeps_writing_comp [OF _ keeps_writing_updates(1)]
      by (fastforce simp: pushes_def)
  next
    case False
    let ?g1 = "g\<lparr>gw_inbound := q, gw_enqueued := gw_enqueued g @ (if pushed then [m] else [])\<rparr>"
    let ?f = "if pushed then (\<lambda>s. s\<lparr>ts_last_sequence := sq\<rparr>) \<circ> idle else fail_session session_overloaded (mt_value t) \<circ> idle"
    have "g' = on_session sid ?f ?g1"
      using assms(1) s False q
      by (auto simp: enqueue_command_def send_protocol_error_eq Let_def m_def [symmetric] on_session_def option.map_comp comp_def)
    moreover have "pushes sid g ?g1" by (rule pushesI [OF _ _ q]) (simp_all add: m_def assms(2))
    moreover have "quiet ?f" "keeps_writing ?f" by (simp_all add: quiet_comp quiet_fail keeps_writing_comp)
    ultimately show ?thesis by blast
  qed
qed

lemma on_payload_handled:
  assumes "on_payload now sid h result g = Some g'"
  shows "handled sid g g'"
proof (cases result)
  case (Some bs)
  obtain r where r: "decode_payload h bs = Some r" using decode_payload_total by blast
  show ?thesis
  proof (cases r)
    case (Inl err)
    then have "g' = on_session sid (fail_session err (mt_value (wh_type h)) \<circ> idle) g"
      using assms Some r by (simp add: on_payload_def finish_payload_def send_protocol_error_eq)
    then show ?thesis by (simp add: handledI quiet_comp quiet_fail keeps_writing_comp)
  next
    case (Inr qc)
    obtain sq c where qc: "qc = (sq, c)" by fastforce
    have "command_ok c" using decoded_ok r Inr qc by blast
    moreover obtain ok g1 where e: "enqueue_command now sid sq (wh_type h) c (on_session sid idle g) = Some (ok, g1)"
        "g' = (if ok then on_session sid do_read_header g1 else g1)"
      using assms Some r Inr qc by (auto simp: on_payload_def finish_payload_def bind_ub_eq_Some)
    ultimately obtain f g2 where f: "quiet f" "keeps_writing f" "pushes sid g g2" "g1 = on_session sid f g2"
      using enqueue_command_handled by blast
    have "g' = on_session sid (if ok then do_read_header \<circ> f else f) g2" using e(2) f(4) by simp
    moreover have "quiet (if ok then do_read_header \<circ> f else f)" "keeps_writing (if ok then do_read_header \<circ> f else f)"
      using f(1,2) by (simp_all add: quiet_comp keeps_writing_comp)
    moreover note f(3)
    ultimately show ?thesis unfolding handled_def by blast
  qed
qed (use assms in \<open>auto simp: on_payload_def intro!: handledI\<close>)

lemma on_write_handled:
  assumes "on_write sid failed g = Some g'" and "gw_objects g sid = Some s" and "ts_write_queue s \<noteq> []"
  shows "handled sid g g'"
proof (cases failed)
  case True
  then have "g' = unregister_session sid (on_session sid (\<lambda>s. s\<lparr>ts_writing := False\<rparr>) g)"
    using assms(1) by (simp add: on_write_def)
  then show ?thesis by (simp add: handledI quiet_def)
next
  case False
  have "quiet after_write" by (auto simp: quiet_def after_write_def pop_written_def do_write_def close_session_def)
  then show ?thesis using assms(1) on_write_eq [OF assms(2,3)] False by (auto intro: handledI split: if_splits)
qed

lemma complete_handled:
  assumes "gw_inv g" and "pending c g" and "complete c g = Some g'" and "\<not> is_timer c"
  shows "(\<exists>failed. c = Accepted failed) \<or> (\<exists>sid. gw_objects g sid \<noteq> None \<and> handled sid g g')"
proof (cases c)
  case (Bytes_read now sid result)
  then show ?thesis using assms(2,3) on_header_handled on_payload_handled
    by (auto split: option.splits read_operation.splits)
next
  case (Frame_written sid failed)
  then obtain s where s: "gw_objects g sid = Some s" "ts_writing s" using assms(2) by (auto split: option.splits)
  then have "ts_write_queue s \<noteq> []" using gw_invD(1) [OF assms(1) s(1)] by (simp add: session_ok_def)
  then show ?thesis using on_write_handled [OF _ s(1)] assms(3) Frame_written s(1) by auto
qed (use assms(4) in auto)

lemma handled_fields:
  assumes "handled sid g g'"
  shows "gw_outbound g' = gw_outbound g" "gw_objects g' i = None \<longleftrightarrow> gw_objects g i = None"
    "set (gw_sessions g') \<subseteq> set (gw_sessions g)"
    "gw_inbound g' = gw_inbound g \<and> gw_enqueued g' = gw_enqueued g \<or>
      (\<exists>m ok. command_ok (im_command m) \<and> try_push message_capacity m (gw_inbound g) = (ok, gw_inbound g') \<and>
         gw_enqueued g' = gw_enqueued g @ (if ok then [m] else []))"
    "gw_objects g' i = Some s' \<Longrightarrow>
      \<exists>s. gw_objects g i = Some s \<and> (ts_open s' \<longrightarrow> ts_open s) \<and> event_frames s' = event_frames s"
proof -
  obtain f g1 where f: "quiet f" "pushes sid g g1" "g' = on_session sid f g1 \<or> g' = unregister_session sid (on_session sid f g1)"
    using assms by (auto simp: handled_def)
  have g1: "gw_outbound g1 = gw_outbound g" "gw_objects g1 = gw_objects g" "gw_sessions g1 = gw_sessions g"
    using f(2) by (auto simp: pushes_def)
  show "gw_outbound g' = gw_outbound g" "gw_objects g' i = None \<longleftrightarrow> gw_objects g i = None"
    "set (gw_sessions g') \<subseteq> set (gw_sessions g)" using f(3) g1 by (auto simp: unregister_session_def split: if_splits)
  have same: "gw_inbound g' = gw_inbound g1" "gw_enqueued g' = gw_enqueued g1" using f(3) by (auto simp: unregister_session_def)
  from f(2) [unfolded pushes_def] show "gw_inbound g' = gw_inbound g \<and> gw_enqueued g' = gw_enqueued g \<or>
      (\<exists>m ok. command_ok (im_command m) \<and> try_push message_capacity m (gw_inbound g) = (ok, gw_inbound g') \<and>
         gw_enqueued g' = gw_enqueued g @ (if ok then [m] else []))"
    unfolding same by (elim disjE exE conjE) (simp, intro disjI2 exI conjI, assumption, simp_all)
  assume s': "gw_objects g' i = Some s'"
  then show "\<exists>s. gw_objects g i = Some s \<and> (ts_open s' \<longrightarrow> ts_open s) \<and> event_frames s' = event_frames s"
    using f(1,3) g1(2) by (cases "i = sid") (auto simp: quiet_def)
qed

lemma handled_histories:
  assumes "handled sid g g'" and "gw_objects g i = Some s"
  obtains s' where "gw_objects g' i = Some s'" "prefix (ts_written s) (ts_written s')" "prefix (ts_frames s) (ts_frames s')"
    "i \<in> set (gw_sessions g') \<Longrightarrow> writing_ok s \<Longrightarrow> writing_ok s'"
proof -
  obtain f g1 where f: "quiet f" "pushes sid g g1"
      "keeps_writing f \<and> g' = on_session sid f g1 \<or> g' = unregister_session sid (on_session sid f g1)"
    using assms(1) by (auto simp: handled_def)
  have "gw_objects g1 = gw_objects g" using f(2) by (auto simp: pushes_def)
  then show thesis
    by (intro that [of "if i = sid then f s else s"])
      (use f(1,3) assms(2) in \<open>auto simp: quiet_def keeps_writing_def unregister_session_def split: if_splits\<close>)
qed

section \<open>Deliveries\<close>

text \<open>Every open session in the table has been sent exactly its events among \<open>ms\<close>.\<close>

definition delivered :: "gateway \<Rightarrow> outbound_message list \<Rightarrow> bool" where
  "delivered g ms \<longleftrightarrow> (\<forall>r s. r \<in> set (gw_sessions g) \<and> gw_objects g r = Some s \<and> ts_open s \<longrightarrow>
     event_frames s = map wire_frame (filter (\<lambda>m. om_session_id m = r) ms))"

definition addressed :: "gateway \<Rightarrow> outbound_message \<Rightarrow> bool" where
  "addressed g m \<longleftrightarrow> gw_objects g (om_session_id m) \<noteq> None \<and> event_ok m \<and> om_type m \<noteq> mt_protocol_error"

lemma delivered_handled:
  assumes h: "handled sid g g'" and "delivered g ms"
  shows "delivered g' ms"
  unfolding delivered_def
proof (intro allI impI, elim conjE)
  fix r s'
  assume r: "r \<in> set (gw_sessions g')" "gw_objects g' r = Some s'" "ts_open s'"
  then obtain s where "gw_objects g r = Some s" "ts_open s" "event_frames s' = event_frames s"
    using handled_fields(5) [OF h r(2)] by auto
  moreover have "r \<in> set (gw_sessions g)" using handled_fields(3) [OF h] r(1) by auto
  ultimately show "event_frames s' = map wire_frame (filter (\<lambda>m. om_session_id m = r) ms)"
    using assms(2) by (simp add: delivered_def)
qed

lemma delivered_accept:
  assumes "gw_inv g" and "delivered g ms" and "\<forall>m \<in> set ms. addressed g m"
  shows "delivered (on_accept failed g) ms"
proof -
  let ?n = "gw_next_session_id g"
  have new: "gw_objects g ?n = None" using gw_invD(3) [OF assms(1), of ?n] by (cases "gw_objects g ?n") auto
  then have "filter (\<lambda>m. om_session_id m = ?n) ms = []"
    using assms(3) by (auto simp: addressed_def filter_empty_conv)
  then show ?thesis using assms(2)
    by (auto simp: delivered_def on_accept_def do_accept_def do_read_header_def make_session_def event_frames_def Let_def split: if_splits)
qed

lemma wire_frame_event:
  assumes "addressed g m"
  shows "wire_frame m \<noteq> []" "wire_frame m ! 3 \<noteq> mt_value mt_protocol_error"
proof -
  have "om_payload m \<noteq> No_payload" using assms by (cases "om_payload m") (auto simp: addressed_def event_ok_def)
  then have w: "wire_frame m = header_bytes (frame_header (om_type m) (payload_bytes (om_payload m)) (om_flags m)) @
      payload_bytes (om_payload m)" by (simp add: wire_frame_def)
  show "wire_frame m \<noteq> []" by (simp add: w header_bytes_def)
  show "wire_frame m ! 3 \<noteq> mt_value mt_protocol_error"
    using assms unfolding w frame_type_byte by (auto simp: frame_header_def addressed_def message_type.expand)
qed

lemma event_frames_fold:
  "ts_open s \<Longrightarrow> \<forall>m \<in> set ms. addressed g m \<Longrightarrow>
   ts_open (fold send_raw_frame (map wire_frame ms) s) \<and>
   event_frames (fold send_raw_frame (map wire_frame ms) s) = event_frames s @ map wire_frame ms"
  by (induction ms arbitrary: s) (auto simp: event_frames_send wire_frame_event)

lemma fold_send_closed: "\<not> ts_open s \<Longrightarrow> fold send_raw_frame fs s = s"
  by (induction fs) (simp_all add: send_raw_frame_def)

lemma frames_for_addressed:
  assumes "gw_inv g" and "\<forall>m \<in> set ms. addressed g m"
  shows "frames_for r ms = map wire_frame (filter (\<lambda>m. om_session_id m = r) ms)"
proof -
  have "om_session_id m \<noteq> 0" if "m \<in> set ms" for m
    using assms(2) that gw_invD(2) [OF assms(1), of "om_session_id m"] by (auto simp: addressed_def)
  then show ?thesis unfolding frames_for_def by (intro arg_cong [where f = "map wire_frame"] filter_cong) auto
qed

lemma delivered_more:
  assumes inv: "gw_inv g" and old: "delivered g ms" and new: "\<forall>m \<in> set ns. addressed g m"
    and g': "gw_sessions g' = gw_sessions g"
      "\<And>i. gw_objects g' i = (if i \<in> set (gw_sessions g) then map_option (fold send_raw_frame (frames_for i ns)) (gw_objects g i)
         else gw_objects g i)"
  shows "delivered g' (ms @ ns)"
  unfolding delivered_def
proof (intro allI impI, elim conjE)
  fix r s'
  let ?ns = "filter (\<lambda>m. om_session_id m = r) ns"
  assume r: "r \<in> set (gw_sessions g')" "gw_objects g' r = Some s'" "ts_open s'"
  then obtain s where s: "gw_objects g r = Some s" "s' = fold send_raw_frame (map wire_frame ?ns) s"
    using g' frames_for_addressed [OF inv new, of r] by auto
  have "ts_open s" using r(3) s(2) fold_send_closed by force
  then show "event_frames s' = map wire_frame (filter (\<lambda>m. om_session_id m = r) (ms @ ns))"
    using event_frames_fold [of s ?ns g] new s r(1) g'(1) old by (simp add: delivered_def)
qed

lemma delivered_stop: "delivered g ms \<Longrightarrow> delivered (stop g) ms"
  by (simp add: stop_def delivered_def)

section \<open>Taking from the outbound queue\<close>

lemma poll_loop_takes:
  assumes "ring_inv message_capacity (gw_outbound g)" and "distinct (gw_sessions g)" and "poll_loop n g = Some (k, g')"
  shows "take_outbound (Suc (length (ring_contents message_capacity (gw_outbound g)))) (gw_outbound g) =
    (ring_contents message_capacity (gw_outbound g), gw_outbound g')"
  using assms
proof (induction "ring_contents message_capacity (gw_outbound g)" arbitrary: n g)
  case Nil
  obtain out q where pop: "try_pop message_capacity (\<lambda>m. m) (gw_outbound g) = (out, q)" by fastforce
  have "out = None" using message_ring.fifo.pop_law [OF Nil.prems(1) pop] unfolding Nil.hyps [symmetric] by simp
  then show ?case using Nil.prems(3) pop Nil.hyps by (subst (asm) poll_loop.simps) auto
next
  case (Cons m ms)
  obtain out q where pop: "try_pop message_capacity (\<lambda>m. m) (gw_outbound g) = (out, q)" by fastforce
  have q: "out = Some m" "ring_inv message_capacity q" "ms = ring_contents message_capacity q"
    using message_ring.fifo.pop_law [OF Cons.prems(1) pop] unfolding Cons.hyps(2) [symmetric] by simp_all
  let ?g = "deliver m (wire_frame m) (g\<lparr>gw_outbound := q\<rparr>)"
  have d: "gw_outbound ?g = q" "gw_sessions ?g = gw_sessions g"
    using deliver_effect(1,2) [of "g\<lparr>gw_outbound := q\<rparr>" m "wire_frame m"] Cons.prems(2) by (simp_all add: same_table_def)
  have "poll_loop (n + 1) ?g = Some (k, g')"
    using Cons.prems(3) pop q(1) by (subst (asm) poll_loop.simps) (simp add: serialize_outbound_eq)
  from Cons.hyps(1) [of ?g, OF _ _ _ this] q(2,3) d Cons.prems(2)
  have ih: "take_outbound (Suc (length ms)) q = (ms, gw_outbound g')" by simp
  show ?case unfolding Cons.hyps(2) [symmetric] by (subst take_outbound.simps) (simp add: pop q(1) ih del: take_outbound.simps)
qed

text \<open>Steps of the engine that change neither its book nor what it captured.\<close>

definition idle_step :: "engine \<Rightarrow> engine \<Rightarrow> bool" where
  "idle_step e e' \<longleftrightarrow> engine_step e e' \<and> en_book e' = en_book e \<and> en_event_capture_feed e' = en_event_capture_feed e"

lemma recorded_idle: "idle_step\<^sup>*\<^sup>* e e' \<Longrightarrow> recorded e w cs \<Longrightarrow> recorded e' w cs"
  by (induction rule: rtranclp_induct) (auto simp: idle_step_def intro: recorded.other)

lemma idle_schedule: "idle_step e (e\<lparr>en_turns := turns\<rparr>)"
  by (simp add: idle_step_def engine_step.schedule)

lemma idle_taken_to:
  assumes turns: "en_turns e = []"
    and taken: "take_outbound (Suc (length (ring_contents message_capacity (en_outbound e)))) (en_outbound e) =
      (ring_contents message_capacity (en_outbound e), q)" and "ring_contents message_capacity q = []"
  shows "idle_step\<^sup>*\<^sup>* e (taken_to q e)"
proof -
  let ?n = "Suc (length (ring_contents message_capacity (en_outbound e)))"
  have turn: "gateway_turn (e\<lparr>en_turns := [?n]\<rparr>) = taken_to q e"
    using taken turns assms(3) by (simp add: gateway_turn_def taken_to_def sent_def del: take_outbound.simps)
  have "idle_step (e\<lparr>en_turns := [?n]\<rparr>) (taken_to q e)"
    using engine_step.take_messages [of "e\<lparr>en_turns := [?n]\<rparr>"] unfolding turn by (simp add: idle_step_def taken_to_def)
  then show ?thesis using idle_schedule by (meson converse_rtranclp_into_rtranclp r_into_rtranclp)
qed

lemma idle_steps_reachable: "idle_step\<^sup>*\<^sup>* e e' \<Longrightarrow> engine_reachable e \<Longrightarrow> engine_reachable e'"
  by (induction rule: rtranclp_induct) (auto simp: idle_step_def intro: engine_reachable.step)

lemma idle_push:
  assumes "command_ok (im_command m)" and "try_push message_capacity m (en_inbound e) = (ok, q)"
  shows "idle_step e (e\<lparr>en_inbound := q\<rparr>)"
  using engine_step.enqueue [OF assms] by (simp add: idle_step_def)

section \<open>The invariant\<close>

definition exchange_inv :: "exchange \<Rightarrow> bool" where
  "exchange_inv x \<longleftrightarrow> (let g = ex_gateway x; e = ex_engine x in
     engine_reachable e \<and> gw_inv g \<and> en_inbound e = gw_inbound g \<and> en_outbound e = gw_outbound g \<and> en_turns e = [] \<and>
     (\<exists>served. gw_enqueued g = served @ inbound_contents e \<and>
        spec_serve served Map.empty (abs_of empty_book) = (sent e, en_order_sessions e, abs_of (en_book e))) \<and>
     (\<forall>m \<in> set (sent e). addressed g m) \<and> (\<forall>i r. en_order_sessions e i = Some r \<longrightarrow> gw_objects g r \<noteq> None) \<and>
     (\<exists>ms. en_taken e = ms @ ex_in_flight x \<and> delivered g ms))"

lemma exchange_invD:
  assumes "exchange_inv x"
  shows "engine_reachable (ex_engine x)" "gw_inv (ex_gateway x)" "en_inbound (ex_engine x) = gw_inbound (ex_gateway x)"
    "en_outbound (ex_engine x) = gw_outbound (ex_gateway x)" "en_turns (ex_engine x) = []"
    "\<forall>m \<in> set (sent (ex_engine x)). addressed (ex_gateway x) m"
    "en_order_sessions (ex_engine x) i = Some r \<Longrightarrow> gw_objects (ex_gateway x) r \<noteq> None"
  using assms by (simp_all add: exchange_inv_def Let_def)

lemma exchange_inv_init: "start_exchange log = Some x \<Longrightarrow> exchange_inv x"
proof -
  assume x: "start_exchange log = Some x"
  let ?in = "empty_ring message_capacity default_inbound_message" and ?out = "empty_ring message_capacity default_outbound_message"
  let ?capture = "if ex_event_log_writer x = None then None else Some (make_capture_feed (empty_ring message_capacity Monostate))"
  have f: "ex_gateway x = start (make_gateway ?in ?out)" "ex_in_flight x = []"
    and c: "ex_engine x = make_engine ?in ?out
       (Some (make_feed (empty_ring market_data_capacity default_market_data_event) 64)) ?capture []"
    using x by (auto simp: start_exchange_def Let_def split: if_splits)
  have "engine_reachable (ex_engine x)"
    unfolding c by (rule engine_reachable.init) (simp_all add: ring_inv_empty make_feed_def make_capture_feed_def)
  moreover have "gw_inv (ex_gateway x)" unfolding f(1) by (intro gw_inv_start gw_reachable_inv gw_reachable.init)
  ultimately show ?thesis using f c
    by (simp add: exchange_inv_def make_engine_def start_def do_accept_def schedule_outbound_drain_def make_gateway_def
        sent_def ring_inv_empty delivered_def)
qed

text \<open>The commands the engine has taken from its queue.\<close>

definition served_messages :: "exchange \<Rightarrow> inbound_message list" where
  "served_messages x = take (length (gw_enqueued (ex_gateway x)) - length (inbound_contents (ex_engine x))) (gw_enqueued (ex_gateway x))"

lemma served_messagesI: "gw_enqueued (ex_gateway x) = served @ inbound_contents (ex_engine x) \<Longrightarrow> served_messages x = served"
  by (simp add: served_messages_def)

lemma addressed_objects:
  "(\<And>i. gw_objects g i \<noteq> None \<Longrightarrow> gw_objects g' i \<noteq> None) \<Longrightarrow> addressed g m \<Longrightarrow> addressed g' m"
  by (auto simp: addressed_def)

text \<open>A step of the gateway that leaves the outbound queue alone.\<close>

lemma exchange_inv_gateway:
  assumes inv: "exchange_inv x" and g: "gw_inv g" and out: "gw_outbound g = gw_outbound (ex_gateway x)"
    and objects: "\<And>i. gw_objects (ex_gateway x) i \<noteq> None \<Longrightarrow> gw_objects g i \<noteq> None"
    and kept: "\<And>ms. \<forall>m \<in> set ms. addressed (ex_gateway x) m \<Longrightarrow> delivered (ex_gateway x) ms \<Longrightarrow> delivered g ms"
    and push: "gw_inbound g = gw_inbound (ex_gateway x) \<and> gw_enqueued g = gw_enqueued (ex_gateway x) \<or>
      (\<exists>m ok. command_ok (im_command m) \<and> try_push message_capacity m (gw_inbound (ex_gateway x)) = (ok, gw_inbound g) \<and>
         gw_enqueued g = gw_enqueued (ex_gateway x) @ (if ok then [m] else []))"
  shows "exchange_inv (with_gateway g x) \<and> idle_step\<^sup>*\<^sup>* (ex_engine x) (ex_engine (with_gateway g x)) \<and>
    served_messages (with_gateway g x) = served_messages x"
proof -
  let ?g = "ex_gateway x" and ?e = "ex_engine x" and ?e' = "(ex_engine x)\<lparr>en_inbound := gw_inbound g\<rparr>"
  note d = exchange_invD [OF inv]
  obtain served where served: "gw_enqueued ?g = served @ inbound_contents ?e"
      "spec_serve served Map.empty (abs_of empty_book) = (sent ?e, en_order_sessions ?e, abs_of (en_book ?e))"
    using inv by (auto simp: exchange_inv_def Let_def)
  obtain ms where ms: "en_taken ?e = ms @ ex_in_flight x" "delivered ?g ms" using inv by (auto simp: exchange_inv_def Let_def)
  have "idle_step\<^sup>*\<^sup>* ?e ?e' \<and> gw_enqueued g = served @ inbound_contents ?e'"
    using push
  proof (elim disjE exE conjE)
    assume "gw_inbound g = gw_inbound ?g" "gw_enqueued g = gw_enqueued ?g"
    moreover have "?e\<lparr>en_inbound := gw_inbound ?g\<rparr> = ?e" using d(3) by simp
    ultimately show ?thesis using d(1) served(1) by simp
  next
    fix m ok
    assume m: "command_ok (im_command m)" "try_push message_capacity m (gw_inbound ?g) = (ok, gw_inbound g)"
      "gw_enqueued g = gw_enqueued ?g @ (if ok then [m] else [])"
    have push: "try_push message_capacity m (en_inbound ?e) = (ok, gw_inbound g)" using m(2) d(3) by simp
    have "ring_inv message_capacity (en_inbound ?e)" using engine_reachable_inv [OF d(1)] by (simp add: engine_inv_def)
    from message_ring.fifo.push_law [OF this push] idle_push [OF m(1) push]
    show ?thesis using served(1) m(3) by auto
  qed
  then have "idle_step\<^sup>*\<^sup>* ?e ?e'" "engine_reachable ?e'" "gw_enqueued g = served @ inbound_contents ?e'"
    using idle_steps_reachable [OF _ d(1)] by blast+
  moreover have "served_messages (with_gateway g x) = served_messages x"
    using calculation(3) served_messagesI [of "with_gateway g x" served] served_messagesI [OF served(1)] by (simp add: with_gateway_def)
  moreover have "sent ?e' = sent ?e" by (simp add: sent_def)
  moreover have "\<forall>m \<in> set ms. addressed ?g m" using d(6) ms(1) by (simp add: sent_def)
  then have "delivered g ms" using kept ms(2) by blast
  ultimately show ?thesis using g out d(4-7) served(2) ms(1) objects addressed_objects [of ?g g]
    unfolding exchange_inv_def with_gateway_def Let_def by auto
qed

lemma exchange_inv_network:
  assumes "exchange_inv x" and "pending c (ex_gateway x)" and "\<not> is_timer c" and "complete c (ex_gateway x) = Some g"
  shows "exchange_inv (with_gateway g x) \<and> idle_step\<^sup>*\<^sup>* (ex_engine x) (ex_engine (with_gateway g x)) \<and>
    served_messages (with_gateway g x) = served_messages x"
proof -
  note inv = exchange_invD(2) [OF assms(1)]
  have g: "gw_inv g" using complete_total [OF inv assms(2)] assms(4) gw_inv_step inv by auto
  from complete_handled [OF inv assms(2,4,3)] show ?thesis
  proof (elim disjE exE conjE)
    fix failed
    assume "c = Accepted failed"
    then have ac: "g = on_accept failed (ex_gateway x)" using assms(4) by simp
    show ?thesis
      by (rule exchange_inv_gateway [OF assms(1) g])
        (use delivered_accept [OF inv] in \<open>auto simp: ac on_accept_def do_accept_def Let_def split: if_splits\<close>)
  next
    fix sid
    assume h: "handled sid (ex_gateway x) g"
    show ?thesis
      by (rule exchange_inv_gateway [OF assms(1) g handled_fields(1) [OF h] _ delivered_handled [OF h] handled_fields(4) [OF h]])
        (simp add: handled_fields(2) [OF h])
  qed
qed

lemma exchange_inv_signal:
  assumes "exchange_inv x"
  shows "exchange_inv (x\<lparr>ex_gateway := stop (ex_gateway x), ex_serving := False\<rparr>)"
proof -
  let ?g = "ex_gateway x"
  note d = exchange_invD [OF assms]
  have dis: "distinct (gw_sessions ?g)" using d(2) by (simp add: gw_inv_def)
  have f: "gw_outbound (stop ?g) = gw_outbound ?g" "gw_inbound (stop ?g) = gw_inbound ?g" "gw_enqueued (stop ?g) = gw_enqueued ?g"
    "gw_objects ?g i \<noteq> None \<Longrightarrow> gw_objects (stop ?g) i \<noteq> None" for i
    using fold_on_session [OF dis, of "?g\<lparr>gw_stopped := True\<rparr>" close_session i] by (auto simp: stop_def same_table_def)
  have "exchange_inv (with_gateway (stop ?g) x)"
    by (rule conjunct1 [OF exchange_inv_gateway [OF assms gw_inv_stop [OF d(2)] f(1,4) delivered_stop]]) (simp_all add: f)
  moreover have "with_gateway (stop ?g) x = x\<lparr>ex_gateway := stop ?g\<rparr>" using d(3) by (simp add: with_gateway_def f)
  ultimately show ?thesis by (simp add: exchange_inv_def)
qed

lemma same_tableD:
  "same_table g g' \<Longrightarrow> gw_sessions g' = gw_sessions g \<and> gw_inbound g' = gw_inbound g \<and> gw_enqueued g' = gw_enqueued g"
  by (simp add: same_table_def)

lemma exchange_inv_delivery:
  assumes inv: "exchange_inv x" and flight: "ex_in_flight x = m # ms" and frame: "serialize_outbound m = Some frame"
  shows "exchange_inv (x\<lparr>ex_gateway := deliver m frame (ex_gateway x), ex_in_flight := ms\<rparr>)"
proof -
  let ?g = "ex_gateway x" and ?g' = "deliver m (wire_frame m) (ex_gateway x)"
  note d = exchange_invD [OF inv]
  have dis: "distinct (gw_sessions ?g)" using d(2) by (simp add: gw_inv_def)
  note eff = deliver_effect [OF dis, of m "wire_frame m"]
  obtain old where taken: "en_taken (ex_engine x) = old @ m # ms" "delivered ?g old"
    using inv flight by (auto simp: exchange_inv_def Let_def)
  have m: "\<forall>m' \<in> set [m]. addressed ?g m'" using d(6) taken(1) by (simp add: sent_def)
  then have "om_session_id m \<noteq> 0" using gw_invD(2) [OF d(2), of "om_session_id m"] by (auto simp: addressed_def)
  then have "gw_objects ?g' i = (if i \<in> set (gw_sessions ?g) then map_option (fold send_raw_frame (frames_for i [m])) (gw_objects ?g i)
      else gw_objects ?g i)" for i
    using eff(3) [of i] by (cases "gw_objects ?g i") simp_all
  then have "delivered ?g' (old @ [m])"
    using delivered_more [OF d(2) taken(2) m, of ?g'] same_tableD [OF eff(1)] by blast
  moreover have "gw_inv ?g'"
    by (rule gw_inv_objects [OF d(2) eff(1), where F = "\<lambda>i s. if i \<in> set (gw_sessions ?g) \<and>
          (om_session_id m = 0 \<or> om_session_id m = i) then send_raw_frame (wire_frame m) s else s"])
      (use d(2) eff session_ok_send in \<open>auto simp: gw_inv_def option.map_ident\<close>)
  moreover have "gw_objects ?g i \<noteq> None \<Longrightarrow> gw_objects ?g' i \<noteq> None" for i by (simp add: eff(3))
  ultimately show ?thesis
    using inv eff(2) same_tableD [OF eff(1)] taken(1) frame addressed_objects [of ?g ?g']
    by (auto simp: exchange_inv_def Let_def serialize_outbound_eq)
qed

lemma exchange_inv_timer:
  assumes inv: "exchange_inv x" and flight: "ex_in_flight x = []" and timer: "on_timer failed (ex_gateway x) = Some g"
  shows "exchange_inv (x\<lparr>ex_gateway := g, ex_engine := taken_to (gw_outbound g) (ex_engine x)\<rparr>) \<and>
    idle_step\<^sup>*\<^sup>* (ex_engine x) (taken_to (gw_outbound g) (ex_engine x))"
proof (cases "\<not> failed \<and> \<not> gw_stopped (ex_gateway x)")
  case False
  note d = exchange_invD [OF inv]
  have g: "g = (ex_gateway x)\<lparr>gw_draining := False\<rparr>" using timer False by (auto simp: on_timer_def)
  then have "taken_to (gw_outbound g) (ex_engine x) = ex_engine x" using d(4) by (simp add: taken_to_def sent_def)
  then show ?thesis using inv g by (auto simp: exchange_inv_def Let_def delivered_def addressed_def)
next
  case True
  let ?g = "(ex_gateway x)\<lparr>gw_draining := False\<rparr>" and ?e = "ex_engine x"
  let ?ns = "ring_contents message_capacity (gw_outbound (ex_gateway x))"
  note d = exchange_invD [OF inv]
  obtain n g1 where g1: "poll_loop 0 ?g = Some (n, g1)" "g = g1\<lparr>gw_draining := True\<rparr>"
    using timer True by (auto simp: on_timer_def poll_outbound_def schedule_outbound_drain_def bind_ub_eq_Some)
  have r: "ring_inv message_capacity (gw_outbound ?g)" "distinct (gw_sessions ?g)" using d(2) by (simp_all add: gw_inv_def)
  have p: "same_table ?g g1" "ring_contents message_capacity (gw_outbound g1) = []"
      "gw_objects g1 i = (if i \<in> set (gw_sessions ?g) then map_option (fold send_raw_frame (frames_for i ?ns)) (gw_objects ?g i)
         else gw_objects ?g i)" for i
    using poll_loop_delivers [OF r, of 0] g1(1) by auto
  have "gw_inv g1" using poll_outbound_inv [of ?g] d(2) g1(1) by (auto simp: poll_outbound_def)
  then have inv': "gw_inv g" by (simp add: g1(2))
  have idle: "idle_step\<^sup>*\<^sup>* ?e (taken_to (gw_outbound g1) ?e)"
    by (rule idle_taken_to [OF d(5) _ p(2)]) (use poll_loop_takes [OF r g1(1)] d(4) in simp)
  note e = idle_steps_reachable [OF idle d(1)]
  obtain ms where ms: "en_taken ?e = ms" "delivered (ex_gateway x) ms"
    using inv flight by (auto simp: exchange_inv_def Let_def)
  have t: "sent (taken_to (gw_outbound g1) ?e) = sent ?e" "en_taken (taken_to (gw_outbound g1) ?e) = ms @ ?ns"
    using p(2) ms(1) d(4) by (simp_all add: taken_to_def sent_def)
  have "\<forall>m \<in> set ?ns. addressed (ex_gateway x) m" using d(4,6) by (simp add: sent_def)
  from delivered_more [OF d(2) ms(2) this, of g] have "delivered g (ms @ ?ns)"
    using p(3) same_tableD [OF p(1)] g1(2) by simp
  moreover have "gw_objects (ex_gateway x) i \<noteq> None \<Longrightarrow> gw_objects g i \<noteq> None" for i by (simp add: g1(2) p(3))
  ultimately show ?thesis
    using inv inv' idle e t same_tableD [OF p(1)] g1(2) flight addressed_objects [of "ex_gateway x" g]
    by (auto simp: exchange_inv_def Let_def taken_to_def)
qed

lemma response_owners:
  "m \<in> set (spec_response owners sid c a) \<Longrightarrow> om_session_id m = sid \<or> (\<exists>i. owners i = Some (om_session_id m))"
  by (auto simp: spec_response_def Let_def execution_messages_def resting_copy_def execution_message_def
      rejected_message_def accepted_message_def cancelled_message_def
      split: command.splits option.splits if_splits)

lemma response_addressed:
  assumes "m \<in> set (spec_response owners sid c a)" and "command_ok c" and "values_ok a"
    and "gw_objects g sid \<noteq> None" and "\<And>i r. owners i = Some r \<Longrightarrow> gw_objects g r \<noteq> None"
  shows "addressed g m"
proof -
  have "event_ok m" using response_ok [OF assms(2,3), of owners sid] assms(1) by (simp add: list_all_iff)
  moreover have "om_type m \<noteq> mt_protocol_error" using response_types [OF assms(1)] by (auto simp: is_terminal_def type_defs)
  ultimately show ?thesis using response_owners [OF assms(1)] assms(4,5) by (auto simp: addressed_def)
qed

lemma exchange_inv_engine:
  assumes inv: "exchange_inv x" and e: "e = (ex_engine x)\<lparr>en_turns := turns\<rparr>" and ready: "ready e"
    and one: "process_one now e = Some (busy, e')"
  shows "exchange_inv (x\<lparr>ex_engine := e'\<lparr>en_turns := []\<rparr>,
       ex_gateway := (ex_gateway x)\<lparr>gw_inbound := en_inbound e', gw_outbound := en_outbound e'\<rparr>,
       ex_in_flight := ex_in_flight x @ drop (length (en_taken e)) (en_taken e')\<rparr>)"
proof -
  let ?g = "ex_gateway x"
  let ?g' = "?g\<lparr>gw_inbound := en_inbound e', gw_outbound := en_outbound e'\<rparr>"
  note d = exchange_invD [OF inv]
  have re: "engine_reachable e" unfolding e by (rule engine_reachable.step [OF d(1) engine_step.schedule])
  have re': "engine_reachable e'" by (rule engine_reachable.step [OF re engine_step.process [OF ready one]])
  note ie = engine_reachable_inv [OF re] and ie' = engine_reachable_inv [OF re']
  have same: "sent e = sent (ex_engine x)" "en_taken e = en_taken (ex_engine x)" "inbound_contents e = inbound_contents (ex_engine x)"
    "en_order_sessions e = en_order_sessions (ex_engine x)" "en_book e = en_book (ex_engine x)"
    by (simp_all add: e sent_def)
  obtain served where served: "gw_enqueued ?g = served @ inbound_contents e"
      "spec_serve served Map.empty (abs_of empty_book) = (sent e, en_order_sessions e, abs_of (en_book e))"
    using inv by (auto simp: exchange_inv_def Let_def same)
  obtain ms where ms: "en_taken e = ms @ ex_in_flight x" "delivered ?g ms" using inv by (auto simp: exchange_inv_def Let_def same)
  have taken: "en_taken e' = ms @ ex_in_flight x @ drop (length (en_taken e)) (en_taken e')"
    using process_one_undisturbed [OF one] ms(1) by (auto simp: undisturbed_def)
  have main: "\<exists>served'. gw_enqueued ?g = served' @ inbound_contents e' \<and>
      spec_serve served' Map.empty (abs_of empty_book) = (sent e', en_order_sessions e', abs_of (en_book e')) \<and>
      (\<forall>m \<in> set (sent e'). addressed ?g m) \<and> (\<forall>i r. en_order_sessions e' i = Some r \<longrightarrow> gw_objects ?g r \<noteq> None)"
  proof (cases "inbound_contents e")
    case Nil
    then show ?thesis using process_one_idle [OF ie Nil, of now] one served d(6,7) same by auto
  next
    case (Cons m rest)
    obtain accepted b' where p: "apply_command (en_book e) (im_command m) = Some (accepted, b')" "en_book e' = b'"
        "inbound_contents e' = rest" "sent e' = sent e @ response m e"
        "en_order_sessions e' = spec_owners (en_order_sessions e) (im_session_id m) (im_command m) accepted (abs_of b')"
      using process_one_ready [OF ie ready Cons, of now] one by auto
    have ok: "command_ok (im_command m)" "book_reachable (en_book e)" "values_ok (abs_of (en_book e))"
      using ie Cons engine_reachable_values [OF re] by (simp_all add: engine_inv_def engine_values_ok_def)
    have obj: "gw_objects ?g (im_session_id m) \<noteq> None" using d(2) served(1) Cons by (auto simp: gw_inv_def)
    have "spec_serve (served @ [m]) Map.empty (abs_of empty_book) = (sent e', en_order_sessions e', abs_of (en_book e'))"
      using spec_serve_snoc [OF served(2) command_spec [OF ok(2,1) p(1)]] p by (simp add: response_def)
    moreover have "addressed ?g m'" if "m' \<in> set (sent e')" for m'
      using that p(4) d(6) response_addressed [OF _ ok(1,3) obj, of m' "en_order_sessions e"] d(7)
      by (auto simp: response_def same)
    moreover have "gw_objects ?g r \<noteq> None" if "en_order_sessions e' i = Some r" for i r
      using that p(5) obj d(7) by (auto simp: spec_owners_def same split: if_splits)
    ultimately show ?thesis using served(1) Cons p(3) by (intro exI [of _ "served @ [m]"]) simp
  qed
  have "gw_inv ?g'" using d(2) ie' main unfolding gw_inv_def engine_inv_def session_stream_def by auto
  moreover have "engine_reachable (e'\<lparr>en_turns := []\<rparr>)" by (rule engine_reachable.step [OF re' engine_step.schedule])
  moreover have "sent (e'\<lparr>en_turns := []\<rparr>) = sent e'" by (simp add: sent_def)
  moreover have "delivered ?g' ms" using ms(2) by (simp add: delivered_def)
  moreover have "addressed ?g' m" if "addressed ?g m" for m using that by (simp add: addressed_def)
  ultimately show ?thesis using main taken unfolding exchange_inv_def Let_def by simp blast
qed

lemma exchange_inv_parts:
  "exchange_inv x \<Longrightarrow> engine_reachable (e\<lparr>en_market_data_feed := f\<rparr>) \<Longrightarrow> e = ex_engine x \<Longrightarrow>
     exchange_inv (x\<lparr>ex_engine := e\<lparr>en_market_data_feed := f\<rparr>, ex_published_book := mb\<rparr>)"
  "exchange_inv x \<Longrightarrow> engine_reachable (e\<lparr>en_event_capture_feed := c\<rparr>) \<Longrightarrow> e = ex_engine x \<Longrightarrow>
     exchange_inv (x\<lparr>ex_engine := e\<lparr>en_event_capture_feed := c\<rparr>, ex_event_log_writer := w\<rparr>)"
  by (auto simp: exchange_inv_def Let_def sent_def)

lemma publish_one_pops:
  "publish_one moved q mb = Some (ok, q', mb') \<Longrightarrow> \<exists>event. try_pop market_data_capacity moved q = (event, q')"
  by (auto simp: publish_one_def bind_ub_eq_Some Let_def split: prod.splits option.splits)

lemma drain_one_pops:
  "drain_event_capture_one moved q w = Some (ok, q', w') \<Longrightarrow> \<exists>c. try_pop message_capacity moved q = (c, q')"
  by (auto simp: drain_event_capture_one_def bind_ub_eq_Some Let_def split: prod.splits option.splits)

lemma exchange_inv_step: "exchange_step x x' \<Longrightarrow> exchange_inv x \<Longrightarrow> exchange_inv x'"
proof (induction rule: exchange_step.induct)
  case (network x c g)
  then show ?case using exchange_inv_network by blast
next
  case (timer x failed g)
  then show ?case using exchange_inv_timer by simp
next
  case (delivery x m ms frame)
  then show ?case by (intro exchange_inv_delivery)
next
  case (engine e turns x now busy e')
  show ?case by (rule exchange_inv_engine [OF engine.prems engine.hyps(1,3,4)])
next
  case (publisher x f ok q mb)
  obtain event where "try_pop market_data_capacity (\<lambda>d. d) (mf_queue f) = (event, q)" using publish_one_pops [OF publisher.hyps(2)] by blast
  from engine_reachable.step [OF exchange_invD(1) [OF publisher.prems] engine_step.take_market_data [OF publisher.hyps(1) this]]
  show ?case using exchange_inv_parts(1) publisher.prems by blast
next
  case (recorder x w f spills ok q w')
  obtain c where "try_pop message_capacity (\<lambda>c. c) (ecf_queue f) = (c, q)" using drain_one_pops [OF recorder.hyps(4)] by blast
  from engine_reachable.step [OF exchange_invD(1) [OF recorder.prems] engine_step.take_captured [OF recorder.hyps(3) this]]
  show ?case using exchange_inv_parts(2) recorder.prems by blast
next
  case (signal x)
  then show ?case by (intro exchange_inv_signal)
qed

lemma exchange_reachable_inv: "exchange_reachable log x \<Longrightarrow> exchange_inv x"
  by (induction rule: exchange_reachable.induct) (auto intro: exchange_inv_init exchange_inv_step)

section \<open>The log of a running exchange\<close>

text \<open>The accepted commands among those served.\<close>

primrec spec_accepted :: "inbound_message list \<Rightarrow> abs_book \<Rightarrow> command list" where
  "spec_accepted [] a = []"
| "spec_accepted (m # ms) a =
     (let (accepted, a') = spec_apply (im_command m) a in (if accepted then [im_command m] else []) @ spec_accepted ms a')"

lemma spec_accepted_snoc:
  "spec_serve xs owners a = (events, owners', a') \<Longrightarrow> spec_apply (im_command m) a' = (accepted, a'') \<Longrightarrow>
   spec_accepted (xs @ [m]) a = spec_accepted xs a @ (if accepted then [im_command m] else [])"
  by (induction xs arbitrary: owners a events) (auto simp: Let_def split: prod.splits)

lemma exchange_inv_served:
  assumes "exchange_inv x"
  shows "gw_enqueued (ex_gateway x) = served_messages x @ inbound_contents (ex_engine x)"
    "spec_serve (served_messages x) Map.empty (abs_of empty_book) =
       (sent (ex_engine x), en_order_sessions (ex_engine x), abs_of (en_book (ex_engine x)))"
proof -
  obtain served where "gw_enqueued (ex_gateway x) = served @ inbound_contents (ex_engine x)"
      "spec_serve served Map.empty (abs_of empty_book) =
         (sent (ex_engine x), en_order_sessions (ex_engine x), abs_of (en_book (ex_engine x)))"
    using assms by (auto simp: exchange_inv_def Let_def)
  then show "gw_enqueued (ex_gateway x) = served_messages x @ inbound_contents (ex_engine x)"
    "spec_serve (served_messages x) Map.empty (abs_of empty_book) =
       (sent (ex_engine x), en_order_sessions (ex_engine x), abs_of (en_book (ex_engine x)))"
    using served_messagesI [of x served] by simp_all
qed

lemma recorded_schedule: "recorded e w cs \<Longrightarrow> recorded (e\<lparr>en_turns := turns\<rparr>) w cs"
  by (rule recorded.other [OF _ engine_step.schedule]) simp_all

lemma engine_process_recorded:
  assumes inv: "exchange_inv x" and e: "e = (ex_engine x)\<lparr>en_turns := turns\<rparr>" and ready: "ready e"
    and one: "process_one now e = Some (busy, e')" and rec: "recorded (ex_engine x) w (spec_accepted (served_messages x) (abs_of empty_book))"
  shows "recorded (e'\<lparr>en_turns := []\<rparr>) w
    (spec_accepted (take (length (gw_enqueued (ex_gateway x)) - length (inbound_contents e')) (gw_enqueued (ex_gateway x)))
      (abs_of empty_book))"
proof -
  note d = exchange_invD [OF inv] and served = exchange_inv_served [OF inv]
  have re: "engine_reachable e" unfolding e by (rule engine_reachable.step [OF d(1) engine_step.schedule])
  have rec_e: "recorded e w (spec_accepted (served_messages x) (abs_of empty_book))"
    unfolding e by (rule recorded_schedule [OF rec])
  note ie = engine_reachable_inv [OF re]
  have same: "inbound_contents e = inbound_contents (ex_engine x)" "en_book e = en_book (ex_engine x)" by (simp_all add: e)
  show ?thesis
  proof (cases "inbound_contents e")
    case Nil
    obtain "inbound_contents e' = []" "idle_step e e'"
      using process_one_idle [OF ie Nil, of now] one engine_step.process [OF ready one] by (auto simp: idle_step_def)
    moreover have "idle_step\<^sup>*\<^sup>* e (e'\<lparr>en_turns := []\<rparr>)"
      using calculation(2) idle_schedule by (meson converse_rtranclp_into_rtranclp r_into_rtranclp)
    ultimately show ?thesis using recorded_idle [OF _ rec_e] served(1) Nil same(1) by simp
  next
    case (Cons m rest)
    obtain accepted b' where p: "apply_command (en_book e) (im_command m) = Some (accepted, b')" "inbound_contents e' = rest"
      using process_one_ready [OF ie ready Cons, of now] one by auto
    have ok: "command_ok (im_command m)" "book_reachable (en_book e)" using ie Cons by (simp_all add: engine_inv_def)
    have spec: "spec_apply (im_command m) (abs_of (en_book (ex_engine x))) = (accepted, abs_of b')"
      using command_spec [OF ok(2,1) p(1)] same(2) by simp
    have enq: "gw_enqueued (ex_gateway x) = (served_messages x @ [m]) @ rest" using served(1) Cons same(1) by simp
    have "recorded e' w (if accepted then spec_accepted (served_messages x) (abs_of empty_book) @ [im_command m]
        else spec_accepted (served_messages x) (abs_of empty_book))"
      by (rule recorded.process [OF rec_e ready Cons one p(1)])
    then have "recorded e' w (spec_accepted (served_messages x @ [m]) (abs_of empty_book))"
      using spec_accepted_snoc [OF served(2) spec] by (auto split: if_splits)
    then show ?thesis using recorded_schedule enq p(2) by simp
  qed
qed

definition exchange_log :: "exchange \<Rightarrow> bool" where
  "exchange_log x \<longleftrightarrow> (case ex_event_log_writer x of
      None \<Rightarrow> en_event_capture_feed (ex_engine x) = None
    | Some w \<Rightarrow> recorded (ex_engine x) w (spec_accepted (served_messages x) (abs_of empty_book)))"

text \<open>Whatever leaves the engine's book and captures and the served commands alone keeps the log.\<close>

lemma exchange_log_idle:
  assumes "exchange_log x" and "idle_step\<^sup>*\<^sup>* (ex_engine x) (ex_engine x')" and "ex_event_log_writer x' = ex_event_log_writer x"
    and "served_messages x' = served_messages x"
  shows "exchange_log x'"
proof -
  have "en_event_capture_feed (ex_engine x') = en_event_capture_feed (ex_engine x)"
    using assms(2) by (induction rule: rtranclp_induct) (auto simp: idle_step_def)
  then show ?thesis using assms recorded_idle [OF assms(2)] by (auto simp: exchange_log_def split: option.splits)
qed

lemma deliver_enqueued: "gw_inv g \<Longrightarrow> gw_enqueued (deliver m frame g) = gw_enqueued g"
  using deliver_effect(1) [of g m frame] by (simp add: gw_inv_def same_table_def)

text \<open>The timer, deliveries and the signal leave the served commands alone.\<close>

lemma served_by_gateway:
  assumes "exchange_inv x"
  shows "on_timer failed (ex_gateway x) = Some g \<Longrightarrow>
      served_messages (x\<lparr>ex_gateway := g, ex_engine := taken_to q (ex_engine x)\<rparr>) = served_messages x"
    "served_messages (x\<lparr>ex_gateway := deliver m frame (ex_gateway x), ex_in_flight := ms\<rparr>) = served_messages x"
    "served_messages (x\<lparr>ex_gateway := stop (ex_gateway x), ex_serving := b\<rparr>) = served_messages x"
  using on_timer_effect(1) [of "ex_gateway x"] deliver_enqueued [of "ex_gateway x"] stop_effect(1) [of "ex_gateway x"] exchange_invD(2) [OF assms]
  by (simp_all add: served_messages_def taken_to_def)

lemma exchange_log_step:
  assumes "exchange_step x x'" and "exchange_inv x" and "exchange_log x"
  shows "exchange_log x'"
  using assms
proof (induction rule: exchange_step.induct)
  case (network x c g)
  then show ?case using exchange_log_idle [OF network.prems(2), of "with_gateway g x"] exchange_inv_network
    by (simp add: with_gateway_def)
next
  case (timer x failed g)
  have t: "on_timer failed (ex_gateway x) = Some g" using timer.hyps(4) by simp
  then show ?case
    by (intro exchange_log_idle [OF timer.prems(2)])
      (use exchange_inv_timer [OF timer.prems(1) timer.hyps(2) t] served_by_gateway(1) [OF timer.prems(1)] in simp_all)
next
  case (delivery x m ms frame)
  then show ?case using served_by_gateway(2) by (intro exchange_log_idle [OF delivery.prems(2)]) simp_all
next
  case (engine e turns x now busy e')
  have feed: "en_event_capture_feed e' = None" if "en_event_capture_feed (ex_engine x) = None"
  proof -
    have "engine_inv e"
      unfolding engine.hyps(1) by (rule engine_inv_step [OF engine_step.schedule engine_reachable_inv [OF exchange_invD(1) [OF engine.prems(1)]]])
    then show ?thesis using process_one_idle [of e now] process_one_ready [of e _ _ now] engine.hyps that
      by (cases "inbound_contents e") fastforce+
  qed
  then show ?case
    using engine.prems(2) engine_process_recorded [OF engine.prems(1) engine.hyps(1,3,4)]
    by (auto simp: exchange_log_def served_messages_def split: option.splits)
next
  case (publisher x f ok q mb)
  obtain event where "try_pop market_data_capacity (\<lambda>d. d) (mf_queue f) = (event, q)" using publish_one_pops [OF publisher.hyps(2)] by blast
  then have "idle_step (ex_engine x) ((ex_engine x)\<lparr>en_market_data_feed := Some (f\<lparr>mf_queue := q\<rparr>)\<rparr>)"
    using engine_step.take_market_data [OF publisher.hyps(1)] by (simp add: idle_step_def)
  then show ?case by (intro exchange_log_idle [OF publisher.prems(2)]) (auto simp: served_messages_def)
next
  case (recorder x w f spills ok q w')
  then show ?case using recorded.drain [OF _ recorder.hyps(3,4)]
    by (simp add: exchange_log_def served_messages_def)
next
  case (signal x)
  then show ?case using served_by_gateway(3) by (intro exchange_log_idle [OF signal.prems(2)]) simp_all
qed

lemma exchange_log_init:
  assumes "start_exchange log = Some x"
  shows "exchange_log x"
proof -
  note inv = exchange_inv_init [OF assms]
  have e: "en_book (ex_engine x) = empty_book" "gw_enqueued (ex_gateway x) = []"
    "case ex_event_log_writer x of None \<Rightarrow> en_event_capture_feed (ex_engine x) = None
      | Some w \<Rightarrow> (\<exists>opened space. w = make_log_writer opened space) \<and>
          en_event_capture_feed (ex_engine x) = Some (make_capture_feed (empty_ring message_capacity Monostate))"
    using assms by (auto simp: start_exchange_def Let_def make_engine_def start_def do_accept_def schedule_outbound_drain_def
        make_gateway_def split: if_splits option.splits) blast
  then show ?thesis using recorded.init [OF exchange_invD(1) [OF inv]]
    by (auto simp: exchange_log_def served_messages_def split: option.splits)
qed

lemma exchange_reachable_log: "exchange_reachable log x \<Longrightarrow> exchange_log x"
  by (induction rule: exchange_reachable.induct) (auto intro: exchange_log_init exchange_log_step exchange_reachable_inv)

end
