(* ===== verification/Exchange_Guarantees.thy ===== *)
theory Exchange_Guarantees
  imports Exchange_Run
begin

text \<open>
  What the running exchange guarantees under every interleaving of its threads: it is the sequential
  exchange of the specification run on the commands in the order in which they were enqueued, every
  session is sent exactly its own events of that run, nothing gets stuck while the network thread
  runs, and every value keeps the invariant of its type.
\<close>

abbreviation outbound_contents :: "engine \<Rightarrow> outbound_message list" where
  "outbound_contents e \<equiv> ring_contents message_capacity (en_outbound e)"

section \<open>Progress\<close>

lemma exchange_inv_steps: "exchange_step\<^sup>*\<^sup>* x x' \<Longrightarrow> exchange_inv x \<Longrightarrow> exchange_inv x'"
  by (induction rule: rtranclp_induct) (auto intro: exchange_inv_step)

lemma exchange_reachable_steps: "exchange_step\<^sup>*\<^sup>* x x' \<Longrightarrow> exchange_reachable log x \<Longrightarrow> exchange_reachable log x'"
  by (induction rule: rtranclp_induct) (auto intro: exchange_reachable.step)

text \<open>The gateway serves: the drain timer is armed and no session was dropped or closed on the way from \<open>x\<close> to \<open>x'\<close>.\<close>

definition serves :: "exchange \<Rightarrow> bool" where
  "serves x \<longleftrightarrow> ex_serving x \<and> gw_draining (ex_gateway x) \<and> \<not> gw_stopped (ex_gateway x)"

definition undropped :: "gateway \<Rightarrow> gateway \<Rightarrow> bool" where
  "undropped g g' \<longleftrightarrow> gw_sessions g' = gw_sessions g \<and> gw_enqueued g' = gw_enqueued g \<and>
     (\<forall>i s. gw_objects g i = Some s \<longrightarrow> (\<exists>s'. gw_objects g' i = Some s' \<and> ts_open s' = ts_open s))"

lemma undropped_trans: "undropped g g1 \<Longrightarrow> undropped g1 g2 \<Longrightarrow> undropped g g2"
  unfolding undropped_def by metis

lemma fold_send_keeps_open [simp]: "ts_open (fold send_raw_frame fs s) = ts_open s"
  by (induction fs arbitrary: s) (simp_all add: send_raw_frame_def do_write_def Let_def)

lemma deliver_flags: "gw_draining (deliver m frame g) = gw_draining g"
proof -
  have "gw_draining (fold (\<lambda>sid. on_session sid f) xs h) = gw_draining h" for f xs h
    by (induction xs arbitrary: h) (simp_all add: on_session_def)
  then show ?thesis by (simp add: deliver_def on_session_def)
qed

lemma deliver_undropped:
  assumes "gw_inv g"
  shows "undropped g (deliver m frame g)" "gw_stopped (deliver m frame g) = gw_stopped g"
  using deliver_effect [of g m frame] assms
  by (auto simp: undropped_def gw_inv_def same_table_def send_raw_frame_def do_write_def Let_def)

lemma in_flight_delivered:
  assumes "exchange_inv x" and "serves x"
  shows "\<exists>x'. exchange_step\<^sup>*\<^sup>* x x' \<and> ex_in_flight x' = [] \<and> ex_engine x' = ex_engine x \<and> serves x' \<and>
    undropped (ex_gateway x) (ex_gateway x')"
  using assms
proof (induction "ex_in_flight x" arbitrary: x)
  case Nil
  then show ?case by (intro exI [of _ x]) (simp add: undropped_def)
next
  case (Cons m ms)
  let ?y = "x\<lparr>ex_gateway := deliver m (wire_frame m) (ex_gateway x), ex_in_flight := ms\<rparr>"
  have g: "gw_inv (ex_gateway x)" by (rule exchange_invD(2) [OF Cons.prems(1)])
  have step: "exchange_step x ?y"
    by (rule exchange_step.delivery) (use Cons in \<open>simp_all add: serves_def serialize_outbound_eq\<close>)
  have "serves ?y" using Cons.prems(2) deliver_undropped(2) [OF g] by (simp add: serves_def deliver_flags)
  from Cons.hyps(1) [of ?y, OF _ exchange_inv_step [OF step Cons.prems(1)] this] show ?case
    using undropped_trans [OF deliver_undropped(1) [OF g, of m "wire_frame m"]] converse_rtranclp_into_rtranclp [of exchange_step, OF step]
    by auto
qed

lemma timer_drains:
  assumes inv: "exchange_inv x" and "serves x" and "ex_in_flight x = []"
  shows "\<exists>x'. exchange_step x x' \<and> ex_in_flight x' = [] \<and> outbound_contents (ex_engine x') = [] \<and> serves x' \<and>
    undropped (ex_gateway x) (ex_gateway x') \<and> inbound_contents (ex_engine x') = inbound_contents (ex_engine x)"
proof -
  let ?g = "(ex_gateway x)\<lparr>gw_draining := False\<rparr>"
  have r: "ring_inv message_capacity (gw_outbound ?g)" "distinct (gw_sessions ?g)"
    using exchange_invD(2) [OF inv] by (simp_all add: gw_inv_def)
  obtain n g1 where g1: "poll_loop 0 ?g = Some (n, g1)" "same_table ?g g1" "ring_contents message_capacity (gw_outbound g1) = []"
      "\<forall>i. gw_objects g1 i = (if i \<in> set (gw_sessions ?g)
         then map_option (fold send_raw_frame (frames_for i (ring_contents message_capacity (gw_outbound ?g)))) (gw_objects ?g i)
         else gw_objects ?g i)"
    using poll_loop_delivers [OF r, of 0] by auto
  let ?g' = "g1\<lparr>gw_draining := True\<rparr>"
  have "complete (Timer_expired False) (ex_gateway x) = Some ?g'"
    using assms(2) g1(1) by (simp add: serves_def on_timer_def poll_outbound_def schedule_outbound_drain_def)
  then have "exchange_step x (x\<lparr>ex_gateway := ?g', ex_engine := taken_to (gw_outbound ?g') (ex_engine x)\<rparr>)"
    using assms by (intro exchange_step.timer) (simp_all add: serves_def)
  moreover have "undropped (ex_gateway x) ?g'" using g1(2,4) by (auto simp: undropped_def same_table_def)
  ultimately show ?thesis using assms(2,3) g1(2,3)
    by (intro exI conjI) (assumption, simp_all add: serves_def taken_to_def same_table_def)
qed

lemma engine_serves:
  assumes inv: "exchange_inv x" and "serves x" and msg: "inbound_contents (ex_engine x) = m # ms"
    and levels: "no_overflow (snd (spec_apply (im_command m) (abs_of (en_book (ex_engine x)))))"
  shows "\<exists>x'. exchange_step x x' \<and> serves x' \<and> undropped (ex_gateway x) (ex_gateway x') \<and>
    inbound_contents (ex_engine x') = ms \<and>
    abs_of (en_book (ex_engine x')) = snd (spec_apply (im_command m) (abs_of (en_book (ex_engine x))))"
proof -
  define turns where "turns = replicate (length (response m (ex_engine x))) (1 :: nat)"
  let ?e = "(ex_engine x)\<lparr>en_turns := turns\<rparr>"
  have ie: "engine_inv ?e"
    by (rule engine_inv_step [OF engine_step.schedule engine_reachable_inv [OF exchange_invD(1) [OF inv]]])
  have "can_send (length (response m ?e)) ?e"
    by (rule can_sendI(2)) (use ie in \<open>simp_all add: engine_inv_def turns_def response_def\<close>)
  then have ready: "ready ?e" using levels msg by (simp add: ready_def)
  obtain accepted b' e' where p: "process_one 0 ?e = Some (True, e')" "apply_command (en_book ?e) (im_command m) = Some (accepted, b')"
      "en_book e' = b'" "inbound_contents e' = ms"
    using process_one_ready [OF ie ready, of m ms 0] msg by auto
  have "command_ok (im_command m)" "book_reachable (en_book ?e)" using ie msg by (simp_all add: engine_inv_def)
  from command_spec [OF this(2,1) p(2)] have spec: "spec_apply (im_command m) (abs_of (en_book (ex_engine x))) = (accepted, abs_of b')"
    by simp
  have "ex_serving x \<or> turns = []" using assms(2) by (simp add: serves_def)
  from exchange_step.engine [OF refl this ready p(1)] show ?thesis
    by (intro exI conjI) (assumption, use assms(2) p(3,4) spec in \<open>simp_all add: serves_def undropped_def\<close>)
qed

lemma exchange_settles:
  assumes "exchange_inv x" and "serves x" and "levels_ok (inbound_contents (ex_engine x)) (abs_of (en_book (ex_engine x)))"
  shows "\<exists>x'. exchange_step\<^sup>*\<^sup>* x x' \<and> inbound_contents (ex_engine x') = [] \<and> ex_in_flight x' = [] \<and>
    outbound_contents (ex_engine x') = [] \<and> serves x' \<and> undropped (ex_gateway x) (ex_gateway x')"
  using assms
proof (induction "inbound_contents (ex_engine x)" arbitrary: x)
  case Nil
  obtain y where y: "exchange_step\<^sup>*\<^sup>* x y" "ex_in_flight y = []" "ex_engine y = ex_engine x" "serves y"
      "undropped (ex_gateway x) (ex_gateway y)"
    using in_flight_delivered [OF Nil.prems(1,2)] by blast
  from timer_drains [OF exchange_inv_steps [OF y(1) Nil.prems(1)] y(4,2)] show ?case
    using y(1,3) undropped_trans [OF y(5)] rtranclp.rtrancl_into_rtrancl [OF y(1)] unfolding Nil.hyps by metis
next
  case (Cons m ms)
  obtain y where y: "exchange_step x y" "serves y" "undropped (ex_gateway x) (ex_gateway y)" "inbound_contents (ex_engine y) = ms"
      "abs_of (en_book (ex_engine y)) = snd (spec_apply (im_command m) (abs_of (en_book (ex_engine x))))"
    using engine_serves [OF Cons.prems(1,2) Cons.hyps(2) [symmetric]] Cons.prems(3) by (auto simp flip: Cons.hyps(2))
  have "levels_ok (inbound_contents (ex_engine y)) (abs_of (en_book (ex_engine y)))"
    using Cons.prems(3) y(4,5) by (simp flip: Cons.hyps(2))
  from Cons.hyps(1) [OF y(4) [symmetric] exchange_inv_step [OF y(1) Cons.prems(1)] y(2) this] show ?case
    using undropped_trans [OF y(3)] converse_rtranclp_into_rtranclp [of exchange_step, OF y(1)] by blast
qed

text \<open>Only the signal stops the gateway.\<close>

lemma handled_flags: "handled sid g g' \<Longrightarrow> gw_stopped g' = gw_stopped g" "handled sid g g' \<Longrightarrow> gw_draining g' = gw_draining g"
  by (auto simp: handled_def pushes_def unregister_session_def on_session_def)

lemma complete_stopped:
  assumes "gw_inv g" and "pending c g" and "complete c g = Some g'"
  shows "gw_stopped g' = gw_stopped g"
proof (cases "is_timer c")
  case True
  then obtain failed where c: "c = Timer_expired failed" by (cases c) auto
  have "ring_inv message_capacity (gw_outbound (g\<lparr>gw_draining := False\<rparr>))" "distinct (gw_sessions (g\<lparr>gw_draining := False\<rparr>))"
    using assms(1) by (simp_all add: gw_inv_def)
  from poll_loop_delivers [OF this, of 0] show ?thesis using assms(3) c
    by (auto simp: on_timer_def poll_outbound_def schedule_outbound_drain_def same_table_def Let_def split: if_splits)
next
  case False
  then show ?thesis using complete_handled [OF assms False] assms(3) handled_flags(1)
    by (cases c) (auto simp: on_accept_def do_accept_def on_session_def Let_def split: if_splits)
qed

lemma exchange_reachable_open: "exchange_reachable log x \<Longrightarrow> ex_serving x \<Longrightarrow> \<not> gw_stopped (ex_gateway x)"
proof (induction rule: exchange_reachable.induct)
  case (init x)
  then show ?case by (auto simp: start_exchange_def Let_def start_def make_gateway_def do_accept_def schedule_outbound_drain_def
      split: if_splits)
next
  case (step x x')
  have g: "gw_inv (ex_gateway x)" by (rule exchange_invD(2) [OF exchange_reachable_inv [OF step.hyps(1)]])
  from step.hyps(2) step.IH step.prems show ?case
    by cases (use complete_stopped [OF g] deliver_undropped(2) [OF g] in \<open>auto simp: with_gateway_def simp del: complete.simps pending.simps\<close>)
qed

section \<open>A small run for the examples\<close>

lemma network_step:
  "exchange_reachable log x \<Longrightarrow> serves x \<Longrightarrow> pending c (ex_gateway x) \<Longrightarrow> \<not> is_timer c \<Longrightarrow>
   complete c (ex_gateway x) = Some g \<Longrightarrow> exchange_reachable log (with_gateway g x)"
  using exchange_reachable.step exchange_step.network unfolding serves_def by blast

text \<open>One client connects and sends a command.\<close>

abbreviation log_writer_of :: "(bool \<times> nat) option \<Rightarrow> log_writer option" where
  "log_writer_of log \<equiv> map_option (\<lambda>(opened, space). make_log_writer opened space) log"

lemma first_connection:
  assumes log: "log = None \<or> (\<exists>space. log = Some (True, space))"
  obtains x where "exchange_reachable log x" "serves x" "gw_sessions (ex_gateway x) = [1]" "gw_enqueued (ex_gateway x) = []"
    "gw_objects (ex_gateway x) = [1 \<mapsto> do_read_header make_session]" "ring_contents message_capacity (gw_inbound (ex_gateway x)) = []"
    "en_book (ex_engine x) = empty_book" "ex_event_log_writer x = log_writer_of log"
    "en_event_capture_feed (ex_engine x) = (if log = None then None else Some (make_capture_feed (empty_ring message_capacity Monostate)))"
    "outbound_contents (ex_engine x) = []"
proof -
  have "(case log_writer_of log of Some w \<Rightarrow> \<not> lw_good w | None \<Rightarrow> False) = False"
    using log by (auto simp: make_log_writer_def)
  then obtain x where x: "start_exchange log = Some x" by (simp add: start_exchange_def Let_def)
  let ?g = "ex_gateway x" and ?x = "with_gateway (on_accept False (ex_gateway x)) x"
  have x0: "serves x" "gw_accepting ?g" "gw_next_session_id ?g = 1" "gw_sessions ?g = []" "gw_enqueued ?g = []" "gw_objects ?g = Map.empty"
    "en_book (ex_engine x) = empty_book" "ex_event_log_writer x = log_writer_of log" "ring_contents message_capacity (gw_inbound ?g) = []"
    "en_event_capture_feed (ex_engine x) = (if log = None then None else Some (make_capture_feed (empty_ring message_capacity Monostate)))"
    "outbound_contents (ex_engine x) = []"
    using x by (auto simp: start_exchange_def Let_def serves_def start_def make_gateway_def do_accept_def schedule_outbound_drain_def
        make_engine_def ring_inv_empty split: if_splits)
  have "exchange_reachable log ?x"
    by (rule network_step [OF exchange_reachable.init [OF x] x0(1), where c = "Accepted False"]) (simp_all add: x0)
  then show thesis
    by (rule that) (use x0 in \<open>auto simp: with_gateway_def on_accept_def do_accept_def Let_def serves_def on_session_def\<close>)
qed

lemma first_request:
  assumes c: "loggable c" "0 < command_sequence c" and log: "log = None \<or> (\<exists>space. log = Some (True, space))"
  obtains x m s where "exchange_reachable log x" "serves x" "gw_enqueued (ex_gateway x) = [m]" "im_command m = c" "im_session_id m = 1"
    "inbound_contents (ex_engine x) = [m]" "gw_sessions (ex_gateway x) = [1]" "gw_objects (ex_gateway x) 1 = Some s" "ts_open s"
    "en_book (ex_engine x) = empty_book" "ex_event_log_writer x = log_writer_of log"
    "en_event_capture_feed (ex_engine x) = (if log = None then None else Some (make_capture_feed (empty_ring message_capacity Monostate)))"
    "outbound_contents (ex_engine x) = []" "\<not> ts_close_after_write s"
proof -
  obtain frame h where f: "decode_header (take kHeaderSize frame) = Some (Some h)" "validate_header h = None"
      "length (drop kHeaderSize frame) = unat (wh_payload_length h)" "decode_payload h (drop kHeaderSize frame) = Some (Inr (command_sequence c, c))"
    using client_frame [OF c(1)] by blast
  have "length (take kHeaderSize frame) = kHeaderSize"
    using arg_cong [OF header_bytes_decode [OF f(1)], of length] by (simp add: header_bytes_def kHeaderSize_def)
  then have fills: "read_fills kHeaderSize (Some (take kHeaderSize frame))" by (simp add: read_fills_def)
  obtain x1 where r1: "exchange_reachable log x1" "serves x1"
    and x1: "gw_sessions (ex_gateway x1) = [1]" "gw_enqueued (ex_gateway x1) = []"
      "gw_objects (ex_gateway x1) = [1 \<mapsto> do_read_header make_session]" "ring_contents message_capacity (gw_inbound (ex_gateway x1)) = []"
      "en_book (ex_engine x1) = empty_book" "ex_event_log_writer x1 = log_writer_of log"
      "en_event_capture_feed (ex_engine x1) = (if log = None then None else Some (make_capture_feed (empty_ring message_capacity Monostate)))"
      "outbound_contents (ex_engine x1) = []"
    using first_connection [OF log] .
  define x2 where "x2 = with_gateway (on_session 1 (do_read_payload h \<circ> idle) (ex_gateway x1)) x1"
  have r2: "exchange_reachable log x2" unfolding x2_def
    by (rule network_step [OF r1, where c = "Bytes_read 0 1 (Some (take kHeaderSize frame))"])
      (simp_all add: x1(3) f fills do_read_header_def on_header_def)
  let ?s = "do_read_payload h (idle (do_read_header make_session))" and ?bs = "drop kHeaderSize frame"
  have x2: "serves x2" "gw_objects (ex_gateway x2) 1 = Some ?s" "ring_contents message_capacity (gw_inbound (ex_gateway x2)) = []"
    using x1 r1(2) by (auto simp: x2_def with_gateway_def serves_def on_session_def)
  have s: "ts_reading ?s = Read_payload h" "ts_last_sequence ?s = 0" "ts_open ?s" "\<not> ts_close_after_write ?s"
    by (simp_all add: do_read_payload_def do_read_header_def make_session_def)
  obtain g m where g: "on_payload 0 1 h (Some ?bs) (ex_gateway x2) = Some g" "im_session_id m = 1" "im_command m = c"
      "ring_contents message_capacity (gw_inbound g) = [m]" "gw_sessions g = gw_sessions (ex_gateway x2)"
      "gw_objects g = (gw_objects (ex_gateway x2))(1 \<mapsto> ?s\<lparr>ts_last_sequence := command_sequence c, ts_reading := Read_header\<rparr>)"
    using on_payload_accepts [OF exchange_invD(2) [OF exchange_reachable_inv [OF r2]] x2(2) s(1) f(4) _ x2(3), of 0] c(2) s(2) by auto
  have due: "pending (Bytes_read 0 1 (Some ?bs)) (ex_gateway x2)" "complete (Bytes_read 0 1 (Some ?bs)) (ex_gateway x2) = Some g"
    using g(1) f(3) by (simp_all add: x2(2) s(1) read_fills_def)
  have r3: "exchange_reachable log (with_gateway g x2)" by (rule network_step [OF r2 x2(1) due(1) _ due(2)]) simp
  have "gw_enqueued g = [m]"
    using exchange_inv_network [OF exchange_reachable_inv [OF r2] due(1) _ due(2)] exchange_inv_served(1) [OF exchange_reachable_inv [OF r2]]
      exchange_inv_served(1) [OF exchange_reachable_inv [OF r3]] x1(2) x2(3) g(4)
    by (simp add: with_gateway_def x2_def)
  moreover have "serves (with_gateway g x2)"
    using x2(1) handled_flags [OF on_payload_handled [OF g(1)]] by (simp add: serves_def with_gateway_def)
  ultimately show thesis
    by (intro that [OF r3, of m "?s\<lparr>ts_last_sequence := command_sequence c, ts_reading := Read_header\<rparr>"])
      (use g x1 s(3,4) in \<open>simp_all add: with_gateway_def x2_def\<close>)
qed

section \<open>Properties\<close>

text \<open>
  Claim C5. The exchange is linearizable. Whatever the interleaving of the network, engine, publisher
  and recorder threads and of the signal, as long as no command makes a price level hold \<open>2 ^ 64\<close> units
  or more (publishing such a book may be undefined), the commands that the engine has processed are a prefix of
  those the gateway enqueued, the rest is still queued, and running the sequential specification on
  that prefix from the empty book gives exactly the engine's book and owners and the events it has
  sent. Of these events, in the order of the specification, a first part has been delivered, then come
  those the gateway is delivering and those still queued, none lost, repeated or reordered; and every
  registered session with an open socket has been sent, apart from protocol errors, exactly the frames
  of the delivered events addressed to it.
\<close>

theorem exchange_linearizable:
  assumes "exchange_reachable log x"
  shows "\<exists>served events. gw_enqueued (ex_gateway x) = served @ ring_contents message_capacity (gw_inbound (ex_gateway x)) \<and>
    spec_serve served Map.empty (abs_of empty_book) =
      (events @ ex_in_flight x @ ring_contents message_capacity (gw_outbound (ex_gateway x)),
       en_order_sessions (ex_engine x), abs_of (en_book (ex_engine x))) \<and>
    (\<forall>r s. r \<in> set (gw_sessions (ex_gateway x)) \<and> gw_objects (ex_gateway x) r = Some s \<and> ts_open s \<longrightarrow>
       event_frames s = map wire_frame (filter (\<lambda>m. om_session_id m = r) events))"
proof -
  note inv = exchange_reachable_inv [OF assms]
  obtain ms where "en_taken (ex_engine x) = ms @ ex_in_flight x" "delivered (ex_gateway x) ms"
    using inv by (auto simp: exchange_inv_def Let_def)
  then show ?thesis using exchange_inv_served [OF inv] exchange_invD(3,4) [OF inv]
    by (intro exI [of _ "served_messages x"] exI [of _ ms]) (simp add: sent_def delivered_def)
qed

text \<open>
  Nothing gets stuck while the network thread runs: from every reachable state of a serving
  exchange whose drain timer is armed, the threads have a continuation after which every command
  received has been processed and every event has been delivered, with no session dropped or closed on
  the way; so each registered session with an open socket then has been sent the frames of exactly the
  events that the specification addresses to it for the commands enqueued. The condition is that the
  queued commands keep every price level's quantity within 64 bits.
\<close>

theorem exchange_serves_all:
  assumes "exchange_reachable log x" and "ex_serving x" and "gw_draining (ex_gateway x)"
    and "levels_ok (ring_contents message_capacity (gw_inbound (ex_gateway x))) (abs_of (en_book (ex_engine x)))"
  shows "\<exists>x'. exchange_step\<^sup>*\<^sup>* x x' \<and> gw_enqueued (ex_gateway x') = gw_enqueued (ex_gateway x) \<and>
    abs_of (en_book (ex_engine x')) = snd (snd (spec_serve (gw_enqueued (ex_gateway x)) Map.empty (abs_of empty_book))) \<and>
    (\<forall>r s. r \<in> set (gw_sessions (ex_gateway x)) \<and> gw_objects (ex_gateway x) r = Some s \<and> ts_open s \<longrightarrow>
       (\<exists>s'. gw_objects (ex_gateway x') r = Some s' \<and> ts_open s' \<and> event_frames s' =
          map wire_frame (filter (\<lambda>m. om_session_id m = r) (fst (spec_serve (gw_enqueued (ex_gateway x)) Map.empty (abs_of empty_book))))))"
proof -
  note inv = exchange_reachable_inv [OF assms(1)]
  have "serves x" using assms(2,3) exchange_reachable_open [OF assms(1,2)] by (simp add: serves_def)
  then obtain x' where x': "exchange_step\<^sup>*\<^sup>* x x'" "inbound_contents (ex_engine x') = []" "ex_in_flight x' = []"
      "outbound_contents (ex_engine x') = []" "undropped (ex_gateway x) (ex_gateway x')"
    using exchange_settles [OF inv] assms(4) exchange_invD(3) [OF inv] by auto
  note inv' = exchange_inv_steps [OF x'(1) inv]
  have all: "gw_enqueued (ex_gateway x') = gw_enqueued (ex_gateway x)" "spec_serve (gw_enqueued (ex_gateway x)) Map.empty (abs_of empty_book) =
      (sent (ex_engine x'), en_order_sessions (ex_engine x'), abs_of (en_book (ex_engine x')))"
    using exchange_inv_served [OF inv'] x'(2,5) by (simp_all add: undropped_def)
  have del: "delivered (ex_gateway x') (sent (ex_engine x'))"
    using inv' x'(3,4) by (auto simp: exchange_inv_def Let_def sent_def)
  have "\<exists>s'. gw_objects (ex_gateway x') r = Some s' \<and> ts_open s' \<and>
      event_frames s' = map wire_frame (filter (\<lambda>m. om_session_id m = r) (sent (ex_engine x')))"
    if "r \<in> set (gw_sessions (ex_gateway x))" "gw_objects (ex_gateway x) r = Some s" "ts_open s" for r s
    using x'(5) that del unfolding undropped_def delivered_def by metis
  then show ?thesis using x'(1) all by (intro exI [of _ x']) auto
qed

lemma exchange_writer: "exchange_reachable log x \<Longrightarrow> ex_event_log_writer x = None \<longleftrightarrow> log = None"
proof (induction rule: exchange_reachable.induct)
  case (init x)
  then show ?case by (auto simp: start_exchange_def Let_def split: if_splits)
next
  case (step x x')
  from step.hyps(2) step.IH show ?case by cases (auto simp: with_gateway_def)
qed

lemma spec_accepted_length: "length (spec_accepted ms a) \<le> length ms"
  by (induction ms arbitrary: a) (auto simp: Let_def le_SucI split: prod.split)

lemma first_order_facts:
  "loggable (im_command first_order)" "0 < command_sequence (im_command first_order)"
  "fst (spec_apply (im_command first_order) (abs_of empty_book))"
  "length (record_bytes (im_command first_order)) \<le> 100"
  "length (spec_response Map.empty 1 (im_command first_order) (abs_of empty_book)) = 1"
  "map om_session_id (spec_response Map.empty 1 (im_command first_order) (abs_of empty_book)) = [1]"
  by code_simp+

lemma first_order_answer:
  "filter (\<lambda>m. om_session_id m = 1) (spec_response Map.empty 1 (im_command first_order) (abs_of empty_book)) =
     spec_response Map.empty 1 (im_command first_order) (abs_of empty_book)"
  using first_order_facts(6) by (auto simp: filter_id_conv map_eq_Cons_conv)

lemma first_order_fits: "no_overflow (snd (spec_apply (im_command first_order) (abs_of empty_book)))"
proof -
  let ?a = "snd (spec_apply (im_command first_order) (abs_of empty_book))"
  have "length (ab_bids ?a) = 1" and a: "ab_asks ?a = []" by code_simp+
  then obtain e where "ab_bids ?a = [e]" by (auto simp: length_Suc_conv)
  then show ?thesis using a unsigned_less [of "entry_units e", where 'a = nat] by (simp add: no_overflow_def)
qed

text \<open>The exchange that has received the first order, and the same after everything has been delivered.\<close>

lemma first_order_received:
  obtains x m s where "exchange_reachable (Some (True, 100)) x" "serves x" "gw_enqueued (ex_gateway x) = [m]"
    "im_command m = im_command first_order" "im_session_id m = 1" "inbound_contents (ex_engine x) = [m]"
    "gw_sessions (ex_gateway x) = [1]" "gw_objects (ex_gateway x) 1 = Some s" "ts_open s" "en_book (ex_engine x) = empty_book"
    "ex_event_log_writer x = Some (make_log_writer True 100)" "outbound_contents (ex_engine x) = []"
    "en_event_capture_feed (ex_engine x) = Some (make_capture_feed (empty_ring message_capacity Monostate))"
    "levels_ok (inbound_contents (ex_engine x)) (abs_of (en_book (ex_engine x)))" "\<not> ts_close_after_write s"
  by (rule first_request [OF first_order_facts(1,2), of "Some (True, 100)"])
    (use first_order_fits in auto)

theorem exchange_linearizable_witness:
  "\<exists>x m s. exchange_reachable (Some (True, 100)) x \<and> gw_enqueued (ex_gateway x) = [m] \<and> gw_objects (ex_gateway x) 1 = Some s \<and>
     event_frames s = map wire_frame (spec_response Map.empty 1 (im_command first_order) (abs_of empty_book)) \<and> length (event_frames s) = 1"
proof (rule first_order_received)
  fix x m s
  assume x: "exchange_reachable (Some (True, 100)) x" "serves x" "gw_enqueued (ex_gateway x) = [m]" "im_command m = im_command first_order"
    "im_session_id m = 1" "gw_sessions (ex_gateway x) = [1]" "gw_objects (ex_gateway x) 1 = Some s" "ts_open s"
    "levels_ok (inbound_contents (ex_engine x)) (abs_of (en_book (ex_engine x)))"
  obtain y where y: "exchange_step\<^sup>*\<^sup>* x y" "inbound_contents (ex_engine y) = []" "ex_in_flight y = []" "outbound_contents (ex_engine y) = []"
      "undropped (ex_gateway x) (ex_gateway y)"
    using exchange_settles [OF exchange_reachable_inv [OF x(1)] x(2,9)] by blast
  note r = exchange_reachable_steps [OF y(1) x(1)]
  note shared = exchange_invD(3,4) [OF exchange_reachable_inv [OF r]]
  obtain t where t: "gw_objects (ex_gateway y) 1 = Some t" "ts_open t" using y(5) x(7,8) by (auto simp: undropped_def)
  obtain events where ev: "spec_serve [m] Map.empty (abs_of empty_book) = (events, en_order_sessions (ex_engine y), abs_of (en_book (ex_engine y)))"
      "event_frames t = map wire_frame (filter (\<lambda>m. om_session_id m = 1) events)"
    using exchange_linearizable [OF r] y x(3,6) t by (auto simp: undropped_def simp flip: shared)
  have "events = spec_response Map.empty 1 (im_command first_order) (abs_of empty_book)"
    using ev(1) x(4,5) by (auto simp: Let_def split: prod.splits)
  then show ?thesis using r y(5) x(3) t(1) ev(2) first_order_answer first_order_facts(5)
    by (intro exI [of _ y] exI [of _ m] exI [of _ t]) (simp add: undropped_def)
qed

lemma first_order_processed:
  obtains x m where "exchange_reachable (Some (True, 100)) x" "served_messages x = [m]" "gw_enqueued (ex_gateway x) = [m]"
    "im_command m = im_command first_order" "ex_event_log_writer x = Some (make_log_writer True 100)"
    "en_event_capture_feed (ex_engine x) =
       Some (capture (im_command first_order) (make_capture_feed (empty_ring message_capacity Monostate)))" "serves x"
proof (rule first_order_received)
  let ?c = "im_command first_order" and ?f = "make_capture_feed (empty_ring message_capacity Monostate)"
  fix x m s
  assume x: "exchange_reachable (Some (True, 100)) x" "serves x" "gw_enqueued (ex_gateway x) = [m]" "im_command m = ?c" "im_session_id m = 1"
    "inbound_contents (ex_engine x) = [m]" "en_book (ex_engine x) = empty_book" "ex_event_log_writer x = Some (make_log_writer True 100)"
    "outbound_contents (ex_engine x) = []" "en_event_capture_feed (ex_engine x) = Some ?f"
    "levels_ok (inbound_contents (ex_engine x)) (abs_of (en_book (ex_engine x)))"
  let ?e = "(ex_engine x)\<lparr>en_turns := []\<rparr>"
  note inv = exchange_reachable_inv [OF x(1)]
  have ie: "engine_inv ?e" by (rule engine_inv_step [OF engine_step.schedule engine_reachable_inv [OF exchange_invD(1) [OF inv]]])
  have "en_order_sessions (ex_engine x) = Map.empty" using exchange_inv_served [OF inv] x(3,6) by simp
  then have "length (response m ?e) = 1" using x(4,5,7) first_order_facts(5) by (simp add: response_def)
  then have ready: "ready ?e" using x(6,7,9,11) can_sendI(1) [of ?e 1] by (simp add: ready_def)
  obtain accepted b' e' where p: "process_one 0 ?e = Some (True, e')" "apply_command empty_book ?c = Some (accepted, b')" "inbound_contents e' = []"
      "en_event_capture_feed e' = (if accepted then Some (capture ?c ?f) else Some ?f)"
    using process_one_ready [OF ie ready, of m "[]" 0] x(4,6,7,10) by auto
  have "spec_apply ?c (abs_of empty_book) = (accepted, abs_of b')"
    using command_spec [OF _ _ p(2)] ie x(4,6,7) by (simp add: engine_inv_def)
  then have f: "en_event_capture_feed e' = Some (capture ?c ?f)" using p(4) first_order_facts(3) by simp
  show thesis
    by (rule that [OF exchange_reachable.step [OF x(1) exchange_step.engine [OF refl disjI2 [OF refl] ready p(1)]], of m])
      (use x(2,3,4,8) p(3) f in \<open>simp_all add: served_messages_def serves_def\<close>)
qed

text \<open>
  Claim C10. Every value in the running exchange keeps the invariant of its type. The value types of
  the program can only be obtained through validating factories, but decoding, matching and replacing
  rebuild them from raw words: in every state that is reachable without a price level of \<open>2 ^ 64\<close> units
  or more each command that was passed to the engine,
  each resting order and each event sent carries only non-zero identifiers, positive prices and
  quantities and non-zero sequence numbers.
\<close>

theorem exchange_well_typed:
  assumes "exchange_reachable log x"
  shows "list_all (\<lambda>m. loggable (im_command m) \<and> command_ok (im_command m) \<and> im_session_id m \<noteq> 0) (gw_enqueued (ex_gateway x)) \<and>
    list_all entry_ok (entries Buy (en_book (ex_engine x)) @ entries Sell (en_book (ex_engine x))) \<and>
    list_all event_ok (ex_in_flight x @ ring_contents message_capacity (gw_outbound (ex_gateway x)))"
proof -
  note inv = exchange_reachable_inv [OF assms]
  note d = exchange_invD [OF inv]
  have "engine_values_ok (ex_engine x)" by (rule engine_reachable_values [OF d(1)])
  moreover have "im_session_id m \<noteq> 0" if "gw_objects (ex_gateway x) (im_session_id m) \<noteq> None" for m :: inbound_message
    using that gw_invD(2) [OF d(2), of "im_session_id m"] by auto
  moreover have "set (ex_in_flight x @ outbound_contents (ex_engine x)) \<subseteq> set (sent (ex_engine x))"
    using inv by (auto simp: exchange_inv_def Let_def sent_def)
  moreover have "list_all (\<lambda>m. loggable (im_command m) \<and> gw_objects (ex_gateway x) (im_session_id m) \<noteq> None) (gw_enqueued (ex_gateway x))"
    using d(2) by (simp add: gw_inv_def)
  ultimately show ?thesis using loggable_ok unfolding d(4) [symmetric]
    by (auto simp: engine_values_ok_def values_ok_def abs_of_def entries_def levels_of_def list_all_iff)
qed

theorem exchange_well_typed_witness:
  "\<exists>x m. exchange_reachable (Some (True, 100)) x \<and> gw_enqueued (ex_gateway x) = [m] \<and> command_ok (im_command m) \<and>
     list_all entry_ok (entries Buy (en_book (ex_engine x)))"
proof (rule first_order_processed)
  fix x m
  assume x: "exchange_reachable (Some (True, 100)) x" "gw_enqueued (ex_gateway x) = [m]"
  then show ?thesis using exchange_well_typed [OF x(1)] by auto
qed

end
