(* ===== verification/Published_Book.thy ===== *)
theory Published_Book
  imports Exchange_Guarantees
begin

text \<open>
  The market-data path of the running exchange: the engine publishes its book after every command,
  the publisher applies the queued events to the published book. The composed system is projected to
  the market-data system, and every event is traced back to the commands whose book it shows.
\<close>

section \<open>The books the events show\<close>

definition spec_book :: "inbound_message list \<Rightarrow> abs_book" where
  "spec_book ms = snd (snd (spec_serve ms Map.empty (abs_of empty_book)))"

definition shows_book :: "inbound_message list \<Rightarrow> nat \<Rightarrow> market_data_event \<Rightarrow> bool" where
  "shows_book ms n e \<longleftrightarrow> me_bids e = depth_view (ab_bids (spec_book (take n ms))) \<and> me_asks e = depth_view (ab_asks (spec_book (take n ms)))"

text \<open>The \<open>ns\<close> count the commands behind each event, delivered or queued.\<close>

definition traced :: "inbound_message list \<Rightarrow> md_system \<Rightarrow> nat list \<Rightarrow> bool" where
  "traced ms s ns \<longleftrightarrow> sorted_wrt (<) ns \<and> (\<forall>n \<in> set ns. 0 < n \<and> n \<le> length ms) \<and> list_all2 (shows_book ms) ns (md_history s)"

definition market_inv :: "exchange \<Rightarrow> bool" where
  "market_inv x \<longleftrightarrow> (\<exists>s ns. md_reachable (\<lambda>d. d) default_market_data_event 64 s \<and>
     en_market_data_feed (ex_engine x) = Some (ms_feed s) \<and> ms_subscriber s = ex_published_book x \<and>
     traced (served_messages x) s ns)"

lemma market_inv_same:
  "market_inv x \<Longrightarrow> en_market_data_feed (ex_engine x') = en_market_data_feed (ex_engine x) \<Longrightarrow>
   ex_published_book x' = ex_published_book x \<Longrightarrow> served_messages x' = served_messages x \<Longrightarrow> market_inv x'"
  by (simp add: market_inv_def)

lemma traced_more:
  assumes "traced ms s ns" and "md_history s' = md_history s"
  shows "traced (ms @ ms1) s' ns"
  using assms by (auto simp: traced_def shows_book_def list_all2_conv_all_nth dest!: nth_mem)

lemma traced_publish:
  assumes t: "traced ms s ns" and hist: "md_history s' = md_history s @ [view_event b f]" and b: "abs_of b = spec_book (ms @ [m])"
  shows "traced (ms @ [m]) s' (ns @ [length (ms @ [m])])"
proof -
  have "traced (ms @ [m]) s ns" by (rule traced_more [OF t refl])
  moreover have "shows_book (ms @ [m]) (length (ms @ [m])) (view_event b f)"
    unfolding shows_book_def take_all [OF order_refl] b [symmetric] by (simp add: view_event_def abs_of_def entries_def levels_of_def)
  ultimately show ?thesis using t hist
    by (auto simp: traced_def sorted_wrt_append intro: list_all2_appendI)
qed

section \<open>Steps\<close>

lemma engine_market:
  assumes inv: "exchange_inv x" and e: "e = (ex_engine x)\<lparr>en_turns := turns\<rparr>" and ready: "ready e"
    and one: "process_one now e = Some (busy, e')"
    and x': "x' = x\<lparr>ex_engine := e'\<lparr>en_turns := []\<rparr>,
       ex_gateway := (ex_gateway x)\<lparr>gw_inbound := en_inbound e', gw_outbound := en_outbound e'\<rparr>,
       ex_in_flight := ex_in_flight x @ drop (length (en_taken e)) (en_taken e')\<rparr>"
    and feed: "en_market_data_feed (ex_engine x) = Some f"
  shows "served_messages x' = served_messages x \<and> en_market_data_feed (ex_engine x') = Some f \<or>
    (\<exists>m b f'. served_messages x' = served_messages x @ [m] \<and> book_reachable b \<and> no_overflow (abs_of b) \<and>
       abs_of b = spec_book (served_messages x @ [m]) \<and> publish b f = Some f' \<and> en_market_data_feed (ex_engine x') = Some f')"
proof -
  have ie: "engine_inv e"
    unfolding e by (rule engine_inv_step [OF engine_step.schedule engine_reachable_inv [OF exchange_invD(1) [OF inv]]])
  have inv': "exchange_inv x'" unfolding x' by (rule exchange_inv_engine [OF inv e ready one])
  note served = exchange_inv_served [OF inv] and served' = exchange_inv_served [OF inv']
  show ?thesis
  proof (cases "inbound_contents e")
    case Nil
    then have "served_messages x' = served_messages x" "en_market_data_feed (ex_engine x') = Some f"
      using process_one_idle [OF ie Nil, of now] one e feed by (auto simp: served_messages_def x')
    then show ?thesis by blast
  next
    case (Cons m ms)
    obtain accepted b where p: "apply_command (en_book e) (im_command m) = Some (accepted, b)" "en_book e' = b" "inbound_contents e' = ms"
        "en_market_data_feed e' = Option.bind (Some f) (publish b)" "en_market_data_feed e' \<noteq> None" "engine_inv e'"
      using process_one_ready [OF ie ready Cons, of now] one e feed by auto
    have ok: "command_ok (im_command m)" "book_reachable (en_book e)" "book_reachable b" using ie p(2,6) Cons by (simp_all add: engine_inv_def)
    have "no_overflow (abs_of b)" using ready Cons e feed command_spec [OF ok(2,1) p(1)] by (simp add: ready_def)
    moreover have s: "served_messages x' = served_messages x @ [m]"
      using served(1) Cons p(3) e by (intro served_messagesI) (simp add: x')
    moreover have "abs_of b = spec_book (served_messages x @ [m])"
      using served'(2) p(2) unfolding s by (simp add: spec_book_def x')
    ultimately show ?thesis using p(4,5) ok(3) by (auto simp: x')
  qed
qed

lemma market_inv_engine:
  assumes m: "market_inv x" and r: "exchange_inv x" "e = (ex_engine x)\<lparr>en_turns := turns\<rparr>" "ready e" "process_one now e = Some (busy, e')"
    and x': "x' = x\<lparr>ex_engine := e'\<lparr>en_turns := []\<rparr>,
       ex_gateway := (ex_gateway x)\<lparr>gw_inbound := en_inbound e', gw_outbound := en_outbound e'\<rparr>,
       ex_in_flight := ex_in_flight x @ drop (length (en_taken e)) (en_taken e')\<rparr>"
  shows "market_inv x'"
proof -
  obtain s ns where s: "md_reachable (\<lambda>d. d) default_market_data_event 64 s" "en_market_data_feed (ex_engine x) = Some (ms_feed s)"
      "ms_subscriber s = ex_published_book x" "traced (served_messages x) s ns"
    using m by (auto simp: market_inv_def)
  have pub: "ex_published_book x' = ex_published_book x" by (simp add: x')
  from engine_market [OF r x' s(2)] show ?thesis
  proof (elim disjE exE conjE)
    assume "served_messages x' = served_messages x" "en_market_data_feed (ex_engine x') = Some (ms_feed s)"
    then show ?thesis using market_inv_same [OF m _ pub] s(2) by simp
  next
    fix m b f'
    assume b: "served_messages x' = served_messages x @ [m]" "book_reachable b" "no_overflow (abs_of b)"
      "abs_of b = spec_book (served_messages x @ [m])" "publish b (ms_feed s) = Some f'" "en_market_data_feed (ex_engine x') = Some f'"
    let ?s = "s\<lparr>ms_feed := f'\<rparr>"
    have r: "md_reachable (\<lambda>d. d) default_market_data_event 64 ?s" by (rule md_reachable.step [OF s(1) md_step.publish [OF b(2,3,5)]])
    have "md_history ?s = md_history s \<or> md_history ?s = md_history s @ [view_event b (ms_feed s)]"
      by (rule publish_cases [OF reachable_inv [OF b(2)] b(3) md_inv_parts(2) [OF md_reachable_inv [OF s(1)]]])
        (use b(5) in \<open>auto simp: md_history_def\<close>)
    then obtain ns' where "traced (served_messages x @ [m]) ?s ns'" using traced_more [OF s(4)] traced_publish [OF s(4) _ b(4)] by blast
    then show ?thesis using r b(1,6) s(3) pub unfolding market_inv_def
      by (intro exI [of _ ?s] exI [of _ ns']) simp
  qed
qed

lemma market_inv_publisher:
  assumes m: "market_inv x" and f: "en_market_data_feed (ex_engine x) = Some f"
    and one: "publish_one (\<lambda>d. d) (mf_queue f) (ex_published_book x) = Some (ok, q, mb)"
  shows "market_inv (x\<lparr>ex_engine := (ex_engine x)\<lparr>en_market_data_feed := Some (f\<lparr>mf_queue := q\<rparr>)\<rparr>, ex_published_book := mb\<rparr>)"
proof -
  obtain s ns where s: "md_reachable (\<lambda>d. d) default_market_data_event 64 s" "ms_feed s = f"
      "ms_subscriber s = ex_published_book x" "traced (served_messages x) s ns"
    using m f by (auto simp: market_inv_def)
  let ?s = "s\<lparr>ms_feed := (ms_feed s)\<lparr>mf_queue := q\<rparr>, ms_subscriber := mb, ms_delivered := ms_delivered s @ take 1 (queued (ms_feed s))\<rparr>"
  note inv = md_reachable_inv [OF s(1)]
  have "md_reachable (\<lambda>d. d) default_market_data_event 64 ?s"
    by (rule md_reachable.step [OF s(1) md_step.deliver]) (use one s in simp)
  moreover have "ring_contents market_data_capacity q = drop 1 (queued f)"
    using publish_one_follows [OF md_inv_parts(2,3) [OF inv], of "\<lambda>d. d"] md_inv_parts(4) [OF inv] one s(2,3) by (auto simp: md_history_def)
  then have "md_history ?s = md_history s" using s(2) by (simp add: md_history_def)
  then have "traced (served_messages x) ?s ns" using traced_more [OF s(4), of ?s "[]"] by simp
  ultimately show ?thesis using s(2) unfolding market_inv_def
    by (intro exI [of _ ?s] exI [of _ ns]) (simp add: served_messages_def)
qed

lemma market_inv_step:
  assumes "exchange_step x x'" and "exchange_inv x" and "market_inv x"
  shows "market_inv x'"
  using assms
proof (induction rule: exchange_step.induct)
  case (network x c g)
  then show ?case using exchange_inv_network by (intro market_inv_same [OF network.prems(2)]) (auto simp: with_gateway_def)
next
  case (timer x failed g)
  then show ?case using served_by_gateway(1) by (intro market_inv_same [OF timer.prems(2)]) (simp_all add: taken_to_def)
next
  case (delivery x m ms frame)
  then show ?case using served_by_gateway(2) by (intro market_inv_same [OF delivery.prems(2)]) simp_all
next
  case (engine e turns x now busy e')
  then show ?case using market_inv_engine [OF _ _ _ _ _ refl] by blast
next
  case (publisher x f ok q mb)
  then show ?case using market_inv_publisher by blast
next
  case (recorder x w f spills ok q w')
  then show ?case by (intro market_inv_same [OF recorder.prems(2)]) (simp_all add: served_messages_def)
next
  case (signal x)
  then show ?case using served_by_gateway(3) by (intro market_inv_same [OF signal.prems(2)]) simp_all
qed

lemma market_inv_init:
  assumes "start_exchange log = Some x"
  shows "market_inv x"
proof -
  let ?s = "md_init default_market_data_event 64"
  have "en_market_data_feed (ex_engine x) = Some (ms_feed ?s)" "ex_published_book x = ms_subscriber ?s"
    using assms by (auto simp: start_exchange_def Let_def make_engine_def md_init_def split: if_splits)
  moreover have "traced (served_messages x) ?s []" by (simp add: traced_def md_history_def)
  ultimately show ?thesis unfolding market_inv_def using md_reachable.init by (metis (full_types))
qed

lemma exchange_reachable_market: "exchange_reachable log x \<Longrightarrow> market_inv x"
  by (induction rule: exchange_reachable.induct) (auto intro: market_inv_init market_inv_step exchange_reachable_inv)

section \<open>Properties\<close>

text \<open>
  Claim C9. The published book is a true book, and never goes back. In every state of the running
  exchange that is reached without a price level of \<open>2 ^ 64\<close> units or more the published book is either still unsynchronised, before the first event, or shows exactly
  the top five levels of the book that the specification gives for some prefix of the commands the
  engine has processed; and the events still queued show the books of strictly longer prefixes, in
  order. This holds under every interleaving of engine and publisher and whatever events had to be
  dropped for want of room.
\<close>

theorem published_book_is_true:
  assumes "exchange_reachable log x"
  shows "\<exists>f n ns. en_market_data_feed (ex_engine x) = Some f \<and> sorted_wrt (<) (n # ns) \<and>
    (\<forall>k \<in> set (n # ns). k \<le> length (served_messages x)) \<and> list_all2 (shows_book (served_messages x)) ns (queued f) \<and>
    (mb_synchronized (ex_published_book x) \<longleftrightarrow> 0 < n) \<and>
    (0 < n \<longrightarrow> mb_bids (ex_published_book x) = depth_view (ab_bids (spec_book (take n (served_messages x)))) \<and>
       mb_asks (ex_published_book x) = depth_view (ab_asks (spec_book (take n (served_messages x)))))"
proof -
  obtain s ns where s: "md_reachable (\<lambda>d. d) default_market_data_event 64 s" "en_market_data_feed (ex_engine x) = Some (ms_feed s)"
      "ms_subscriber s = ex_published_book x" "traced (served_messages x) s ns"
    using exchange_reachable_market [OF assms] by (auto simp: market_inv_def)
  have fol: "follows (ex_published_book x) (ms_delivered s)" using md_inv_parts(3) [OF md_reachable_inv [OF s(1)]] s(3) by simp
  obtain ns1 ns2 where ns: "ns = ns1 @ ns2" "list_all2 (shows_book (served_messages x)) ns1 (ms_delivered s)"
      "list_all2 (shows_book (served_messages x)) ns2 (queued (ms_feed s))"
    using s(4) by (auto simp: traced_def md_history_def list_all2_append2)
  show ?thesis
  proof (cases ns1 rule: rev_cases)
    case Nil
    then have "\<not> mb_synchronized (ex_published_book x)" using fol ns(2) by (simp add: follows_def)
    then show ?thesis using s(2,4) ns Nil by (intro exI [of _ "ms_feed s"] exI [of _ 0] exI [of _ ns2]) (auto simp: traced_def)
  next
    case (snoc old n)
    then obtain front e where d: "ms_delivered s = front @ [e]" "shows_book (served_messages x) n e"
      using ns(2) by (auto simp: list_all2_append1 list_all2_Cons1)
    then show ?thesis using s(2,4) ns snoc fol
      by (intro exI [of _ "ms_feed s"] exI [of _ n] exI [of _ ns2])
        (auto simp: traced_def sorted_wrt_append follows_def shows_book_def)
  qed
qed

theorem published_book_is_true_witness:
  "\<exists>x m f n ns. exchange_reachable (Some (True, 100)) x \<and> served_messages x = [m] \<and> im_command m = im_command first_order \<and>
     en_market_data_feed (ex_engine x) = Some f \<and> sorted_wrt (<) (n # ns) \<and> list_all2 (shows_book [m]) ns (queued f) \<and>
     (mb_synchronized (ex_published_book x) \<longleftrightarrow> 0 < n)"
proof (rule first_order_processed)
  fix x m
  assume x: "exchange_reachable (Some (True, 100)) x" "served_messages x = [m]" "im_command m = im_command first_order"
  from published_book_is_true [OF x(1), unfolded x(2)] show ?thesis using x by blast
qed

end
