(* ===== verification/Shutdown.thy ===== *)
theory Shutdown
  imports Published_Book
begin

text \<open>
  How \<open>run_gateway\<close> of \<open>apps/low_latency_exchange/main.cpp\<close> ends, after \<open>io_context::run\<close> has returned.
  The engine's thread is asked to stop and joined, then the recorder's, then the publisher's, and the
  exit status says whether the log is complete. Until they are joined the publisher and the recorder
  go on. The engine's thread ends when it next looks at its stop token: at once if it is between two
  calls of \<open>process_available\<close>, otherwise after the batch it is in, which may not end: nobody takes
  messages off the outbound queue any more.
\<close>

section \<open>The threads until they are joined\<close>

definition publisher_runs :: "exchange \<Rightarrow> exchange ub" where
  "publisher_runs x =
     (case en_market_data_feed (ex_engine x) of
        None \<Rightarrow> Some x
      | Some f \<Rightarrow> do {
          (ok, q, mb) \<leftarrow> publish_one (\<lambda>d. d) (mf_queue f) (ex_published_book x);
          Some (x\<lparr>ex_engine := (ex_engine x)\<lparr>en_market_data_feed := Some (f\<lparr>mf_queue := q\<rparr>)\<rparr>, ex_published_book := mb\<rparr>)
        })"

definition recorder_runs :: "nat list \<Rightarrow> exchange \<Rightarrow> exchange ub" where
  "recorder_runs spills x =
     (case (ex_event_log_writer x, en_event_capture_feed (ex_engine x)) of
        (Some w, Some f) \<Rightarrow>
          if lw_good w then do {
            (ok, q, w') \<leftarrow> drain_event_capture_one (\<lambda>c. c) (ecf_queue f) (w\<lparr>lw_spills := spills\<rparr>);
            Some (x\<lparr>ex_engine := (ex_engine x)\<lparr>en_event_capture_feed := Some (f\<lparr>ecf_queue := q\<rparr>)\<rparr>, ex_event_log_writer := Some w'\<rparr>)
          } else Some x
      | _ \<Rightarrow> Some x)"

datatype background = Publisher_runs | Recorder_runs "nat list"

fun background_runs :: "background list \<Rightarrow> exchange \<Rightarrow> exchange ub" where
  "background_runs [] x = Some x"
| "background_runs (Publisher_runs # ts) x = do { x1 \<leftarrow> publisher_runs x; background_runs ts x1 }"
| "background_runs (Recorder_runs spills # ts) x = do { x1 \<leftarrow> recorder_runs spills x; background_runs ts x1 }"

text \<open>
  The rest of the engine's batch: \<open>process_available\<close>, with the other threads' turns before each
  command. \<open>None\<close> is a batch that never ends.
\<close>

partial_function (option) finish_batch ::
    "(nat \<Rightarrow> background list) \<Rightarrow> (nat \<Rightarrow> i64) \<Rightarrow> nat \<Rightarrow> exchange \<Rightarrow> exchange ub" where
  "finish_batch turns clock n x = do {
     x1 \<leftarrow> background_runs (turns n) x;
     (more, e) \<leftarrow> process_one (clock n) ((ex_engine x1)\<lparr>en_turns := []\<rparr>);
     let x2 = x1\<lparr>ex_engine := e\<lparr>en_turns := []\<rparr>,
       ex_gateway := (ex_gateway x1)\<lparr>gw_inbound := en_inbound e, gw_outbound := en_outbound e\<rparr>\<rparr>;
     if more then finish_batch turns clock (Suc n) x2 else Some x2
   }"

text \<open>
  What the code leaves to the scheduler: whether the engine's thread is in a batch when it is asked to
  stop, the turns of the other threads meanwhile and after it, the clock, and what the log's stream
  passes on early.
\<close>

record shutdown =
  sd_in_batch :: bool
  sd_turns :: "nat \<Rightarrow> background list"
  sd_clock :: "nat \<Rightarrow> i64"
  sd_late :: "background list"
  sd_spills :: "nat list"

definition join_engine :: "shutdown \<Rightarrow> exchange \<Rightarrow> exchange ub" where
  "join_engine sd x =
     (if sd_in_batch sd then finish_batch (sd_turns sd) (sd_clock sd) 0 x else background_runs (sd_turns sd 0) x)"

text \<open>The end of the recorder's thread: it drains what is left and flushes the stream.\<close>

definition join_recorder :: "nat list \<Rightarrow> exchange \<Rightarrow> (bool \<times> exchange) ub" where
  "join_recorder spills x =
     (case (ex_event_log_writer x, en_event_capture_feed (ex_engine x)) of
        (Some w, Some f) \<Rightarrow> do {
          (q, w1) \<leftarrow> drain_remaining (ecf_queue f) (w\<lparr>lw_spills := spills\<rparr>);
          let (flushed, w2) = log_flush w1;
          Some (flushed, x\<lparr>ex_event_log_writer := Some w2,
            ex_engine := (ex_engine x)\<lparr>en_event_capture_feed := Some (f\<lparr>ecf_queue := q\<rparr>)\<rparr>\<rparr>)
        }
      | _ \<Rightarrow> Some (True, x))"

text \<open>
  The publisher's thread is joined last; its turns are independent of the recorder's, so all those
  after the engine's end are among \<open>sd_late\<close>. The result is whether the flush succeeded, the exit
  status and the final state.
\<close>

definition finish_exchange :: "shutdown \<Rightarrow> exchange \<Rightarrow> (bool \<times> nat \<times> exchange) ub" where
  "finish_exchange sd x = do {
     x1 \<leftarrow> join_engine sd x;
     x2 \<leftarrow> background_runs (sd_late sd) x1;
     (flushed, x3) \<leftarrow> join_recorder (sd_spills sd) x2;
     let status = (case (ex_event_log_writer x3, en_event_capture_feed (ex_engine x3)) of
         (Some w, Some f) \<Rightarrow> gateway_exit_status f w
       | _ \<Rightarrow> 0);
     Some (flushed, status, x3\<lparr>ex_gateway := stop (ex_gateway x3)\<rparr>)
   }"

section \<open>The background threads\<close>

text \<open>What the background threads leave alone.\<close>

definition same_core :: "exchange \<Rightarrow> exchange \<Rightarrow> bool" where
  "same_core x x' \<longleftrightarrow> ex_gateway x' = ex_gateway x \<and> en_inbound (ex_engine x') = en_inbound (ex_engine x) \<and>
     en_outbound (ex_engine x') = en_outbound (ex_engine x) \<and> en_book (ex_engine x') = en_book (ex_engine x) \<and>
     en_order_sessions (ex_engine x') = en_order_sessions (ex_engine x) \<and>
     (ex_event_log_writer x' = None \<longleftrightarrow> ex_event_log_writer x = None)"

lemma publisher_runs_defined:
  assumes "market_inv x"
  shows "\<exists>x'. publisher_runs x = Some x'"
proof -
  obtain s ns where s: "md_reachable (\<lambda>d. d) default_market_data_event 64 s" "en_market_data_feed (ex_engine x) = Some (ms_feed s)"
      "ms_subscriber s = ex_published_book x"
    using assms by (auto simp: market_inv_def)
  note inv = md_reachable_inv [OF s(1)]
  obtain ok q mb where "publish_one (\<lambda>d. d) (mf_queue (ms_feed s)) (ms_subscriber s) = Some (ok, q, mb)"
    using publish_one_follows [OF md_inv_parts(2,3) [OF inv], of "\<lambda>d. d"] md_inv_parts(4) [OF inv] by (auto simp: md_history_def)
  then show ?thesis using s by (simp add: publisher_runs_def)
qed

lemma recorder_runs_defined:
  assumes "exchange_log x"
  shows "\<exists>x'. recorder_runs spills x = Some x'"
proof (cases "ex_event_log_writer x")
  case None
  then show ?thesis by (simp add: recorder_runs_def)
next
  case (Some w)
  then have "recorder_inv (ex_engine x) w (spec_accepted (served_messages x) (abs_of empty_book))"
    using assms recorded_inv by (simp add: exchange_log_def)
  then obtain f where f: "en_event_capture_feed (ex_engine x) = Some f" "ring_inv message_capacity (ecf_queue f)" "list_all loggable (captured f)"
    by (auto simp: recorder_inv_def capture_account_def list_all_iff)
  then show ?thesis using drain_one_defined [OF f(2,3)] Some by (fastforce simp: recorder_runs_def)
qed

lemma publisher_runs_step: "publisher_runs x = Some x' \<Longrightarrow> exchange_step\<^sup>=\<^sup>= x x' \<and> same_core x x'"
  by (auto simp: publisher_runs_def same_core_def bind_ub_eq_Some split: option.splits intro: exchange_step.publisher)

lemma recorder_runs_step: "recorder_runs spills x = Some x' \<Longrightarrow> exchange_step\<^sup>=\<^sup>= x x' \<and> same_core x x'"
  by (auto simp: recorder_runs_def same_core_def bind_ub_eq_Some split: option.splits if_splits intro: exchange_step.recorder)

lemma same_core_trans: "same_core x x1 \<Longrightarrow> same_core x1 x2 \<Longrightarrow> same_core x x2"
  by (simp add: same_core_def)

lemma background_runs_steps:
  "background_runs ts x = Some x' \<Longrightarrow> exchange_step\<^sup>*\<^sup>* x x' \<and> same_core x x'"
proof (induction ts x rule: background_runs.induct)
  case (2 ts x)
  then obtain x1 where x1: "publisher_runs x = Some x1" "background_runs ts x1 = Some x'" by (auto simp: bind_ub_eq_Some)
  then show ?case using 2(1) [OF x1] publisher_runs_step [OF x1(1)] same_core_trans by (auto intro: converse_rtranclp_into_rtranclp)
next
  case (3 spills ts x)
  then obtain x1 where x1: "recorder_runs spills x = Some x1" "background_runs ts x1 = Some x'" by (auto simp: bind_ub_eq_Some)
  then show ?case using 3(1) [OF x1] recorder_runs_step [OF x1(1)] same_core_trans by (auto intro: converse_rtranclp_into_rtranclp)
qed (simp add: same_core_def)

lemma background_runs_defined:
  "exchange_reachable log x \<Longrightarrow> \<exists>x'. background_runs ts x = Some x'"
proof (induction ts x rule: background_runs.induct)
  case (2 ts x)
  then obtain x1 where x1: "publisher_runs x = Some x1" using publisher_runs_defined exchange_reachable_market by blast
  then have "exchange_reachable log x1" using publisher_runs_step 2(2) exchange_reachable.step by blast
  then show ?case using 2(1) [OF x1] x1 by simp
next
  case (3 spills ts x)
  then obtain x1 where x1: "recorder_runs spills x = Some x1" using recorder_runs_defined exchange_reachable_log by blast
  then have "exchange_reachable log x1" using recorder_runs_step 3(2) exchange_reachable.step by blast
  then show ?case using 3(1) [OF x1] x1 by simp
qed simp

section \<open>Joining the engine's thread\<close>

lemma engine_alone_step:
  assumes "ready ((ex_engine x)\<lparr>en_turns := []\<rparr>)" and one: "process_one now ((ex_engine x)\<lparr>en_turns := []\<rparr>) = Some (busy, e)"
  shows "exchange_step x (x\<lparr>ex_engine := e\<lparr>en_turns := []\<rparr>,
    ex_gateway := (ex_gateway x)\<lparr>gw_inbound := en_inbound e, gw_outbound := en_outbound e\<rparr>\<rparr>)" (is "exchange_step x ?y")
proof -
  have "en_taken e = en_taken (ex_engine x)" using process_one_undisturbed [OF one] by (simp add: undisturbed_def)
  then have "?y\<lparr>ex_in_flight := ex_in_flight x @ drop (length (en_taken ((ex_engine x)\<lparr>en_turns := []\<rparr>))) (en_taken e)\<rparr> = ?y"
    by (cases x) simp
  then show ?thesis using exchange_step.engine [OF refl disjI2 [OF refl] assms] by simp
qed

lemma engine_alone_inv:
  assumes "exchange_reachable log x"
  shows "engine_inv ((ex_engine x)\<lparr>en_turns := []\<rparr>)"
  by (rule engine_inv_step [OF engine_step.schedule engine_reachable_inv [OF exchange_invD(1) [OF exchange_reachable_inv [OF assms]]]])

text \<open>A command whose answer fits the outbound queue is processed without the gateway.\<close>

lemma engine_alone_serves:
  assumes reach: "exchange_reachable log x" and msg: "inbound_contents (ex_engine x) = m # ms"
    and spec: "spec_apply (im_command m) (abs_of (en_book (ex_engine x))) = (acc, a')" "no_overflow a'"
    and r: "r = spec_response (en_order_sessions (ex_engine x)) (im_session_id m) (im_command m) (abs_of (en_book (ex_engine x)))"
    and room: "length (outbound_contents (ex_engine x)) + length r \<le> 4096"
  obtains e where "process_one now ((ex_engine x)\<lparr>en_turns := []\<rparr>) = Some (True, e)" "ready ((ex_engine x)\<lparr>en_turns := []\<rparr>)"
    "inbound_contents e = ms" "abs_of (en_book e) = a'" "outbound_contents e = outbound_contents (ex_engine x) @ r"
    "en_order_sessions e = spec_owners (en_order_sessions (ex_engine x)) (im_session_id m) (im_command m) acc a'"
proof -
  let ?e = "(ex_engine x)\<lparr>en_turns := []\<rparr>"
  note ie = engine_alone_inv [OF reach]
  have resp: "response m ?e = r" by (simp add: response_def r)
  have "can_send (length (response m ?e)) ?e" unfolding resp by (rule can_sendI(1)) (use room in simp)
  then have ready: "ready ?e" using msg spec by (simp add: ready_def)
  have "inbound_contents ?e = m # ms" using msg by simp
  from process_one_ready [OF ie ready this, of now] obtain accepted b e where
      p: "process_one now ?e = Some (True, e)" "apply_command (en_book ?e) (im_command m) = Some (accepted, b)" "en_book e = b"
        "inbound_contents e = ms" "sent e = sent ?e @ r"
        "en_order_sessions e = spec_owners (en_order_sessions ?e) (im_session_id m) (im_command m) accepted (abs_of b)"
    unfolding resp by blast
  have "command_ok (im_command m)" "book_reachable (en_book ?e)" using ie msg by (simp_all add: engine_inv_def)
  from command_spec [OF this(2,1) p(2)] have same: "accepted = acc" "abs_of b = a'" using spec(1) by simp_all
  have "en_taken e = en_taken ?e" using process_one_undisturbed [OF p(1)] by (simp add: undisturbed_def)
  then have "outbound_contents e = outbound_contents (ex_engine x) @ r" using p(5) by (simp add: sent_def)
  then show thesis using that [OF p(1) ready p(4)] p(3,6) same by simp
qed

text \<open>A state in which the engine's last batch, if it is in one, has room for all its answers.\<close>

definition can_finish :: "shutdown \<Rightarrow> exchange \<Rightarrow> bool" where
  "can_finish sd x \<longleftrightarrow> (sd_in_batch sd \<longrightarrow>
     levels_ok (inbound_contents (ex_engine x)) (abs_of (en_book (ex_engine x))) \<and>
     length (outbound_contents (ex_engine x)) +
       length (spec_session (en_order_sessions (ex_engine x)) (inbound_contents (ex_engine x)) (abs_of (en_book (ex_engine x)))) \<le> 4096)"

lemma finish_batch_ends:
  assumes "exchange_reachable log x" and "levels_ok (inbound_contents (ex_engine x)) (abs_of (en_book (ex_engine x)))"
    and "length (outbound_contents (ex_engine x)) +
      length (spec_session (en_order_sessions (ex_engine x)) (inbound_contents (ex_engine x)) (abs_of (en_book (ex_engine x)))) \<le> 4096"
  shows "\<exists>x'. finish_batch turns clock n x = Some x' \<and> exchange_step\<^sup>*\<^sup>* x x' \<and> inbound_contents (ex_engine x') = [] \<and>
    gw_enqueued (ex_gateway x') = gw_enqueued (ex_gateway x)"
  using assms
proof (induction "inbound_contents (ex_engine x)" arbitrary: x n)
  case Nil
  obtain x1 where x1: "background_runs (turns n) x = Some x1" "exchange_step\<^sup>*\<^sup>* x x1" "same_core x x1"
    using background_runs_defined [OF Nil.prems(1)] background_runs_steps by blast
  let ?e = "(ex_engine x1)\<lparr>en_turns := []\<rparr>"
  have empty: "inbound_contents ?e = []" using x1(3) Nil.hyps by (simp add: same_core_def)
  then have ready: "ready ?e" by (simp add: ready_def)
  obtain e where e: "process_one (clock n) ?e = Some (False, e)" "inbound_contents e = []"
    using process_one_idle [OF engine_alone_inv [OF exchange_reachable_steps [OF x1(2) Nil.prems(1)]] empty, of "clock n"] by blast
  let ?y = "x1\<lparr>ex_engine := e\<lparr>en_turns := []\<rparr>, ex_gateway := (ex_gateway x1)\<lparr>gw_inbound := en_inbound e, gw_outbound := en_outbound e\<rparr>\<rparr>"
  have "finish_batch turns clock n x = Some ?y" using x1(1) e(1) by (subst finish_batch.simps) simp
  moreover have "exchange_step\<^sup>*\<^sup>* x ?y" using x1(2) engine_alone_step [OF ready e(1)] by (rule rtranclp.rtrancl_into_rtrancl)
  ultimately show ?case using e(2) x1(3) by (intro exI [of _ ?y]) (simp add: same_core_def)
next
  case (Cons m ms)
  obtain x1 where x1: "background_runs (turns n) x = Some x1" "exchange_step\<^sup>*\<^sup>* x x1" "same_core x x1"
    using background_runs_defined [OF Cons.prems(1)] background_runs_steps by blast
  let ?o = "en_order_sessions (ex_engine x1)" and ?a = "abs_of (en_book (ex_engine x1))"
  have msg: "inbound_contents (ex_engine x1) = m # ms" using x1(3) Cons.hyps(2) by (simp add: same_core_def)
  obtain acc a' where spec: "spec_apply (im_command m) ?a = (acc, a')" by fastforce
  let ?r = "spec_response ?o (im_session_id m) (im_command m) ?a"
  let ?rest = "spec_session (spec_owners ?o (im_session_id m) (im_command m) acc a') ms a'"
  have room: "length (outbound_contents (ex_engine x1)) + (length ?r + length ?rest) \<le> 4096" and lev: "no_overflow a'" "levels_ok ms a'"
    using Cons.prems(2,3) spec x1(3) unfolding Cons.hyps(2) [symmetric] by (simp_all add: same_core_def Let_def)
  have "length (outbound_contents (ex_engine x1)) + length ?r \<le> 4096" using room by simp
  from engine_alone_serves [OF exchange_reachable_steps [OF x1(2) Cons.prems(1)] msg spec lev(1) refl this, of "clock n"]
  obtain e where e: "process_one (clock n) ((ex_engine x1)\<lparr>en_turns := []\<rparr>) = Some (True, e)" "ready ((ex_engine x1)\<lparr>en_turns := []\<rparr>)"
      "inbound_contents e = ms" "abs_of (en_book e) = a'" "outbound_contents e = outbound_contents (ex_engine x1) @ ?r"
      "en_order_sessions e = spec_owners ?o (im_session_id m) (im_command m) acc a'" .
  let ?y = "x1\<lparr>ex_engine := e\<lparr>en_turns := []\<rparr>, ex_gateway := (ex_gateway x1)\<lparr>gw_inbound := en_inbound e, gw_outbound := en_outbound e\<rparr>\<rparr>"
  have step: "exchange_step\<^sup>*\<^sup>* x ?y" using x1(2) engine_alone_step [OF e(2,1)] by (rule rtranclp.rtrancl_into_rtrancl)
  have "\<exists>x'. finish_batch turns clock (Suc n) ?y = Some x' \<and> exchange_step\<^sup>*\<^sup>* ?y x' \<and> inbound_contents (ex_engine x') = [] \<and>
      gw_enqueued (ex_gateway x') = gw_enqueued (ex_gateway ?y)"
    by (rule Cons.hyps(1)) (use e(3-6) lev(2) room exchange_reachable_steps [OF step Cons.prems(1)] in simp_all)
  moreover have "finish_batch turns clock n x = finish_batch turns clock (Suc n) ?y"
    using x1(1) e(1) by (subst finish_batch.simps) simp
  moreover have "gw_enqueued (ex_gateway ?y) = gw_enqueued (ex_gateway x)" using x1(3) by (simp add: same_core_def)
  ultimately show ?case using rtranclp_trans [OF step] by auto
qed

text \<open>With a full outbound queue and a command left the batch does not end.\<close>

lemma finish_batch_blocks:
  assumes "exchange_reachable log x" and "inbound_contents (ex_engine x) \<noteq> []" and "length (outbound_contents (ex_engine x)) = 4096"
  shows "finish_batch turns clock n x = None"
proof -
  obtain x1 where x1: "background_runs (turns n) x = Some x1" "exchange_step\<^sup>*\<^sup>* x x1" "same_core x x1"
    using background_runs_defined [OF assms(1)] background_runs_steps by blast
  let ?e = "(ex_engine x1)\<lparr>en_turns := []\<rparr>"
  note reach = exchange_reachable_steps [OF x1(2) assms(1)] and inv = exchange_reachable_inv [OF exchange_reachable_steps [OF x1(2) assms(1)]]
  obtain m ms where m: "inbound_contents ?e = m # ms" using x1(3) assms(2) by (auto simp: same_core_def neq_Nil_conv)
  then have "m \<in> set (gw_enqueued (ex_gateway x1))" using exchange_inv_served(1) [OF inv] by simp
  then have "loggable (im_command m)" using exchange_invD(2) [OF inv] by (auto simp: gw_inv_def list_all_iff)
  then have "im_command m \<noteq> Monostate" by (auto simp: loggable_def)
  moreover have "\<not> can_send 1 ?e" using x1(3) assms(3) by (simp add: can_send_def same_core_def)
  ultimately have "process_one (clock n) ?e = None" using process_one_starved [OF _ m] engine_alone_inv [OF reach] by (simp add: engine_inv_def)
  then show ?thesis using x1(1) by (subst finish_batch.simps) simp
qed

section \<open>The shutdown as a whole\<close>

lemma join_engine_ends:
  assumes "exchange_reachable log x" and "can_finish sd x"
  obtains x' where "join_engine sd x = Some x'" "exchange_reachable log x'" "gw_enqueued (ex_gateway x') = gw_enqueued (ex_gateway x)"
    "served_messages x' = (if sd_in_batch sd then gw_enqueued (ex_gateway x) else served_messages x)"
proof (cases "sd_in_batch sd")
  case True
  then obtain x' where "finish_batch (sd_turns sd) (sd_clock sd) 0 x = Some x'" "exchange_step\<^sup>*\<^sup>* x x'" "inbound_contents (ex_engine x') = []"
      "gw_enqueued (ex_gateway x') = gw_enqueued (ex_gateway x)"
    using finish_batch_ends [OF assms(1)] assms(2) by (fastforce simp: can_finish_def)
  then show thesis using that [of x'] True exchange_reachable_steps [OF _ assms(1)] by (simp add: join_engine_def served_messages_def)
next
  case False
  obtain x' where "background_runs (sd_turns sd 0) x = Some x'" "exchange_step\<^sup>*\<^sup>* x x'" "same_core x x'"
    using background_runs_defined [OF assms(1)] background_runs_steps by blast
  then show thesis using that [of x'] False exchange_reachable_steps [OF _ assms(1)]
    by (simp add: join_engine_def same_core_def served_messages_def)
qed

text \<open>The recorder's thread always ends, and a status of 0 then means a complete log.\<close>

lemma join_recorder_ends:
  assumes reach: "exchange_reachable log x"
  obtains flushed x' where "join_recorder spills x = Some (flushed, x')" "ex_gateway x' = ex_gateway x" "served_messages x' = served_messages x"
    "en_book (ex_engine x') = en_book (ex_engine x)"
    "case (ex_event_log_writer x', en_event_capture_feed (ex_engine x')) of
       (Some w, Some f) \<Rightarrow> length (gw_enqueued (ex_gateway x)) < 2 ^ 64 \<and> gateway_exit_status f w = 0 \<longrightarrow>
         (\<exists>digest. state_digest (en_book (ex_engine x)) = Some digest \<and> replay_main [Some (lw_file w)] =
           Some (Replayed (of_nat (length (spec_accepted (served_messages x) (abs_of empty_book)))) digest, 0))
     | _ \<Rightarrow> log = None"
proof (cases "ex_event_log_writer x")
  case None
  then show thesis using that [of True x] exchange_writer [OF reach] by (simp add: join_recorder_def)
next
  case (Some w)
  let ?cs = "spec_accepted (served_messages x) (abs_of empty_book)"
  have rec: "recorded (ex_engine x) w ?cs" using exchange_reachable_log [OF reach] Some by (simp add: exchange_log_def)
  obtain f where f: "en_event_capture_feed (ex_engine x) = Some f" using recorded_inv [OF rec] by (auto simp: recorder_inv_def)
  have "length ?cs \<le> length (served_messages x)" by (rule spec_accepted_length)
  also have "\<dots> \<le> length (gw_enqueued (ex_gateway x))" by (simp add: served_messages_def)
  finally have short: "length (gw_enqueued (ex_gateway x)) < 2 ^ 64 \<Longrightarrow> length ?cs < 2 ^ 64" by simp
  from clean_exit_complete_log [OF rec f, of spills] obtain q w1 where
      w1: "drain_remaining (ecf_queue f) (w\<lparr>lw_spills := spills\<rparr>) = Some (q, w1)"
      "length ?cs < 2 ^ 64 \<and> gateway_exit_status (f\<lparr>ecf_queue := q\<rparr>) (snd (log_flush w1)) = 0 \<longrightarrow>
        (\<exists>digest. state_digest (en_book (ex_engine x)) = Some digest \<and>
          replay_main [Some (lw_file (snd (log_flush w1)))] = Some (Replayed (of_nat (length ?cs)) digest, 0))"
    by (elim exE conjE) (rule that)
  let ?y = "x\<lparr>ex_event_log_writer := Some (snd (log_flush w1)),
    ex_engine := (ex_engine x)\<lparr>en_event_capture_feed := Some (f\<lparr>ecf_queue := q\<rparr>)\<rparr>\<rparr>"
  have "join_recorder spills x = Some (fst (log_flush w1), ?y)" using Some f w1(1) by (simp add: join_recorder_def case_prod_unfold Let_def)
  then show thesis by (rule that) (use w1(2) short in \<open>simp_all add: served_messages_def\<close>)
qed

lemma finish_exchange_ends:
  assumes reach: "exchange_reachable log x" and "can_finish sd x"
  shows "\<exists>flushed status x'. finish_exchange sd x = Some (flushed, status, x') \<and>
    served_messages x' = (if sd_in_batch sd then gw_enqueued (ex_gateway x) else served_messages x) \<and>
    (length (gw_enqueued (ex_gateway x)) < 2 ^ 64 \<and> status = 0 \<longrightarrow> log = None \<or>
      (\<exists>w digest. ex_event_log_writer x' = Some w \<and> state_digest (en_book (ex_engine x')) = Some digest \<and>
         replay_main [Some (lw_file w)] =
           Some (Replayed (of_nat (length (spec_accepted (served_messages x') (abs_of empty_book)))) digest, 0)))"
proof -
  obtain x1 where x1: "join_engine sd x = Some x1" "exchange_reachable log x1" "gw_enqueued (ex_gateway x1) = gw_enqueued (ex_gateway x)"
      "served_messages x1 = (if sd_in_batch sd then gw_enqueued (ex_gateway x) else served_messages x)"
    using join_engine_ends [OF assms] by metis
  obtain x2 where x2: "background_runs (sd_late sd) x1 = Some x2" "exchange_step\<^sup>*\<^sup>* x1 x2" "same_core x1 x2"
    using background_runs_defined [OF x1(2)] background_runs_steps by blast
  note reach2 = exchange_reachable_steps [OF x2(2) x1(2)]
  have same: "gw_enqueued (ex_gateway x2) = gw_enqueued (ex_gateway x)" "served_messages x2 = served_messages x1"
    using x2(3) x1(3) by (simp_all add: same_core_def served_messages_def)
  obtain flushed x3 where x3: "join_recorder (sd_spills sd) x2 = Some (flushed, x3)" "ex_gateway x3 = ex_gateway x2"
      "served_messages x3 = served_messages x2" "en_book (ex_engine x3) = en_book (ex_engine x2)"
      "case (ex_event_log_writer x3, en_event_capture_feed (ex_engine x3)) of
         (Some w, Some f) \<Rightarrow> length (gw_enqueued (ex_gateway x2)) < 2 ^ 64 \<and> gateway_exit_status f w = 0 \<longrightarrow>
           (\<exists>digest. state_digest (en_book (ex_engine x2)) = Some digest \<and> replay_main [Some (lw_file w)] =
             Some (Replayed (of_nat (length (spec_accepted (served_messages x2) (abs_of empty_book)))) digest, 0))
       | _ \<Rightarrow> log = None"
    by (rule join_recorder_ends [OF reach2]) (rule that)
  have "gw_enqueued (stop (ex_gateway x3)) = gw_enqueued (ex_gateway x3)"
    using stop_effect(1) [of "ex_gateway x3"] exchange_invD(2) [OF exchange_reachable_inv [OF reach2]] x3(2) by simp
  then have "served_messages (x3\<lparr>ex_gateway := stop (ex_gateway x3)\<rparr>) = served_messages x2" using x3(3) by (simp add: served_messages_def)
  then show ?thesis using x1(1,4) x2(1) x3(1,4,5) same
    by (cases "sd_in_batch sd") (auto simp: finish_exchange_def Let_def split: option.splits)
qed

text \<open>
  Claim C8. The exchange shuts down cleanly if the engine can finish. Take any reachable state in which
  the network thread has ended, and any schedule: whether the engine's thread is in a batch when it is
  asked to stop, the turns of the publisher and the recorder until they are joined, and what the log's
  stream passes on early. If the engine is in a batch, commands are left and the outbound queue is full,
  \<open>run_gateway\<close> never returns: joining the engine's thread waits for a queue that nobody empties any
  more. If the engine is between batches, or its batch leaves every level below \<open>2 ^ 64\<close> units and has
  room in the outbound queue for the answers to all commands left, \<open>run_gateway\<close> does return; the
  commands processed by then are all that were enqueued when there was a batch to finish, and those
  processed before otherwise. If a log was asked for and the status returned is 0, the replay tool, run
  on the file as the flushed stream has left it, replays as many commands as the specification accepts
  among those processed, reports the state digest of the engine's book and itself exits with status 0.
\<close>

theorem exchange_shutdown:
  assumes "exchange_reachable log x" and "\<not> ex_serving x" and "length (gw_enqueued (ex_gateway x)) < 2 ^ 64"
  shows "(sd_in_batch sd \<and> ring_contents message_capacity (en_inbound (ex_engine x)) \<noteq> [] \<and>
      length (ring_contents message_capacity (en_outbound (ex_engine x))) = 4096 \<longrightarrow> finish_exchange sd x = None) \<and>
    (can_finish sd x \<longrightarrow> (\<exists>flushed status x'. finish_exchange sd x = Some (flushed, status, x') \<and>
      served_messages x' = (if sd_in_batch sd then gw_enqueued (ex_gateway x) else served_messages x) \<and>
      (status = 0 \<longrightarrow> log = None \<or> (\<exists>w digest. ex_event_log_writer x' = Some w \<and>
         state_digest (en_book (ex_engine x')) = Some digest \<and>
         replay_main [Some (lw_file w)] =
           Some (Replayed (of_nat (length (spec_accepted (served_messages x') (abs_of empty_book)))) digest, 0)))))"
proof (intro conjI impI)
  assume "sd_in_batch sd \<and> inbound_contents (ex_engine x) \<noteq> [] \<and> length (outbound_contents (ex_engine x)) = 4096"
  then show "finish_exchange sd x = None"
    using finish_batch_blocks [OF assms(1)] by (simp add: finish_exchange_def join_engine_def)
qed (use finish_exchange_ends [OF assms(1), of sd] assms(3) in simp)

text \<open>The state after the signal.\<close>

lemma signalled:
  assumes "exchange_reachable log x" and "ex_serving x" and y: "y = x\<lparr>ex_gateway := stop (ex_gateway x), ex_serving := False\<rparr>"
  shows "exchange_reachable log y" "served_messages y = served_messages x" "gw_enqueued (ex_gateway y) = gw_enqueued (ex_gateway x)"
  unfolding y using exchange_reachable.step [OF assms(1) exchange_step.signal [OF assms(2)]] served_by_gateway(3) stop_effect(1)
    exchange_invD(2) [OF exchange_reachable_inv [OF assms(1)]] exchange_reachable_inv [OF assms(1)]
  by simp_all

definition idle_shutdown :: shutdown where
  "idle_shutdown = \<lparr>sd_in_batch = False, sd_turns = \<lambda>_. [], sd_clock = \<lambda>_. 0, sd_late = [], sd_spills = [3, 9]\<rparr>"

theorem exchange_shutdown_witness:
  "(\<exists>x m x' w digest. exchange_reachable (Some (True, 100)) x \<and> \<not> ex_serving x \<and> served_messages x = [m] \<and>
      finish_exchange idle_shutdown x = Some (True, 0, x') \<and> ex_event_log_writer x' = Some w \<and>
      state_digest (en_book (ex_engine x')) = Some digest \<and> replay_main [Some (lw_file w)] = Some (Replayed 1 digest, 0)) \<and>
   (\<exists>x m flushed status x'. exchange_reachable (Some (True, 100)) x \<and> \<not> ex_serving x \<and> inbound_contents (ex_engine x) = [m] \<and>
      finish_exchange (idle_shutdown\<lparr>sd_in_batch := True\<rparr>) x = Some (flushed, status, x') \<and> served_messages x' = [m])"
proof
  show "\<exists>x m x' w digest. exchange_reachable (Some (True, 100)) x \<and> \<not> ex_serving x \<and> served_messages x = [m] \<and>
      finish_exchange idle_shutdown x = Some (True, 0, x') \<and> ex_event_log_writer x' = Some w \<and>
      state_digest (en_book (ex_engine x')) = Some digest \<and> replay_main [Some (lw_file w)] = Some (Replayed 1 digest, 0)"
  proof (rule first_order_processed)
    let ?c = "im_command first_order" and ?f = "make_capture_feed (empty_ring message_capacity Monostate)"
    fix x m
    assume x: "exchange_reachable (Some (True, 100)) x" "served_messages x = [m]" "gw_enqueued (ex_gateway x) = [m]" "im_command m = ?c"
      "ex_event_log_writer x = Some (make_log_writer True 100)" "en_event_capture_feed (ex_engine x) = Some (capture ?c ?f)" "serves x"
    define y where "y = x\<lparr>ex_gateway := stop (ex_gateway x), ex_serving := False\<rparr>"
    have "ex_serving x" using x(7) by (simp add: serves_def)
    note y = signalled [OF x(1) this y_def]
    have c: "ring_inv message_capacity (ecf_queue (capture ?c ?f))" "ring_contents message_capacity (ecf_queue (capture ?c ?f)) = [?c]"
      "ecf_dropped_commands (capture ?c ?f) = 0"
      using capture_queue [of ?f ?c] by (simp_all add: make_capture_feed_def ring_inv_empty)
    have room: "room_for (length (record_bytes ?c)) ((make_log_writer True 100)\<lparr>lw_spills := [3, 9]\<rparr>)" using first_order_facts(4) by simp
    obtain q w where d: "drain_remaining (ecf_queue (capture ?c ?f)) ((make_log_writer True 100)\<lparr>lw_spills := [3, 9]\<rparr>) = Some (q, w)" "room_for 0 w"
      using single_record_drained [OF c(1,2) first_order_facts(1) room] by blast
    obtain x' where fin: "finish_exchange idle_shutdown y = Some (True, 0, x')"
      using d x(5,6) c(3) log_flush_room [OF d(2)]
      by (simp add: finish_exchange_def join_engine_def join_recorder_def idle_shutdown_def y_def gateway_exit_status_def capture_metrics_def case_prod_unfold Let_def)
    have one: "length (spec_accepted [m] (abs_of empty_book)) = 1" using x(4) first_order_facts(3) by (simp add: case_prod_unfold Let_def)
    have off: "\<not> ex_serving y" "\<not> sd_in_batch idle_shutdown" by (simp_all add: y_def idle_shutdown_def)
    show ?thesis using exchange_shutdown [OF y(1) off(1), of idle_shutdown] y x(2,3) off fin one
      by (intro exI [of _ y]) (auto simp: can_finish_def)
  qed
next
  show "\<exists>x m flushed status x'. exchange_reachable (Some (True, 100)) x \<and> \<not> ex_serving x \<and> inbound_contents (ex_engine x) = [m] \<and>
      finish_exchange (idle_shutdown\<lparr>sd_in_batch := True\<rparr>) x = Some (flushed, status, x') \<and> served_messages x' = [m]"
  proof (rule first_order_received)
    fix x m
    assume x: "exchange_reachable (Some (True, 100)) x" "serves x" "gw_enqueued (ex_gateway x) = [m]" "im_command m = im_command first_order"
      "im_session_id m = 1" "inbound_contents (ex_engine x) = [m]" "en_book (ex_engine x) = empty_book" "outbound_contents (ex_engine x) = []"
      "levels_ok (inbound_contents (ex_engine x)) (abs_of (en_book (ex_engine x)))"
    define y where "y = x\<lparr>ex_gateway := stop (ex_gateway x), ex_serving := False\<rparr>"
    have "ex_serving x" using x(2) by (simp add: serves_def)
    note y = signalled [OF x(1) this y_def]
    have same: "ex_engine y = ex_engine x" "\<not> ex_serving y" by (simp_all add: y_def)
    have "en_order_sessions (ex_engine x) = Map.empty"
      using exchange_inv_served [OF exchange_reachable_inv [OF x(1)]] x(3,6) by simp
    then have "length (spec_session (en_order_sessions (ex_engine x)) [m] (abs_of empty_book)) = 1"
      using x(4,5) first_order_facts(5) by (simp add: case_prod_unfold Let_def)
    then have "can_finish (idle_shutdown\<lparr>sd_in_batch := True\<rparr>) y" using x(6-9) by (simp add: can_finish_def same(1))
    then show ?thesis using exchange_shutdown [OF y(1) same(2), of "idle_shutdown\<lparr>sd_in_batch := True\<rparr>"] y(1,3) x(3,6) same
      by (intro exI [of _ y] exI [of _ m]) auto
  qed
qed

end
