(* ===== verification/Console.thy ===== *)
theory Console
  imports Loopback Shutdown
begin

text \<open>
  What the three programs under \<open>apps/\<close> print and the exit status they return: the usage texts, the
  banner of the gateway, the results of replay and benchmark. A program's output is the sequence of
  texts it sends to \<open>std::cout\<close> and \<open>std::cerr\<close>. The texts of exceptions of the libraries, the
  formatting of a floating-point rate and the ranks computed from floating-point percentiles are
  parameters.
\<close>

section \<open>Numbers and texts\<close>

datatype stream = Cout | Cerr

type_synonym printed = "(stream \<times> string) list"

definition newline :: string where
  "newline = [CHR 0x0A]"

definition digit :: "nat \<Rightarrow> char" where
  "digit d = char_of (if d < 10 then 48 + d else 87 + d)"

text \<open>\<open>operator<<\<close> of a stream for an unsigned number, in base 10 or, after \<open>std::hex\<close>, 16.\<close>

fun print_number :: "nat \<Rightarrow> nat \<Rightarrow> string" where
  "print_number base n =
     (if base < 2 \<or> n < base then [digit n] else print_number base (n div base) @ [digit (n mod base)])"

declare print_number.simps [simp del]

definition print_word :: "'a::len word \<Rightarrow> string" where
  "print_word w = print_number 10 (unat w)"

definition program_name :: "string \<Rightarrow> string list \<Rightarrow> string" where
  "program_name fallback argv = (case argv of [] \<Rightarrow> fallback | name # _ \<Rightarrow> name)"

definition version :: string where
  "version = ''0.1.0''"

section \<open>The exchange\<close>

definition exchange_usage :: "string \<Rightarrow> string" where
  "exchange_usage program = ''Usage:'' @ newline @ ''  '' @ program @ newline @
     ''  '' @ program @ '' --gateway [port] [event_log_path]'' @ newline"

text \<open>The port of the acceptor's endpoint, 0 if it cannot be determined.\<close>

definition local_port :: "u16 option \<Rightarrow> u16" where
  "local_port endpoint = (case endpoint of None \<Rightarrow> 0 | Some port \<Rightarrow> port)"

definition gateway_banner :: "u16 option \<Rightarrow> string" where
  "gateway_banner endpoint = ''Low-Latency Exchange '' @ version @ '' gateway listening on 127.0.0.1:'' @
     print_word (local_port endpoint) @ newline @ ''Press Ctrl-C to stop.'' @ newline"

definition flush_failed_text :: string where
  "flush_failed_text = ''Event log flush failed'' @ newline"

definition log_incomplete_text :: "u64 \<Rightarrow> string" where
  "log_incomplete_text dropped = ''Event log is incomplete: dropped='' @ print_word dropped @ newline"

text \<open>
  \<open>run_gateway\<close>: \<open>bound\<close> is the message of the exception thrown by a port that cannot be bound, or
  the acceptor's endpoint; \<open>x\<close> is the state in which the network thread ends and \<open>sd\<close> the schedule of
  the shutdown, which need not end. \<open>Inl\<close> is the message of an exception, \<open>Inr\<close> the returned status.
\<close>

definition run_gateway_output ::
    "string + u16 option \<Rightarrow> (bool \<times> nat) option \<Rightarrow> shutdown \<Rightarrow> exchange \<Rightarrow> (printed \<times> (string + nat)) ub" where
  "run_gateway_output bound log sd x =
     (case (start_exchange log, bound) of
        (None, _) \<Rightarrow> Some ([], Inl ''could not open event log'')
      | (Some _, Inl what) \<Rightarrow> Some ([], Inl what)
      | (Some _, Inr endpoint) \<Rightarrow> do {
          (flushed, status, x') \<leftarrow> finish_exchange sd x;
          let dropped = (case en_event_capture_feed (ex_engine x') of Some f \<Rightarrow> ecf_dropped_commands f | None \<Rightarrow> 0);
          Some ([(Cout, gateway_banner endpoint)] @ (if flushed then [] else [(Cerr, flush_failed_text)]) @
            (if status \<noteq> 0 then [(Cerr, log_incomplete_text dropped)] else []), Inr status)
        })"

text \<open>
  The whole program: \<open>exchange_main\<close> chooses what to do, whatever the gateway would return. Without any
  argument, not even the program's name, \<open>argv[1]\<close> is read out of bounds.
\<close>

definition exchange_program ::
    "(u16 \<Rightarrow> string option \<Rightarrow> (printed \<times> (string + nat)) ub) \<Rightarrow> string list \<Rightarrow> (printed \<times> nat) ub" where
  "exchange_program run_gateway argv =
     (if argv = [] then None
      else do {
        let program = program_name ''low_latency_exchange'' argv;
        case fst (exchange_main (\<lambda>_ _. None) (tl argv)) of
          Version_and_usage \<Rightarrow>
            Some ([(Cout, ''Low-Latency Exchange '' @ version @ newline), (Cout, exchange_usage program)], 0)
        | Exchange_help \<Rightarrow> Some ([(Cout, exchange_usage program)], 0)
        | Exchange_usage_error \<Rightarrow> Some ([(Cerr, exchange_usage program)], 2)
        | Exchange_port_error \<Rightarrow>
            Some ([(Cerr, ''Gateway port must be an integer from 1 through 65535.'' @ newline)], 2)
        | Run_gateway port path \<Rightarrow> do {
            (out, result) \<leftarrow> run_gateway port path;
            Some (case result of
              Inl what \<Rightarrow> (out @ [(Cerr, ''Unable to start gateway: '' @ what @ newline)], 1)
            | Inr status \<Rightarrow> (out, status))
          }
      })"

section \<open>The replay tool\<close>

definition replay_program :: "(string \<Rightarrow> bytes option) \<Rightarrow> string list \<Rightarrow> (printed \<times> nat) ub" where
  "replay_program file argv = do {
     (action, status) \<leftarrow> replay_main (map file (tl argv));
     Some (case action of
       Replay_usage \<Rightarrow>
         [(Cerr, ''Usage: '' @ program_name ''low_latency_exchange_replay'' argv @ '' <event_log_path>'' @ newline)]
     | Replay_failed n name \<Rightarrow>
         [(Cerr, ''Replay failed after '' @ print_word n @ '' commands: '' @ name @ newline)]
     | Replayed n state \<Rightarrow>
         [(Cout, ''Replayed '' @ print_word n @ '' commands; state digest: 0x'' @ print_number 16 (unat state) @ newline)],
       status)
   }"

section \<open>The benchmark\<close>

definition benchmark_usage :: "string \<Rightarrow> string" where
  "benchmark_usage program = ''Usage: '' @ program @ '' [--mode core|gateway] [options]'' @ newline @ newline @
     ''Options:'' @ newline @
     ''  --commands N       Measured commands (default 100000)'' @ newline @
     ''  --warmup N         Commands applied before timing core mode (default 10000)'' @ newline @
     ''  --symbols N        Independent books in core mode (default 1)'' @ newline @
     ''  --levels N         Price levels in synthetic book shape (default 32)'' @ newline @
     ''  --cancel-rate N    Percentage of generated cancellations (default 20)'' @ newline @
     ''  --cross-rate N     Percentage of crossing new orders (default 10)'' @ newline @
     ''  --seed N           Deterministic workload seed'' @ newline"

definition print_config :: "workload_config \<Rightarrow> string" where
  "print_config config = ''seed='' @ print_word (wc_seed config) @ '' commands='' @ print_word (wc_command_count config) @
     '' symbols='' @ print_word (wc_symbol_count config) @ '' levels='' @ print_word (wc_book_levels config) @
     '' cancel_rate='' @ print_word (wc_cancel_rate_percent config) @
     '' crossing_rate='' @ print_word (wc_crossing_rate_percent config) @ newline"

text \<open>\<open>ranks\<close> gives the ranks of the percentiles 0.50, 0.99 and 0.999, \<open>print_rate\<close> formats the throughput.\<close>

definition print_result ::
    "('d \<Rightarrow> string) \<Rightarrow> (u64 \<Rightarrow> u64) \<times> (u64 \<Rightarrow> u64) \<times> (u64 \<Rightarrow> u64) \<Rightarrow> string \<Rightarrow> 'd benchmark_result \<Rightarrow> string" where
  "print_result print_rate ranks label result =
     (let latency = br_latency result; (p50, p99, p999) = ranks in
      label @ newline @
      ''  commands: '' @ print_word (br_commands result) @ newline @
      ''  accepted/rejected: '' @ print_word (br_accepted_commands result) @ ''/'' @
        print_word (br_rejected_commands result) @ newline @
      ''  accepted/rejected cancels: '' @ print_word (br_accepted_cancels result) @ ''/'' @
        print_word (br_rejected_cancels result) @ newline @
      ''  executions: '' @ print_word (br_executions result) @ newline @
      ''  inbound/outbound bytes: '' @ print_word (br_inbound_bytes result) @ ''/'' @
        print_word (br_outbound_bytes result) @ newline @
      ''  inbound/outbound queue high-water: '' @ print_word (br_inbound_queue_high_water result) @ ''/'' @
        print_word (br_outbound_queue_high_water result) @ newline @
      ''  throughput commands/s: '' @ print_rate (br_throughput_per_second result) @ newline @
      ''  latency ns min/p50/p99/p99.9/max: '' @ print_word (ls_min_nanoseconds latency) @ ''/'' @
        print_word (percentile_upper_bound p50 latency) @ ''/'' @ print_word (percentile_upper_bound p99 latency) @ ''/'' @
        print_word (percentile_upper_bound p999 latency) @ ''/'' @ print_word (ls_max_nanoseconds latency) @ newline)"

definition benchmark_program ::
    "('d \<Rightarrow> string) \<Rightarrow> (u64 \<Rightarrow> u64) \<times> (u64 \<Rightarrow> u64) \<times> (u64 \<Rightarrow> u64) \<Rightarrow>
     (workload_command list \<Rightarrow> size_t \<Rightarrow> size_t \<Rightarrow> 'd benchmark_result ub) \<Rightarrow>
     (workload_command list \<Rightarrow> 'd benchmark_result ub) \<Rightarrow> string list \<Rightarrow> (printed \<times> nat) ub" where
  "benchmark_program print_rate ranks core gateway argv =
     (case parse_options (tl argv) default_options of
        None \<Rightarrow> Some ([(Cerr, benchmark_usage (program_name ''low_latency_exchange_benchmark'' argv))], 2)
      | Some opts \<Rightarrow> do {
          workload \<leftarrow> make_workload (op_workload opts);
          if workload = [] then Some ([(Cerr, ''Invalid workload configuration.'' @ newline)], 2)
          else if op_mode opts = Gateway_mode \<and> wc_symbol_count (op_workload opts) \<noteq> 1
          then Some ([(Cerr, ''Gateway v1 carries no symbol identifier; --mode gateway requires --symbols 1.'' @ newline)], 2)
          else if op_mode opts = Core_mode then do {
            result \<leftarrow> core workload (wc_symbol_count (op_workload opts)) (op_warmup_commands opts);
            Some ([(Cout, print_config (op_workload opts)),
              (Cout, print_result print_rate ranks ''core matching benchmark'' result)], 0)
          }
          else do {
            result \<leftarrow> gateway workload;
            Some ([(Cout, print_config (op_workload opts)),
              (Cout, print_result print_rate ranks ''loopback TCP gateway benchmark'' result)], 0)
          }
        })"

section \<open>Printed numbers\<close>

lemma digit_decimal:
  assumes "d < 10"
  shows "is_digit (digit d)" "of_char (digit d) = 48 + d"
  using assms by (simp_all add: is_digit_def digit_def of_char_of)

lemma print_number_decimal: "print_number 10 n \<noteq> [] \<and> list_all is_digit (print_number 10 n) \<and> decimal (print_number 10 n) = n"
proof (induction "10 :: nat" n rule: print_number.induct)
  case (1 n)
  show ?case
  proof (cases "n < 10")
    case True
    then show ?thesis by (simp add: print_number.simps [of _ n] digit_decimal decimal_def)
  next
    case False
    then show ?thesis using 1 digit_decimal [of "n mod 10"] by (simp add: print_number.simps [of _ n] decimal_def)
  qed
qed

lemma from_chars_printed:
  assumes "n < bound"
  shows "from_chars bound (print_number 10 n) = \<lparr>fc_end = length (print_number 10 n), fc_ec = None, fc_value = Some n\<rparr>"
  using print_number_decimal [of n] assms by (simp add: from_chars_def takeWhile_all)

lemma parse_printed [simp]:
  "parse_size (print_word n) = Some n" "parse_u32 (print_word m) = Some m" "parse_u64 (print_word k) = Some k"
  using from_chars_printed [of "unat n" "2 ^ 64"] from_chars_printed [of "unat m" "2 ^ 32"] from_chars_printed [of "unat k" "2 ^ 64"]
    unsigned_less [of n, where 'a = nat] unsigned_less [of m, where 'a = nat] unsigned_less [of k, where 'a = nat]
  by (simp_all add: parse_size_def parse_u32_def parse_u64_def print_word_def)

section \<open>Properties\<close>

text \<open>The options that name the printed configuration.\<close>

definition config_arguments :: "workload_config \<Rightarrow> string list" where
  "config_arguments config =
     [''--seed'', print_word (wc_seed config), ''--commands'', print_word (wc_command_count config),
      ''--symbols'', print_word (wc_symbol_count config), ''--levels'', print_word (wc_book_levels config),
      ''--cancel-rate'', print_word (wc_cancel_rate_percent config),
      ''--cross-rate'', print_word (wc_crossing_rate_percent config)]"

lemma config_reproduced:
  assumes "\<not> config_rejected config"
  shows "parse_options (config_arguments config) default_options = Some (default_options\<lparr>op_workload := config\<rparr>)"
  using assms
  by (simp add: config_arguments_def parse_option_def default_options_def config_rejected_def not_less word_neq_0_conv)

lemma digits_then_blank:
  assumes "list_all is_digit xs" and "list_all is_digit ys" and "xs @ b # r = ys @ b # r'" and "\<not> is_digit b"
  shows "xs = ys \<and> r = r'"
proof -
  have "takeWhile is_digit (zs @ b # r) = zs" if "list_all is_digit zs" for zs r
    using that assms(4) by (simp add: takeWhile_append2 list_all_iff)
  then have "xs = ys" using assms by metis
  then show ?thesis using assms(3) by simp
qed

lemma print_word_inject: "print_word v @ b # r = print_word w @ b # r' \<Longrightarrow> \<not> is_digit b \<Longrightarrow> v = w \<and> r = r'"
  for v w :: "'a::len word"
proof -
  assume r: "print_word v @ b # r = print_word w @ b # r'" and b: "\<not> is_digit b"
  have eq: "print_word v = print_word w" "r = r'"
    using digits_then_blank [OF _ _ r b] print_number_decimal by (simp_all add: print_word_def)
  have "unat v = unat w" using arg_cong [OF eq(1), of decimal] print_number_decimal by (simp add: print_word_def)
  then show "v = w \<and> r = r'" using eq(2) by (simp add: word_unat_eq_iff)
qed

lemma print_word_eq: "print_word v = print_word w \<Longrightarrow> v = w" for v w :: "'a::len word"
  using print_word_inject [of v "CHR '' ''" "[]" w "[]"] by (simp add: is_digit_def)

lemma separators_are_no_digits [simp]: "\<not> is_digit CHR '' ''" "\<not> is_digit CHR 0x0A"
  by (simp_all add: is_digit_def)

text \<open>
  A benchmark run can be repeated from what it printed. The line with the configuration
  determines the configuration: two workload configurations that print the same line are the same.
  And giving the printed numbers back as options, in any accepted configuration, makes the program
  choose exactly that configuration, so it generates the same workload.
\<close>

theorem printed_config_reproduces:
  assumes "\<not> config_rejected config"
  shows "(print_config config' = print_config config \<longrightarrow> config' = config) \<and>
    parse_options (config_arguments config) default_options = Some (default_options\<lparr>op_workload := config\<rparr>)"
proof -
  have "config' = config" if line: "print_config config' = print_config config"
  proof -
    have "wc_seed config' = wc_seed config" "wc_command_count config' = wc_command_count config"
      "wc_symbol_count config' = wc_symbol_count config" "wc_book_levels config' = wc_book_levels config"
      "wc_cancel_rate_percent config' = wc_cancel_rate_percent config" "wc_crossing_rate_percent config' = wc_crossing_rate_percent config"
      using line by (auto simp: print_config_def newline_def dest!: print_word_inject print_word_eq)
    then show ?thesis by simp
  qed
  then show ?thesis using config_reproduced [OF assms] by blast
qed

lemma small_config_arguments:
  "config_arguments small_config = [''--seed'', ''1592590342'', ''--commands'', ''5'', ''--symbols'', ''1'', ''--levels'', ''32'',
      ''--cancel-rate'', ''20'', ''--cross-rate'', ''10'']"
  by (simp add: config_arguments_def small_config_def default_workload_config_def print_word_def print_number.simps digit_def
      char_of_def bit_Suc_0_iff)

theorem printed_config_reproduces_witness:
  "config_arguments small_config = [''--seed'', ''1592590342'', ''--commands'', ''5'', ''--symbols'', ''1'', ''--levels'', ''32'',
      ''--cancel-rate'', ''20'', ''--cross-rate'', ''10''] \<and>
   parse_options (config_arguments small_config) default_options = Some (default_options\<lparr>op_workload := small_config\<rparr>)"
  using printed_config_reproduces [OF small_config_ok(1), of small_config] small_config_arguments by simp

text \<open>What is sent to the error stream, and when the exchange returns a status other than 0.\<close>

definition complains :: "printed \<Rightarrow> bool" where
  "complains out \<longleftrightarrow> list_ex (\<lambda>(where_to, text). where_to = Cerr) out"

lemma complains_simps [simp]:
  "\<not> complains []" "\<not> complains [(Cout, t)]" "complains ((Cout, t) # out) = complains out" "complains ((Cerr, t) # out)"
  "complains (out @ out') \<longleftrightarrow> complains out \<or> complains out'"
  by (simp_all add: complains_def)

lemma failed_flush_status:
  assumes "finish_exchange sd x = Some (False, status, x')"
  shows "status \<noteq> 0"
proof -
  obtain x2 x3 where x3: "join_recorder (sd_spills sd) x2 = Some (False, x3)"
      "status = (case (ex_event_log_writer x3, en_event_capture_feed (ex_engine x3)) of (Some w, Some f) \<Rightarrow> gateway_exit_status f w | _ \<Rightarrow> 0)"
    using assms by (auto simp: finish_exchange_def bind_ub_eq_Some Let_def)
  then obtain w f where "ex_event_log_writer x3 = Some w" "en_event_capture_feed (ex_engine x3) = Some f" "\<not> lw_good w"
    by (auto simp: join_recorder_def bind_ub_eq_Some case_prod_unfold Let_def split: option.splits)
  then show ?thesis using x3(2) by (simp add: gateway_exit_status_def)
qed

lemma run_gateway_complains:
  assumes "run_gateway_output bound log sd x = Some (out, result)"
  shows "case result of Inl _ \<Rightarrow> \<not> complains out | Inr status \<Rightarrow> complains out \<longleftrightarrow> status \<noteq> 0"
  using assms failed_flush_status
  by (auto simp: run_gateway_output_def bind_ub_eq_Some Let_def split: option.splits sum.splits if_splits)

lemma run_gateway_returns:
  assumes "exchange_reachable log x" and "can_finish sd x"
  shows "\<exists>out result. run_gateway_output bound log sd x = Some (out, result)"
proof -
  obtain flushed status x' where "finish_exchange sd x = Some (flushed, status, x')"
    using finish_exchange_ends [OF assms(1,2)] by blast
  then show ?thesis by (cases "start_exchange log"; cases bound) (auto simp: run_gateway_output_def)
qed

lemma replay_main_status:
  "\<exists>action status. replay_main args = Some (action, status) \<and>
     (status \<noteq> 0 \<longleftrightarrow> (case action of Replayed _ _ \<Rightarrow> False | _ \<Rightarrow> True))"
proof -
  have total: "\<exists>result. replay_event_log log = Some result" for log
    using replay_loop_total [OF book_reachable.empty] by (cases log) (auto simp: replay_event_log_def)
  show ?thesis
  proof (cases "\<exists>log. args = [log]")
    case True
    then obtain log result where "args = [log]" "replay_event_log log = Some result" using total by blast
    then show ?thesis by (cases "rp_error result") (simp_all add: replay_main_def)
  qed (auto simp: replay_main_def split: list.split)
qed

text \<open>
  Claim C40. The three programs report their failures twice, and consistently: whenever one of them
  returns, it has written to the error stream exactly when its exit status is not 0. This covers wrong
  arguments, a port that cannot be bound, a log that cannot be opened, a run that dropped captured
  commands or whose log could not be written or flushed, every error of replaying a log, and the
  refusals of the benchmark. The replay tool returns on every file. The exchange, started with at least
  the program's name, returns on every argument list for which it runs no gateway, and after running
  one if the engine's thread can finish its last batch (\<open>can_finish\<close>: it is between batches, or the
  answers to all commands left fit the outbound queue and no level reaches \<open>2 ^ 64\<close> units); otherwise
  joining that thread may never end.
\<close>

theorem programs_report_errors:
  "(\<forall>out status.
        exchange_program (\<lambda>port path. run_gateway_output (bound port) (log path) (sd port path) (final port path)) argv = Some (out, status) \<longrightarrow>
        (complains out \<longleftrightarrow> status \<noteq> 0)) \<and>
    (argv \<noteq> [] \<and> (\<forall>port path. exchange_reachable (log path) (final port path) \<and> \<not> ex_serving (final port path) \<and>
        can_finish (sd port path) (final port path)) \<longrightarrow> (\<exists>out status.
        exchange_program (\<lambda>port path. run_gateway_output (bound port) (log path) (sd port path) (final port path)) argv = Some (out, status))) \<and>
    (\<exists>out status. replay_program contents argv = Some (out, status) \<and> (complains out \<longleftrightarrow> status \<noteq> 0)) \<and>
    (\<forall>out status. benchmark_program print_rate ranks core gateway argv = Some (out, status) \<longrightarrow> (complains out \<longleftrightarrow> status \<noteq> 0))"
proof (intro conjI impI allI)
  let ?run = "\<lambda>port path. run_gateway_output (bound port) (log path) (sd port path) (final port path)"
  fix out status
  assume ret: "exchange_program ?run argv = Some (out, status)"
  show "complains out \<longleftrightarrow> status \<noteq> 0"
  proof (cases "fst (exchange_main (\<lambda>_ _. None) (tl argv))")
    case (Run_gateway port path)
    then obtain out1 result where "?run port path = Some (out1, result)"
        "(out, status) = (case result of Inl what \<Rightarrow> (out1 @ [(Cerr, ''Unable to start gateway: '' @ what @ newline)], 1) | Inr status \<Rightarrow> (out1, status))"
      using ret by (auto simp: exchange_program_def bind_ub_eq_Some split: if_splits)
    then show ?thesis using run_gateway_complains by (fastforce split: sum.splits)
  qed (use ret in \<open>auto simp: exchange_program_def split: if_splits\<close>)
next
  let ?run = "\<lambda>port path. run_gateway_output (bound port) (log path) (sd port path) (final port path)"
  assume "argv \<noteq> [] \<and> (\<forall>port path. exchange_reachable (log path) (final port path) \<and> \<not> ex_serving (final port path) \<and>
    can_finish (sd port path) (final port path))"
  then have nonempty: "argv \<noteq> []" and returns: "\<exists>out result. ?run port path = Some (out, result)" for port path
    by (blast intro: run_gateway_returns)+
  show "\<exists>out status. exchange_program ?run argv = Some (out, status)"
  proof (cases "fst (exchange_main (\<lambda>_ _. None) (tl argv))")
    case (Run_gateway port path)
    obtain out result where "?run port path = Some (out, result)" using returns by blast
    then show ?thesis using Run_gateway nonempty by (cases result) (simp_all add: exchange_program_def)
  qed (simp_all add: exchange_program_def nonempty)
next
  obtain action status where "replay_main (map contents (tl argv)) = Some (action, status)"
      "status \<noteq> 0 \<longleftrightarrow> (case action of Replayed _ _ \<Rightarrow> False | _ \<Rightarrow> True)"
    using replay_main_status by blast
  then show "\<exists>out status. replay_program contents argv = Some (out, status) \<and> (complains out \<longleftrightarrow> status \<noteq> 0)"
    by (cases action) (simp_all add: replay_program_def)
next
  fix out status
  assume "benchmark_program print_rate ranks core gateway argv = Some (out, status)"
  then show "complains out \<longleftrightarrow> status \<noteq> 0"
    by (auto simp: benchmark_program_def bind_ub_eq_Some split: option.splits if_splits)
qed

theorem programs_report_errors_witness:
  "\<exists>x. exchange_reachable (Some (True, 100)) x \<and>
     (\<exists>out status. exchange_program (\<lambda>port path. run_gateway_output (Inr (Some port)) (Some (True, 100)) idle_shutdown x)
        [''exchange'', ''--gateway'', ''9000'', ''events.log''] = Some (out, status) \<and> (complains out \<longleftrightarrow> status \<noteq> 0)) \<and>
     (\<exists>out. replay_program (\<lambda>_. None) [''replay'', ''events.log''] = Some (out, 1) \<and> complains out)"
proof (rule first_order_received)
  fix x
  assume x: "exchange_reachable (Some (True, 100)) x" "serves x"
  define y where "y = x\<lparr>ex_gateway := stop (ex_gateway x), ex_serving := False\<rparr>"
  have "ex_serving x" using x(2) by (simp add: serves_def)
  note y = signalled(1) [OF x(1) this y_def]
  have fin: "\<not> ex_serving y" "can_finish idle_shutdown y" by (simp_all add: y_def can_finish_def idle_shutdown_def)
  let ?exchange = "[''exchange'', ''--gateway'', ''9000'', ''events.log'']" and ?replay = "[''replay'', ''events.log'']"
  note t = programs_report_errors [where contents = "\<lambda>_. None" and bound = "\<lambda>port. Inr (Some port)" and log = "\<lambda>_. Some (True, 100)" and
    sd = "\<lambda>_ _. idle_shutdown" and final = "\<lambda>_ _. y"]
  have "\<exists>out status. exchange_program (\<lambda>port path. run_gateway_output (Inr (Some port)) (Some (True, 100)) idle_shutdown y) ?exchange =
      Some (out, status) \<and> (complains out \<longleftrightarrow> status \<noteq> 0)"
    using conjunct1 [OF t [of ?exchange]] conjunct1 [OF conjunct2 [OF t [of ?exchange]]] y fin by blast
  moreover have "\<exists>out status. replay_program (\<lambda>_. None) ?replay = Some (out, status) \<and> (complains out \<longleftrightarrow> status \<noteq> 0)"
    using conjunct1 [OF conjunct2 [OF conjunct2 [OF t [of ?replay]]]] .
  moreover have "map_option snd (replay_program (\<lambda>_. None) ?replay) = Some 1"
    by (simp add: replay_program_def replay_main_def replay_event_log_def)
  ultimately show ?thesis using y by (intro exI [of _ y]) auto
qed

end
