(* ===== verification/Fair_Exchange.thy ===== *)
theory Fair_Exchange
  imports Exchange_Guarantees
begin

text \<open>
  Liveness of the running exchange under fair scheduling. A run is an infinite sequence of states in
  which every state follows from the one before by a step of one thread. The engine's thread, the
  polling of the outbound queue by the network thread and the writes of a session are each weakly
  fair: an action that stays possible is taken eventually. Then whatever the gateway has enqueued is
  eventually processed, its events are eventually delivered, and the frames of a session that stays
  connected are eventually written to its socket.
\<close>

section \<open>Weak fairness\<close>

definition run_of :: "('s \<Rightarrow> 's \<Rightarrow> bool) \<Rightarrow> (nat \<Rightarrow> 's) \<Rightarrow> bool" where
  "run_of step \<sigma> \<longleftrightarrow> (\<forall>i. step (\<sigma> i) (\<sigma> (Suc i)))"

definition weakly_fair :: "('s \<Rightarrow> 's \<Rightarrow> bool) \<Rightarrow> (nat \<Rightarrow> 's) \<Rightarrow> bool" where
  "weakly_fair turn \<sigma> \<longleftrightarrow> (\<forall>i. \<exists>j \<ge> i. (\<exists>x. turn (\<sigma> j) x) \<longrightarrow> turn (\<sigma> j) (\<sigma> (Suc j)))"

text \<open>An action that is taken whenever possible once in every \<open>p\<close> steps is weakly fair.\<close>

lemma weakly_fair_periodic:
  fixes k p :: nat
  assumes "k < p" and "\<And>n. n mod p = k \<Longrightarrow> \<exists>x. turn (\<sigma> n) x \<Longrightarrow> turn (\<sigma> n) (\<sigma> (Suc n))"
  shows "weakly_fair turn \<sigma>"
  unfolding weakly_fair_def
proof
  fix i
  have "(p * i + k) mod p = k" "i \<le> p * i + k" using assms(1) by (simp_all add: trans_le_add1)
  then show "\<exists>j \<ge> i. (\<exists>x. turn (\<sigma> j) x) \<longrightarrow> turn (\<sigma> j) (\<sigma> (Suc j))" using assms(2) by blast
qed

text \<open>A schedule whose turns are always possible and keep \<open>P\<close> gives a run.\<close>

lemma scheduled_run:
  assumes "P x" and possible: "\<And>n y. P y \<Longrightarrow> \<exists>z. turn n y z" and kept: "\<And>n y z. P y \<Longrightarrow> turn n y z \<Longrightarrow> P z"
  obtains \<sigma> where "\<sigma> 0 = x" "\<forall>n. P (\<sigma> n)" "\<forall>n :: nat. turn n (\<sigma> n) (\<sigma> (Suc n))"
proof -
  have "\<exists>\<sigma>. \<forall>n. (P (\<sigma> n) \<and> (n = 0 \<longrightarrow> \<sigma> n = x)) \<and> turn n (\<sigma> n) (\<sigma> (Suc n))"
    by (rule dependent_nat_choice) (use assms(1) possible kept in blast)+
  then obtain \<sigma> where "\<forall>n. (P (\<sigma> n) \<and> (n = 0 \<longrightarrow> \<sigma> n = x)) \<and> turn n (\<sigma> n) (\<sigma> (Suc n))" ..
  then show thesis by (intro that [of \<sigma>]) simp_all
qed

text \<open>
  A worker that consumes a stream: \<open>completed\<close> counts what it has done, \<open>issued\<close> what there is to do.
  No step takes work back, and its turn is possible and makes progress while work is left.
\<close>

locale fair_worker =
  fixes step :: "'s \<Rightarrow> 's \<Rightarrow> bool" and good :: "'s \<Rightarrow> bool" and turn :: "'s \<Rightarrow> 's \<Rightarrow> bool"
    and completed :: "'s \<Rightarrow> nat" and issued :: "'s \<Rightarrow> nat"
  assumes kept: "good x \<Longrightarrow> good x' \<Longrightarrow> step x x' \<Longrightarrow> completed x \<le> completed x' \<and> issued x \<le> issued x'"
    and possible: "good x \<Longrightarrow> completed x < issued x \<Longrightarrow> \<exists>x'. turn x x'"
    and progress: "good x \<Longrightarrow> good x' \<Longrightarrow> turn x x' \<Longrightarrow> completed x < issued x \<Longrightarrow> completed x < completed x'"
begin

lemma counts_grow:
  assumes "run_of step \<sigma>" and "\<And>i. good (\<sigma> i)" and "i \<le> j"
  shows "completed (\<sigma> i) \<le> completed (\<sigma> j)" and "issued (\<sigma> i) \<le> issued (\<sigma> j)"
  using assms(3) kept [OF assms(2) assms(2)] assms(1)
  by (induction j rule: dec_induct) (auto simp: run_of_def intro: order_trans)

lemma catches_up:
  assumes "run_of step \<sigma>" and "\<And>i. good (\<sigma> i)" and fair: "weakly_fair turn \<sigma>" and "n \<le> issued (\<sigma> i)"
  shows "\<exists>j \<ge> i. n \<le> completed (\<sigma> j)"
  using assms(4)
proof (induction n)
  case (Suc n)
  then obtain j where j: "i \<le> j" "n \<le> completed (\<sigma> j)" by auto
  obtain k where k: "j \<le> k" "(\<exists>x. turn (\<sigma> k) x) \<longrightarrow> turn (\<sigma> k) (\<sigma> (Suc k))"
    using fair by (auto simp: weakly_fair_def)
  have n: "n \<le> completed (\<sigma> k)" "Suc n \<le> issued (\<sigma> k)"
    using counts_grow [OF assms(1,2)] j k(1) Suc.prems by (meson order_trans)+
  show ?case
  proof (cases "Suc n \<le> completed (\<sigma> k)")
    case False
    then have "completed (\<sigma> k) < issued (\<sigma> k)" using n by simp
    then have "completed (\<sigma> k) < completed (\<sigma> (Suc k))"
      using possible progress k(2) assms(2) by blast
    then show ?thesis using n(1) j(1) k(1) by (intro exI [of _ "Suc k"]) simp
  qed (use j k in \<open>auto intro: order_trans\<close>)
qed auto

end

section \<open>The fair actions of the exchange\<close>

text \<open>One command of the engine's thread, a message delivered or the queue polled by the network thread, a completed write.\<close>

inductive engine_turn :: "exchange \<Rightarrow> exchange \<Rightarrow> bool" where
  "e = (ex_engine x)\<lparr>en_turns := turns\<rparr> \<Longrightarrow> ex_serving x \<or> turns = [] \<Longrightarrow> ready e \<Longrightarrow> process_one now e = Some (busy, e') \<Longrightarrow>
   engine_turn x (x\<lparr>ex_engine := e'\<lparr>en_turns := []\<rparr>,
     ex_gateway := (ex_gateway x)\<lparr>gw_inbound := en_inbound e', gw_outbound := en_outbound e'\<rparr>,
     ex_in_flight := ex_in_flight x @ drop (length (en_taken e)) (en_taken e')\<rparr>)"

inductive poll_turn :: "exchange \<Rightarrow> exchange \<Rightarrow> bool" where
  delivers: "ex_serving x \<Longrightarrow> ex_in_flight x = m # ms \<Longrightarrow> serialize_outbound m = Some frame \<Longrightarrow>
     poll_turn x (x\<lparr>ex_gateway := deliver m frame (ex_gateway x), ex_in_flight := ms\<rparr>)"
| polls: "ex_serving x \<Longrightarrow> ex_in_flight x = [] \<Longrightarrow> pending (Timer_expired False) (ex_gateway x) \<Longrightarrow>
     complete (Timer_expired False) (ex_gateway x) = Some g \<Longrightarrow>
     poll_turn x (x\<lparr>ex_gateway := g, ex_engine := taken_to (gw_outbound g) (ex_engine x)\<rparr>)"

inductive write_turn :: "u64 \<Rightarrow> exchange \<Rightarrow> exchange \<Rightarrow> bool" for sid where
  "ex_serving x \<Longrightarrow> pending (Frame_written sid False) (ex_gateway x) \<Longrightarrow>
   complete (Frame_written sid False) (ex_gateway x) = Some g \<Longrightarrow> write_turn sid x (with_gateway g x)"

lemma turns_are_steps:
  "engine_turn x x' \<Longrightarrow> exchange_step x x'" "poll_turn x x' \<Longrightarrow> exchange_step x x'" "write_turn sid x x' \<Longrightarrow> exchange_step x x'"
proof -
  show "engine_turn x x' \<Longrightarrow> exchange_step x x'" by (induction rule: engine_turn.induct) (rule exchange_step.engine)
  show "poll_turn x x' \<Longrightarrow> exchange_step x x'"
    by (induction rule: poll_turn.induct) (rule exchange_step.delivery exchange_step.timer; assumption)+
  show "write_turn sid x x' \<Longrightarrow> exchange_step x x'"
    by (induction rule: write_turn.induct) (rule exchange_step.network [where c = "Frame_written sid False"]; simp)
qed

section \<open>Streams that only grow\<close>

text \<open>How many events have been delivered to the sessions.\<close>

definition delivered_count :: "exchange \<Rightarrow> nat" where
  "delivered_count x = length (en_taken (ex_engine x)) - length (ex_in_flight x)"

lemma engine_takes_one:
  assumes "engine_inv e" and "ready e" and "process_one now e = Some (busy, e')"
  shows "inbound_contents e' = tl (inbound_contents e)"
proof (cases "inbound_contents e")
  case Nil
  then show ?thesis using process_one_idle [OF assms(1) Nil, of now] assms(3) by auto
next
  case (Cons m ms)
  then show ?thesis using process_one_ready [OF assms(1,2) Cons, of now] assms(3) by auto
qed

lemma timer_polls:
  assumes "gw_inv g" and "on_timer failed g = Some g'"
  shows "gw_outbound g' = gw_outbound g \<or> ring_contents message_capacity (gw_outbound g') = []"
proof -
  have "ring_inv message_capacity (gw_outbound (g\<lparr>gw_draining := False\<rparr>))" "distinct (gw_sessions (g\<lparr>gw_draining := False\<rparr>))"
    using assms(1) by (simp_all add: gw_inv_def)
  from poll_loop_delivers [OF this, of 0] assms(2) show ?thesis
    by (auto simp: on_timer_def poll_outbound_def schedule_outbound_drain_def Let_def split: if_splits)
qed

lemma step_streams:
  assumes "exchange_step x x'" and "exchange_inv x"
  shows "prefix (gw_enqueued (ex_gateway x)) (gw_enqueued (ex_gateway x'))" (is ?enqueued)
    "length (served_messages x) \<le> length (served_messages x')" (is ?served)
    "delivered_count x \<le> delivered_count x'" (is ?delivered)
proof -
  note d = exchange_invD [OF assms(2)]
  obtain ms where ms: "en_taken (ex_engine x) = ms @ ex_in_flight x" using assms(2) by (auto simp: exchange_inv_def Let_def)
  from assms(1) have "?enqueued \<and> ?served \<and> ?delivered"
  proof cases
    case (network c g)
    from complete_handled [OF d(2) network(3,5,4)] have "prefix (gw_enqueued (ex_gateway x)) (gw_enqueued g)"
    proof
      assume "\<exists>failed. c = Accepted failed"
      then show ?thesis using network(5) by (auto simp: on_accept_def do_accept_def Let_def split: if_splits)
    next
      assume "\<exists>sid. gw_objects (ex_gateway x) sid \<noteq> None \<and> handled sid (ex_gateway x) g"
      then show ?thesis using handled_fields(4) by (metis prefixI prefix_order.order_refl)
    qed
    then show ?thesis using network exchange_inv_network [OF assms(2) network(3,4,5)]
      by (simp add: with_gateway_def delivered_count_def)
  next
    case (timer failed g)
    then have t: "on_timer failed (ex_gateway x) = Some g" by simp
    have "length (en_taken (ex_engine x)) \<le> length (en_taken (taken_to (gw_outbound g) (ex_engine x)))"
      using timer_polls [OF d(2) t] d(4) by (auto simp: taken_to_def sent_def)
    then show ?thesis using timer served_by_gateway(1) [OF assms(2) t] on_timer_effect(1) [OF d(2) t]
      by (simp add: delivered_count_def)
  next
    case (delivery m ms frame)
    then show ?thesis using served_by_gateway(2) [OF assms(2)] deliver_enqueued [OF d(2)] ms by (simp add: delivered_count_def)
  next
    case (engine e turns now busy e')
    have "engine_inv e" unfolding engine(2)
      by (rule engine_inv_step [OF engine_step.schedule engine_reachable_inv [OF d(1)]])
    from engine_takes_one [OF this engine(4,5)] show ?thesis using engine process_one_undisturbed [OF engine(5)] ms
      by (auto simp: served_messages_def delivered_count_def undisturbed_def)
  next
    case (publisher f ok q mb)
    then show ?thesis by (simp add: served_messages_def delivered_count_def)
  next
    case (recorder w f spills ok q w')
    then show ?thesis by (simp add: served_messages_def delivered_count_def)
  next
    case signal
    then show ?thesis using served_by_gateway(3) [OF assms(2)] stop_effect(1) [OF d(2)] by (simp add: delivered_count_def)
  qed
  then show ?enqueued ?served ?delivered by auto
qed

lemma spec_serve_append:
  "spec_serve (xs @ ys) owners a =
     (case spec_serve xs owners a of (events, owners', a') \<Rightarrow>
        case spec_serve ys owners' a' of (events', result) \<Rightarrow> (events @ events', result))"
  by (induction xs arbitrary: owners a) (auto simp: Let_def split: prod.splits)

lemma spec_serve_prefix: "prefix xs ys \<Longrightarrow> prefix (fst (spec_serve xs owners a)) (fst (spec_serve ys owners a))"
  by (auto simp: prefix_def spec_serve_append split: prod.splits)

lemma sent_specified: "exchange_inv x \<Longrightarrow> sent (ex_engine x) = fst (spec_serve (served_messages x) Map.empty (abs_of empty_book))"
  using exchange_inv_served(2) by simp

text \<open>The commands processed and the events sent only ever grow.\<close>

lemma served_prefix:
  assumes "prefix (gw_enqueued (ex_gateway x)) (gw_enqueued (ex_gateway x'))" and "length (served_messages x) \<le> length (served_messages x')"
  shows "prefix (served_messages x) (served_messages x')"
proof -
  have "prefix (served_messages x) (gw_enqueued (ex_gateway x'))" "prefix (served_messages x') (gw_enqueued (ex_gateway x'))"
    using assms(1) take_is_prefix prefix_order.order_trans unfolding served_messages_def by blast+
  then show ?thesis using assms(2) by (rule prefix_length_prefix)
qed

lemma step_sent:
  assumes "exchange_step x x'" and "exchange_inv x"
  shows "prefix (sent (ex_engine x)) (sent (ex_engine x'))"
  unfolding sent_specified [OF assms(2)] sent_specified [OF exchange_inv_step [OF assms]]
  by (rule spec_serve_prefix [OF served_prefix [OF step_streams(1,2) [OF assms]]])

section \<open>The workers\<close>

definition within_levels :: "exchange \<Rightarrow> bool" where
  "within_levels x \<longleftrightarrow> levels_ok (inbound_contents (ex_engine x)) (abs_of (en_book (ex_engine x)))"

lemma engine_turn_possible:
  assumes inv: "exchange_inv x" and "serves x" and levels: "within_levels x"
  shows "\<exists>x'. engine_turn x x'"
proof -
  define turns where "turns = (case inbound_contents (ex_engine x) of [] \<Rightarrow> [] | m # ms \<Rightarrow> replicate (length (response m (ex_engine x))) (1 :: nat))"
  let ?e = "(ex_engine x)\<lparr>en_turns := turns\<rparr>"
  have ie: "engine_inv ?e" by (rule engine_inv_step [OF engine_step.schedule engine_reachable_inv [OF exchange_invD(1) [OF inv]]])
  have "can_send (length (response m ?e)) ?e" if "inbound_contents (ex_engine x) = m # ms" for m ms
    by (rule can_sendI(2)) (use ie that in \<open>simp_all add: engine_inv_def turns_def response_def\<close>)
  then have ready: "ready ?e" using levels by (auto simp: ready_def within_levels_def split: list.split)
  have "\<exists>busy e'. process_one 0 ?e = Some (busy, e')"
    using process_one_ready [OF ie ready, of _ _ 0] process_one_idle [OF ie, of 0] by (cases "inbound_contents ?e") blast+
  then show ?thesis using engine_turn.intros [OF refl _ ready] assms(2) unfolding serves_def by blast
qed

lemma engine_turn_progress:
  assumes inv: "exchange_inv x" and turn: "engine_turn x x'" and "length (served_messages x) < length (gw_enqueued (ex_gateway x))"
  shows "length (served_messages x) < length (served_messages x')"
  using turn
proof cases
  case (1 e turns now busy e')
  have "engine_inv e" unfolding 1(2)
    by (rule engine_inv_step [OF engine_step.schedule engine_reachable_inv [OF exchange_invD(1) [OF inv]]])
  note left = engine_takes_one [OF this 1(4,5)]
  have all: "length (gw_enqueued (ex_gateway x)) = length (served_messages x) + length (inbound_contents (ex_engine x))"
    using arg_cong [OF exchange_inv_served(1) [OF inv], of length] by simp
  have "length (served_messages x') = length (gw_enqueued (ex_gateway x)) - length (inbound_contents e')"
    using 1(1) by (simp add: served_messages_def)
  also have "\<dots> = length (gw_enqueued (ex_gateway x)) - (length (inbound_contents (ex_engine x)) - 1)" using left 1(2) by simp
  finally show ?thesis using assms(3) all by simp
qed

interpretation processing: fair_worker exchange_step "\<lambda>x. exchange_inv x \<and> serves x \<and> within_levels x" engine_turn
  "\<lambda>x. length (served_messages x)" "\<lambda>x. length (gw_enqueued (ex_gateway x))"
  by unfold_locales (auto dest: step_streams prefix_length_le engine_turn_possible engine_turn_progress)

lemma poll_turn_possible:
  assumes "exchange_inv x" and "serves x"
  shows "\<exists>x'. poll_turn x x'"
proof (cases "ex_in_flight x")
  case Nil
  have "pending (Timer_expired False) (ex_gateway x)" using assms(2) by (simp add: serves_def)
  moreover obtain g where "complete (Timer_expired False) (ex_gateway x) = Some g"
    using complete_total [OF exchange_invD(2) [OF assms(1)] calculation] by blast
  ultimately show ?thesis using poll_turn.polls Nil assms(2) unfolding serves_def by blast
next
  case (Cons m ms)
  then show ?thesis using poll_turn.delivers [OF _ Cons serialize_outbound_eq] assms(2) unfolding serves_def by blast
qed

lemma delivered_count_bound:
  assumes "exchange_inv x"
  shows "length (ex_in_flight x) \<le> length (en_taken (ex_engine x))" "delivered_count x \<le> length (sent (ex_engine x))"
  using assms by (auto simp: exchange_inv_def Let_def delivered_count_def sent_def)

lemma poll_turn_progress:
  assumes inv: "exchange_inv x" and "serves x" and turn: "poll_turn x x'" and "delivered_count x < length (sent (ex_engine x))"
  shows "delivered_count x < delivered_count x'"
  using turn
proof cases
  case (delivers m ms frame)
  then show ?thesis using delivered_count_bound(1) [OF inv] by (simp add: delivered_count_def)
next
  case (polls g)
  have "on_timer False (ex_gateway x) = Some g" using polls by simp
  moreover have "ring_inv message_capacity (gw_outbound ((ex_gateway x)\<lparr>gw_draining := False\<rparr>))"
      "distinct (gw_sessions ((ex_gateway x)\<lparr>gw_draining := False\<rparr>))" using exchange_invD(2) [OF inv] by (simp_all add: gw_inv_def)
  moreover have "\<not> gw_stopped (ex_gateway x)" using assms(2) by (simp add: serves_def)
  ultimately have "ring_contents message_capacity (gw_outbound g) = []"
    using poll_loop_delivers [of "(ex_gateway x)\<lparr>gw_draining := False\<rparr>" 0]
    by (auto simp: on_timer_def poll_outbound_def schedule_outbound_drain_def)
  then show ?thesis using polls assms(4) by (simp add: delivered_count_def taken_to_def)
qed

interpretation delivering: fair_worker exchange_step "\<lambda>x. exchange_inv x \<and> serves x" poll_turn delivered_count
  "\<lambda>x. length (sent (ex_engine x))"
  by unfold_locales (auto dest: step_streams(3) step_sent prefix_length_le poll_turn_possible poll_turn_progress)

section \<open>Sessions\<close>

text \<open>A session object from one state to a later one: its histories grow, and while it is registered it keeps writing.\<close>

definition session_grows :: "u64 \<Rightarrow> gateway \<Rightarrow> gateway \<Rightarrow> bool" where
  "session_grows sid g g' \<longleftrightarrow> (\<forall>s. gw_objects g sid = Some s \<longrightarrow> (\<exists>s'. gw_objects g' sid = Some s' \<and>
     prefix (ts_written s) (ts_written s') \<and> prefix (ts_frames s) (ts_frames s') \<and>
     (sid \<in> set (gw_sessions g') \<and> writing_ok s \<longrightarrow> writing_ok s')))"

lemma session_grows_map:
  assumes "gw_objects g' sid = gw_objects g sid \<or> gw_objects g' sid = map_option f (gw_objects g sid)"
    and "\<And>s. ts_written (f s) = ts_written s" and "\<And>s. prefix (ts_frames s) (ts_frames (f s))" and "keeps_writing f"
  shows "session_grows sid g g'"
  using assms by (auto simp: session_grows_def keeps_writing_def)

lemma fold_send_histories:
  "ts_written (fold send_raw_frame fs s) = ts_written s" "prefix (ts_frames s) (ts_frames (fold send_raw_frame fs s))"
  "writing_ok s \<Longrightarrow> writing_ok (fold send_raw_frame fs s)"
proof (induction fs arbitrary: s)
  case (Cons f fs)
  {
    case 1
    then show ?case using Cons.IH(1) by (simp add: send_raw_frame_histories)
  next
    case 2
    show ?case using prefix_order.order_trans [OF send_raw_frame_histories(2) Cons.IH(2)] by simp
  next
    case 3
    then show ?case using Cons.IH(3) keeps_writing_updates(5) by (simp add: keeps_writing_def)
  }
qed simp_all

lemma timer_sessions:
  assumes "gw_inv g" and "on_timer failed g = Some g'"
  shows "gw_sessions g' = gw_sessions g" "\<exists>fs. gw_objects g' i = map_option (fold send_raw_frame fs) (gw_objects g i)"
proof -
  let ?g = "g\<lparr>gw_draining := False\<rparr>"
  have "ring_inv message_capacity (gw_outbound ?g)" "distinct (gw_sessions ?g)" using assms(1) by (simp_all add: gw_inv_def)
  from poll_loop_delivers [OF this, of 0] obtain n g1 where g1: "poll_loop 0 ?g = Some (n, g1)" "same_table ?g g1"
      "gw_objects g1 i = (if i \<in> set (gw_sessions g)
         then map_option (fold send_raw_frame (frames_for i (ring_contents message_capacity (gw_outbound g)))) (gw_objects g i)
         else gw_objects g i)"
    by auto
  have unchanged: "\<exists>fs. gw_objects g i = map_option (fold send_raw_frame fs) (gw_objects g i)"
    by (rule exI [of _ "[]"]) (simp add: option.map_id)
  have "gw_sessions g' = gw_sessions g \<and> (gw_objects g' i = gw_objects g1 i \<or> gw_objects g' i = gw_objects g i)"
    using assms(2) g1(1,2)
    by (auto simp: on_timer_def poll_outbound_def schedule_outbound_drain_def same_table_def Let_def split: if_splits)
  then show "gw_sessions g' = gw_sessions g" "\<exists>fs. gw_objects g' i = map_option (fold send_raw_frame fs) (gw_objects g i)"
    using g1(3) unchanged by (auto split: if_splits)
qed

lemma step_sessions:
  assumes "exchange_step x x'" and "exchange_inv x"
  shows "session_grows sid (ex_gateway x) (ex_gateway x')"
proof -
  note d = exchange_invD [OF assms(2)]
  have dis: "distinct (gw_sessions (ex_gateway x))" using d(2) by (simp add: gw_inv_def)
  from assms(1) show ?thesis
  proof cases
    case (network c g)
    from complete_handled [OF d(2) network(3,5,4)] show ?thesis
    proof
      assume "\<exists>failed. c = Accepted failed"
      then obtain failed where "c = Accepted failed" by blast
      then have "g = on_accept failed (ex_gateway x)" using network(5) by simp
      then show ?thesis using network(1) on_accept_effect(2) [OF d(2)] by (auto simp: session_grows_def with_gateway_def)
    next
      assume "\<exists>sid. gw_objects (ex_gateway x) sid \<noteq> None \<and> handled sid (ex_gateway x) g"
      then obtain r where "handled r (ex_gateway x) g" by blast
      then show ?thesis using network(1) handled_histories [of r "ex_gateway x" g sid]
        by (simp add: session_grows_def with_gateway_def) metis
    qed
  next
    case (timer failed g)
    then have t: "on_timer failed (ex_gateway x) = Some g" by simp
    obtain fs where "gw_objects g sid = map_option (fold send_raw_frame fs) (gw_objects (ex_gateway x) sid)"
      using timer_sessions(2) [OF d(2) t] by blast
    then show ?thesis using timer fold_send_histories
      by (intro session_grows_map [where f = "fold send_raw_frame fs"]) (simp_all add: keeps_writing_def)
  next
    case (delivery m ms frame)
    then show ?thesis using deliver_effect(3) [OF dis, of m frame sid]
      by (auto intro!: session_grows_map [where f = "send_raw_frame frame"] simp: send_raw_frame_histories)
  next
    case signal
    then show ?thesis using fold_on_session [of "gw_sessions (ex_gateway x)" "(ex_gateway x)\<lparr>gw_stopped := True\<rparr>" close_session sid] dis
      by (auto intro!: session_grows_map [where f = close_session] simp: stop_def close_session_def)
  qed (auto simp: session_grows_def)
qed

lemma step_registered:
  assumes "exchange_step x x'" and "exchange_inv x" and "sid \<in> set (gw_sessions (ex_gateway x'))"
    and "gw_objects (ex_gateway x') sid = Some s'"
  shows "sid \<in> set (gw_sessions (ex_gateway x)) \<or> s' = do_read_header make_session"
proof -
  note d = exchange_invD [OF assms(2)]
  from assms(1) show ?thesis
  proof cases
    case (network c g)
    from complete_handled [OF d(2) network(3,5,4)] show ?thesis
    proof
      assume "\<exists>failed. c = Accepted failed"
      then show ?thesis using network(1,5) assms(3,4)
        by (auto simp: with_gateway_def on_accept_def do_accept_def Let_def split: if_splits)
    next
      assume "\<exists>sid. gw_objects (ex_gateway x) sid \<noteq> None \<and> handled sid (ex_gateway x) g"
      then show ?thesis using network(1) handled_fields(3) assms(3) by (fastforce simp: with_gateway_def)
    qed
  next
    case (timer failed g)
    then show ?thesis using timer_sessions(1) [OF d(2), of failed g] assms(3) by simp
  next
    case (delivery m ms frame)
    then show ?thesis using deliver_undropped(1) [OF d(2)] assms(3) by (simp add: undropped_def)
  next
    case signal
    then show ?thesis using assms(3) by (auto simp: stop_def split: if_splits)
  qed (use assms(3) in auto)
qed

text \<open>Every registered session that has frames to write is writing.\<close>

lemma reachable_writing:
  assumes "exchange_reachable log x"
  shows "sid \<in> set (gw_sessions (ex_gateway x)) \<Longrightarrow> gw_objects (ex_gateway x) sid = Some s \<Longrightarrow> writing_ok s"
  using assms
proof (induction arbitrary: s rule: exchange_reachable.induct)
  case (init x)
  then show ?case by (auto simp: start_exchange_def Let_def start_def make_gateway_def do_accept_def schedule_outbound_drain_def
      split: if_splits)
next
  case (step x x')
  note inv = exchange_reachable_inv [OF step.hyps(1)]
  from step_registered [OF step.hyps(2) inv step.prems] show ?case
  proof
    assume sid: "sid \<in> set (gw_sessions (ex_gateway x))"
    then obtain t where t: "gw_objects (ex_gateway x) sid = Some t" using exchange_invD(2) [OF inv] by (auto simp: gw_inv_def)
    show ?thesis using step.IH [OF sid t] step_sessions [OF step.hyps(2) inv, of sid] t step.prems by (auto simp: session_grows_def)
  qed (simp add: writing_ok_def do_read_header_def make_session_def)
qed

text \<open>A session in the table whose socket is open and whose queued frames are being written.\<close>

definition connected :: "u64 \<Rightarrow> exchange \<Rightarrow> bool" where
  "connected sid x \<longleftrightarrow> sid \<in> set (gw_sessions (ex_gateway x)) \<and> (\<exists>s. gw_objects (ex_gateway x) sid = Some s \<and> ts_open s)"

definition session_of :: "u64 \<Rightarrow> exchange \<Rightarrow> tcp_session" where
  "session_of sid x = (case gw_objects (ex_gateway x) sid of Some s \<Rightarrow> s | None \<Rightarrow> make_session)"

lemma connectedD:
  assumes "connected sid x" and "exchange_inv x"
  shows "gw_objects (ex_gateway x) sid = Some (session_of sid x)" "session_ok (session_of sid x)" "ts_open (session_of sid x)"
  using assms gw_invD(1) [OF exchange_invD(2) [OF assms(2)]] by (auto simp: connected_def session_of_def)

lemma write_turn_possible:
  assumes "exchange_inv x" and "serves x" and "connected sid x" and "writing_ok (session_of sid x)"
    and "length (ts_written (session_of sid x)) < length (ts_frames (session_of sid x))"
  shows "\<exists>x'. write_turn sid x x'"
proof -
  note s = connectedD [OF assms(3,1)]
  have "ts_writing (session_of sid x)" using s(2) assms(4,5) by (auto simp: session_ok_def writing_ok_def)
  then have due: "pending (Frame_written sid False) (ex_gateway x)" using s(1) by simp
  then obtain g where "complete (Frame_written sid False) (ex_gateway x) = Some g"
    using complete_total [OF exchange_invD(2) [OF assms(1)]] by blast
  then show ?thesis using write_turn.intros [OF _ due] assms(2) unfolding serves_def by blast
qed

lemma write_turn_progress:
  assumes "exchange_inv x" and "connected sid x" and turn: "write_turn sid x x'"
  shows "length (ts_written (session_of sid x)) < length (ts_written (session_of sid x'))"
  using turn
proof cases
  case (1 g)
  note s = connectedD [OF assms(2,1)]
  have "ts_write_queue (session_of sid x) \<noteq> []" using 1(3) s(1,2) by (simp add: session_ok_def)
  from on_write_eq [OF s(1) this] have "gw_objects g sid = Some (after_write (session_of sid x))"
    using 1(4) s(1) by (auto simp: unregister_session_def split: if_splits)
  then have "session_of sid x' = after_write (session_of sid x)" using 1(1) by (simp add: session_of_def with_gateway_def)
  then show ?thesis by (simp add: after_write_def pop_written_def do_write_def close_session_def)
qed

lemma session_prefixes:
  assumes "exchange_step x x'" and "exchange_inv x" and "connected sid x"
  shows "prefix (ts_written (session_of sid x)) (ts_written (session_of sid x'))"
    "prefix (ts_frames (session_of sid x)) (ts_frames (session_of sid x'))"
proof -
  obtain s' where "gw_objects (ex_gateway x') sid = Some s'" "prefix (ts_written (session_of sid x)) (ts_written s')"
      "prefix (ts_frames (session_of sid x)) (ts_frames s')"
    using step_sessions [OF assms(1,2), of sid] connectedD(1) [OF assms(3,2)] unfolding session_grows_def by blast
  moreover from this(1) have "session_of sid x' = s'" by (simp add: session_of_def)
  ultimately show "prefix (ts_written (session_of sid x)) (ts_written (session_of sid x'))"
    "prefix (ts_frames (session_of sid x)) (ts_frames (session_of sid x'))" by simp_all
qed

interpretation writing: fair_worker exchange_step
  "\<lambda>x. exchange_inv x \<and> serves x \<and> connected sid x \<and> writing_ok (session_of sid x)" "write_turn sid"
  "\<lambda>x. length (ts_written (session_of sid x))" "\<lambda>x. length (ts_frames (session_of sid x))" for sid
  by unfold_locales
    (simp add: session_prefixes prefix_length_le, elim conjE, rule write_turn_possible, assumption+,
      elim conjE, rule write_turn_progress)

section \<open>The response of a fair exchange\<close>

text \<open>Along a run that serves and is not stopped every state is reachable and streams only grow.\<close>

lemma run_reachable:
  assumes "exchange_reachable log (\<sigma> 0)" and "run_of exchange_step \<sigma>"
  shows "exchange_reachable log (\<sigma> i)"
  using assms by (induction i) (auto simp: run_of_def intro: exchange_reachable.step)

lemma run_prefix:
  assumes "run_of exchange_step \<sigma>" and "\<And>i. prefix (f (\<sigma> i)) (f (\<sigma> (Suc i)))" and "i \<le> j"
  shows "prefix (f (\<sigma> i)) (f (\<sigma> j))"
  using assms(3) by (induction j rule: dec_induct) (auto intro: prefix_order.order_trans assms(2))

text \<open>The event frames that the specification addresses to session \<open>sid\<close> for the commands \<open>ms\<close>.\<close>

definition due_frames :: "u64 \<Rightarrow> inbound_message list \<Rightarrow> bytes list" where
  "due_frames sid ms = map wire_frame (filter (\<lambda>m. om_session_id m = sid) (fst (spec_serve ms Map.empty (abs_of empty_book))))"

lemma delivered_frames:
  assumes "exchange_inv x" and "connected sid x" and "prefix ms (served_messages x)"
    and "length (fst (spec_serve ms Map.empty (abs_of empty_book))) \<le> delivered_count x"
  shows "prefix (due_frames sid ms) (event_frames (session_of sid x))"
proof -
  obtain ns where ns: "en_taken (ex_engine x) = ns @ ex_in_flight x" "delivered (ex_gateway x) ns"
    using assms(1) by (auto simp: exchange_inv_def Let_def)
  have "prefix (fst (spec_serve ms Map.empty (abs_of empty_book))) (sent (ex_engine x))"
    unfolding sent_specified [OF assms(1)] by (rule spec_serve_prefix [OF assms(3)])
  moreover have "prefix ns (sent (ex_engine x))" using ns(1) by (simp add: sent_def)
  moreover have "length (fst (spec_serve ms Map.empty (abs_of empty_book))) \<le> length ns"
    using assms(4) ns(1) by (simp add: delivered_count_def)
  ultimately have "prefix (fst (spec_serve ms Map.empty (abs_of empty_book))) ns" by (rule prefix_length_prefix)
  then have "prefix (due_frames sid ms) (map wire_frame (filter (\<lambda>m. om_session_id m = sid) ns))"
    unfolding due_frames_def by (intro map_mono_prefix filter_mono_prefix)
  then show ?thesis using ns(2) connectedD [OF assms(2,1)] assms(2) by (simp add: delivered_def connected_def)
qed

lemma fair_processing:
  assumes r: "exchange_reachable log (\<sigma> 0)" and run: "run_of exchange_step \<sigma>" and serves: "\<And>i. serves (\<sigma> i)"
    and levels: "\<And>i. within_levels (\<sigma> i)" and fair: "weakly_fair engine_turn \<sigma>"
  obtains j where "i \<le> j" "prefix (gw_enqueued (ex_gateway (\<sigma> i))) (served_messages (\<sigma> j))"
proof -
  have inv: "exchange_inv (\<sigma> i)" for i by (rule exchange_reachable_inv [OF run_reachable [OF r run]])
  have step: "exchange_step (\<sigma> i) (\<sigma> (Suc i))" for i using run by (simp add: run_of_def)
  have enq: "prefix (gw_enqueued (ex_gateway (\<sigma> i))) (gw_enqueued (ex_gateway (\<sigma> j)))" if "i \<le> j" for i j
    by (rule run_prefix [OF run _ that, where f = "\<lambda>x. gw_enqueued (ex_gateway x)"]) (rule step_streams(1) [OF step inv])
  obtain j where j: "i \<le> j" "length (gw_enqueued (ex_gateway (\<sigma> i))) \<le> length (served_messages (\<sigma> j))"
    using processing.catches_up [OF run _ fair le_refl] inv serves levels by blast
  have "prefix (served_messages (\<sigma> j)) (gw_enqueued (ex_gateway (\<sigma> j)))" by (simp add: served_messages_def take_is_prefix)
  then show thesis using that [OF j(1)] enq [OF j(1)] j(2) prefix_length_prefix by blast
qed

lemma run_served:
  assumes "exchange_reachable log (\<sigma> 0)" and run: "run_of exchange_step \<sigma>" and "i \<le> j"
  shows "prefix (served_messages (\<sigma> i)) (served_messages (\<sigma> j))"
proof (rule run_prefix [OF run _ assms(3)])
  fix k
  have "exchange_step (\<sigma> k) (\<sigma> (Suc k))" using run by (simp add: run_of_def)
  from step_streams(1,2) [OF this exchange_reachable_inv [OF run_reachable [OF assms(1) run]]]
  show "prefix (served_messages (\<sigma> k)) (served_messages (\<sigma> (Suc k)))" by (rule served_prefix)
qed

lemma fair_delivery:
  assumes r: "exchange_reachable log (\<sigma> 0)" and run: "run_of exchange_step \<sigma>" and serves: "\<And>i. serves (\<sigma> i)"
    and levels: "\<And>i. within_levels (\<sigma> i)" and fair: "weakly_fair engine_turn \<sigma>" "weakly_fair poll_turn \<sigma>"
  obtains j where "i \<le> j" "prefix (gw_enqueued (ex_gateway (\<sigma> i))) (served_messages (\<sigma> j))"
    "length (fst (spec_serve (gw_enqueued (ex_gateway (\<sigma> i))) Map.empty (abs_of empty_book))) \<le> delivered_count (\<sigma> j)"
proof -
  have inv: "exchange_inv (\<sigma> i)" for i by (rule exchange_reachable_inv [OF run_reachable [OF r run]])
  let ?ms = "gw_enqueued (ex_gateway (\<sigma> i))"
  obtain j where j: "i \<le> j" "prefix ?ms (served_messages (\<sigma> j))" using fair_processing [OF r run serves levels fair(1)] .
  obtain k where k: "j \<le> k" "length (sent (ex_engine (\<sigma> j))) \<le> delivered_count (\<sigma> k)"
    using delivering.catches_up [OF run _ fair(2) le_refl] inv serves by blast
  have "prefix ?ms (served_messages (\<sigma> k))" by (rule prefix_order.order_trans [OF j(2) run_served [OF r run k(1)]])
  moreover have "length (fst (spec_serve ?ms Map.empty (abs_of empty_book))) \<le> length (sent (ex_engine (\<sigma> j)))"
    unfolding sent_specified [OF inv] by (rule prefix_length_le [OF spec_serve_prefix [OF j(2)]])
  ultimately show thesis using that [of k] j(1) k by simp
qed

lemma event_frames_prefix:
  "prefix (ts_frames s) fs \<Longrightarrow> prefix (event_frames s) (filter (\<lambda>f. f ! 3 \<noteq> mt_value mt_protocol_error) fs)"
  unfolding event_frames_def by (rule filter_mono_prefix)

lemma fair_writing:
  assumes r: "exchange_reachable log (\<sigma> 0)" and run: "run_of exchange_step \<sigma>" and serves: "\<And>i. serves (\<sigma> i)"
    and conn: "\<And>i. connected sid (\<sigma> i)" and fair: "weakly_fair (write_turn sid) \<sigma>"
  obtains j where "i \<le> j" "prefix (ts_frames (session_of sid (\<sigma> i))) (ts_written (session_of sid (\<sigma> j)))"
proof -
  have inv: "exchange_inv (\<sigma> i)" for i by (rule exchange_reachable_inv [OF run_reachable [OF r run]])
  have step: "exchange_step (\<sigma> i) (\<sigma> (Suc i))" for i using run by (simp add: run_of_def)
  have "writing_ok (session_of sid (\<sigma> i))" for i
    by (rule reachable_writing [OF run_reachable [OF r run] _ connectedD(1) [OF conn inv]])
      (use conn [of i] in \<open>simp add: connected_def\<close>)
  then obtain j where j: "i \<le> j" "length (ts_frames (session_of sid (\<sigma> i))) \<le> length (ts_written (session_of sid (\<sigma> j)))"
    using writing.catches_up [OF run _ fair le_refl] inv serves conn by blast
  have "prefix (ts_frames (session_of sid (\<sigma> i))) (ts_frames (session_of sid (\<sigma> j)))"
    by (rule run_prefix [OF run _ j(1), where f = "\<lambda>x. ts_frames (session_of sid x)"]) (rule session_prefixes(2) [OF step inv conn])
  moreover have "prefix (ts_written (session_of sid (\<sigma> j))) (ts_frames (session_of sid (\<sigma> j)))"
    using connectedD(2) [OF conn inv] by (simp add: session_ok_def)
  ultimately show thesis using that j prefix_length_prefix by blast
qed

section \<open>Fair runs exist\<close>

text \<open>
  From every serving state a fair run continues: the threads take turns. So the assumptions on the
  scheduler can always be met.
\<close>

definition keeps_serving :: "(bool \<times> nat) option \<Rightarrow> u64 \<Rightarrow> exchange \<Rightarrow> bool" where
  "keeps_serving log sid x \<longleftrightarrow> exchange_reachable log x \<and> serves x \<and> within_levels x \<and> connected sid x \<and>
     \<not> ts_close_after_write (session_of sid x)"

lemma fold_send_keeps_close: "ts_close_after_write (fold send_raw_frame fs s) = ts_close_after_write s"
  by (induction fs arbitrary: s) (simp_all add: send_raw_frame_def do_write_def Let_def)

lemma engine_turn_keeps:
  assumes "keeps_serving log sid x" and turn: "engine_turn x x'"
  shows "keeps_serving log sid x'"
  using turn
proof cases
  case (1 e turns now busy e')
  note k = assms(1) [unfolded keeps_serving_def]
  note inv = exchange_reachable_inv [of log x]
  have ie: "engine_inv e" unfolding 1(2)
    by (rule engine_inv_step [OF engine_step.schedule engine_reachable_inv [OF exchange_invD(1) [OF inv]]]) (simp add: k)
  have "levels_ok (inbound_contents e') (abs_of (en_book e'))"
  proof (cases "inbound_contents e")
    case Nil
    then show ?thesis using process_one_idle [OF ie Nil, of now] 1(5) by auto
  next
    case (Cons m ms)
    obtain accepted where p: "apply_command (en_book e) (im_command m) = Some (accepted, en_book e')" "inbound_contents e' = ms"
      using process_one_ready [OF ie 1(4) Cons, of now] 1(5) by auto
    have "spec_apply (im_command m) (abs_of (en_book e)) = (accepted, abs_of (en_book e'))"
      by (rule command_spec [OF _ _ p(1)]) (use ie Cons in \<open>simp_all add: engine_inv_def\<close>)
    then show ?thesis using k Cons p(2) 1(2) by (simp add: within_levels_def)
  qed
  then show ?thesis using k 1(1) exchange_reachable.step [OF _ turns_are_steps(1) [OF turn]]
    by (simp add: keeps_serving_def serves_def within_levels_def connected_def session_of_def)
qed

lemma poll_turn_keeps:
  assumes "keeps_serving log sid x" and turn: "poll_turn x x'"
  shows "keeps_serving log sid x'"
proof -
  note k = assms(1) [unfolded keeps_serving_def]
  have inv: "exchange_inv x" using exchange_reachable_inv k by blast
  note g = exchange_invD(2) [OF inv]
  have "serves x' \<and> within_levels x' \<and> gw_sessions (ex_gateway x') = gw_sessions (ex_gateway x) \<and>
    (\<exists>fs. gw_objects (ex_gateway x') sid = map_option (fold send_raw_frame fs) (gw_objects (ex_gateway x) sid))"
    using turn
  proof cases
    case (delivers m ms frame)
    have "\<exists>fs. gw_objects (deliver m frame (ex_gateway x)) sid = map_option (fold send_raw_frame fs) (gw_objects (ex_gateway x) sid)"
      using deliver_effect(3) [of "ex_gateway x" m frame sid] g
      by (cases "sid \<in> set (gw_sessions (ex_gateway x)) \<and> (om_session_id m = 0 \<or> om_session_id m = sid)")
        (auto simp: gw_inv_def option.map_id intro: exI [of _ "[frame]"] exI [of _ "[]"])
    then show ?thesis using delivers k deliver_undropped [OF g, of m frame]
      by (simp add: serves_def within_levels_def deliver_flags undropped_def)
  next
    case (polls g')
    then have t: "on_timer False (ex_gateway x) = Some g'" by simp
    have "gw_draining g' \<and> \<not> gw_stopped g'"
      using complete_stopped [OF g polls(4,5)] t k
      by (auto simp: serves_def on_timer_def poll_outbound_def schedule_outbound_drain_def bind_ub_eq_Some)
    then show ?thesis using polls k timer_sessions [OF g t] by (simp add: serves_def within_levels_def taken_to_def)
  qed
  then show ?thesis using k exchange_reachable.step [OF _ turns_are_steps(2) [OF turn]]
    by (auto simp: keeps_serving_def connected_def session_of_def fold_send_keeps_close)
qed

lemma write_turn_keeps:
  assumes "keeps_serving log sid x" and turn: "write_turn sid x x'"
  shows "keeps_serving log sid x'"
  using turn
proof cases
  case (1 g)
  note k = assms(1) [unfolded keeps_serving_def]
  have inv: "exchange_inv x" using exchange_reachable_inv k by blast
  have conn: "connected sid x" using k by blast
  note s = connectedD [OF conn inv]
  have "ts_write_queue (session_of sid x) \<noteq> []" using 1(3) s(1,2) by (simp add: session_ok_def)
  then have g: "g = on_session sid after_write (ex_gateway x)" using on_write_eq [OF s(1)] 1(4) k by simp
  have open_end: "ts_open (after_write (session_of sid x))" "\<not> ts_close_after_write (after_write (session_of sid x))"
    using s(3) k by (simp_all add: after_write_def pop_written_def do_write_def)
  have obj: "gw_objects (ex_gateway x') sid = Some (after_write (session_of sid x))" using s(1) by (simp add: 1(1) g with_gateway_def)
  then have now: "session_of sid x' = after_write (session_of sid x)" by (simp add: session_of_def)
  have "serves x'" "within_levels x'" "gw_sessions (ex_gateway x') = gw_sessions (ex_gateway x)"
    using k exchange_invD(3) [OF inv] by (simp_all add: 1(1) g with_gateway_def on_session_def serves_def within_levels_def)
  moreover have "exchange_reachable log x'" using k exchange_reachable.step [OF _ turns_are_steps(3) [OF turn]] by blast
  ultimately show ?thesis using conn obj now open_end by (simp add: keeps_serving_def connected_def)
qed

text \<open>The engine, the poll and the session's write, if one is pending, take turns.\<close>

definition turn_at :: "u64 \<Rightarrow> nat \<Rightarrow> exchange \<Rightarrow> exchange \<Rightarrow> bool" where
  "turn_at sid n x x' \<longleftrightarrow>
     (if n mod 3 = 0 then engine_turn x x' else if n mod 3 = 1 then poll_turn x x'
      else if \<exists>y. write_turn sid x y then write_turn sid x x' else engine_turn x x')"

lemma turn_at_cases: "turn_at sid n x x' \<Longrightarrow> engine_turn x x' \<or> poll_turn x x' \<or> write_turn sid x x'"
  by (auto simp: turn_at_def split: if_splits)

lemma turn_at_possible:
  assumes "keeps_serving log sid x"
  shows "\<exists>x'. turn_at sid n x x'"
proof -
  have "exchange_inv x" "serves x" "within_levels x" using assms exchange_reachable_inv by (auto simp: keeps_serving_def)
  then obtain y z where "engine_turn x y" "poll_turn x z" using engine_turn_possible poll_turn_possible by blast
  then show ?thesis unfolding turn_at_def by (cases "n mod 3 = 0"; cases "n mod 3 = 1"; cases "\<exists>y. write_turn sid x y") auto
qed

lemma fair_run_exists:
  assumes "keeps_serving log sid x"
  obtains \<sigma> where "\<sigma> 0 = x" "run_of exchange_step \<sigma>" "\<forall>i. keeps_serving log sid (\<sigma> i)" "weakly_fair engine_turn \<sigma>"
    "weakly_fair poll_turn \<sigma>" "weakly_fair (write_turn sid) \<sigma>"
proof -
  have kept: "keeps_serving log sid z" if y: "keeps_serving log sid y" and z: "turn_at sid n y z" for n y z
    using turn_at_cases [OF z] engine_turn_keeps [OF y] poll_turn_keeps [OF y] write_turn_keeps [OF y] by blast
  obtain \<sigma> where \<sigma>: "\<sigma> 0 = x" "\<forall>n. keeps_serving log sid (\<sigma> n)" "\<forall>n. turn_at sid n (\<sigma> n) (\<sigma> (Suc n))"
    by (rule scheduled_run [where P = "keeps_serving log sid" and turn = "turn_at sid", OF assms turn_at_possible kept])
  have "exchange_step (\<sigma> n) (\<sigma> (Suc n))" for n
    using turn_at_cases [OF spec [OF \<sigma>(3)]] turns_are_steps by blast
  moreover have "weakly_fair engine_turn \<sigma>" "weakly_fair poll_turn \<sigma>" "weakly_fair (write_turn sid) \<sigma>"
    by (rule weakly_fair_periodic [of 0 3] weakly_fair_periodic [of 1 3] weakly_fair_periodic [of 2 3]; use spec [OF \<sigma>(3)] in \<open>simp add: turn_at_def\<close>)+
  ultimately show thesis using that \<sigma>(1,2) by (simp add: run_of_def)
qed

section \<open>Properties\<close>

text \<open>
  Claim C6. A fair exchange answers. Take any infinite run of the exchange that is not stopped and in
  which the engine's thread and the polling of the outbound queue are weakly fair, and any session that
  stays connected and whose writes are weakly fair, whatever else the threads and the other sessions
  do. Whatever commands the gateway has enqueued at some moment, later there is a moment at which the
  engine has processed them all and every event frame that the specification addresses to the session
  for these commands has been written to its socket, in order and with nothing but protocol errors in
  between. The condition on the commands is that they keep the quantity of each price level within 64
  bits.
\<close>

theorem fair_exchange_answers:
  assumes "exchange_reachable log (\<sigma> 0)" and "run_of exchange_step \<sigma>" and "\<forall>i. serves (\<sigma> i)" and "\<forall>i. within_levels (\<sigma> i)"
    and "weakly_fair engine_turn \<sigma>" and "weakly_fair poll_turn \<sigma>" and "weakly_fair (write_turn sid) \<sigma>"
    and "\<forall>i. connected sid (\<sigma> i)"
  shows "\<exists>j \<ge> i. prefix (gw_enqueued (ex_gateway (\<sigma> i))) (served_messages (\<sigma> j)) \<and>
    (\<exists>s. gw_objects (ex_gateway (\<sigma> j)) sid = Some s \<and>
       prefix (due_frames sid (gw_enqueued (ex_gateway (\<sigma> i))))
         (filter (\<lambda>f. f ! 3 \<noteq> mt_value mt_protocol_error) (ts_written s)))"
proof -
  have inv: "exchange_inv (\<sigma> i)" for i by (rule exchange_reachable_inv [OF run_reachable [OF assms(1,2)]])
  obtain j where j: "i \<le> j" "prefix (gw_enqueued (ex_gateway (\<sigma> i))) (served_messages (\<sigma> j))"
      "length (fst (spec_serve (gw_enqueued (ex_gateway (\<sigma> i))) Map.empty (abs_of empty_book))) \<le> delivered_count (\<sigma> j)"
    using fair_delivery [OF assms(1,2) _ _ assms(5,6)] assms(3,4) by blast
  obtain k where k: "j \<le> k" "prefix (ts_frames (session_of sid (\<sigma> j))) (ts_written (session_of sid (\<sigma> k)))"
    using fair_writing [OF assms(1,2) _ _ assms(7)] assms(3,8) by blast
  have "prefix (gw_enqueued (ex_gateway (\<sigma> i))) (served_messages (\<sigma> k))"
    by (rule prefix_order.order_trans [OF j(2) run_served [OF assms(1,2) k(1)]])
  moreover have "prefix (due_frames sid (gw_enqueued (ex_gateway (\<sigma> i)))) (event_frames (session_of sid (\<sigma> j)))"
    by (rule delivered_frames [OF inv _ j(2,3)]) (simp add: assms(8))
  from prefix_order.order_trans [OF this event_frames_prefix [OF k(2)]]
  have "prefix (due_frames sid (gw_enqueued (ex_gateway (\<sigma> i))))
      (filter (\<lambda>f. f ! 3 \<noteq> mt_value mt_protocol_error) (ts_written (session_of sid (\<sigma> k))))" .
  moreover have "gw_objects (ex_gateway (\<sigma> k)) sid = Some (session_of sid (\<sigma> k))" using connectedD(1) inv assms(8) by blast
  ultimately show ?thesis using j(1) k(1) by (intro exI [of _ k]) auto
qed

theorem fair_exchange_answers_witness:
  "\<exists>\<sigma> m j s. exchange_reachable (Some (True, 100)) (\<sigma> 0) \<and> run_of exchange_step \<sigma> \<and> gw_enqueued (ex_gateway (\<sigma> 0)) = [m] \<and>
     served_messages (\<sigma> 0) = [] \<and> prefix [m] (served_messages (\<sigma> j)) \<and> gw_objects (ex_gateway (\<sigma> j)) 1 = Some s \<and>
     prefix (map wire_frame (spec_response Map.empty 1 (im_command first_order) (abs_of empty_book)))
       (filter (\<lambda>f. f ! 3 \<noteq> mt_value mt_protocol_error) (ts_written s))"
proof (rule first_order_received)
  fix x m s
  assume x: "exchange_reachable (Some (True, 100)) x" "serves x" "gw_enqueued (ex_gateway x) = [m]" "im_command m = im_command first_order"
    "im_session_id m = 1" "inbound_contents (ex_engine x) = [m]" "gw_sessions (ex_gateway x) = [1]" "gw_objects (ex_gateway x) 1 = Some s"
    "ts_open s" "\<not> ts_close_after_write s" "levels_ok (inbound_contents (ex_engine x)) (abs_of (en_book (ex_engine x)))"
  have k: "keeps_serving (Some (True, 100)) 1 x"
    using x by (simp add: keeps_serving_def within_levels_def connected_def session_of_def)
  obtain \<sigma> where \<sigma>: "\<sigma> 0 = x" "run_of exchange_step \<sigma>" "\<forall>i. keeps_serving (Some (True, 100)) 1 (\<sigma> i)"
      "weakly_fair engine_turn \<sigma>" "weakly_fair poll_turn \<sigma>" "weakly_fair (write_turn 1) \<sigma>"
    by (rule fair_run_exists [OF k])
  have "due_frames 1 [m] = map wire_frame (spec_response Map.empty 1 (im_command first_order) (abs_of empty_book))"
    using x(4,5) first_order_answer by (simp add: due_frames_def Let_def case_prod_unfold)
  moreover have "served_messages x = []" using x(3,6) by (simp add: served_messages_def)
  moreover from fair_exchange_answers [of "Some (True, 100)" \<sigma> 1 0] obtain j t where
      "prefix [m] (served_messages (\<sigma> j))" "gw_objects (ex_gateway (\<sigma> j)) 1 = Some t"
      "prefix (due_frames 1 [m]) (filter (\<lambda>f. f ! 3 \<noteq> mt_value mt_protocol_error) (ts_written t))"
    using \<sigma> x(1,3) unfolding keeps_serving_def by auto
  ultimately show ?thesis using \<sigma>(1,2) x(1,3)
    by (intro exI [of _ \<sigma>] exI [of _ m] exI [of _ j] exI [of _ t]) simp
qed

end
