(* ===== verification/Fair_Log.thy ===== *)
theory Fair_Log
  imports Fair_Exchange
begin

text \<open>
  The recorder under fair scheduling: as long as the log's device takes what is written and the
  capture queue does not overflow, the record of every accepted command is written to the log's stream,
  in the order in which the command was enqueued, and what has reached the file meanwhile is a log of
  the first accepted commands, cut at some byte, from which they can be replayed.
\<close>

section \<open>The recorder's turn\<close>

inductive recorder_turn :: "exchange \<Rightarrow> exchange \<Rightarrow> bool" where
  "ex_event_log_writer x = Some w \<Longrightarrow> lw_good w \<Longrightarrow> en_event_capture_feed (ex_engine x) = Some f \<Longrightarrow>
   drain_event_capture_one (\<lambda>c. c) (ecf_queue f) (w\<lparr>lw_spills := spills\<rparr>) = Some (ok, q, w') \<Longrightarrow>
   recorder_turn x (x\<lparr>ex_engine := (ex_engine x)\<lparr>en_event_capture_feed := Some (f\<lparr>ecf_queue := q\<rparr>)\<rparr>, ex_event_log_writer := Some w'\<rparr>)"

lemma recorder_turn_step: "recorder_turn x x' \<Longrightarrow> exchange_step x x'"
  by (induction rule: recorder_turn.induct) (rule exchange_step.recorder)

text \<open>The log is intact so far: nothing was dropped and the stream is good.\<close>

definition logging :: "exchange \<Rightarrow> bool" where
  "logging x \<longleftrightarrow> length (gw_enqueued (ex_gateway x)) < 2 ^ 64 \<and>
     (case (ex_event_log_writer x, en_event_capture_feed (ex_engine x)) of
        (Some w, Some f) \<Rightarrow> lw_good w \<and> ecf_dropped_commands f = 0 | _ \<Rightarrow> False)"

definition log_file :: "exchange \<Rightarrow> bytes" where
  "log_file x = (case ex_event_log_writer x of Some w \<Rightarrow> lw_file w | None \<Rightarrow> [])"

definition log_stream :: "exchange \<Rightarrow> bytes" where
  "log_stream x = (case ex_event_log_writer x of Some w \<Rightarrow> written w | None \<Rightarrow> [])"

abbreviation accepted_commands :: "exchange \<Rightarrow> command list" where
  "accepted_commands x \<equiv> spec_accepted (served_messages x) (abs_of empty_book)"

lemma loggingE:
  assumes "exchange_log x" and "logging x"
  obtains w f drained where "ex_event_log_writer x = Some w" "lw_good w" "en_event_capture_feed (ex_engine x) = Some f"
    "ring_inv message_capacity (ecf_queue f)" "written w = log_bytes drained" "accepted_commands x = drained @ captured f"
    "list_all loggable (accepted_commands x)"
    "run book_op (accepted_commands x) empty_book = Some (replicate (length (accepted_commands x)) True, en_book (ex_engine x))"
proof -
  obtain w f where wf: "ex_event_log_writer x = Some w" "lw_good w" "en_event_capture_feed (ex_engine x) = Some f" "ecf_dropped_commands f = 0"
    using assms(2) by (auto simp: logging_def split: option.splits)
  have inv: "recorder_inv (ex_engine x) w (accepted_commands x)"
    using recorded_inv assms(1) wf(1) by (simp add: exchange_log_def)
  obtain drained d where acc: "capture_account f w (accepted_commands x) drained d" using inv wf(3) by (auto simp: recorder_inv_def)
  have "d \<le> length (accepted_commands x)" using acc by (simp add: capture_account_def)
  also have "\<dots> \<le> length (gw_enqueued (ex_gateway x))"
    using spec_accepted_length [of "served_messages x" "abs_of empty_book"] by (simp add: served_messages_def)
  finally have "d < 2 ^ 64" using assms(2) by (simp add: logging_def)
  then have "d = 0" using acc wf(4) by (simp add: capture_account_def of_nat_eq_0_word_iff)
  then show thesis using that [of w f drained] wf acc inv by (simp add: capture_account_def recorder_inv_def)
qed

lemma drain_one_effect:
  assumes "ring_inv message_capacity (ecf_queue f)" and "list_all loggable (captured f)"
    and d: "drain_event_capture_one (\<lambda>c. c) (ecf_queue f) w = Some (ok, q, w')"
  shows "case captured f of [] \<Rightarrow> w' = w | c # rest \<Rightarrow> lw_good w' \<longrightarrow> written w' = written w @ record_bytes c"
proof -
  obtain out q1 where pop: "try_pop message_capacity (\<lambda>c. c) (ecf_queue f) = (out, q1)" by fastforce
  note law = message_ring.fifo.pop_law [OF assms(1) pop]
  show ?thesis
  proof (cases "captured f")
    case Nil
    then show ?thesis using law d by (simp add: drain_event_capture_one_def pop)
  next
    case (Cons c rest)
    then have "append_record c w = Some (ok, w')" using law d by (auto simp: drain_event_capture_one_def pop bind_ub_eq_Some)
    then show ?thesis using append_record_written(1) [of c w ok w'] assms(2) Cons by simp
  qed
qed

section \<open>The recorder as a fair worker\<close>

lemma spec_accepted_append: "prefix (spec_accepted xs a) (spec_accepted (xs @ ys) a)"
  by (induction xs arbitrary: a) (auto simp: Let_def split: prod.splits)

lemma log_bytes_prefix: "prefix cs ds \<Longrightarrow> prefix (log_bytes cs) (log_bytes ds)"
  by (auto simp: prefix_def log_bytes_def)

lemma spec_accepted_prefix: "prefix xs ys \<Longrightarrow> prefix (spec_accepted xs a) (spec_accepted ys a)"
  using spec_accepted_append by (auto simp: prefix_def [of xs])

lemma accepted_prefix: "prefix xs ys \<Longrightarrow> prefix (log_bytes (spec_accepted xs a)) (log_bytes (spec_accepted ys a))"
  by (intro log_bytes_prefix spec_accepted_prefix)

lemma record_bytes_nonempty: "record_bytes c \<noteq> []"
  by (simp add: record_bytes_def record_header_def)

lemma step_log:
  assumes "exchange_step x x'" and "exchange_log x" and "logging x" and "logging x'"
  shows "prefix (log_stream x) (log_stream x')"
  using assms(1)
proof cases
  case (recorder w f spills ok q w')
  obtain w1 f1 drained where l: "ex_event_log_writer x = Some w1" "en_event_capture_feed (ex_engine x) = Some f1"
      "ring_inv message_capacity (ecf_queue f1)" "accepted_commands x = drained @ captured f1" "list_all loggable (accepted_commands x)"
    using loggingE [OF assms(2,3)] by metis
  have [simp]: "w1 = w" "f1 = f" using l(1,2) recorder(2,4) by simp_all
  have "lw_good w'" using assms(4) recorder(1) by (simp add: logging_def)
  have logs: "list_all loggable (captured f)" "ring_inv message_capacity (ecf_queue f)" using l(3-5) by simp_all
  show ?thesis using drain_one_effect [OF logs(2,1) recorder(5)] \<open>lw_good w'\<close> recorder(1,2)
    by (cases "captured f") (auto simp: log_stream_def)
qed (simp_all add: log_stream_def with_gateway_def)

lemma recorder_turn_possible:
  assumes "exchange_log x" and "logging x"
  shows "\<exists>x'. recorder_turn x x'"
proof -
  obtain w f drained where l: "ex_event_log_writer x = Some w" "lw_good w" "en_event_capture_feed (ex_engine x) = Some f"
      "ring_inv message_capacity (ecf_queue f)" "accepted_commands x = drained @ captured f" "list_all loggable (accepted_commands x)"
    using loggingE [OF assms] by metis
  then obtain ok q w' where "drain_event_capture_one (\<lambda>c. c) (ecf_queue f) (w\<lparr>lw_spills := []\<rparr>) = Some (ok, q, w')"
    using drain_one_defined [OF l(4)] by fastforce
  then show ?thesis using recorder_turn.intros [OF l(1,2,3)] by blast
qed

lemma recorder_turn_progress:
  assumes "exchange_log x" and "logging x" and "logging x'" and turn: "recorder_turn x x'"
    and behind: "length (log_stream x) < length (log_bytes (accepted_commands x))"
  shows "length (log_stream x) < length (log_stream x')"
  using turn
proof cases
  case (1 w f spills ok q w')
  obtain w1 f1 drained where l: "ex_event_log_writer x = Some w1" "en_event_capture_feed (ex_engine x) = Some f1"
      "ring_inv message_capacity (ecf_queue f1)" "written w1 = log_bytes drained" "accepted_commands x = drained @ captured f1"
      "list_all loggable (accepted_commands x)"
    using loggingE [OF assms(1,2)] by metis
  have [simp]: "w1 = w" "f1 = f" using l(1,2) 1(2,4) by simp_all
  have "captured f \<noteq> []" using behind l(1,4,5) by (auto simp: log_stream_def)
  moreover have "lw_good w'" using assms(3) 1(1) by (simp add: logging_def)
  moreover have logs: "list_all loggable (captured f)" "ring_inv message_capacity (ecf_queue f)" using l(3,5,6) by simp_all
  ultimately show ?thesis using drain_one_effect [OF logs(2,1) 1(5)] 1(1,2) record_bytes_nonempty
    by (cases "captured f") (auto simp: log_stream_def)
qed

lemma step_accepted:
  "exchange_step x x' \<Longrightarrow> exchange_inv x \<Longrightarrow> prefix (log_bytes (accepted_commands x)) (log_bytes (accepted_commands x'))"
  by (rule accepted_prefix [OF served_prefix [OF step_streams(1,2)]])

interpretation recording: fair_worker exchange_step "\<lambda>x. exchange_inv x \<and> exchange_log x \<and> logging x" recorder_turn
  "\<lambda>x. length (log_stream x)" "\<lambda>x. length (log_bytes (accepted_commands x))"
proof
  show "length (log_stream x) \<le> length (log_stream x') \<and> length (log_bytes (accepted_commands x)) \<le> length (log_bytes (accepted_commands x'))"
    if "exchange_inv x \<and> exchange_log x \<and> logging x" "exchange_inv x' \<and> exchange_log x' \<and> logging x'" "exchange_step x x'" for x x'
    using that step_log [OF that(3)] step_accepted [OF that(3)] by (auto intro: prefix_length_le)
qed (use recorder_turn_possible recorder_turn_progress in blast)+

section \<open>Replay of a log in the making\<close>

text \<open>What the stream holds is a log of the first accepted commands; flushed, it replays completely.\<close>

lemma intact_log:
  assumes "exchange_log x" and "logging x"
  obtains w cs where "ex_event_log_writer x = Some w" "prefix cs (accepted_commands x)" "written w = log_bytes cs"
    "\<And>w'. log_flush w = (True, w') \<Longrightarrow> \<exists>digest. replay_event_log (Some (lw_file w')) =
       Some \<lparr>rp_error = None, rp_replayed_commands = of_nat (length cs), rp_state_digest = digest\<rparr>"
proof -
  obtain w f drained where l: "ex_event_log_writer x = Some w" "written w = log_bytes drained" "accepted_commands x = drained @ captured f"
      "list_all loggable (accepted_commands x)"
      "run book_op (accepted_commands x) empty_book = Some (replicate (length (accepted_commands x)) True, en_book (ex_engine x))"
    using loggingE [OF assms] by metis
  obtain rs b qs where b: "run book_op drained empty_book = Some (rs, b)" "rs @ qs = replicate (length (accepted_commands x)) True"
    using l(5) by (auto simp: l(3) run_append bind_ub_eq_Some)
  have "set (rs @ qs) \<subseteq> {True}" unfolding b(2) by auto
  then have rs: "list_all (\<lambda>a. a) rs" by (auto simp: list_all_iff)
  have logs: "list_all loggable drained" using l(3,4) by simp
  have "lw_file w' = log_bytes drained" if "log_flush w = (True, w')" for w'
    using log_flush_complete(2) [of w] log_flush_written(2) [of w] that l(2) by simp
  then show thesis using that [OF l(1) _ l(2)] replay_log_end [OF logs b(1) rs] l(3) by auto
qed

text \<open>What has reached the file replays to a book of the first accepted commands, wherever it is cut.\<close>

lemma cut_log_replays:
  assumes "exchange_log x" and "logging x"
  shows "\<exists>n b digest error. n \<le> length (accepted_commands x) \<and>
    run book_op (take n (accepted_commands x)) empty_book = Some (replicate n True, b) \<and> state_digest b = Some digest \<and>
    error \<in> {None, Some Truncated_header, Some Truncated_payload} \<and>
    replay_event_log (Some (log_file x)) = Some \<lparr>rp_error = error, rp_replayed_commands = of_nat n, rp_state_digest = digest\<rparr>"
proof -
  obtain w f drained where l: "ex_event_log_writer x = Some w" "written w = log_bytes drained" "accepted_commands x = drained @ captured f"
      "list_all loggable (accepted_commands x)"
      "run book_op (accepted_commands x) empty_book = Some (replicate (length (accepted_commands x)) True, en_book (ex_engine x))"
    using loggingE [OF assms] by metis
  have "prefix (lw_file w) (log_bytes drained)" unfolding l(2) [symmetric] by (simp add: written_def)
  then have cut: "prefix (lw_file w) (log_bytes (accepted_commands x))" using l(3) by (simp add: log_bytes_def)
  have all: "list_all (\<lambda>a. a) (replicate (length (accepted_commands x)) True)" by (simp add: list_all_iff)
  obtain n b error where n: "n \<le> length (accepted_commands x)"
      "run book_op (take n (accepted_commands x)) empty_book = Some (replicate n True, b)"
      "error \<in> {None, Some Truncated_header, Some Truncated_payload}"
      "replay_event_log (Some (lw_file w)) = Some \<lparr>rp_error = error, rp_replayed_commands = of_nat n, rp_state_digest = spec_digest (abs_of b)\<rparr>"
    using replay_prefix [OF l(4,5) all cut] by blast
  have "list_all loggable (take n (accepted_commands x))" using l(4) by (auto simp: list_all_iff dest: in_set_takeD)
  then have "state_digest b = Some (spec_digest (abs_of b))" by (intro state_digest_book replayed_book_inv [OF _ n(2)])
  then show ?thesis using n l(1) unfolding log_file_def by (intro exI [of _ n] exI [of _ b] exI conjI) auto
qed

text \<open>Records are not empty: a log that is at least as long as a prefix of it contains that prefix.\<close>

lemma log_bytes_covers:
  assumes "prefix cs es" and "prefix ds es" and "length (log_bytes ds) \<le> length (log_bytes cs)"
  shows "prefix ds cs"
proof (rule ccontr)
  assume not: "\<not> prefix ds cs"
  then obtain c rest where "ds = cs @ c # rest" using prefix_same_cases [OF assms(1,2)] by (auto simp: prefix_def neq_Nil_conv)
  then show False using assms(3) record_bytes_nonempty [of c] by (simp add: log_bytes_def)
qed

section \<open>A fair run of the recorder\<close>

text \<open>The engine and the recorder alternate when everything has been processed and recorded.\<close>

definition all_recorded :: "exchange \<Rightarrow> bool" where
  "all_recorded x \<longleftrightarrow> exchange_reachable (Some (True, 100)) x \<and> serves x \<and> logging x \<and> inbound_contents (ex_engine x) = [] \<and>
     (\<exists>f. en_event_capture_feed (ex_engine x) = Some f \<and> captured f = [])"

definition alternate :: "nat \<Rightarrow> exchange \<Rightarrow> exchange \<Rightarrow> bool" where
  "alternate n x x' \<longleftrightarrow> (if n mod 2 = 0 then engine_turn x x' else recorder_turn x x')"

lemma alternate_possible: "all_recorded x \<Longrightarrow> \<exists>x'. alternate n x x'"
  using engine_turn_possible [OF exchange_reachable_inv, of "Some (True, 100)" x] recorder_turn_possible [OF exchange_reachable_log, of "Some (True, 100)" x]
  by (cases "n mod 2 = 0") (auto simp: alternate_def all_recorded_def within_levels_def)

lemma alternate_step: "alternate n x x' \<Longrightarrow> exchange_step x x'"
  using turns_are_steps(1) recorder_turn_step by (auto simp: alternate_def split: if_splits)

lemma engine_idles:
  assumes "all_recorded x" and turn: "engine_turn x x'"
  shows "all_recorded x'"
  using turn
proof cases
  case (1 e turns now busy e')
  note a = assms(1) [unfolded all_recorded_def]
  have "engine_inv e" unfolding 1(2)
    by (rule engine_inv_step [OF engine_step.schedule engine_reachable_inv [OF exchange_invD(1) [OF exchange_reachable_inv]]]) (use a in blast)
  then have "inbound_contents e' = []" "en_event_capture_feed e' = en_event_capture_feed (ex_engine x)"
    using process_one_idle [of e now] 1(2,5) a by auto
  moreover have "exchange_reachable (Some (True, 100)) x'" using exchange_reachable.step [OF _ turns_are_steps(1) [OF turn]] a by blast
  ultimately show ?thesis using a 1(1) by (simp add: all_recorded_def serves_def logging_def)
qed

lemma recorder_idles:
  assumes "all_recorded x" and turn: "recorder_turn x x'"
  shows "all_recorded x'"
  using turn
proof cases
  case (1 w f spills ok q w')
  note a = assms(1) [unfolded all_recorded_def]
  obtain w1 f1 where l: "en_event_capture_feed (ex_engine x) = Some f1" "ring_inv message_capacity (ecf_queue f1)"
    using loggingE [of x] exchange_reachable_log a by metis
  obtain out q1 where pop: "try_pop message_capacity (\<lambda>c. c) (ecf_queue f) = (out, q1)" by fastforce
  have "captured f = []" "ring_inv message_capacity (ecf_queue f)" using a 1(4) l by auto
  then have "w' = w\<lparr>lw_spills := spills\<rparr>" "ring_contents message_capacity q = []"
    using message_ring.fifo.pop_law [OF _ pop] 1(5) by (auto simp: drain_event_capture_one_def pop)
  moreover have "exchange_reachable (Some (True, 100)) x'" using exchange_reachable.step [OF _ recorder_turn_step [OF turn]] a by blast
  ultimately show ?thesis using a 1(1-4) by (simp add: all_recorded_def serves_def logging_def)
qed

lemma alternating_run:
  assumes "all_recorded x"
  obtains \<sigma> where "\<sigma> 0 = x" "run_of exchange_step \<sigma>" "\<forall>i. all_recorded (\<sigma> i)" "weakly_fair engine_turn \<sigma>" "weakly_fair recorder_turn \<sigma>"
proof -
  have kept: "all_recorded z" if "all_recorded y" "alternate n y z" for n y z
    using that engine_idles [OF that(1), of z] recorder_idles [OF that(1), of z] by (cases "n mod 2 = 0") (simp_all add: alternate_def)
  obtain \<sigma> where \<sigma>: "\<sigma> 0 = x" "\<forall>n. all_recorded (\<sigma> n)" "\<forall>n. alternate n (\<sigma> n) (\<sigma> (Suc n))"
    by (rule scheduled_run [where P = all_recorded and turn = alternate, OF assms alternate_possible kept])
  have "weakly_fair engine_turn \<sigma>" "weakly_fair recorder_turn \<sigma>"
    by (rule weakly_fair_periodic [of 0 2] weakly_fair_periodic [of 1 2]; use spec [OF \<sigma>(3)] in \<open>simp add: alternate_def\<close>)+
  moreover have "run_of exchange_step \<sigma>" using \<sigma>(3) alternate_step unfolding run_of_def by blast
  ultimately show thesis using that \<sigma>(1,2) by blast
qed

section \<open>Properties\<close>

text \<open>
  Claim C7. A fair exchange records, and its log can be replayed at any moment. Take any infinite run of
  an exchange with a log that is not stopped, in which the engine's and the recorder's thread are weakly
  fair, no level reaches \<open>2 ^ 64\<close> units, the log's device takes what is written, and no captured command
  is dropped; the log's stream passes its buffer on to the file whenever it likes. First, at every moment
  the replay tool, run on what has reached the file, ends with success or reports a truncated last
  record, and replays exactly the first \<open>n\<close> accepted commands for some \<open>n\<close>, with the digest of their
  book. Second, whatever commands the gateway has enqueued at some moment, later there is a moment at
  which what was written to the stream, in the file or still buffered, consists of complete records of
  accepted commands, among which, in order and from the start, are all those of the enqueued commands
  that the specification accepts; and a flush of the stream, if it succeeds, leaves a file that replays
  to its end without an error.
\<close>

theorem fair_exchange_records:
  assumes "exchange_reachable log (\<sigma> 0)" and "run_of exchange_step \<sigma>" and "\<forall>i. serves (\<sigma> i)" and "\<forall>i. within_levels (\<sigma> i)"
    and "weakly_fair engine_turn \<sigma>" and "weakly_fair recorder_turn \<sigma>" and "\<forall>i. logging (\<sigma> i)"
  shows "(\<forall>k. \<exists>n b digest error. n \<le> length (accepted_commands (\<sigma> k)) \<and>
      run book_op (take n (accepted_commands (\<sigma> k))) empty_book = Some (replicate n True, b) \<and> state_digest b = Some digest \<and>
      error \<in> {None, Some Truncated_header, Some Truncated_payload} \<and>
      replay_event_log (Some (log_file (\<sigma> k))) = Some \<lparr>rp_error = error, rp_replayed_commands = of_nat n, rp_state_digest = digest\<rparr>) \<and>
    (\<exists>j \<ge> i. \<exists>w cs. ex_event_log_writer (\<sigma> j) = Some w \<and> lw_file w @ lw_buffer w = log_bytes cs \<and>
      prefix (spec_accepted (gw_enqueued (ex_gateway (\<sigma> i))) (abs_of empty_book)) cs \<and>
      (\<forall>w'. log_flush w = (True, w') \<longrightarrow> (\<exists>digest. replay_event_log (Some (lw_file w')) =
        Some \<lparr>rp_error = None, rp_replayed_commands = of_nat (length cs), rp_state_digest = digest\<rparr>)))"
proof
  have r: "exchange_reachable log (\<sigma> i)" for i by (rule run_reachable [OF assms(1,2)])
  show "\<forall>k. \<exists>n b digest error. n \<le> length (accepted_commands (\<sigma> k)) \<and>
      run book_op (take n (accepted_commands (\<sigma> k))) empty_book = Some (replicate n True, b) \<and> state_digest b = Some digest \<and>
      error \<in> {None, Some Truncated_header, Some Truncated_payload} \<and>
      replay_event_log (Some (log_file (\<sigma> k))) = Some \<lparr>rp_error = error, rp_replayed_commands = of_nat n, rp_state_digest = digest\<rparr>"
    using cut_log_replays [OF exchange_reachable_log [OF r]] assms(7) by (intro allI) (elim allE)
  obtain j where j: "i \<le> j" "prefix (gw_enqueued (ex_gateway (\<sigma> i))) (served_messages (\<sigma> j))"
    using fair_processing [OF assms(1,2) _ _ assms(5)] assms(3,4) by blast
  obtain k where k: "j \<le> k" "length (log_bytes (accepted_commands (\<sigma> j))) \<le> length (log_stream (\<sigma> k))"
    using recording.catches_up [OF assms(2) _ assms(6) le_refl] exchange_reachable_inv [OF r] exchange_reachable_log [OF r] assms(7) by blast
  obtain w cs where cs: "ex_event_log_writer (\<sigma> k) = Some w" "prefix cs (accepted_commands (\<sigma> k))" "written w = log_bytes cs"
      "\<And>w'. log_flush w = (True, w') \<Longrightarrow> \<exists>digest. replay_event_log (Some (lw_file w')) =
         Some \<lparr>rp_error = None, rp_replayed_commands = of_nat (length cs), rp_state_digest = digest\<rparr>"
    by (rule intact_log [OF exchange_reachable_log [OF r], of k]) (use assms(7) in blast)+
  let ?ds = "spec_accepted (gw_enqueued (ex_gateway (\<sigma> i))) (abs_of empty_book)"
  have acc: "prefix ?ds (accepted_commands (\<sigma> j))" "prefix (accepted_commands (\<sigma> j)) (accepted_commands (\<sigma> k))"
    by (intro spec_accepted_prefix j(2) run_served [OF assms(1,2) k(1)])+
  have "length (log_bytes ?ds) \<le> length (log_bytes cs)"
    using prefix_length_le [OF log_bytes_prefix [OF acc(1)]] k(2) cs(1,3) by (simp add: log_stream_def)
  with log_bytes_covers [OF cs(2) prefix_order.order_trans [OF acc]] have "prefix ?ds cs" .
  then show "\<exists>j \<ge> i. \<exists>w cs. ex_event_log_writer (\<sigma> j) = Some w \<and> lw_file w @ lw_buffer w = log_bytes cs \<and>
      prefix ?ds cs \<and> (\<forall>w'. log_flush w = (True, w') \<longrightarrow> (\<exists>digest. replay_event_log (Some (lw_file w')) =
        Some \<lparr>rp_error = None, rp_replayed_commands = of_nat (length cs), rp_state_digest = digest\<rparr>))"
    using cs(1,4) cs(3) [unfolded written_def] j(1) k(1) by (intro exI [of _ k] conjI exI [of _ w] exI [of _ cs]) auto
qed

theorem fair_exchange_records_witness:
  "\<exists>\<sigma> j w cs. exchange_reachable (Some (True, 100)) (\<sigma> 0) \<and> run_of exchange_step \<sigma> \<and> ex_event_log_writer (\<sigma> j) = Some w \<and>
     lw_file w @ lw_buffer w = log_bytes cs \<and> prefix [im_command first_order] cs"
proof (rule first_order_processed)
  let ?c = "im_command first_order" and ?f = "make_capture_feed (empty_ring message_capacity Monostate)"
  fix x m
  assume x: "exchange_reachable (Some (True, 100)) x" "served_messages x = [m]" "gw_enqueued (ex_gateway x) = [m]" "im_command m = ?c"
    "ex_event_log_writer x = Some (make_log_writer True 100)" "en_event_capture_feed (ex_engine x) = Some (capture ?c ?f)" "serves x"
  let ?w = "(make_log_writer True 100)\<lparr>lw_spills := [3, 9]\<rparr>"
  have c: "ring_inv message_capacity (ecf_queue (capture ?c ?f))" "captured (capture ?c ?f) = [?c]" "ecf_dropped_commands (capture ?c ?f) = 0"
    using capture_queue [of ?f ?c] by (simp_all add: make_capture_feed_def ring_inv_empty)
  have room: "room_for (length (record_bytes ?c)) ?w" using first_order_facts(4) by simp
  obtain q w' where d: "drain_event_capture_one (\<lambda>c. c) (ecf_queue (capture ?c ?f)) ?w = Some (True, q, w')" "lw_good w'"
      "ring_contents message_capacity q = []"
    using single_record_taken [OF c(1,2) first_order_facts(1) room] by (auto simp: room_for_def)
  have good: "lw_good (make_log_writer True 100)" by (simp add: make_log_writer_def)
  define y where "y = x\<lparr>ex_engine := (ex_engine x)\<lparr>en_event_capture_feed := Some ((capture ?c ?f)\<lparr>ecf_queue := q\<rparr>)\<rparr>,
    ex_event_log_writer := Some w'\<rparr>"
  have "exchange_reachable (Some (True, 100)) y" unfolding y_def
    by (rule exchange_reachable.step [OF x(1) exchange_step.recorder [OF x(5) good x(6) d(1)]])
  moreover have "inbound_contents (ex_engine x) = []" using exchange_inv_served(1) [OF exchange_reachable_inv [OF x(1)]] x(2,3) by simp
  ultimately have y: "all_recorded y" "gw_enqueued (ex_gateway y) = [m]"
    using x(3,7) c(3) d(2,3) by (simp_all add: all_recorded_def serves_def logging_def y_def)
  obtain \<sigma> where \<sigma>: "\<sigma> 0 = y" "run_of exchange_step \<sigma>" "\<forall>i. all_recorded (\<sigma> i)" "weakly_fair engine_turn \<sigma>" "weakly_fair recorder_turn \<sigma>"
    by (rule alternating_run [OF y(1)])
  have "spec_accepted [m] (abs_of empty_book) = [?c]" using x(4) first_order_facts(3) by (simp add: Let_def case_prod_unfold)
  moreover have "\<forall>i. serves (\<sigma> i)" "\<forall>i. within_levels (\<sigma> i)" "\<forall>i. logging (\<sigma> i)" "exchange_reachable (Some (True, 100)) (\<sigma> 0)"
    using \<sigma>(3) by (auto simp: all_recorded_def within_levels_def)
  ultimately show ?thesis using fair_exchange_records [of "Some (True, 100)" \<sigma> 0] \<sigma>(1,2,4,5) y(2) by auto
qed

end
