(* ===== verification/Reference_Book.thy ===== *)
theory Reference_Book
  imports Order_Book_Properties "HOL-Library.Multiset"
begin

text \<open>
  The naive order book of \<open>tests/reference_order_book.hpp\<close>, the oracle of the differential tests: one
  vector of resting orders in order of arrival, searched from end to end for the best contra order.
  It implements the same specification as \<open>OrderBook\<close> as long as sequence numbers do not decrease:
  the abstraction of its vector sorts each side by price, stably.
\<close>

section \<open>State and operations\<close>

record resting_ref_order =
  rf_order_id :: order_id
  rf_sequence :: sequence_number
  rf_side :: side
  rf_price :: price
  rf_remaining_quantity :: quantity

record reference_order_book =
  rb_resting_orders :: "resting_ref_order list"
  rb_seen_order_ids :: "order_id list"

definition empty_reference_book :: reference_order_book where
  "empty_reference_book = \<lparr>rb_resting_orders = [], rb_seen_order_ids = []\<rparr>"

text \<open>The candidates that the scan passes over, and when a candidate replaces the best so far.\<close>

definition ref_skips :: "side \<Rightarrow> order_type \<Rightarrow> price option \<Rightarrow> resting_ref_order \<Rightarrow> bool ub" where
  "ref_skips side type limit_price candidate =
     (if rf_side candidate = side then Some True
      else if type = Limit then do {
        lp \<leftarrow> limit_price;
        Some (case side of Buy \<Rightarrow> rf_price candidate > lp | Sell \<Rightarrow> rf_price candidate < lp)
      } else Some False)"

definition ref_precedes :: "side \<Rightarrow> resting_ref_order \<Rightarrow> resting_ref_order \<Rightarrow> bool" where
  "ref_precedes side candidate current_best =
     (case side of
        Buy \<Rightarrow> rf_price candidate < rf_price current_best \<or>
          rf_price candidate = rf_price current_best \<and> rf_sequence candidate < rf_sequence current_best
      | Sell \<Rightarrow> rf_price candidate > rf_price current_best \<or>
          rf_price candidate = rf_price current_best \<and> rf_sequence candidate < rf_sequence current_best)"

definition ref_choose :: "side \<Rightarrow> resting_ref_order list \<Rightarrow> nat \<Rightarrow> nat option \<Rightarrow> nat" where
  "ref_choose side orders i best_idx =
     (case best_idx of
        None \<Rightarrow> i
      | Some k \<Rightarrow> if ref_precedes side (orders ! i) (orders ! k) then i else k)"

function ref_best_index ::
    "side \<Rightarrow> order_type \<Rightarrow> price option \<Rightarrow> resting_ref_order list \<Rightarrow> nat \<Rightarrow> nat option \<Rightarrow> nat option ub" where
  "ref_best_index side type limit_price orders i best_idx =
     (if i < length orders then do {
        skip \<leftarrow> ref_skips side type limit_price (orders ! i);
        ref_best_index side type limit_price orders (i + 1)
          (if skip then best_idx else Some (ref_choose side orders i best_idx))
      } else Some best_idx)"
  by pat_completeness auto
termination by (relation "measure (\<lambda>(_, _, _, orders, i, _). length orders - i)") auto

declare ref_best_index.simps [simp del]

lemma ref_best_index_step:
  "i < length orders \<Longrightarrow> ref_skips side type lp (orders ! i) = Some skip \<Longrightarrow>
   ref_best_index side type lp orders i best =
     ref_best_index side type lp orders (i + 1) (if skip then best else Some (ref_choose side orders i best))"
  by (subst ref_best_index.simps) simp

lemma ref_best_index_end: "\<not> i < length orders \<Longrightarrow> ref_best_index side type lp orders i best = Some best"
  by (subst ref_best_index.simps) simp

lemma ref_best_index_bound:
  "ref_best_index side type lp orders i best = Some (Some k) \<Longrightarrow> (\<forall>j. best = Some j \<longrightarrow> j < length orders) \<Longrightarrow> k < length orders"
proof (induction side type lp orders i best rule: ref_best_index.induct)
  case (1 side type lp orders i best)
  show ?case
  proof (cases "i < length orders")
    case True
    then obtain skip where skip: "ref_skips side type lp (orders ! i) = Some skip" using "1.prems"(1)
      by (subst (asm) ref_best_index.simps) (auto split: Option.bind_splits)
    have "ref_choose side orders i best < length orders" using "1.prems"(2) True by (auto simp: ref_choose_def split: option.splits)
    then show ?thesis using "1.IH" [OF True skip] "1.prems" ref_best_index_step [OF True skip, of best] by auto
  qed (use "1.prems" in \<open>auto simp: ref_best_index_end\<close>)
qed

function ref_match ::
    "order_id \<Rightarrow> side \<Rightarrow> order_type \<Rightarrow> price option \<Rightarrow> resting_ref_order list \<Rightarrow> u64 \<Rightarrow> execution list \<Rightarrow>
     (resting_ref_order list \<times> u64 \<times> execution list) ub" where
  "ref_match inc side type limit_price orders rem exs =
     (if rem = 0 then Some (orders, rem, exs)
      else do {
        best_idx \<leftarrow> ref_best_index side type limit_price orders 0 None;
        (case best_idx of
           None \<Rightarrow> Some (orders, rem, exs)
         | Some k \<Rightarrow> do {
             let contra = orders ! k;
             let executed = min rem (units (rf_remaining_quantity contra));
             executed_quantity \<leftarrow> from_units executed;
             let exs' = exs @ [\<lparr>ex_resting_order_id = rf_order_id contra, ex_incoming_order_id = inc,
                                ex_price = rf_price contra, ex_quantity = executed_quantity\<rparr>];
             let contra_remaining = units (rf_remaining_quantity contra) - executed;
             if contra_remaining = 0
             then ref_match inc side type limit_price (take k orders @ drop (Suc k) orders) (rem - executed) exs'
             else do {
               q \<leftarrow> from_units contra_remaining;
               ref_match inc side type limit_price (orders[k := contra\<lparr>rf_remaining_quantity := q\<rparr>]) (rem - executed) exs'
             }
           })
      })"
  by pat_completeness auto
termination
proof (relation "measures [\<lambda>(_, _, _, _, orders, _, _). length orders, \<lambda>(_, _, _, _, _, rem, _). unat rem]", goal_cases)
  case (2 inc side type lp orders rem exs best k contra executed q exs' contra_remaining)
  then show ?case using ref_best_index_bound [of side type lp orders 0 None k] by auto
next
  case (3 inc side type lp orders rem exs best k contra executed q exs' contra_remaining q')
  then have "executed \<noteq> 0" "executed \<le> rem" by (auto simp: from_units_def split: if_splits)
  moreover from this have "0 < unat executed" by (simp add: unat_gt_0)
  ultimately show ?case by (simp add: unat_sub word_le_nat_alt)
qed simp

declare ref_match.simps [simp del]

definition ref_submit :: "new_order \<Rightarrow> reference_order_book \<Rightarrow> (submit_result \<times> reference_order_book) ub" where
  "ref_submit order rb =
     (if validate order \<noteq> None then
        Some (\<lparr>sr_executions = [], sr_rejection = Some Invalid_order, sr_remaining_quantity = None\<rparr>, rb)
      else if list_ex (\<lambda>i. i = no_order_id order) (rb_seen_order_ids rb) then
        Some (\<lparr>sr_executions = [], sr_rejection = Some Duplicate_order_id, sr_remaining_quantity = None\<rparr>, rb)
      else do {
        let seen = rb_seen_order_ids rb @ [no_order_id order];
        (orders, rem, exs) \<leftarrow> ref_match (no_order_id order) (no_side order) (no_type order) (no_limit_price order)
          (rb_resting_orders rb) (units (no_quantity order)) [];
        if no_type order = Limit \<and> rem > 0 then do {
          q \<leftarrow> from_units rem;
          px \<leftarrow> no_limit_price order;
          Some (\<lparr>sr_executions = exs, sr_rejection = None, sr_remaining_quantity = Some q\<rparr>,
            \<lparr>rb_resting_orders = orders @ [\<lparr>rf_order_id = no_order_id order, rf_sequence = no_sequence order,
               rf_side = no_side order, rf_price = px, rf_remaining_quantity = q\<rparr>], rb_seen_order_ids = seen\<rparr>)
        } else Some (\<lparr>sr_executions = exs, sr_rejection = None, sr_remaining_quantity = None\<rparr>,
          \<lparr>rb_resting_orders = orders, rb_seen_order_ids = seen\<rparr>)
      })"

text \<open>\<open>std::ranges::find_if\<close> as the index of the first match.\<close>

primrec find_index :: "('a \<Rightarrow> bool) \<Rightarrow> 'a list \<Rightarrow> nat option" where
  "find_index P [] = None"
| "find_index P (x # xs) = (if P x then Some 0 else map_option Suc (find_index P xs))"

definition ref_cancel :: "cancel_order \<Rightarrow> reference_order_book \<Rightarrow> cancel_result \<times> reference_order_book" where
  "ref_cancel command rb =
     (let orders = rb_resting_orders rb
      in case find_index (\<lambda>r. rf_order_id r = co_order_id command) orders of
           None \<Rightarrow> (\<lparr>cr_order_id = co_order_id command, cr_cancelled_quantity = None,
                     cr_rejection = Some Cancel_order_not_found\<rparr>, rb)
         | Some it \<Rightarrow> (\<lparr>cr_order_id = co_order_id command,
                        cr_cancelled_quantity = Some (rf_remaining_quantity (orders ! it)), cr_rejection = None\<rparr>,
                       rb\<lparr>rb_resting_orders := take it orders @ drop (Suc it) orders\<rparr>))"

definition ref_replace :: "replace_order \<Rightarrow> reference_order_book \<Rightarrow> (replace_result \<times> reference_order_book) ub" where
  "ref_replace command rb =
     (let orders = rb_resting_orders rb
      in case find_index (\<lambda>r. rf_order_id r = rpo_order_id command) orders of
           None \<Rightarrow> Some (\<lparr>rr_order_id = rpo_order_id command, rr_executions = [], rr_remaining_quantity = None,
                          rr_rejection = Some Replace_order_not_found\<rparr>, rb)
         | Some it \<Rightarrow>
             let side = rf_side (orders ! it); old_price = rf_price (orders ! it);
                 current_quantity = rf_remaining_quantity (orders ! it)
             in if rpo_new_price command = old_price \<and> units (rpo_new_quantity command) \<le> units current_quantity
                then Some (\<lparr>rr_order_id = rpo_order_id command, rr_executions = [],
                            rr_remaining_quantity = Some (rpo_new_quantity command), rr_rejection = None\<rparr>,
                           rb\<lparr>rb_resting_orders :=
                             orders[it := (orders ! it)\<lparr>rf_remaining_quantity := rpo_new_quantity command\<rparr>]\<rparr>)
                else do {
                  (orders', rem, exs) \<leftarrow> ref_match (rpo_order_id command) side Limit (Some (rpo_new_price command))
                    (take it orders @ drop (Suc it) orders) (units (rpo_new_quantity command)) [];
                  if rem > 0 then do {
                    q \<leftarrow> from_units rem;
                    Some (\<lparr>rr_order_id = rpo_order_id command, rr_executions = exs, rr_remaining_quantity = Some q,
                           rr_rejection = None\<rparr>,
                      rb\<lparr>rb_resting_orders := orders' @ [\<lparr>rf_order_id = rpo_order_id command,
                        rf_sequence = rpo_sequence command, rf_side = side, rf_price = rpo_new_price command,
                        rf_remaining_quantity = q\<rparr>]\<rparr>)
                  } else Some (\<lparr>rr_order_id = rpo_order_id command, rr_executions = exs, rr_remaining_quantity = None,
                               rr_rejection = None\<rparr>, rb\<lparr>rb_resting_orders := orders'\<rparr>)
                })"

section \<open>Abstraction\<close>

definition entry_of :: "resting_ref_order \<Rightarrow> entry" where
  "entry_of r = (rf_price r, \<lparr>ro_order_id = rf_order_id r, ro_sequence = rf_sequence r, ro_remaining_quantity = rf_remaining_quantity r\<rparr>)"

definition rank :: "side \<Rightarrow> entry \<Rightarrow> int" where
  "rank s e = (case s of Buy \<Rightarrow> - sint (ticks (fst e)) | Sell \<Rightarrow> sint (ticks (fst e)))"

definition side_list :: "side \<Rightarrow> resting_ref_order list \<Rightarrow> entry list" where
  "side_list s orders = map entry_of (filter (\<lambda>r. rf_side r = s) orders)"

definition side_view :: "side \<Rightarrow> resting_ref_order list \<Rightarrow> entry list" where
  "side_view s orders = sort_key (rank s) (side_list s orders)"

definition abs_orders :: "resting_ref_order list \<Rightarrow> order_id set \<Rightarrow> abs_book" where
  "abs_orders orders seen = \<lparr>ab_bids = side_view Buy orders, ab_asks = side_view Sell orders, ab_seen = seen\<rparr>"

definition abs_ref :: "reference_order_book \<Rightarrow> abs_book" where
  "abs_ref rb = abs_orders (rb_resting_orders rb) (set (rb_seen_order_ids rb))"

definition ref_orders_inv :: "resting_ref_order list \<Rightarrow> bool" where
  "ref_orders_inv orders \<longleftrightarrow> sorted_wrt (\<lambda>r r'. rf_sequence r \<le> rf_sequence r') orders \<and> distinct (map rf_order_id orders) \<and>
     (\<forall>r \<in> set orders. quantity_ok (rf_remaining_quantity r))"

text \<open>Stable sorting: an element in front of all that rank as high, and one behind them.\<close>

lemma sort_key_first:
  "\<forall>y \<in> set ys. f x < f y \<Longrightarrow> \<forall>z \<in> set zs. f x \<le> f z \<Longrightarrow> sort_key f (ys @ x # zs) = x # sort_key f (ys @ zs)"
  by (induction ys) (auto simp: insort_is_Cons)

lemma insort_key_split:
  "sorted (map f es) \<Longrightarrow>
   insort_key f y (takeWhile (\<lambda>e. f e \<le> f x) es @ x # dropWhile (\<lambda>e. f e \<le> f x) es) =
     takeWhile (\<lambda>e. f e \<le> f x) (insort_key f y es) @ x # dropWhile (\<lambda>e. f e \<le> f x) (insort_key f y es)"
  by (induction es) auto

lemma sort_key_snoc:
  "sort_key f (xs @ [x]) = takeWhile (\<lambda>e. f e \<le> f x) (sort_key f xs) @ x # dropWhile (\<lambda>e. f e \<le> f x) (sort_key f xs)"
  by (induction xs) (simp_all add: insort_key_split)

lemma sort_key_map_same:
  assumes "\<And>x. f (g x) = f x"
  shows "sort_key f (map g xs) = map g (sort_key f xs)"
proof (induction xs)
  case (Cons x xs)
  have "insort_key f (g x) (map g ys) = map g (insort_key f x ys)" for ys by (induction ys) (simp_all add: assms)
  then show ?case using Cons by simp
qed simp

section \<open>Matching\<close>

lemma rank_less: "rank s e < rank s e' \<longleftrightarrow> better s (fst e) (fst e')"
  by (cases s) (simp_all add: rank_def better_def less_price_def price_below_def)

lemma rank_eq: "rank s e = rank s e' \<longleftrightarrow> fst e = fst e'"
  by (cases s) (auto simp: rank_def dest: sint_eqD intro: price.expand)

lemma crosses_down:
  "spec_crosses side type lp (fst e') \<Longrightarrow> rank (opposite side) e \<le> rank (opposite side) e' \<Longrightarrow> spec_crosses side type lp (fst e)"
  by (cases side) (auto simp: spec_crosses_def rank_def less_eq_price_def price_at_most_def)

lemma ref_skips_crosses:
  "type = Limit \<longrightarrow> lp \<noteq> None \<Longrightarrow>
   ref_skips side type lp r = Some (rf_side r = side \<or> \<not> spec_crosses side type lp (fst (entry_of r)))"
  by (cases side; cases type) (auto simp: ref_skips_def spec_crosses_def entry_of_def not_le)

lemma ref_precedes_rank:
  "ref_precedes side r r' \<longleftrightarrow> rank (opposite side) (entry_of r) < rank (opposite side) (entry_of r') \<or>
     rank (opposite side) (entry_of r) = rank (opposite side) (entry_of r') \<and> rf_sequence r < rf_sequence r'"
  unfolding rank_less rank_eq by (cases side) (simp_all add: ref_precedes_def better_def entry_of_def)

text \<open>\<open>k\<close> is the first of the best-ranked orders among the candidates below \<open>i\<close>.\<close>

definition best_below :: "(resting_ref_order \<Rightarrow> bool) \<Rightarrow> side \<Rightarrow> resting_ref_order list \<Rightarrow> nat \<Rightarrow> nat option \<Rightarrow> bool" where
  "best_below cand side orders i best \<longleftrightarrow> (case best of
      None \<Rightarrow> \<forall>j < i. \<not> cand (orders ! j)
    | Some k \<Rightarrow> k < i \<and> cand (orders ! k) \<and>
        (\<forall>j < i. cand (orders ! j) \<longrightarrow>
           (j < k \<longrightarrow> rank (opposite side) (entry_of (orders ! k)) < rank (opposite side) (entry_of (orders ! j))) \<and>
           (k < j \<longrightarrow> rank (opposite side) (entry_of (orders ! k)) \<le> rank (opposite side) (entry_of (orders ! j)))))"

lemma ref_choose_best:
  assumes "best_below cand side orders i best" and "cand (orders ! i)" and "i < length orders"
    and "sorted_wrt (\<lambda>r r'. rf_sequence r \<le> rf_sequence r') orders"
  shows "best_below cand side orders (Suc i) (Some (ref_choose side orders i best))"
proof (cases best)
  case None
  then show ?thesis using assms(1,2) by (auto simp: best_below_def ref_choose_def less_Suc_eq)
next
  case (Some k)
  then have k: "k < i" "rf_sequence (orders ! k) \<le> rf_sequence (orders ! i)"
    using assms by (auto simp: best_below_def sorted_wrt_iff_nth_less)
  then have "ref_precedes side (orders ! i) (orders ! k) \<longleftrightarrow>
      rank (opposite side) (entry_of (orders ! i)) < rank (opposite side) (entry_of (orders ! k))"
    by (auto simp: ref_precedes_rank)
  then show ?thesis using assms(1,2) Some k(1)
    by (auto simp: best_below_def ref_choose_def less_Suc_eq)
qed

lemma ref_best_index_best:
  assumes "type = Limit \<longrightarrow> lp \<noteq> None" and "sorted_wrt (\<lambda>r r'. rf_sequence r \<le> rf_sequence r') orders"
    and "i \<le> length orders" and "cand = (\<lambda>r. rf_side r \<noteq> side \<and> spec_crosses side type lp (fst (entry_of r)))"
    and "best_below cand side orders i best"
  shows "\<exists>best'. ref_best_index side type lp orders i best = Some best' \<and> best_below cand side orders (length orders) best'"
  using assms
proof (induction side type lp orders i best rule: ref_best_index.induct)
  case (1 side type lp orders i best)
  show ?case
  proof (cases "i < length orders")
    case True
    let ?skip = "\<not> cand (orders ! i)"
    have skip: "ref_skips side type lp (orders ! i) = Some ?skip" using ref_skips_crosses [OF "1.prems"(1)] "1.prems"(4) by simp
    have "best_below cand side orders (i + 1) (if ?skip then best else Some (ref_choose side orders i best))"
      using ref_choose_best [OF "1.prems"(5) _ True "1.prems"(2)] "1.prems"(5)
      by (auto simp: best_below_def less_Suc_eq split: option.splits)
    with "1.IH" [OF True skip "1.prems"(1,2) _ "1.prems"(4)] True show ?thesis
      unfolding ref_best_index_step [OF True skip] by auto
  next
    case False
    then show ?thesis using "1.prems"(3,5) by (simp add: ref_best_index_end)
  qed
qed

lemma side_list_append [simp]: "side_list s (xs @ ys) = side_list s xs @ side_list s ys"
  by (simp add: side_list_def)

lemma side_list_Cons [simp]: "side_list s (r # rs) = (if rf_side r = s then [entry_of r] else []) @ side_list s rs"
  by (simp add: side_list_def)

lemma side_list_Nil [simp]: "side_list s [] = []"
  by (simp add: side_list_def)

text \<open>The order that the scan finds is the front of the contra side.\<close>

lemma best_below_front:
  assumes best: "best_below (\<lambda>r. rf_side r \<noteq> side \<and> spec_crosses side type lp (fst (entry_of r))) side orders (length orders) (Some k)"
    and r: "rf_side r = opposite side" "rf_price r = rf_price (orders ! k)"
  shows "side_view (opposite side) (take k orders @ r # drop (Suc k) orders) =
    entry_of r # side_view (opposite side) (take k orders @ drop (Suc k) orders)"
proof -
  let ?c = "opposite side" and ?e = "entry_of (orders ! k)"
  have k: "k < length orders" "spec_crosses side type lp (fst ?e)" using best by (simp_all add: best_below_def)
  have rank: "rank ?c (entry_of r) = rank ?c ?e" using r(2) by (simp add: rank_eq entry_of_def)
  have contra: "rf_side r' \<noteq> side" if "rf_side r' = ?c" for r' using that by (cases side) auto
  have far: "rank ?c ?e < rank ?c (entry_of r')" if "\<not> spec_crosses side type lp (fst (entry_of r'))" for r'
    using that crosses_down [OF k(2)] by (meson not_le)
  have before: "rank ?c ?e < rank ?c (entry_of (orders ! j))" if "j < k" "rf_side (orders ! j) = ?c" for j
    using best k(1) that contra far by (cases "spec_crosses side type lp (fst (entry_of (orders ! j)))") (auto simp: best_below_def)
  have after: "rank ?c ?e \<le> rank ?c (entry_of (orders ! j))" if "k < j" "j < length orders" "rf_side (orders ! j) = ?c" for j
    using best that contra far [of "orders ! j"]
    by (cases "spec_crosses side type lp (fst (entry_of (orders ! j)))") (auto simp: best_below_def)
  have "\<forall>y \<in> set (side_list ?c (take k orders)). rank ?c (entry_of r) < rank ?c y"
    using before k(1) by (auto simp: side_list_def rank in_set_conv_nth)
  moreover have "\<forall>z \<in> set (side_list ?c (drop (Suc k) orders)). rank ?c (entry_of r) \<le> rank ?c z"
    using after k(1) by (auto simp: side_list_def rank in_set_conv_nth)
  ultimately show ?thesis using r(1) sort_key_first [of "side_list ?c (take k orders)" "rank ?c" "entry_of r"]
    by (simp add: side_view_def)
qed

lemma best_below_none:
  assumes "best_below (\<lambda>r. rf_side r \<noteq> side \<and> spec_crosses side type lp (fst (entry_of r))) side orders (length orders) None"
  shows "spec_match (spec_crosses side type lp) inc rem (side_view (opposite side) orders) = ([], rem, side_view (opposite side) orders)"
proof (cases "side_view (opposite side) orders")
  case (Cons e es)
  then have "e \<in> set (side_list (opposite side) orders)" by (metis list.set_intros(1) set_sort side_view_def)
  then have "\<not> spec_crosses side type lp (fst e)"
    using assms by (cases side) (auto simp: best_below_def side_list_def in_set_conv_nth)
  then show ?thesis using Cons by simp
qed simp

lemma ref_orders_inv_erase:
  assumes "ref_orders_inv orders"
  shows "ref_orders_inv (take k orders @ drop (Suc k) orders)"
proof (cases "k < length orders")
  case True
  from assms have "ref_orders_inv (take k orders @ orders ! k # drop (Suc k) orders)" using id_take_nth_drop [OF True] by simp
  then show ?thesis by (auto simp: ref_orders_inv_def sorted_wrt_append)
qed (use assms in simp)

lemma ref_orders_inv_update:
  assumes "ref_orders_inv orders" and "k < length orders" and "quantity_ok q"
  shows "ref_orders_inv (orders[k := (orders ! k)\<lparr>rf_remaining_quantity := q\<rparr>])"
proof -
  let ?r = "(orders ! k)\<lparr>rf_remaining_quantity := q\<rparr>"
  have "map rf_order_id (orders[k := ?r]) = map rf_order_id orders"
    using assms(2) by (simp add: map_update list_update_same_conv)
  moreover have "map rf_sequence (orders[k := ?r]) = map rf_sequence orders"
    using assms(2) by (simp add: map_update list_update_same_conv)
  then have "sorted_wrt (\<lambda>r r'. rf_sequence r \<le> rf_sequence r') (orders[k := ?r])"
    using assms(1) unfolding ref_orders_inv_def by (metis sorted_wrt_map)
  ultimately show ?thesis using assms set_update_subset_insert [of orders k ?r] by (auto simp: ref_orders_inv_def)
qed

text \<open>What matching leaves of the vector.\<close>

definition ref_rest :: "side \<Rightarrow> resting_ref_order list \<Rightarrow> resting_ref_order list \<Rightarrow> bool" where
  "ref_rest side orders orders' \<longleftrightarrow> side_list side orders' = side_list side orders \<and> ref_orders_inv orders' \<and>
     rf_order_id ` set orders' \<subseteq> rf_order_id ` set orders \<and> rf_sequence ` set orders' \<subseteq> rf_sequence ` set orders"

lemma ref_rest_trans: "ref_rest side orders orders1 \<Longrightarrow> ref_rest side orders1 orders2 \<Longrightarrow> ref_rest side orders orders2"
  unfolding ref_rest_def by (metis (no_types, lifting) order_trans)

lemma ref_rest_erase:
  assumes "ref_orders_inv orders" and "k < length orders" and "rf_side (orders ! k) \<noteq> side"
  shows "ref_rest side orders (take k orders @ drop (Suc k) orders)"
proof -
  have "side_list side orders = side_list side (take k orders @ orders ! k # drop (Suc k) orders)"
    using id_take_nth_drop [OF assms(2)] by simp
  then show ?thesis using assms ref_orders_inv_erase [OF assms(1)]
    by (auto simp: ref_rest_def dest: in_set_takeD in_set_dropD)
qed

lemma ref_rest_update:
  assumes "ref_orders_inv orders" and k: "k < length orders" and "rf_side (orders ! k) \<noteq> side" and "quantity_ok q"
  shows "ref_rest side orders (orders[k := (orders ! k)\<lparr>rf_remaining_quantity := q\<rparr>])"
proof -
  have "side_list side orders = side_list side (take k orders @ orders ! k # drop (Suc k) orders)"
    using id_take_nth_drop [OF k] by simp
  moreover have "set (orders[k := (orders ! k)\<lparr>rf_remaining_quantity := q\<rparr>]) \<subseteq>
      insert ((orders ! k)\<lparr>rf_remaining_quantity := q\<rparr>) (set orders)" by (rule set_update_subset_insert)
  ultimately show ?thesis using assms ref_orders_inv_update [OF assms(1,2,4)]
    unfolding ref_rest_def upd_conv_take_nth_drop [OF k] by (fastforce dest: in_set_takeD in_set_dropD)
qed

lemma ref_match_zero: "ref_match inc side type lp orders 0 exs = Some (orders, 0, exs)"
  by (simp add: ref_match.simps)

lemma ref_match_found:
  assumes "ref_best_index side type lp orders 0 None = Some (Some k)" and "rem \<noteq> 0"
    and u: "u = units (rf_remaining_quantity (orders ! k))" "u \<noteq> 0"
  shows "u \<le> rem \<Longrightarrow> ref_match inc side type lp orders rem exs =
      ref_match inc side type lp (take k orders @ drop (Suc k) orders) (rem - u) (exs @ [fill inc (entry_of (orders ! k)) u])"
    "\<not> u \<le> rem \<Longrightarrow> ref_match inc side type lp orders rem exs =
      Some (orders[k := (orders ! k)\<lparr>rf_remaining_quantity := Quantity (u - rem)\<rparr>], 0, exs @ [fill inc (entry_of (orders ! k)) rem])"
proof -
  have f: "fill inc (entry_of (orders ! k)) v = \<lparr>ex_resting_order_id = rf_order_id (orders ! k), ex_incoming_order_id = inc,
      ex_price = rf_price (orders ! k), ex_quantity = Quantity v\<rparr>" for v by (simp add: entry_of_def fill_def)
  show "u \<le> rem \<Longrightarrow> ref_match inc side type lp orders rem exs =
      ref_match inc side type lp (take k orders @ drop (Suc k) orders) (rem - u) (exs @ [fill inc (entry_of (orders ! k)) u])"
    using assms by (subst ref_match.simps) (simp add: from_units_def f min_def Let_def)
  assume less: "\<not> u \<le> rem"
  then have "min rem u = rem" "u - rem \<noteq> 0" by (auto simp: min_def)
  then show "ref_match inc side type lp orders rem exs =
      Some (orders[k := (orders ! k)\<lparr>rf_remaining_quantity := Quantity (u - rem)\<rparr>], 0, exs @ [fill inc (entry_of (orders ! k)) rem])"
    using assms by (subst ref_match.simps) (simp add: from_units_def f ref_match_zero Let_def)
qed

lemma ref_match_spec:
  assumes "ref_orders_inv orders" and "type = Limit \<longrightarrow> lp \<noteq> None"
  shows "\<exists>orders' rem' xs. ref_match inc side type lp orders rem exs = Some (orders', rem', exs @ xs) \<and> ref_rest side orders orders' \<and>
    spec_match (spec_crosses side type lp) inc rem (side_view (opposite side) orders) = (xs, rem', side_view (opposite side) orders')"
  using assms
proof (induction "length orders" arbitrary: orders rem exs rule: less_induct)
  case less
  let ?cand = "\<lambda>r. rf_side r \<noteq> side \<and> spec_crosses side type lp (fst (entry_of r))" and ?c = "opposite side"
  have rest: "ref_rest side orders orders" using less.prems(1) by (simp add: ref_rest_def)
  have "best_below ?cand side orders 0 None" by (simp add: best_below_def)
  then obtain best where scan: "ref_best_index side type lp orders 0 None = Some best" "best_below ?cand side orders (length orders) best"
    using ref_best_index_best [OF less.prems(2), of orders 0 ?cand side None] less.prems(1) by (auto simp: ref_orders_inv_def)
  show ?case
  proof (cases "rem = 0 \<or> best = None")
    case True
    then show ?thesis using rest scan best_below_none by (subst ref_match.simps) auto
  next
    case False
    then obtain k where k': "best = Some k" "rem \<noteq> 0" by auto
    define r where "r = orders ! k"
    define u where "u = units (rf_remaining_quantity r)"
    let ?erased = "take k orders @ drop (Suc k) orders"
    have k: "k < length orders" "?cand r" using scan(2) k'(1) by (simp_all add: best_below_def r_def)
    have side: "rf_side r = ?c" using k(2) by (cases side; cases "rf_side r") auto
    have u: "u \<noteq> 0" using less.prems(1) k(1) by (auto simp: ref_orders_inv_def quantity_ok_def u_def r_def)
    note front = best_below_front [OF scan(2) [unfolded k'(1)], folded r_def] and
      found = ref_match_found [OF scan(1) [unfolded k'(1)] k'(2) u_def [unfolded r_def] u, folded r_def]
    have view: "side_view ?c orders = entry_of r # side_view ?c ?erased"
      using front [OF side refl] id_take_nth_drop [OF k(1)] by (simp add: r_def)
    have e: "entry_units (entry_of r) = u" by (simp add: entry_of_def u_def)
    show ?thesis
    proof (cases "u \<le> rem")
      case True
      have rest1: "ref_rest side orders ?erased" by (rule ref_rest_erase [OF less.prems(1) k(1)]) (use k(2) in \<open>simp add: r_def\<close>)
      have "length ?erased < length orders" "ref_orders_inv ?erased" using k(1) ref_orders_inv_erase [OF less.prems(1)] by simp_all
      from less.hyps [OF this less.prems(2), of "rem - u" "exs @ [fill inc (entry_of r) u]"]
      obtain orders' rem' xs where ih: "ref_match inc side type lp orders rem exs = Some (orders', rem', (exs @ [fill inc (entry_of r) u]) @ xs)"
          "ref_rest side ?erased orders'"
          "spec_match (spec_crosses side type lp) inc (rem - u) (side_view ?c ?erased) = (xs, rem', side_view ?c orders')"
        unfolding found(1) [OF True, symmetric] by blast
      have "spec_match (spec_crosses side type lp) inc rem (side_view ?c orders) = (fill inc (entry_of r) u # xs, rem', side_view ?c orders')"
        using True k'(2) k(2) e ih(3) unfolding view by simp
      then show ?thesis using ih(1) ref_rest_trans [OF rest1 ih(2)] by (intro exI conjI) (assumption | simp)+
    next
      case False
      let ?updated = "orders[k := r\<lparr>rf_remaining_quantity := Quantity (u - rem)\<rparr>]"
      have "u - rem \<noteq> 0" using False by auto
      then have "ref_rest side orders ?updated" using ref_rest_update [OF less.prems(1) k(1), folded r_def] k(2) by (simp add: quantity_ok_def)
      moreover have "side_view ?c ?updated = set_entry_quantity (Quantity (u - rem)) (entry_of r) # side_view ?c ?erased"
        using front [of "r\<lparr>rf_remaining_quantity := Quantity (u - rem)\<rparr>"] side unfolding upd_conv_take_nth_drop [OF k(1)]
        by (simp add: entry_of_def set_entry_quantity_def)
      ultimately show ?thesis using False k'(2) k(2) e view found(2) by simp
    qed
  qed
qed

section \<open>Operations on the abstraction\<close>

lemma ref_take:
  assumes "ref_orders_inv orders" and "type = Limit \<longrightarrow> lp \<noteq> None"
  shows "\<exists>orders' rem' xs. ref_match inc side type lp orders rem [] = Some (orders', rem', xs) \<and> ref_rest side orders orders' \<and>
    spec_take inc side type lp rem (abs_orders orders seen) = (xs, rem', abs_orders orders' seen)"
proof -
  obtain orders' rem' xs where m: "ref_match inc side type lp orders rem [] = Some (orders', rem', [] @ xs)" "ref_rest side orders orders'"
      "spec_match (spec_crosses side type lp) inc rem (side_view (opposite side) orders) = (xs, rem', side_view (opposite side) orders')"
    using ref_match_spec [OF assms, of inc side rem "[]"] by blast
  have "side_view side orders' = side_view side orders" using m(2) by (simp add: ref_rest_def side_view_def)
  then show ?thesis using m by (cases side) (simp_all add: spec_take_def abs_orders_def)
qed

lemma ref_push:
  assumes "rf_side r = side"
  shows "spec_rest side (entry_of r) (abs_orders orders seen) = abs_orders (orders @ [r]) seen"
proof -
  have "side_view side (orders @ [r]) = spec_insert (better side) (entry_of r) (side_view side orders)"
    using assms sort_key_snoc [of "rank side" "side_list side orders" "entry_of r"]
    by (simp add: side_view_def spec_insert_def not_less [symmetric] rank_less)
  moreover have "side_view (opposite side) (orders @ [r]) = side_view (opposite side) orders"
    using assms by (cases side) (simp_all add: side_view_def)
  ultimately show ?thesis by (cases side) (simp_all add: spec_rest_def abs_orders_def better_def)
qed

lemma ref_orders_inv_push:
  "ref_orders_inv orders \<Longrightarrow> \<forall>r' \<in> set orders. rf_sequence r' \<le> rf_sequence r \<Longrightarrow> rf_order_id r \<notin> rf_order_id ` set orders \<Longrightarrow>
   quantity_ok (rf_remaining_quantity r) \<Longrightarrow> ref_orders_inv (orders @ [r])"
  by (auto simp: ref_orders_inv_def sorted_wrt_append)

lemma find_index_None: "find_index P xs = None \<longleftrightarrow> (\<forall>x \<in> set xs. \<not> P x)"
  by (induction xs) auto

lemma find_index_Some: "find_index P xs = Some i \<Longrightarrow> i < length xs \<and> P (xs ! i)"
  by (induction xs arbitrary: i) (auto split: if_splits)

lemma find_view:
  assumes "ref_orders_inv orders" and "r \<in> set orders"
  shows "find (\<lambda>e. entry_id e = rf_order_id r) (side_view s orders) = (if rf_side r = s then Some (entry_of r) else None)"
proof -
  have same: "r' = r" if "r' \<in> set orders" "rf_order_id r' = rf_order_id r" for r'
    using assms that by (auto simp: ref_orders_inv_def distinct_map dest: inj_onD)
  have mem: "e \<in> set (side_view s orders) \<longleftrightarrow> (\<exists>r' \<in> set orders. rf_side r' = s \<and> e = entry_of r')" for e
    by (auto simp: side_view_def side_list_def)
  have id: "entry_id (entry_of r') = rf_order_id r'" for r' by (simp add: entry_of_def)
  show ?thesis
  proof (cases "find (\<lambda>e. entry_id e = rf_order_id r) (side_view s orders)")
    case None
    then have "entry_of r \<notin> set (side_view s orders)" using id [of r] by (metis (mono_tags, lifting) find_None_iff)
    then show ?thesis using assms(2) mem None by auto
  next
    case (Some e)
    then have "e \<in> set (side_view s orders)" "entry_id e = rf_order_id r" by (auto simp: find_Some_iff)
    then obtain r' where r': "r' \<in> set orders" "rf_side r' = s" "e = entry_of r'" "rf_order_id r' = rf_order_id r" using mem id by metis
    then have "rf_side r = s" "e = entry_of r" using same [OF r'(1,4)] by simp_all
    then show ?thesis using Some by simp
  qed
qed

lemma find_view_none:
  "\<forall>r \<in> set orders. rf_order_id r \<noteq> oid \<Longrightarrow> find (\<lambda>e. entry_id e = oid) (side_view s orders) = None"
  by (auto simp: find_None_iff side_view_def side_list_def entry_of_def)

lemma ref_find:
  assumes "ref_orders_inv orders"
  shows "find_index (\<lambda>r. rf_order_id r = oid) orders = None \<Longrightarrow> spec_find oid (abs_orders orders seen) = None"
    "find_index (\<lambda>r. rf_order_id r = oid) orders = Some it \<Longrightarrow>
       spec_find oid (abs_orders orders seen) = Some (rf_side (orders ! it), entry_of (orders ! it))"
proof -
  show "find_index (\<lambda>r. rf_order_id r = oid) orders = None \<Longrightarrow> spec_find oid (abs_orders orders seen) = None"
    by (simp add: spec_find_def abs_orders_def find_index_None find_view_none)
  assume "find_index (\<lambda>r. rf_order_id r = oid) orders = Some it"
  then have it: "orders ! it \<in> set orders" "rf_order_id (orders ! it) = oid" using find_index_Some by fastforce+
  then show "spec_find oid (abs_orders orders seen) = Some (rf_side (orders ! it), entry_of (orders ! it))"
    using find_view [OF assms it(1)] by (cases "rf_side (orders ! it)") (simp_all add: spec_find_def abs_orders_def)
qed

lemma ref_delete:
  assumes "ref_orders_inv orders" and "it < length orders"
  shows "spec_delete (rf_order_id (orders ! it)) (abs_orders orders seen) = abs_orders (take it orders @ drop (Suc it) orders) seen"
proof -
  let ?oid = "rf_order_id (orders ! it)"
  have "filter (\<lambda>r. rf_order_id r \<noteq> rf_order_id x) (xs @ x # ys) = xs @ ys" if "distinct (map rf_order_id (xs @ x # ys))" for xs ys x
  proof -
    have "\<forall>r \<in> set (xs @ ys). rf_order_id r \<noteq> rf_order_id x" using that by (auto simp: image_iff)
    then show ?thesis by simp
  qed
  from this [of "take it orders" "orders ! it" "drop (Suc it) orders"]
  have gone: "filter (\<lambda>r. rf_order_id r \<noteq> ?oid) orders = take it orders @ drop (Suc it) orders"
    using assms(1) unfolding id_take_nth_drop [OF assms(2), symmetric] ref_orders_inv_def by blast
  have "filter (\<lambda>e. entry_id e \<noteq> ?oid) (side_view s orders) = side_view s (filter (\<lambda>r. rf_order_id r \<noteq> ?oid) orders)" for s
    by (simp add: side_view_def filter_sort side_list_def filter_map comp_def entry_of_def conj_commute)
  then show ?thesis unfolding gone [symmetric] by (simp add: spec_delete_def abs_orders_def)
qed

lemma ref_requantify:
  assumes "ref_orders_inv orders" and "it < length orders"
  shows "spec_requantify (rf_order_id (orders ! it)) q (side_view s orders) =
    side_view s (orders[it := (orders ! it)\<lparr>rf_remaining_quantity := q\<rparr>])"
proof -
  let ?oid = "rf_order_id (orders ! it)"
  let ?g = "\<lambda>r. if rf_order_id r = ?oid then r\<lparr>rf_remaining_quantity := q\<rparr> else r"
    and ?h = "\<lambda>e. if entry_id e = ?oid then set_entry_quantity q e else e"
  have eq: "rf_order_id (orders ! j) = ?oid \<longleftrightarrow> j = it" if "j < length orders" for j
    using assms that by (auto simp: ref_orders_inv_def distinct_conv_nth)
  have "orders[it := (orders ! it)\<lparr>rf_remaining_quantity := q\<rparr>] = map ?g orders"
    by (rule nth_equalityI) (auto simp: nth_list_update eq)
  moreover have "side_list s (map ?g rs) = map ?h (side_list s rs)" for rs
    by (induction rs) (auto simp: entry_of_def set_entry_quantity_def)
  moreover have "rank s (?h e) = rank s e" for e by (cases s) (simp_all add: rank_def set_entry_quantity_def)
  ultimately show ?thesis using sort_key_map_same [of "rank s" ?h "side_list s orders"] by (simp add: side_view_def spec_requantify_def)
qed

section \<open>Refinement\<close>

text \<open>\<open>sq\<close> bounds the sequence numbers that rest in the book.\<close>

definition ref_inv :: "u64 \<Rightarrow> reference_order_book \<Rightarrow> bool" where
  "ref_inv sq rb \<longleftrightarrow> ref_orders_inv (rb_resting_orders rb) \<and>
     (\<forall>r \<in> set (rb_resting_orders rb). rf_order_id r \<in> set (rb_seen_order_ids rb) \<and> seq_value (rf_sequence r) \<le> sq)"

lemma ref_inv_mono: "ref_inv sq rb \<Longrightarrow> sq \<le> sq' \<Longrightarrow> ref_inv sq' rb"
  by (auto simp: ref_inv_def)

lemma ref_inv_rest:
  assumes "ref_inv sq rb" and "ref_rest side orders orders'" and "set orders \<subseteq> set (rb_resting_orders rb)"
  shows "ref_orders_inv orders'"
    "r \<in> set orders' \<Longrightarrow> rf_order_id r \<in> set (rb_seen_order_ids rb) \<and> seq_value (rf_sequence r) \<le> sq"
proof -
  show "ref_orders_inv orders'" using assms(2) by (simp add: ref_rest_def)
  assume "r \<in> set orders'"
  then have "rf_order_id r \<in> rf_order_id ` set orders" "rf_sequence r \<in> rf_sequence ` set orders"
    using assms(2) unfolding ref_rest_def by blast+
  then obtain r1 r2 where "r1 \<in> set orders" "rf_order_id r = rf_order_id r1" "r2 \<in> set orders" "rf_sequence r = rf_sequence r2" by blast
  then show "rf_order_id r \<in> set (rb_seen_order_ids rb) \<and> seq_value (rf_sequence r) \<le> sq"
    using assms(1,3) unfolding ref_inv_def by auto
qed

lemma ref_submit_spec:
  assumes inv: "ref_inv sq rb" and ok: "new_order_ok order" and later: "sq \<le> seq_value (no_sequence order)"
  shows "\<exists>res rb'. ref_submit order rb = Some (res, rb') \<and> ref_inv (seq_value (no_sequence order)) rb' \<and>
    spec_submit order (abs_ref rb) = (res, abs_ref rb')"
proof (cases "validate order \<noteq> None \<or> no_order_id order \<in> set (rb_seen_order_ids rb)")
  case True
  then show ?thesis using ref_inv_mono [OF inv later]
    by (auto simp: ref_submit_def spec_submit_def abs_ref_def abs_orders_def list_ex_iff)
next
  case False
  let ?orders = "rb_resting_orders rb" and ?seen = "insert (no_order_id order) (set (rb_seen_order_ids rb))"
  have lp: "no_type order = Limit \<longrightarrow> no_limit_price order \<noteq> None" using False by (auto simp: validate_def split: if_splits)
  have "ref_orders_inv ?orders" using inv by (simp add: ref_inv_def)
  from ref_take [OF this lp, of "no_order_id order" "no_side order" "units (no_quantity order)" ?seen]
  obtain orders rem xs where m: "ref_match (no_order_id order) (no_side order) (no_type order) (no_limit_price order) ?orders
        (units (no_quantity order)) [] = Some (orders, rem, xs)" "ref_rest (no_side order) ?orders orders"
      "spec_take (no_order_id order) (no_side order) (no_type order) (no_limit_price order) (units (no_quantity order))
        (abs_orders ?orders ?seen) = (xs, rem, abs_orders orders ?seen)"
    by blast
  note rest = ref_inv_rest [OF inv m(2) order_refl]
  have seen: "(abs_ref rb)\<lparr>ab_seen := insert (no_order_id order) (ab_seen (abs_ref rb))\<rparr> = abs_orders ?orders ?seen"
    "ab_seen (abs_ref rb) = set (rb_seen_order_ids rb)" by (simp_all add: abs_ref_def abs_orders_def)
  show ?thesis
  proof (cases "no_type order = Limit \<and> rem \<noteq> 0")
    case True
    then obtain px where px: "no_limit_price order = Some px" using lp by auto
    let ?r = "\<lparr>rf_order_id = no_order_id order, rf_sequence = no_sequence order, rf_side = no_side order, rf_price = px,
        rf_remaining_quantity = Quantity rem\<rparr>"
    have "ref_orders_inv (orders @ [?r])"
      by (rule ref_orders_inv_push [OF rest(1)])
        (use rest(2) later False True in \<open>force simp: less_eq_sequence_number_def quantity_ok_def\<close>)+
    then have "ref_inv (seq_value (no_sequence order)) \<lparr>rb_resting_orders = orders @ [?r], rb_seen_order_ids = rb_seen_order_ids rb @ [no_order_id order]\<rparr>"
      using rest(2) order_trans [OF _ later] by (auto simp: ref_inv_def)
    moreover have "spec_rest (no_side order) (entry_of ?r) (abs_orders orders ?seen) = abs_orders (orders @ [?r]) ?seen" by (rule ref_push) simp
    ultimately show ?thesis using False True m(1,3) px seen
      by (simp add: ref_submit_def spec_submit_def list_ex_iff from_units_def word_gt_0 abs_ref_def entry_of_def)
  next
    case no_rest: False
    have "ref_inv (seq_value (no_sequence order)) \<lparr>rb_resting_orders = orders, rb_seen_order_ids = rb_seen_order_ids rb @ [no_order_id order]\<rparr>"
      using rest order_trans [OF _ later] by (auto simp: ref_inv_def)
    then show ?thesis using False no_rest m(1,3) seen
      by (auto simp: ref_submit_def spec_submit_def list_ex_iff word_gt_0 abs_ref_def)
  qed
qed

lemma ref_cancel_spec:
  assumes inv: "ref_inv sq rb"
  shows "\<exists>res rb'. ref_cancel c rb = (res, rb') \<and> ref_inv sq rb' \<and> spec_cancel c (abs_ref rb) = (res, abs_ref rb')"
proof (cases "find_index (\<lambda>r. rf_order_id r = co_order_id c) (rb_resting_orders rb)")
  case None
  then show ?thesis using inv ref_find(1) by (auto simp: ref_cancel_def spec_cancel_def abs_ref_def ref_inv_def)
next
  case (Some it)
  let ?orders = "rb_resting_orders rb"
  have o: "ref_orders_inv ?orders" using inv by (simp add: ref_inv_def)
  have it: "it < length ?orders" "rf_order_id (?orders ! it) = co_order_id c" using find_index_Some [OF Some] by auto
  have "ref_inv sq (rb\<lparr>rb_resting_orders := take it ?orders @ drop (Suc it) ?orders\<rparr>)"
    using inv ref_orders_inv_erase [OF o] by (auto simp: ref_inv_def dest: in_set_takeD in_set_dropD)
  then show ?thesis using Some ref_find(2) [OF o Some] ref_delete [OF o it(1)] it(2)
    by (auto simp: ref_cancel_def spec_cancel_def abs_ref_def entry_of_def Let_def)
qed

lemma ref_erased_id:
  assumes "ref_orders_inv orders" and "it < length orders"
  shows "rf_order_id (orders ! it) \<notin> rf_order_id ` set (take it orders @ drop (Suc it) orders)"
proof -
  have "distinct (map rf_order_id (take it orders @ orders ! it # drop (Suc it) orders))"
    using assms id_take_nth_drop [OF assms(2)] by (simp add: ref_orders_inv_def)
  then show ?thesis by auto
qed

text \<open>The replacement that loses its place.\<close>

lemma ref_replace_requeued:
  assumes inv: "ref_inv sq rb" and later: "sq \<le> seq_value (rpo_sequence c)"
    and found: "find_index (\<lambda>r. rf_order_id r = rpo_order_id c) (rb_resting_orders rb) = Some it"
    and moved: "\<not> (rpo_new_price c = rf_price (rb_resting_orders rb ! it) \<and>
        units (rpo_new_quantity c) \<le> units (rf_remaining_quantity (rb_resting_orders rb ! it)))"
  shows "\<exists>res rb'. ref_replace c rb = Some (res, rb') \<and> ref_inv (seq_value (rpo_sequence c)) rb' \<and>
    spec_replace c (abs_ref rb) = (res, abs_ref rb')"
proof -
  let ?orders = "rb_resting_orders rb" and ?seen = "set (rb_seen_order_ids rb)"
  let ?r = "?orders ! it" and ?erased = "take it ?orders @ drop (Suc it) ?orders"
  have o: "ref_orders_inv ?orders" using inv by (simp add: ref_inv_def)
  have it: "it < length ?orders" "rf_order_id ?r = rpo_order_id c" using find_index_Some [OF found] by auto
  have spec: "spec_find (rpo_order_id c) (abs_ref rb) = Some (rf_side ?r, entry_of ?r)" unfolding abs_ref_def by (rule ref_find(2) [OF o found])
  have del: "spec_delete (rpo_order_id c) (abs_ref rb) = abs_orders ?erased ?seen" using ref_delete [OF o it(1)] it(2) by (simp add: abs_ref_def)
  have sub: "set ?erased \<subseteq> set ?orders" by (auto dest: in_set_takeD in_set_dropD)
  have seen: "rpo_order_id c \<in> ?seen" using inv it nth_mem [OF it(1)] unfolding ref_inv_def by metis
  obtain orders rem xs where m: "ref_match (rpo_order_id c) (rf_side ?r) Limit (Some (rpo_new_price c)) ?erased
        (units (rpo_new_quantity c)) [] = Some (orders, rem, xs)" "ref_rest (rf_side ?r) ?erased orders"
      "spec_take (rpo_order_id c) (rf_side ?r) Limit (Some (rpo_new_price c)) (units (rpo_new_quantity c)) (abs_orders ?erased ?seen) =
        (xs, rem, abs_orders orders ?seen)"
    using ref_take [OF ref_orders_inv_erase [OF o], of Limit "Some (rpo_new_price c)"] by blast
  note rest = ref_inv_rest [OF inv m(2) sub]
  show ?thesis
  proof (cases "rem = 0")
    case True
    have "ref_inv (seq_value (rpo_sequence c)) (rb\<lparr>rb_resting_orders := orders\<rparr>)"
      using rest order_trans [OF _ later] by (auto simp: ref_inv_def)
    then show ?thesis using True moved found spec del m(1,3)
      by (auto simp: ref_replace_def spec_replace_def Let_def entry_of_def abs_ref_def)
  next
    case False
    let ?new = "\<lparr>rf_order_id = rpo_order_id c, rf_sequence = rpo_sequence c, rf_side = rf_side ?r, rf_price = rpo_new_price c,
        rf_remaining_quantity = Quantity rem\<rparr>"
    have "rf_order_id ?new \<notin> rf_order_id ` set orders" using ref_erased_id [OF o it(1)] it(2) m(2) by (auto simp: ref_rest_def)
    then have "ref_orders_inv (orders @ [?new])"
      by (intro ref_orders_inv_push [OF rest(1)])
        (use rest(2) later False in \<open>force simp: less_eq_sequence_number_def quantity_ok_def\<close>)+
    then have "ref_inv (seq_value (rpo_sequence c)) (rb\<lparr>rb_resting_orders := orders @ [?new]\<rparr>)"
      using rest(2) order_trans [OF _ later] seen by (auto simp: ref_inv_def)
    moreover have "spec_rest (rf_side ?r) (entry_of ?new) (abs_orders orders ?seen) = abs_orders (orders @ [?new]) ?seen" by (rule ref_push) simp
    ultimately show ?thesis using False moved found spec del m(1,3)
      by (auto simp: ref_replace_def spec_replace_def Let_def entry_of_def abs_ref_def from_units_def word_gt_0)
  qed
qed

lemma ref_replace_spec:
  assumes inv: "ref_inv sq rb" and ok: "replace_order_ok c" and later: "sq \<le> seq_value (rpo_sequence c)"
  shows "\<exists>res rb'. ref_replace c rb = Some (res, rb') \<and> ref_inv (seq_value (rpo_sequence c)) rb' \<and>
    spec_replace c (abs_ref rb) = (res, abs_ref rb')"
proof (cases "find_index (\<lambda>r. rf_order_id r = rpo_order_id c) (rb_resting_orders rb)")
  case None
  then show ?thesis using ref_inv_mono [OF inv later] inv ref_find(1)
    by (auto simp: ref_replace_def spec_replace_def abs_ref_def ref_inv_def)
next
  case (Some it)
  let ?orders = "rb_resting_orders rb"
  let ?r = "?orders ! it"
  have o: "ref_orders_inv ?orders" using inv by (simp add: ref_inv_def)
  have it: "it < length ?orders" "rf_order_id ?r = rpo_order_id c" using find_index_Some [OF Some] by auto
  have q: "quantity_ok (rpo_new_quantity c)" using ok by (simp add: replace_order_ok_def)
  have spec: "spec_find (rpo_order_id c) (abs_ref rb) = Some (rf_side ?r, entry_of ?r)" unfolding abs_ref_def by (rule ref_find(2) [OF o Some])
  show ?thesis
  proof (cases "rpo_new_price c = rf_price ?r \<and> units (rpo_new_quantity c) \<le> units (rf_remaining_quantity ?r)")
    case True
    let ?updated = "?orders[it := ?r\<lparr>rf_remaining_quantity := rpo_new_quantity c\<rparr>]"
    have "set ?updated \<subseteq> insert (?r\<lparr>rf_remaining_quantity := rpo_new_quantity c\<rparr>) (set ?orders)" by (rule set_update_subset_insert)
    then have "ref_inv (seq_value (rpo_sequence c)) (rb\<lparr>rb_resting_orders := ?updated\<rparr>)"
      using ref_orders_inv_update [OF o it(1) q] ref_inv_mono [OF inv later] it(1) unfolding ref_inv_def by fastforce
    moreover have "spec_requantify (rpo_order_id c) (rpo_new_quantity c) (side_view s ?orders) = side_view s ?updated" for s
      using ref_requantify [OF o it(1)] it(2) by simp
    ultimately show ?thesis using True Some spec
      by (simp add: ref_replace_def spec_replace_def Let_def entry_of_def abs_ref_def abs_orders_def)
  qed (rule ref_replace_requeued [OF inv later Some])
qed

section \<open>Sequences of commands\<close>

text \<open>The full answer to a command, as the differential test compares them.\<close>

datatype answer = Submitted submit_result | Cancelled cancel_result | Replaced replace_result | Nothing

fun book_answer :: "command \<Rightarrow> order_book \<Rightarrow> (answer \<times> order_book) ub" where
  "book_answer (New_order order) b = do { (res, b') \<leftarrow> submit order b; Some (Submitted res, b') }"
| "book_answer (Cancel_order order) b = do { (res, b') \<leftarrow> cancel order b; Some (Cancelled res, b') }"
| "book_answer (Replace_order order) b = do { (res, b') \<leftarrow> replace order b; Some (Replaced res, b') }"
| "book_answer Monostate b = Some (Nothing, b)"

fun ref_answer :: "command \<Rightarrow> reference_order_book \<Rightarrow> (answer \<times> reference_order_book) ub" where
  "ref_answer (New_order order) rb = do { (res, rb') \<leftarrow> ref_submit order rb; Some (Submitted res, rb') }"
| "ref_answer (Cancel_order order) rb = (let (res, rb') = ref_cancel order rb in Some (Cancelled res, rb'))"
| "ref_answer (Replace_order order) rb = do { (res, rb') \<leftarrow> ref_replace order rb; Some (Replaced res, rb') }"
| "ref_answer Monostate rb = Some (Nothing, rb)"

lemma answers_agree:
  assumes b: "book_inv b" and inv: "ref_inv sq rb" and abs: "abs_ref rb = abs_of b"
    and c: "command_ok c" "sq \<le> command_sequence c"
  shows "\<exists>ans b' rb'. book_answer c b = Some (ans, b') \<and> ref_answer c rb = Some (ans, rb') \<and> book_inv b' \<and>
    ref_inv (command_sequence c) rb' \<and> abs_ref rb' = abs_of b'"
proof (cases c)
  case (New_order order)
  then show ?thesis using ref_submit_spec [OF inv, of order] submit_refines [OF b, of order] c abs
    by (auto simp: command_ok_def new_order_ok_def)
next
  case (Cancel_order order)
  then show ?thesis using ref_cancel_spec [OF inv, of order] cancel_refines [OF b, of order] c abs ref_inv_mono
    by (auto simp: Let_def)
next
  case (Replace_order order)
  then show ?thesis using ref_replace_spec [OF inv, of order] replace_refines [OF b, of order] c abs
    by (auto simp: command_ok_def replace_order_ok_def)
next
  case Monostate
  then show ?thesis using assms ref_inv_mono by auto
qed

lemma runs_agree:
  assumes "book_inv b" and "ref_inv sq rb" and "abs_ref rb = abs_of b" and "list_all command_ok cs"
    and "sorted (map command_sequence cs)" and "\<forall>c \<in> set cs. sq \<le> command_sequence c"
  shows "\<exists>answers b' rb' sq'. run book_answer cs b = Some (answers, b') \<and> run ref_answer cs rb = Some (answers, rb') \<and> book_inv b' \<and>
    ref_inv sq' rb' \<and> abs_ref rb' = abs_of b'"
  using assms
proof (induction cs arbitrary: b rb sq)
  case (Cons c cs)
  then obtain ans b1 rb1 where one: "book_answer c b = Some (ans, b1)" "ref_answer c rb = Some (ans, rb1)" "book_inv b1"
      "ref_inv (command_sequence c) rb1" "abs_ref rb1 = abs_of b1"
    using answers_agree [of b sq rb c] by auto
  with Cons.IH [OF one(3-5)] Cons.prems show ?case by force
qed auto

end
