(* ===== verification/Reference_Agreement.thy ===== *)
theory Reference_Agreement
  imports Reference_Book
begin

text \<open>
  The queries of \<open>tests/reference_order_book.hpp\<close>, computed from the whole vector each time, and the
  statement that the differential tests sample: on commands whose sequence numbers do not decrease,
  \<open>OrderBook\<close> and the reference give the same answers and show the same book.
\<close>

section \<open>Queries of the reference\<close>

text \<open>The loops for bids and asks differ in the side and the comparison only.\<close>

definition ref_best :: "side \<Rightarrow> resting_ref_order list \<Rightarrow> price option" where
  "ref_best side orders =
     fold (\<lambda>r best. if rf_side r = side
                    then (case best of
                            None \<Rightarrow> Some (rf_price r)
                          | Some p \<Rightarrow> if better side (rf_price r) p then Some (rf_price r) else Some p)
                    else best) orders None"

definition ref_best_bid :: "reference_order_book \<Rightarrow> price option" where
  "ref_best_bid rb = ref_best Buy (rb_resting_orders rb)"

definition ref_best_ask :: "reference_order_book \<Rightarrow> price option" where
  "ref_best_ask rb = ref_best Sell (rb_resting_orders rb)"

definition make_quote :: "price \<Rightarrow> u64 \<times> size_t \<Rightarrow> level_quote ub" where
  "make_quote px agg = do {
     q \<leftarrow> from_units (fst agg);
     Some \<lparr>lq_price = px, lq_quantity = q, lq_order_count = snd agg\<rparr>
   }"

definition ref_aggregate_level :: "side \<Rightarrow> price \<Rightarrow> resting_ref_order list \<Rightarrow> level_quote ub" where
  "ref_aggregate_level side px orders = make_quote px
     (fold (\<lambda>r (total, count). if rf_side r = side \<and> rf_price r = px
                               then (total + units (rf_remaining_quantity r), count + 1) else (total, count)) orders (0, 0))"

definition ref_top :: "side \<Rightarrow> resting_ref_order list \<Rightarrow> level_quote option ub" where
  "ref_top side orders =
     (case ref_best side orders of
        None \<Rightarrow> Some None
      | Some px \<Rightarrow> do { lq \<leftarrow> ref_aggregate_level side px orders; Some (Some lq) })"

definition ref_top_bid :: "reference_order_book \<Rightarrow> level_quote option ub" where
  "ref_top_bid rb = ref_top Buy (rb_resting_orders rb)"

definition ref_top_ask :: "reference_order_book \<Rightarrow> level_quote option ub" where
  "ref_top_ask rb = ref_top Sell (rb_resting_orders rb)"

definition ref_levels :: "side \<Rightarrow> resting_ref_order list \<Rightarrow> (price \<times> u64 \<times> size_t) list" where
  "ref_levels side orders =
     fold (\<lambda>r levels. if rf_side r = side
                      then om_subscript_update (better side) (0, 0) (rf_price r)
                        (\<lambda>(total, count). (total + units (rf_remaining_quantity r), count + 1)) levels
                      else levels) orders []"

fun ref_depth_loop :: "size_t \<Rightarrow> (price \<times> u64 \<times> size_t) list \<Rightarrow> level_quote list \<Rightarrow> level_quote list ub" where
  "ref_depth_loop max_depth [] quotes = Some quotes"
| "ref_depth_loop max_depth ((px, agg) # levels) quotes =
     (if of_nat (length quotes) = max_depth then Some quotes
      else do { lq \<leftarrow> make_quote px agg; ref_depth_loop max_depth levels (quotes @ [lq]) })"

definition ref_bid_depth :: "size_t \<Rightarrow> reference_order_book \<Rightarrow> level_quote list ub" where
  "ref_bid_depth max_depth rb = ref_depth_loop max_depth (ref_levels Buy (rb_resting_orders rb)) []"

definition ref_ask_depth :: "size_t \<Rightarrow> reference_order_book \<Rightarrow> level_quote list ub" where
  "ref_ask_depth max_depth rb = ref_depth_loop max_depth (ref_levels Sell (rb_resting_orders rb)) []"

definition ref_depth :: "size_t \<Rightarrow> reference_order_book \<Rightarrow> book_depth ub" where
  "ref_depth max_depth rb = do {
     bids \<leftarrow> ref_bid_depth max_depth rb;
     asks \<leftarrow> ref_ask_depth max_depth rb;
     Some \<lparr>bd_bids = bids, bd_asks = asks\<rparr>
   }"

definition ref_resting_order_count :: "reference_order_book \<Rightarrow> size_t" where
  "ref_resting_order_count rb = of_nat (length (rb_resting_orders rb))"

section \<open>Aggregates by price\<close>

definition level_data :: "price \<Rightarrow> entry list \<Rightarrow> u64 \<times> size_t" where
  "level_data px es = (\<Sum>e \<leftarrow> filter (\<lambda>e. fst e = px) es. entry_units e, of_nat (length (filter (\<lambda>e. fst e = px) es)))"

lemma level_data_view: "level_data px (side_view s orders) = level_data px (side_list s orders)"
proof -
  have "fst e = px \<longleftrightarrow> rank s e = rank s (px, undefined)" for e using rank_eq [of s e "(px, undefined)"] by simp
  then show ?thesis using sort_key_stable [of "rank s" "rank s (px, undefined)" "side_list s orders"]
    by (simp add: level_data_def side_view_def)
qed

lemma ref_aggregate_data: "ref_aggregate_level side px orders = make_quote px (level_data px (side_list side orders))"
proof -
  let ?f = "\<lambda>r (total, count). if rf_side r = side \<and> rf_price r = px
      then (total + units (rf_remaining_quantity r), count + 1) else (total, count)"
  have "fold ?f rs (0, 0) = level_data px (side_list side rs)" for rs
    by (induction rs rule: rev_induct) (auto simp: level_data_def entry_of_def split: prod.split)
  then show ?thesis by (simp add: ref_aggregate_level_def)
qed

lemma filter_side_entries:
  "distinct (map fst ls) \<Longrightarrow> (px, l) \<in> set ls \<Longrightarrow>
   filter (\<lambda>e. fst e = px) (side_entries nodes ls) = level_entries nodes px (pl_orders l)"
proof (induction ls)
  case (Cons e ls)
  obtain p k where e: "e = (p, k)" by (cases e)
  have at: "filter (\<lambda>e. fst e = px) (level_entries nodes q ns) = (if q = px then level_entries nodes q ns else [])" for q ns
    by (simp add: level_entries_def filter_map comp_def)
  have none: "filter (\<lambda>e. fst e = px) (side_entries nodes ls) = []" if "px \<notin> fst ` set ls" for ls
    using that by (induction ls) (auto simp: level_entries_def image_iff)
  show ?case using Cons e at none by (cases "px = p") (force simp: image_iff)+
qed simp

lemma quote_level_data:
  assumes "book_inv b" and "(px, l) \<in> set (levels_of s b)"
  shows "quote_level (px, l) = make_quote px (level_data px (entries s b))"
proof -
  note core = book_invD(1) [OF assms(1)]
  have "distinct (map fst (levels_of s b))" using side_order.ordered_distinct core_sorted [OF core] by blast
  from filter_side_entries [OF this assms(2), of "ob_nodes b"]
  have f: "filter (\<lambda>e. fst e = px) (entries s b) = level_entries (ob_nodes b) px (pl_orders l)" by (simp add: entries_def)
  have "of_nat (resting_units es) = (\<Sum>e \<leftarrow> es. entry_units e)" for es by (induction es) (simp_all add: resting_units_def)
  then show ?thesis using core_level [OF core assms(2)] f
    by (simp add: quote_level_def make_quote_def level_data_def level_entries_def)
qed

lemma level_data_none:
  assumes "px \<notin> fst ` set es"
  shows "level_data px es = (0, 0)"
proof -
  have "filter (\<lambda>e. fst e = px) es = []" using assms by (force simp: filter_empty_conv)
  then show ?thesis by (simp add: level_data_def)
qed

lemma ref_levels_data:
  "sorted_wrt (better s) (map fst (ref_levels s orders)) \<and>
   (\<forall>px. map_of (ref_levels s orders) px =
      (if px \<in> fst ` set (side_list s orders) then Some (level_data px (side_list s orders)) else None))"
proof (induction orders rule: rev_induct)
  case (snoc r orders)
  show ?case
  proof (cases "rf_side r = s")
    case True
    let ?px = "rf_price r"
    let ?v = "level_data ?px (side_list s orders)"
    have keys: "fst ` set (side_list s (orders @ [r])) = insert ?px (fst ` set (side_list s orders))"
      using True by (simp add: entry_of_def)
    have now: "level_data px (side_list s (orders @ [r])) =
        (if px = ?px then (fst ?v + units (rf_remaining_quantity r), snd ?v + 1) else level_data px (side_list s orders))" for px
      using True by (auto simp: level_data_def entry_of_def)
    have "(case om_find ?px (ref_levels s orders) of None \<Rightarrow> (0, 0) | Some v \<Rightarrow> v) = ?v"
      using snoc level_data_none [of ?px "side_list s orders"] by (simp add: om_find_def)
    then have put: "ref_levels s (orders @ [r]) = om_put (better s) ?px (level_data ?px (side_list s (orders @ [r]))) (ref_levels s orders)"
      using True now [of ?px] by (simp add: ref_levels_def om_subscript_update_def case_prod_unfold)
    have old: "sorted_wrt (better s) (map fst (ref_levels s orders))" using snoc by blast
    show ?thesis unfolding put keys side_order.map_of_om_put [OF old]
      using side_order.ordered_om_put [OF old] snoc now by simp
  next
    case False
    then show ?thesis using snoc by (simp add: ref_levels_def)
  qed
qed (simp add: ref_levels_def)

text \<open>A strictly ordered list is determined by its elements.\<close>

lemma ordered_unique:
  "sorted_wrt (better s) xs \<Longrightarrow> sorted_wrt (better s) ys \<Longrightarrow> set xs = set ys \<Longrightarrow> xs = ys"
proof (induction xs arbitrary: ys)
  case (Cons x xs)
  then obtain y ys' where ys: "ys = y # ys'" by (cases ys) auto
  have "x = y"
  proof (rule ccontr)
    assume "x \<noteq> y"
    then have "x \<in> set ys'" "y \<in> set xs" using Cons.prems(3) ys by auto
    then show False using Cons.prems(1,2) ys side_order.asym [of s x y] by auto
  qed
  moreover have "x \<notin> set xs" "y \<notin> set ys'" using Cons.prems(1,2) ys side_order.irrefl by auto
  ultimately have "set xs = set ys'" using Cons.prems(3) ys by (simp add: insert_ident)
  then show ?case using Cons.IH [of ys'] Cons.prems(1,2) ys \<open>x = y\<close> by simp
qed simp

lemma book_prices:
  assumes "book_inv b"
  shows "sorted_wrt (better s) (map fst (levels_of s b))" "fst ` set (levels_of s b) = fst ` set (entries s b)"
proof -
  show "sorted_wrt (better s) (map fst (levels_of s b))" using core_sorted [OF book_invD(1) [OF assms]] by blast
  have "fst ` set (side_entries nodes ls) = fst ` set ls" if "no_empty_level ls" for nodes and ls :: levels
  proof -
    have "fst ` set (level_entries nodes p ns) = {p}" if "ns \<noteq> []" for p ns
      using that by (cases ns) (auto simp: level_entries_def)
    moreover have "side_entries nodes ((p, l) # ls) = level_entries nodes p (pl_orders l) @ side_entries nodes ls" for p l ls by simp
    ultimately have "fst ` set (side_entries nodes ((p, l) # ls)) = insert p (fst ` set (side_entries nodes ls))" if "pl_orders l \<noteq> []" for p l ls
      using that by (simp only: set_append image_Un) simp
    then show ?thesis using that by (induction ls) (simp, simp only: no_empty_level_def split_paired_all, simp)
  qed
  then show "fst ` set (levels_of s b) = fst ` set (entries s b)" using book_invD(2) [OF assms] by (simp add: entries_def)
qed

section \<open>Agreement of the queries\<close>

definition shows_same :: "order_book \<Rightarrow> reference_order_book \<Rightarrow> bool" where
  "shows_same b rb \<longleftrightarrow> (\<forall>s. entries s b = side_view s (rb_resting_orders rb))"

lemma abs_shows_same: "abs_ref rb = abs_of b \<Longrightarrow> shows_same b rb"
  unfolding shows_same_def
proof
  fix s
  assume "abs_ref rb = abs_of b"
  then show "entries s b = side_view s (rb_resting_orders rb)"
    by (cases s) (simp_all add: abs_ref_def abs_orders_def abs_of_def entries_def levels_of_def)
qed

lemma same_prices: "shows_same b rb \<Longrightarrow> fst ` set (entries s b) = fst ` set (side_list s (rb_resting_orders rb))"
  by (simp add: shows_same_def side_view_def)

lemma same_data: "shows_same b rb \<Longrightarrow> level_data px (entries s b) = level_data px (side_list s (rb_resting_orders rb))"
  by (simp add: shows_same_def level_data_view)

lemma depth_loops_same:
  "map fst ls = map fst m \<Longrightarrow> \<forall>(px, l) \<in> set ls. quote_level (px, l) = make_quote px (d px) \<Longrightarrow>
   \<forall>(px, agg) \<in> set m. agg = d px \<Longrightarrow> depth_loop n ls acc = ref_depth_loop n m acc"
proof (induction ls arbitrary: m acc)
  case (Cons e ls)
  then show ?case by (cases m; cases e) (auto split: Option.bind_splits)
qed simp

lemma depth_agrees:
  assumes inv: "book_inv b" and same: "shows_same b rb"
  shows "depth_loop n (levels_of s b) acc = ref_depth_loop n (ref_levels s (rb_resting_orders rb)) acc"
proof -
  let ?m = "ref_levels s (rb_resting_orders rb)"
  note m = ref_levels_data [of s "rb_resting_orders rb"]
  have keys: "fst ` set ?m = fst ` set (side_list s (rb_resting_orders rb))"
  proof -
    have "p \<notin> fst ` set ?m \<longleftrightarrow> p \<notin> fst ` set (side_list s (rb_resting_orders rb))" for p
      unfolding map_of_eq_None_iff [of ?m, symmetric] using m by simp
    then show ?thesis by blast
  qed
  have "map fst (levels_of s b) = map fst ?m"
    by (rule ordered_unique [of s]) (use book_prices [OF inv, of s] m keys same_prices [OF same, of s] in simp_all)
  moreover have "quote_level (px, l) = make_quote px (level_data px (side_list s (rb_resting_orders rb)))" if "(px, l) \<in> set (levels_of s b)" for px l
    using quote_level_data [OF inv that] same_data [OF same] by simp
  moreover have "agg = level_data px (side_list s (rb_resting_orders rb))" if "(px, agg) \<in> set ?m" for px agg
    using map_of_is_SomeI [OF side_order.ordered_distinct [OF conjunct1 [OF m]] that] m by (auto split: if_splits)
  ultimately show ?thesis by (intro depth_loops_same [where d = "\<lambda>px. level_data px (side_list s (rb_resting_orders rb))"]) auto
qed

lemma ref_best_least:
  "case ref_best s rs of None \<Rightarrow> side_list s rs = []
   | Some px \<Rightarrow> px \<in> fst ` set (side_list s rs) \<and> (\<forall>p \<in> fst ` set (side_list s rs). p = px \<or> better s px p)"
proof (induction rs rule: rev_induct)
  case (snoc r rs)
  show ?case
  proof (cases "rf_side r = s")
    case True
    have e: "fst (entry_of r) = rf_price r" by (simp add: entry_of_def)
    show ?thesis
    proof (cases "ref_best s rs")
      case None
      then show ?thesis using snoc True e by (simp add: ref_best_def)
    next
      case (Some p)
      have step: "ref_best s (rs @ [r]) = Some (if better s (rf_price r) p then rf_price r else p)" using Some True by (simp add: ref_best_def)
      show ?thesis using snoc Some True e side_order.total [of "rf_price r" p s] side_order.trans [of s "rf_price r" p]
        unfolding step by auto
    qed
  next
    case False
    then have "ref_best s (rs @ [r]) = ref_best s rs" "side_list s (rs @ [r]) = side_list s rs" by (simp_all add: ref_best_def)
    then show ?thesis using snoc by (simp only:)
  qed
qed (simp add: ref_best_def)

lemma best_agrees:
  assumes inv: "book_inv b" and same: "shows_same b rb"
  shows "map_option fst (find (\<lambda>_. True) (levels_of s b)) = ref_best s (rb_resting_orders rb)"
proof (cases "levels_of s b")
  case Nil
  then have "side_list s (rb_resting_orders rb) = []"
    using book_prices(2) [OF inv, of s] same_prices [OF same, of s] by simp
  then show ?thesis using Nil ref_best_least [of s "rb_resting_orders rb"] by (auto split: option.splits)
next
  case (Cons e ls)
  have prices: "fst ` set (side_list s (rb_resting_orders rb)) = insert (fst e) (fst ` set ls)"
    using book_prices(2) [OF inv, of s] same_prices [OF same, of s] Cons by simp
  then obtain px where px: "ref_best s (rb_resting_orders rb) = Some px" "px \<in> insert (fst e) (fst ` set ls)" "fst e = px \<or> better s px (fst e)"
    using ref_best_least [of s "rb_resting_orders rb"] by (cases "ref_best s (rb_resting_orders rb)") auto
  have "\<forall>p \<in> fst ` set ls. better s (fst e) p" using book_prices(1) [OF inv, of s] Cons by simp
  then have "px = fst e" using px(2,3) side_order.asym by auto
  then show ?thesis using Cons px(1) by simp
qed

lemma top_agrees:
  assumes inv: "book_inv b" and same: "shows_same b rb"
  shows "(case levels_of s b of [] \<Rightarrow> Some None | e # ls \<Rightarrow> do { lq \<leftarrow> quote_level e; Some (Some lq) }) = ref_top s (rb_resting_orders rb)"
proof (cases "levels_of s b")
  case Nil
  then show ?thesis using best_agrees [OF assms, of s, symmetric] by (simp add: ref_top_def)
next
  case (Cons e ls)
  then have "quote_level e = ref_aggregate_level s (fst e) (rb_resting_orders rb)"
    using quote_level_data [OF inv, of "fst e" "snd e" s] same_data [OF same] by (simp add: ref_aggregate_data)
  then show ?thesis using Cons best_agrees [OF assms, of s, symmetric] by (simp add: ref_top_def)
qed

lemma count_agrees:
  assumes inv: "book_inv b" and same: "shows_same b rb"
  shows "resting_order_count b = ref_resting_order_count rb"
proof -
  have "length (side_list Buy rs) + length (side_list Sell rs) = length rs" for rs
  proof (induction rs)
    case (Cons r rs)
    then show ?case by (cases "rf_side r") simp_all
  qed simp
  moreover have "length (entries s b) = length (side_list s (rb_resting_orders rb))" for s
    using same by (simp add: shows_same_def side_view_def)
  ultimately show ?thesis using core_index_length(2) [OF book_invD(1) [OF inv]]
    by (simp add: resting_order_count_def ref_resting_order_count_def)
qed

lemma queries_agree:
  assumes "book_inv b" and "abs_ref rb = abs_of b"
  shows "best_bid b = ref_best_bid rb" "best_ask b = ref_best_ask rb" "top_bid b = ref_top_bid rb" "top_ask b = ref_top_ask rb"
    "depth n b = ref_depth n rb" "resting_order_count b = ref_resting_order_count rb"
proof -
  note same = abs_shows_same [OF assms(2)]
  note best = best_agrees [OF assms(1) same] and top = top_agrees [OF assms(1) same] and depth = depth_agrees [OF assms(1) same]
  show "best_bid b = ref_best_bid rb" "best_ask b = ref_best_ask rb"
    using best [of Buy] best [of Sell]
    by (auto simp: best_bid_def best_ask_def ref_best_bid_def ref_best_ask_def levels_of_def split: list.splits)
  show "top_bid b = ref_top_bid rb" "top_ask b = ref_top_ask rb"
    using top [of Buy] top [of Sell] by (simp_all add: top_bid_def top_ask_def ref_top_bid_def ref_top_ask_def levels_of_def)
  show "depth n b = ref_depth n rb"
    using depth [of n Buy "[]"] depth [of n Sell "[]"]
    by (simp add: depth_def ref_depth_def bid_depth_def ask_depth_def ref_bid_depth_def ref_ask_depth_def levels_of_def)
  show "resting_order_count b = ref_resting_order_count rb" by (rule count_agrees [OF assms(1) same])
qed

section \<open>Properties\<close>

text \<open>
  Claim C11. The order book agrees with the naive reference of the differential tests. On every sequence
  of well-formed commands whose sequence numbers do not decrease, both run without undefined behaviour
  and give the same answers, executions, remainders and rejections included; and afterwards they show
  the same best prices, tops, depth of any length and number of resting orders. The depth and top
  queries agree even where an aggregate wraps: then both are undefined or both show the wrapped value.
\<close>

theorem reference_book_agrees:
  assumes "list_all command_ok cs" and "sorted (map command_sequence cs)"
  shows "\<exists>answers b rb. run book_answer cs empty_book = Some (answers, b) \<and> run ref_answer cs empty_reference_book = Some (answers, rb) \<and>
    best_bid b = ref_best_bid rb \<and> best_ask b = ref_best_ask rb \<and> top_bid b = ref_top_bid rb \<and> top_ask b = ref_top_ask rb \<and>
    (\<forall>n. depth n b = ref_depth n rb) \<and> resting_order_count b = ref_resting_order_count rb"
proof -
  have "ref_inv 0 empty_reference_book" by (simp add: ref_inv_def empty_reference_book_def ref_orders_inv_def)
  moreover have "abs_ref empty_reference_book = abs_of empty_book"
    by (simp add: abs_ref_def abs_orders_def empty_reference_book_def side_view_def abs_of_def empty_book_def)
  ultimately obtain answers b rb sq where "run book_answer cs empty_book = Some (answers, b)"
      "run ref_answer cs empty_reference_book = Some (answers, rb)" and q: "book_inv b" "abs_ref rb = abs_of b"
    using runs_agree [OF book_inv_empty _ _ assms, of 0 empty_reference_book] by auto
  then show ?thesis using queries_agree [OF q] by blast
qed

theorem reference_book_agrees_witness:
  "\<exists>answers b rb. run book_answer example_commands empty_book = Some (answers, b) \<and>
     run ref_answer example_commands empty_reference_book = Some (answers, rb) \<and> best_ask b = ref_best_ask rb \<and> depth 5 b = ref_depth 5 rb"
proof -
  have "list_all command_ok example_commands" "sorted (map command_sequence example_commands)" by code_simp+
  from reference_book_agrees [OF this] show ?thesis by blast
qed

text \<open>
  The condition on the sequence numbers is needed: among orders at one price the reference prefers the
  smaller sequence number, the order book the one that arrived first. Sequence numbers increase per
  session only, so commands of two sessions can reach the book in this order.
\<close>

definition interleaved_commands :: "command list" where
  "interleaved_commands = [New_order ((limit_order 1 Sell 5 100)\<lparr>no_sequence := SequenceNumber 7\<rparr>),
     New_order ((limit_order 2 Sell 5 100)\<lparr>no_sequence := SequenceNumber 3\<rparr>), New_order (market_order 8 Buy 1)]"

fun fills_of :: "answer \<Rightarrow> order_id list" where
  "fills_of (Submitted res) = map ex_resting_order_id (sr_executions res)"
| "fills_of (Replaced res) = map ex_resting_order_id (rr_executions res)"
| "fills_of _ = []"

theorem reference_prefers_sequence:
  "map_option (map fills_of \<circ> fst) (run book_answer interleaved_commands empty_book) = Some [[], [], [OrderId 1]] \<and>
   map_option (map fills_of \<circ> fst) (run ref_answer interleaved_commands empty_reference_book) = Some [[], [], [OrderId 2]]"
  by code_simp

end
