(* ===== verification/Spsc_Concurrency.thy ===== *)
theory Spsc_Concurrency
  imports Spsc_Queue
begin

text \<open>
  The ring under concurrent use. One producer thread runs \<open>try_push\<close>, one consumer thread runs
  \<open>try_pop\<close>, and their memory accesses interleave in any order: each access of
  \<open>spsc_queue.hpp\<close> to a shared location is one step.

  The index loads are weak: an acquire load of the other thread's index may return any value which
  that index has had since the last value this thread loaded (coherence allows no older one), so a
  thread may see the other's progress late. Acquire/release ordering on the indices is what makes a
  slot's content visible with the index that covers it; it is rendered by executing the accesses of a
  thread in program order. The lists \<open>sp_pushed\<close> and \<open>sp_popped\<close> are history, not state of the code.
\<close>

section \<open>Threads\<close>

datatype 'a producer = P_idle | P_check 'a | P_refresh 'a | P_write 'a | P_publish 'a

datatype 'a consumer = C_idle | C_check | C_refresh | C_read | C_publish 'a

record 'a spsc =
  sp_ring :: "'a ring"
  sp_producer :: "'a producer"
  sp_consumer :: "'a consumer"
  sp_pushed :: "'a list"
  sp_popped :: "'a list"

definition spsc_init :: "u64 \<Rightarrow> 'a \<Rightarrow> 'a spsc" where
  "spsc_init cap dflt = \<lparr>sp_ring = empty_ring cap dflt, sp_producer = P_idle, sp_consumer = C_idle,
     sp_pushed = [], sp_popped = []\<rparr>"

definition stale_read :: "u64 \<Rightarrow> 'a ring \<Rightarrow> bool" where
  "stale_read v q \<longleftrightarrow>
     unat (rq_write_index q - rq_read_index q) \<le> unat (rq_write_index q - v) \<and>
     unat (rq_write_index q - v) \<le> unat (rq_write_index q - rq_cached_read_index q)"

definition stale_write :: "u64 \<Rightarrow> 'a ring \<Rightarrow> bool" where
  "stale_write v q \<longleftrightarrow>
     unat (rq_cached_write_index q - rq_read_index q) \<le> unat (v - rq_read_index q) \<and>
     unat (v - rq_read_index q) \<le> unat (rq_write_index q - rq_read_index q)"

inductive spsc_step :: "u64 \<Rightarrow> ('a \<Rightarrow> 'a) \<Rightarrow> 'a spsc \<Rightarrow> 'a spsc \<Rightarrow> bool"
  for cap :: u64 and moved :: "'a \<Rightarrow> 'a" where
  push_call: "sp_producer s = P_idle \<Longrightarrow> spsc_step cap moved s (s\<lparr>sp_producer := P_check x\<rparr>)"
| push_check: "sp_producer s = P_check x \<Longrightarrow>
    spsc_step cap moved s (s\<lparr>sp_producer :=
      if rq_write_index (sp_ring s) - rq_cached_read_index (sp_ring s) \<ge> cap then P_refresh x else P_write x\<rparr>)"
| push_refresh: "sp_producer s = P_refresh x \<Longrightarrow> stale_read v (sp_ring s) \<Longrightarrow>
    spsc_step cap moved s (s\<lparr>sp_ring := (sp_ring s)\<lparr>rq_cached_read_index := v\<rparr>,
      sp_producer := if rq_write_index (sp_ring s) - v \<ge> cap then P_idle else P_write x\<rparr>)"
| push_write: "sp_producer s = P_write x \<Longrightarrow>
    spsc_step cap moved s (s\<lparr>sp_ring := (sp_ring s)\<lparr>rq_buffer :=
        (rq_buffer (sp_ring s))[slot cap (rq_write_index (sp_ring s)) := x]\<rparr>,
      sp_producer := P_publish x\<rparr>)"
| push_publish: "sp_producer s = P_publish x \<Longrightarrow>
    spsc_step cap moved s (s\<lparr>sp_ring := (sp_ring s)\<lparr>rq_write_index := rq_write_index (sp_ring s) + 1\<rparr>,
      sp_producer := P_idle, sp_pushed := sp_pushed s @ [x]\<rparr>)"
| pop_call: "sp_consumer s = C_idle \<Longrightarrow> spsc_step cap moved s (s\<lparr>sp_consumer := C_check\<rparr>)"
| pop_check: "sp_consumer s = C_check \<Longrightarrow>
    spsc_step cap moved s (s\<lparr>sp_consumer :=
      if rq_read_index (sp_ring s) = rq_cached_write_index (sp_ring s) then C_refresh else C_read\<rparr>)"
| pop_refresh: "sp_consumer s = C_refresh \<Longrightarrow> stale_write v (sp_ring s) \<Longrightarrow>
    spsc_step cap moved s (s\<lparr>sp_ring := (sp_ring s)\<lparr>rq_cached_write_index := v\<rparr>,
      sp_consumer := if rq_read_index (sp_ring s) = v then C_idle else C_read\<rparr>)"
| pop_read: "sp_consumer s = C_read \<Longrightarrow> i = slot cap (rq_read_index (sp_ring s)) \<Longrightarrow>
    out = rq_buffer (sp_ring s) ! i \<Longrightarrow>
    spsc_step cap moved s (s\<lparr>sp_ring := (sp_ring s)\<lparr>rq_buffer := (rq_buffer (sp_ring s))[i := moved out]\<rparr>,
      sp_consumer := C_publish out\<rparr>)"
| pop_publish: "sp_consumer s = C_publish x \<Longrightarrow>
    spsc_step cap moved s (s\<lparr>sp_ring := (sp_ring s)\<lparr>rq_read_index := rq_read_index (sp_ring s) + 1\<rparr>,
      sp_consumer := C_idle, sp_popped := sp_popped s @ [x]\<rparr>)"

inductive spsc_reachable :: "u64 \<Rightarrow> ('a \<Rightarrow> 'a) \<Rightarrow> 'a \<Rightarrow> 'a spsc \<Rightarrow> bool"
  for cap :: u64 and moved :: "'a \<Rightarrow> 'a" and dflt :: 'a where
  init: "spsc_reachable cap moved dflt (spsc_init cap dflt)"
| step: "spsc_reachable cap moved dflt s \<Longrightarrow> spsc_step cap moved s s' \<Longrightarrow> spsc_reachable cap moved dflt s'"

section \<open>Invariant\<close>

definition spsc_live :: "'a spsc \<Rightarrow> 'a list" where
  "spsc_live s = drop (length (sp_popped s)) (sp_pushed s)"

text \<open>The element the consumer has taken out of its slot but not yet released.\<close>

definition taken :: "'a consumer \<Rightarrow> nat" where
  "taken c = (case c of C_publish _ \<Rightarrow> 1 | _ \<Rightarrow> 0)"

definition slots_inv :: "u64 \<Rightarrow> 'a spsc \<Rightarrow> bool" where
  "slots_inv cap s \<longleftrightarrow>
     (\<forall>i. taken (sp_consumer s) \<le> i \<longrightarrow> i < length (spsc_live s) \<longrightarrow>
        rq_buffer (sp_ring s) ! slot cap (rq_read_index (sp_ring s) + of_nat i) = spsc_live s ! i)"

definition producer_inv :: "u64 \<Rightarrow> 'a spsc \<Rightarrow> bool" where
  "producer_inv cap s \<longleftrightarrow>
     (let q = sp_ring s in case sp_producer s of
        P_write x \<Rightarrow> unat (rq_write_index q - rq_cached_read_index q) < unat cap
      | P_publish x \<Rightarrow> unat (rq_write_index q - rq_cached_read_index q) < unat cap \<and>
          rq_buffer q ! slot cap (rq_write_index q) = x
      | _ \<Rightarrow> True)"

definition consumer_inv :: "'a spsc \<Rightarrow> bool" where
  "consumer_inv s \<longleftrightarrow>
     (let q = sp_ring s in case sp_consumer s of
        C_read \<Rightarrow> rq_cached_write_index q \<noteq> rq_read_index q
      | C_publish x \<Rightarrow> rq_cached_write_index q \<noteq> rq_read_index q \<and> spsc_live s \<noteq> [] \<and> x = hd (spsc_live s)
      | _ \<Rightarrow> True)"

definition spsc_inv :: "u64 \<Rightarrow> 'a spsc \<Rightarrow> bool" where
  "spsc_inv cap s \<longleftrightarrow>
     ring_inv cap (sp_ring s) \<and>
     sp_pushed s = sp_popped s @ spsc_live s \<and>
     length (spsc_live s) = unat (rq_write_index (sp_ring s) - rq_read_index (sp_ring s)) \<and>
     slots_inv cap s \<and> producer_inv cap s \<and> consumer_inv s"

lemma spsc_inv_init: "spsc_inv cap (spsc_init cap dflt)"
  by (simp add: spsc_inv_def spsc_init_def spsc_live_def slots_inv_def producer_inv_def consumer_inv_def
      ring_inv_empty) (simp add: empty_ring_def)

lemmas spsc_inv_defs = spsc_inv_def slots_inv_def producer_inv_def consumer_inv_def Let_def

lemma live_simps [simp]:
  "spsc_live (s\<lparr>sp_ring := q\<rparr>) = spsc_live s" "spsc_live (s\<lparr>sp_producer := p\<rparr>) = spsc_live s"
  "spsc_live (s\<lparr>sp_consumer := c\<rparr>) = spsc_live s"
  by (simp_all add: spsc_live_def)

lemma inv_live_pos:
  assumes "spsc_inv cap s" and "rq_cached_write_index (sp_ring s) \<noteq> rq_read_index (sp_ring s)"
  shows "0 < length (spsc_live s)"
proof -
  have "rq_cached_write_index (sp_ring s) - rq_read_index (sp_ring s) \<noteq> 0" using assms(2) by simp
  then have "0 < unat (rq_cached_write_index (sp_ring s) - rq_read_index (sp_ring s))"
    by (simp add: unat_gt_0)
  then show ?thesis using assms(1) by (simp add: spsc_inv_def ring_inv_def)
qed

lemma write_slot_free:
  assumes cap: "capacity_ok cap" and inv: "spsc_inv cap s"
    and room: "unat (rq_write_index (sp_ring s) - rq_cached_read_index (sp_ring s)) < unat cap"
    and i: "i < length (spsc_live s)"
  shows "slot cap (rq_read_index (sp_ring s) + of_nat i) \<noteq> slot cap (rq_write_index (sp_ring s))"
proof -
  let ?q = "sp_ring s" and ?n = "length (spsc_live s)"
  have n: "?n = unat (rq_write_index ?q - rq_read_index ?q)" "?n < unat cap"
    using inv room by (auto simp: spsc_inv_def ring_inv_def)
  have "slot cap (rq_read_index ?q + of_nat i) \<noteq> slot cap (rq_read_index ?q + of_nat ?n)"
    using i n by (intro slot_inj [OF cap]) simp_all
  then show ?thesis by (simp add: n(1))
qed

lemma inv_slot:
  assumes "spsc_inv cap s" and "taken (sp_consumer s) \<le> i" and "i < length (spsc_live s)"
  shows "rq_buffer (sp_ring s) ! slot cap (rq_read_index (sp_ring s) + of_nat i) = spsc_live s ! i"
  using assms by (simp add: spsc_inv_def slots_inv_def)

lemma slots_invI:
  "(\<And>i. taken (sp_consumer s) \<le> i \<Longrightarrow> i < length (spsc_live s) \<Longrightarrow>
      rq_buffer (sp_ring s) ! slot cap (rq_read_index (sp_ring s) + of_nat i) = spsc_live s ! i) \<Longrightarrow>
   slots_inv cap s"
  by (simp add: slots_inv_def)

section \<open>Every step keeps the invariant\<close>

lemma inv_push_write:
  assumes cap: "capacity_ok cap" and inv: "spsc_inv cap s" and pc: "sp_producer s = P_write x"
  shows "spsc_inv cap (s\<lparr>sp_ring := (sp_ring s)\<lparr>rq_buffer :=
      (rq_buffer (sp_ring s))[slot cap (rq_write_index (sp_ring s)) := x]\<rparr>, sp_producer := P_publish x\<rparr>)"
    (is "spsc_inv cap ?s'")
proof -
  have room: "unat (rq_write_index (sp_ring s) - rq_cached_read_index (sp_ring s)) < unat cap"
    using inv pc by (simp add: spsc_inv_defs)
  have "slot cap (rq_write_index (sp_ring s)) < length (rq_buffer (sp_ring s))"
    using slot_less [OF cap] inv by (simp add: spsc_inv_def ring_inv_def)
  then have "producer_inv cap ?s'" using room by (simp add: producer_inv_def)
  moreover have "slots_inv cap ?s'"
  proof (rule slots_invI)
    fix i
    assume "taken (sp_consumer ?s') \<le> i" "i < length (spsc_live ?s')"
    then show "rq_buffer (sp_ring ?s') ! slot cap (rq_read_index (sp_ring ?s') + of_nat i) = spsc_live ?s' ! i"
      using inv_slot [OF inv, of i] write_slot_free [OF cap inv room, of i] by simp
  qed
  moreover have "ring_inv cap (sp_ring ?s')" using inv by (simp add: spsc_inv_def ring_inv_def)
  moreover have "consumer_inv ?s'" using inv by (simp add: spsc_inv_def consumer_inv_def Let_def split: consumer.splits)
  ultimately show ?thesis using inv by (simp add: spsc_inv_def)
qed

lemma inv_push_publish:
  assumes cap: "capacity_ok cap" and inv: "spsc_inv cap s" and pc: "sp_producer s = P_publish x"
  shows "spsc_inv cap (s\<lparr>sp_ring := (sp_ring s)\<lparr>rq_write_index := rq_write_index (sp_ring s) + 1\<rparr>,
      sp_producer := P_idle, sp_pushed := sp_pushed s @ [x]\<rparr>)" (is "spsc_inv cap ?s'")
proof -
  let ?q = "sp_ring s" let ?w = "rq_write_index ?q" and ?r = "rq_read_index ?q" and ?c = "rq_cached_read_index ?q"
  have room: "unat (?w - ?c) < unat cap" and x: "rq_buffer ?q ! slot cap ?w = x"
    using inv pc by (simp_all add: spsc_inv_defs)
  have n: "length (spsc_live s) = unat (?w - ?r)" and hist: "sp_pushed s = sp_popped s @ spsc_live s"
    using inv by (simp_all add: spsc_inv_def)
  have "unat (?w - ?r) < unat cap" using inv room by (simp add: spsc_inv_def ring_inv_def)
  then have grow: "unat (?w + 1 - ?r) = unat (?w - ?r) + 1" "unat (?w + 1 - ?c) = unat (?w - ?c) + 1"
    using unat_succ_below [of "?w - ?r" cap] unat_succ_below [OF room] by (simp_all add: algebra_simps)
  have "length (sp_popped s) \<le> length (sp_pushed s)" using arg_cong [OF hist, of length] by simp
  then have live: "spsc_live ?s' = spsc_live s @ [x]" by (simp add: spsc_live_def)
  have last: "slot cap (?r + of_nat (length (spsc_live s))) = slot cap ?w" by (simp add: n)
  have "slots_inv cap ?s'"
    using inv x last live by (auto simp: spsc_inv_def slots_inv_def nth_append less_Suc_eq)
  moreover have "ring_inv cap (sp_ring ?s')" using inv grow room by (simp add: spsc_inv_def ring_inv_def)
  moreover have "consumer_inv ?s'"
    using inv live by (auto simp: spsc_inv_def consumer_inv_def Let_def split: consumer.splits)
  ultimately show ?thesis using live hist n grow by (simp add: spsc_inv_def producer_inv_def)
qed

lemma inv_pop_read:
  assumes cap: "capacity_ok cap" and inv: "spsc_inv cap s" and pc: "sp_consumer s = C_read"
    and out: "out = rq_buffer (sp_ring s) ! slot cap (rq_read_index (sp_ring s))"
  shows "spsc_inv cap (s\<lparr>sp_ring := (sp_ring s)\<lparr>rq_buffer :=
      (rq_buffer (sp_ring s))[slot cap (rq_read_index (sp_ring s)) := moved out]\<rparr>, sp_consumer := C_publish out\<rparr>)"
    (is "spsc_inv cap ?s'")
proof -
  let ?q = "sp_ring s" let ?w = "rq_write_index ?q" and ?r = "rq_read_index ?q"
  have ne: "rq_cached_write_index ?q \<noteq> ?r" using inv pc by (simp add: spsc_inv_defs)
  then have pos: "0 < length (spsc_live s)" using inv_live_pos [OF inv] by blast
  have bound: "length (spsc_live s) \<le> unat cap" using inv by (simp add: spsc_inv_def ring_inv_def)
  have hd: "out = hd (spsc_live s)"
    using inv_slot [OF inv, of 0] pc pos out by (simp add: taken_def hd_conv_nth)
  have other: "slot cap (?r + of_nat i) \<noteq> slot cap ?r" if "1 \<le> i" "i < length (spsc_live s)" for i
    using slot_inj [OF cap, of 0 i ?r] that bound by force
  have "slots_inv cap ?s'"
  proof (rule slots_invI)
    fix i
    assume "taken (sp_consumer ?s') \<le> i" "i < length (spsc_live ?s')"
    then show "rq_buffer (sp_ring ?s') ! slot cap (rq_read_index (sp_ring ?s') + of_nat i) = spsc_live ?s' ! i"
      using inv_slot [OF inv, of i] other [of i] pc by (simp add: taken_def)
  qed
  moreover have "producer_inv cap ?s'"
  proof -
    have "slot cap ?w \<noteq> slot cap ?r" if "unat (?w - rq_cached_read_index ?q) < unat cap"
      using write_slot_free [OF cap inv that pos] by simp
    then show ?thesis using inv by (auto simp: spsc_inv_def producer_inv_def Let_def split: producer.splits)
  qed
  moreover have "spsc_live s \<noteq> []" using pos by auto
  ultimately show ?thesis
    using inv ne hd by (simp add: spsc_inv_def ring_inv_def consumer_inv_def)
qed

lemma inv_pop_publish:
  assumes inv: "spsc_inv cap s" and pc: "sp_consumer s = C_publish x"
  shows "spsc_inv cap (s\<lparr>sp_ring := (sp_ring s)\<lparr>rq_read_index := rq_read_index (sp_ring s) + 1\<rparr>,
      sp_consumer := C_idle, sp_popped := sp_popped s @ [x]\<rparr>)" (is "spsc_inv cap ?s'")
proof -
  let ?q = "sp_ring s" let ?w = "rq_write_index ?q" and ?r = "rq_read_index ?q" and ?c = "rq_cached_write_index ?q"
  have ne: "?c - ?r \<noteq> 0" and live: "spsc_live s \<noteq> []" "x = hd (spsc_live s)"
    using inv pc by (simp_all add: spsc_inv_defs)
  have n: "length (spsc_live s) = unat (?w - ?r)" and hist: "sp_pushed s = sp_popped s @ spsc_live s"
    using inv by (simp_all add: spsc_inv_def)
  have w: "?w - ?r \<noteq> 0" using live(1) n by auto
  have shrink: "unat (?w - (?r + 1)) = unat (?w - ?r) - 1" "unat (?c - (?r + 1)) = unat (?c - ?r) - 1"
    using unat_pred [OF w] unat_pred [OF ne] by (simp_all add: algebra_simps)
  have live': "spsc_live ?s' = tl (spsc_live s)"
    using live(1) by (simp add: spsc_live_def drop_Suc tl_drop)
  have "slots_inv cap ?s'"
  proof (rule slots_invI)
    fix i
    assume "taken (sp_consumer ?s') \<le> i" "i < length (spsc_live ?s')"
    then have "Suc i < length (spsc_live s)" by (simp add: live')
    moreover have "rq_read_index (sp_ring ?s') + of_nat i = ?r + of_nat (Suc i)" by simp
    ultimately show "rq_buffer (sp_ring ?s') ! slot cap (rq_read_index (sp_ring ?s') + of_nat i) = spsc_live ?s' ! i"
      using inv_slot [OF inv, of "Suc i"] pc by (simp add: taken_def live' nth_tl add.assoc)
  qed
  moreover have "ring_inv cap (sp_ring ?s')"
    using inv shrink by (auto simp: spsc_inv_def ring_inv_def intro: diff_le_mono)
  moreover have "producer_inv cap ?s'"
    using inv by (auto simp: spsc_inv_def producer_inv_def Let_def split: producer.splits)
  moreover have "sp_pushed ?s' = sp_popped ?s' @ spsc_live ?s'" unfolding live' using hist live by simp
  moreover have "consumer_inv ?s'" by (simp add: consumer_inv_def)
  moreover have "length (spsc_live ?s') = unat (rq_write_index (sp_ring ?s') - rq_read_index (sp_ring ?s'))"
    unfolding live' using n shrink by simp
  ultimately show ?thesis unfolding spsc_inv_def by blast
qed

lemma inv_push_refresh:
  assumes "spsc_inv cap s" and "stale_read v (sp_ring s)"
  shows "spsc_inv cap (s\<lparr>sp_ring := (sp_ring s)\<lparr>rq_cached_read_index := v\<rparr>,
      sp_producer := if rq_write_index (sp_ring s) - v \<ge> cap then P_idle else P_write x\<rparr>)"
  using assms by (auto simp: spsc_inv_defs ring_inv_def stale_read_def word_le_nat_alt split: consumer.splits)

lemma inv_pop_refresh:
  assumes "spsc_inv cap s" and "stale_write v (sp_ring s)" and "sp_consumer s = C_refresh"
  shows "spsc_inv cap (s\<lparr>sp_ring := (sp_ring s)\<lparr>rq_cached_write_index := v\<rparr>,
      sp_consumer := if rq_read_index (sp_ring s) = v then C_idle else C_read\<rparr>)"
  using assms by (auto simp: spsc_inv_defs ring_inv_def stale_write_def taken_def split: producer.splits)

lemma spsc_step_inv:
  assumes "capacity_ok cap" and "spsc_step cap moved s s'" and "spsc_inv cap s"
  shows "spsc_inv cap s'"
  using assms(2,3)
proof cases
  case (push_call x)
  with assms(3) show ?thesis by (auto simp: spsc_inv_defs split: consumer.splits)
next
  case (push_check x)
  with assms(3) show ?thesis by (auto simp: spsc_inv_defs word_le_nat_alt split: consumer.splits)
next
  case pop_call
  with assms(3) show ?thesis by (auto simp: spsc_inv_defs taken_def split: producer.splits)
next
  case pop_check
  with assms(3) show ?thesis by (auto simp: spsc_inv_defs taken_def split: producer.splits)
next
  case (push_refresh x v)
  show ?thesis unfolding push_refresh(1) using assms(3) push_refresh(3) by (rule inv_push_refresh)
next
  case (push_write x)
  show ?thesis unfolding push_write(1) using assms(1,3) push_write(2) by (rule inv_push_write)
next
  case (push_publish x)
  show ?thesis unfolding push_publish(1) using assms(1,3) push_publish(2) by (rule inv_push_publish)
next
  case (pop_refresh v)
  show ?thesis unfolding pop_refresh(1) using assms(3) pop_refresh(3,2) by (rule inv_pop_refresh)
next
  case (pop_read i out)
  show ?thesis unfolding pop_read(1,3) using assms(1,3) pop_read(2,4) unfolding pop_read(3) by (rule inv_pop_read)
next
  case (pop_publish x)
  show ?thesis unfolding pop_publish(1) using assms(3) pop_publish(2) by (rule inv_pop_publish)
qed

lemma spsc_reachable_inv:
  assumes "capacity_ok cap" and "spsc_reachable cap moved dflt s"
  shows "spsc_inv cap s"
  using assms(2) by (induction rule: spsc_reachable.induct) (auto intro: spsc_inv_init spsc_step_inv [OF assms(1)])

section \<open>Properties of the queue\<close>

text \<open>
  Claim C18. Used from one thread at a time, the ring is a FIFO of the given capacity from any
  valid state, indices about to wrap around included: over any sequence of pushes and pops, what was
  in the queue followed by the accepted pushes is what was popped followed by what is left, and never
  more than \<open>Capacity\<close> elements are held.
\<close>

theorem ring_fifo:
  assumes "capacity_ok cap" and "ring_inv cap q"
    and "queue_run (try_push cap) (try_pop cap moved) ops q = (ins, outs, q')"
  shows "ring_contents cap q @ ins = outs @ ring_contents cap q' \<and> length (ring_contents cap q') \<le> unat cap"
  using spsc_ring.ring_run_fifo [OF spsc_ring.intro [OF assms(1)] assms(2,3)] ring_contents_bound by blast

definition wrapping_ring :: "nat ring" where
  "wrapping_ring = \<lparr>rq_buffer = [0, 0, 0, 7], rq_write_index = 0, rq_cached_read_index = - 1,
     rq_read_index = - 1, rq_cached_write_index = - 1\<rparr>"

theorem ring_fifo_witness:
  "ring_contents 4 wrapping_ring = [7] \<and> fst (snd (queue_run (try_push 4) (try_pop 4 id)
     [Push 8, Pop, Pop, Pop, Push 9] wrapping_ring)) = [7, 8] \<and>
   ring_contents 4 wrapping_ring @ [8, 9] = [7, 8] @ ring_contents 4
     (snd (snd (queue_run (try_push 4) (try_pop 4 id) [Push 8, Pop, Pop, Pop, Push 9] wrapping_ring)))"
proof -
  have "capacity_ok 4" by code_simp
  moreover have "ring_inv 4 wrapping_ring" by (simp add: ring_inv_def wrapping_ring_def)
  moreover have run: "fst (queue_run (try_push 4) (try_pop 4 id) [Push 8, Pop, Pop, Pop, Push 9] wrapping_ring) = [8, 9]"
      "fst (snd (queue_run (try_push 4) (try_pop 4 id) [Push 8, Pop, Pop, Pop, Push 9] wrapping_ring)) = [7, 8]"
    by code_simp+
  moreover have "ring_contents 4 wrapping_ring = [7]" by code_simp
  ultimately show ?thesis using ring_fifo [of 4 wrapping_ring id] by (metis prod.collapse)
qed

text \<open>
  \<open>try_push\<close> is refused exactly on a full queue and \<open>try_pop\<close> exactly on an empty one,
  the cached indices notwithstanding, and the queries \<open>empty()\<close> and \<open>full()\<close> agree with them.
\<close>

theorem ring_refusals_exact:
  assumes "capacity_ok cap" and "ring_inv cap q"
  shows "fst (try_push cap x q) = (length (ring_contents cap q) < unat cap) \<and>
    (fst (try_pop cap moved q) = None \<longleftrightarrow> ring_contents cap q = []) \<and>
    (ring_empty q \<longleftrightarrow> ring_contents cap q = []) \<and>
    (ring_full cap q \<longleftrightarrow> length (ring_contents cap q) = unat cap)"
proof -
  have "fst (try_push cap x q) = (length (ring_contents cap q) < unat cap)"
    using spsc_ring.ring_push_refused_iff [OF spsc_ring.intro [OF assms(1)] assms(2)] .
  moreover have "fst (try_pop cap moved q) = None \<longleftrightarrow> ring_contents cap q = []"
    using spsc_ring.ring_pop_refused_iff [OF spsc_ring.intro [OF assms(1)] assms(2)] .
  moreover have "ring_empty q \<longleftrightarrow> ring_contents cap q = []"
    by (simp add: ring_empty_def ring_contents_def unat_eq_0)
  moreover have "ring_full cap q \<longleftrightarrow> length (ring_contents cap q) = unat cap"
    using ring_contents_bound [OF assms(2)] by (auto simp: ring_full_def word_le_nat_alt)
  ultimately show ?thesis by blast
qed

theorem ring_refusals_exact_witness:
  "fst (try_push 4 5 wrapping_ring) = True"
proof -
  have "capacity_ok 4" by code_simp
  moreover have "ring_inv 4 wrapping_ring" by (simp add: ring_inv_def wrapping_ring_def)
  moreover have "length (ring_contents 4 wrapping_ring) < unat (4 :: u64)" by code_simp
  ultimately show ?thesis using ring_refusals_exact [of 4 wrapping_ring 5 id] by blast
qed

text \<open>
  Claim C16. Under every interleaving of one producer and one consumer, with index loads that may
  lag behind, the consumer receives a prefix of what the producer published, in order, each element
  exactly once, and at most \<open>Capacity\<close> elements are outstanding.
\<close>

theorem spsc_concurrent_fifo:
  assumes "capacity_ok cap" and "spsc_reachable cap moved dflt s"
  shows "\<exists>outstanding. sp_pushed s = sp_popped s @ outstanding \<and> length outstanding \<le> unat cap"
  using spsc_reachable_inv [OF assms] by (auto simp: spsc_inv_def ring_inv_def)

theorem spsc_concurrent_fifo_witness:
  "\<exists>outstanding. sp_pushed (spsc_init 4 (0 :: nat)) = sp_popped (spsc_init 4 0) @ outstanding \<and>
     length outstanding \<le> unat (4 :: u64)"
  by (rule spsc_concurrent_fifo [OF _ spsc_reachable.init [of 4 id 0]]) code_simp

text \<open>
  Claim C17. The slots are free of data races: whenever the producer is about to write a slot, or has
  written it and not yet published it, the slot lies outside every published element, so it is not
  the slot the consumer reads.
\<close>

theorem spsc_race_free:
  assumes "capacity_ok cap" and "spsc_reachable cap moved dflt s"
    and "sp_producer s = P_write x \<or> sp_producer s = P_publish x"
    and "sp_consumer s = C_read \<or> sp_consumer s = C_publish y"
  shows "slot cap (rq_write_index (sp_ring s)) \<noteq> slot cap (rq_read_index (sp_ring s))"
proof -
  note inv = spsc_reachable_inv [OF assms(1,2)]
  have room: "unat (rq_write_index (sp_ring s) - rq_cached_read_index (sp_ring s)) < unat cap"
    using inv assms(3) by (auto simp: spsc_inv_defs)
  have "rq_cached_write_index (sp_ring s) \<noteq> rq_read_index (sp_ring s)"
    using inv assms(4) by (auto simp: spsc_inv_defs)
  then have "0 < length (spsc_live s)" by (rule inv_live_pos [OF inv])
  from write_slot_free [OF assms(1) inv room this] show ?thesis by simp
qed

definition example_state :: "nat list \<Rightarrow> u64 \<Rightarrow> u64 \<Rightarrow> nat producer \<Rightarrow> nat consumer \<Rightarrow> nat list \<Rightarrow> nat spsc" where
  "example_state buf w cw p c ins =
     \<lparr>sp_ring = \<lparr>rq_buffer = buf, rq_write_index = w, rq_cached_read_index = 0, rq_read_index = 0,
        rq_cached_write_index = cw\<rparr>, sp_producer = p, sp_consumer = c, sp_pushed = ins, sp_popped = []\<rparr>"

lemma example_state_reachable:
  "spsc_reachable 2 id 0 (example_state [5, 0] 1 1 (P_write 6) C_read [5])"
proof -
  note next_state = spsc_reachable.step [where cap = 2 and moved = id and dflt = 0]
  have "spsc_reachable 2 id 0 (example_state [0, 0] 0 0 P_idle C_idle [])"
  proof -
    have "example_state [0, 0] 0 0 P_idle C_idle [] = spsc_init 2 0" by code_simp
    then show ?thesis by (simp add: spsc_reachable.init)
  qed
  from next_state [OF this spsc_step.push_call [of _ _ _ 5]]
  have "spsc_reachable 2 id 0 (example_state [0, 0] 0 0 (P_check 5) C_idle [])"
    by (simp add: example_state_def)
  from next_state [OF this spsc_step.push_check [of _ 5]]
  have "spsc_reachable 2 id 0 (example_state [0, 0] 0 0 (P_write 5) C_idle [])"
    by (simp add: example_state_def)
  from next_state [OF this spsc_step.push_write [of _ 5]]
  have "spsc_reachable 2 id 0 (example_state [5, 0] 0 0 (P_publish 5) C_idle [])"
    by (simp add: example_state_def slot_def)
  from next_state [OF this spsc_step.push_publish [of _ 5]]
  have "spsc_reachable 2 id 0 (example_state [5, 0] 1 0 P_idle C_idle [5])"
    by (simp add: example_state_def)
  from next_state [OF this spsc_step.push_call [of _ _ _ 6]]
  have "spsc_reachable 2 id 0 (example_state [5, 0] 1 0 (P_check 6) C_idle [5])"
    by (simp add: example_state_def)
  from next_state [OF this spsc_step.push_check [of _ 6]]
  have "spsc_reachable 2 id 0 (example_state [5, 0] 1 0 (P_write 6) C_idle [5])"
    by (simp add: example_state_def word_le_nat_alt)
  from next_state [OF this spsc_step.pop_call]
  have "spsc_reachable 2 id 0 (example_state [5, 0] 1 0 (P_write 6) C_check [5])"
    by (simp add: example_state_def)
  from next_state [OF this spsc_step.pop_check]
  have "spsc_reachable 2 id 0 (example_state [5, 0] 1 0 (P_write 6) C_refresh [5])"
    by (simp add: example_state_def)
  from next_state [OF this spsc_step.pop_refresh [of _ 1]]
  show ?thesis by (simp add: example_state_def stale_write_def)
qed

theorem spsc_race_free_witness: "slot 2 1 \<noteq> slot 2 0"
proof -
  have "capacity_ok 2" by code_simp
  from spsc_race_free [OF this example_state_reachable, of 6 0]
  show ?thesis by (simp add: example_state_def)
qed

end
