(* ===== verification/Spec2Isabelle.thy ===== *)
theory Spec2Isabelle
  imports Console Fair_Log Reference_Agreement Spsc_Concurrency
begin

text \<open>
  Verification of the low-latency exchange: a limit-order-book matching engine behind a binary TCP
  gateway, with market data, an event log and a benchmark. The root theory collects the components.

  \<^bold>\<open>The program.\<close> Client sessions (\<open>TcpSession\<close>, \<open>TcpGateway\<close>) read frames, validate and decode them and
  push commands into the inbound queue. \<open>MatchingEngineService\<close> takes them one by one, applies them to
  the \<open>OrderBook\<close>, answers through the outbound queue, publishes the top of the book into the
  market-data queue and captures accepted commands in the capture queue. The gateway polls the outbound
  queue and sends each event to the session it is addressed to, a publisher applies market data to a
  subscriber's book, a recorder appends captured commands to the log, and the replay tool rebuilds the
  book from a log. All four queues are instances of the ring \<open>BoundedSPSCQueue\<close> with one producer and one
  consumer.

  \<^bold>\<open>Conventions\<close> (\<open>Exchange_Prelude\<close>). Machine integers are words of their width, so arithmetic wraps as
  in C++; \<open>size_t\<close> has 64 bits. A result of type \<open>'a ub\<close> is \<open>None\<close> where the C++ code would have undefined
  behaviour (an empty optional dereferenced, an invalid iterator, an index out of range) or would never
  return (a loop written with \<open>partial_function (option)\<close>); every totality theorem says that the result is
  \<open>Some\<close>. Errors of the program are values of its own enumerations. No fuel is used anywhere.

  \<^bold>\<open>Theories and sources\<close> (under \<open>include/low_latency_exchange/\<close>, \<open>src/\<close> and \<open>apps/\<close>).
  \<^item> \<open>Exchange_Types\<close>: \<open>types.hpp\<close>, \<open>order_command.hpp\<close>. The five value classes with their factories are
    interpretations of the locale \<open>value_class\<close>; \<open>validate\<close> of a new order.
  \<^item> \<open>Std_Containers\<close>: \<open>std::map\<close> and \<open>std::unordered_map\<close> as far as the sources use them, with the
    locales \<open>assoc_container\<close> and \<open>comparator\<close>.
  \<^item> \<open>Order_Book\<close>: \<open>order_book.hpp\<close>, \<open>order_book.cpp\<close>. The nodes of the \<open>std::list\<close>s live in an explicit
    store, so that the iterators kept in \<open>resting_orders_\<close> are addresses that can dangle. Every mutating
    operation, query, the self-check and the digest.
  \<^item> \<open>Price_Time_Spec\<close>, \<open>Order_Book_Invariant\<close>, \<open>Order_Book_Refinement\<close>, \<open>Simulation\<close>,
    \<open>Order_Book_Reachable\<close>, \<open>Order_Book_Properties\<close>: the specification (two priority lists and the
    set of seen identifiers), the invariant, the refinement and what follows on every reachable book:
    the book is never crossed, quantity is conserved, price-time priority, the two kinds of replacement,
    identifiers are never reused, submit and cancel are inverse, the self-check is exact, and so are the
    depth queries, up to the aggregates of levels that wrap around.
  \<^item> \<open>Reference_Book\<close>, \<open>Reference_Agreement\<close>: the naive order book of \<open>tests/reference_order_book.hpp\<close>, one
    vector searched from end to end. Its abstraction is a stable sort by price; on commands whose sequence
    numbers do not decrease it gives the same answers and shows the same book as \<open>OrderBook\<close>, and an
    example shows that the condition is needed.
  \<^item> \<open>Spsc_Queue\<close>, \<open>Spsc_Concurrency\<close>: \<open>spsc_queue.hpp\<close>. The sequential ring implements \<open>bounded_fifo\<close>
    from every valid state, wrapped indices included; the concurrent ring interleaves the atomic loads
    and stores of both threads, where a load of the other side's index may return an older value, and
    is shown to be first-in first-out and free of races on slots.
  \<^item> \<open>Wire_Bytes\<close>, \<open>Protocol\<close>, \<open>Protocol_Codec\<close>: \<open>protocol.hpp\<close>, \<open>protocol.cpp\<close>. Each codec interprets
    the locale \<open>codec\<close> or \<open>canonical_codec\<close> (round trip, refusal of short buffers, totality on bytes).
  \<^item> \<open>Event_Log\<close>: \<open>event_log.hpp\<close>, \<open>event_log.cpp\<close>. Capture, record format and checksum, writer over a
    buffered stream and a device with limited space, reader and replay: total on every file, exact on
    truncated logs, and every damaged payload byte is detected.
  \<^item> \<open>Market_Data\<close>, \<open>Market_Data_Properties\<close>: \<open>market_data.hpp\<close>, \<open>market_data.cpp\<close>. The feed over the
    lossy queue with a subscriber, as a step relation: the subscriber never meets a gap, and draining
    brings it to the published top of the book.
  \<^item> \<open>Observability\<close>: \<open>observability.hpp\<close>. Histogram, snapshot and percentile: counts and extremes are exact; the
    percentile is the lower end of a bucket, where its comment says upper bound.
  \<^item> \<open>Matching_Engine\<close>, \<open>Engine_Outbound\<close>, \<open>Engine_Spec\<close>, \<open>Engine_Properties\<close>: \<open>MatchingEngineService\<close>
    of \<open>tcp_gateway.cpp\<close> with metrics, ownership of resting orders, capture and market data. Each
    command has exactly the effect that the specification states; batches end; a full outbound queue
    without a consumer blocks.
  \<^item> \<open>Gateway\<close>, \<open>Gateway_Properties\<close>, \<open>Gateway_Guarantees\<close>, \<open>Engine_Events\<close>: \<open>TcpSession\<close> and \<open>TcpGateway\<close>.
    The step relation \<open>gw_step\<close> completes pending operations in any order, with or without error.
    Handlers are total, only valid commands in increasing sequence per session reach the engine, a
    violation ends the input, writes complete in order, and every event the engine sends is a frame
    that decodes to it.
  \<^item> \<open>Exchange_System\<close>: a request through gateway, engine and poll; the engine with its recorder, whose
    complete log replays to the engine's book.
  \<^item> \<open>Benchmark\<close>, \<open>Command_Line\<close>, \<open>Applications\<close>, \<open>Loopback\<close>: \<open>benchmark.hpp\<close>, \<open>benchmark.cpp\<close>, the programs under
    \<open>apps/\<close>. Workloads are valid, the harness accounts for every command, the client's frames are
    accepted, the client's wait and whole run end with the answers, and both modes of the benchmark agree.
  \<^item> \<open>Exchange_Run\<close>, \<open>Exchange_Guarantees\<close>, \<open>Published_Book\<close>: \<open>run_gateway\<close> of \<open>apps/low_latency_exchange/main.cpp\<close>,
    the composition of all parts. \<open>start_exchange\<close> constructs and wires them, \<open>exchange_step\<close> interleaves
    the network thread, the engine, the publisher, the recorder and the signal over the shared rings.
    The exchange is linearizable to the sequential specification,
    every session is sent exactly its events, pending work can always be completed, and the published
    book is always a true book.
  \<^item> \<open>Shutdown\<close>: the rest of \<open>run_gateway\<close> after \<open>io_context::run\<close>, with the joins of the threads.
    \<open>finish_exchange\<close> returns if the engine can finish its last batch and does not if that batch meets a
    full outbound queue; an exit status 0 means a complete log.
  \<^item> \<open>Fair_Exchange\<close>, \<open>Fair_Log\<close>: infinite runs of the exchange in which the engine's thread, the poll of the outbound
    queue and the writes of a session are weakly fair. The locale \<open>fair_worker\<close> says once why a worker that
    stays able to move and moves on catches up; it is interpreted on the engine, on the poll, on the
    writes and on the recorder. Every command is then processed, its frames reach the sockets of the
    sessions that stay connected, and if it is accepted its record is written to the log's stream; what
    has reached the file can be replayed at any moment; and from every serving state there is a fair run.
  \<^item> \<open>Console\<close>: \<open>version.cpp\<close> and what the three programs print, with their exit status. Errors are reported
    on the error stream exactly when the status is not 0, and the printed configuration of a benchmark
    selects the same workload again.

  \<^bold>\<open>The environment.\<close> Code outside the repository enters as parameters or as steps.
  \<^item> Boost.Asio: a session has at most one pending read and one pending write, an accept and a timer can
    be pending; completions arrive in any order with any bytes of the requested length or an error. Sessions
    live in a store \<open>gw_objects\<close> that keeps the objects alive which pending operations refer to; ghost
    fields record what was sent and what was written. Fewer than \<open>2 ^ 64 - 1\<close> connections are accepted.
  \<^item> The consumer of the outbound queue while the engine spins in \<open>push_outbound\<close> is the schedule
    \<open>en_turns\<close>: how many messages are taken before each attempt. \<open>None\<close> of the loop means that the consumer
    is never scheduled again.
  \<^item> The log's \<open>std::ofstream\<close> has a buffer that passes bytes on to the file whenever it likes: \<open>lw_spills\<close>
    is the schedule of that, and every step of the recorder has its own. A flush passes everything on.
    The device takes bytes until its space is used up. The scheduling of a shutdown is the record
    \<open>shutdown\<close>.
  \<^item> Clock readings, the floating-point rank of a percentile and the floating-point throughput are
    parameters; no property depends on their values beyond the hypotheses that state it.

  \<^item> Threads interleave at the operations they share: one completion of the gateway, one command of the
    engine, one event or record taken. That this grain is fine enough rests on the concurrent ring of
    \<open>Spsc_Concurrency\<close>, each queue having one producer and one consumer. A step of the engine is one whose
    events get through and after which no price level holds \<open>2 ^ 64\<close> units or more (\<open>ready\<close>); otherwise
    \<open>push_outbound\<close> does not return or the published aggregate has wrapped. The claims about the running
    exchange and about market data are claims about runs of that kind, and say so.

  \<^bold>\<open>Not modelled.\<close> Boost.Asio itself, the sleeping of idle threads, the interval of the poll timer, the
  formatting of floating-point numbers, iteration order and hashing of \<open>std::unordered_map\<close>, memory
  exhaustion (\<open>std::bad_alloc\<close>), the two threads of the gateway benchmark (its server is gateway and engine
  serving one request after the other), the tests other than the reference book, and build files.
\<close>

end
